(* ===== verification/Forge_Prelude.thy ===== *)
theory Forge_Prelude
  imports Main "HOL-Library.Word" "HOL-Library.Product_Lexorder" "HOL-Library.Sublist"
begin

text \<open>
  What every component of the development shares: the machine types of the Rust sources, the
  standard-library operations they use on integers, strings and slices, and the generic lemmas
  about them.

  A Rust \<open>String\<close> is its UTF-8 bytes, so it is an Isabelle \<^typ>\<open>string\<close> (a list of 8-bit
  characters) and \<open>len()\<close> is \<^const>\<open>length\<close>. The unsigned integers \<open>u16\<close>, \<open>u32\<close> and
  \<open>u64\<close> stored in records are words of that width; \<open>usize\<close> (lengths and indices, bounded
  by memory) is \<^typ>\<open>nat\<close>; \<open>isize\<close> and \<open>i64\<close> are \<^typ>\<open>int\<close> with their bounds written out
  where the code checks them.
\<close>

named_theorems forge_defs
named_theorems str_lemmas

type_synonym u8 = "8 word"
type_synonym u16 = "16 word"
type_synonym u32 = "32 word"
type_synonym u64 = "64 word"
type_synonym uuid = "128 word"

section \<open>Integers\<close>

definition saturating_add :: "'w::len word \<Rightarrow> 'w word \<Rightarrow> 'w word" where
  "saturating_add a b = (if unat a + unat b < 2 ^ LENGTH('w) then a + b else -1)"

definition saturating_sub :: "'w::len word \<Rightarrow> 'w word \<Rightarrow> 'w word" where
  "saturating_sub a b = (if b \<le> a then a - b else 0)"

definition as_usize :: "int \<Rightarrow> nat" where
  "as_usize i = nat (i mod 2 ^ 64)"

definition as_i64 :: "u64 \<Rightarrow> int" where
  "as_i64 w = sint w"

definition i64_min :: int where "i64_min = - (2 ^ 63)"
definition i64_max :: int where "i64_max = 2 ^ 63 - 1"

definition in_i64 :: "int \<Rightarrow> bool" where
  "in_i64 i \<longleftrightarrow> i64_min \<le> i \<and> i \<le> i64_max"

definition i64_checked_add :: "int \<Rightarrow> int \<Rightarrow> int option" where
  "i64_checked_add a b = (if in_i64 (a + b) then Some (a + b) else None)"

definition i64_checked_sub :: "int \<Rightarrow> int \<Rightarrow> int option" where
  "i64_checked_sub a b = (if in_i64 (a - b) then Some (a - b) else None)"

definition usize_max :: nat where "usize_max = 2 ^ 64 - 1"

lemma saturating_add_ge: "a \<le> saturating_add a b"
proof (cases "unat a + unat b < 2 ^ LENGTH('a)")
  case True
  then have "unat (a + b) = unat a + unat b"
    by (simp add: unat_word_ariths)
  with True show ?thesis by (simp add: saturating_add_def word_le_nat_alt)
next
  case False
  then show ?thesis by (simp add: saturating_add_def)
qed

lemma saturating_add_one:
  fixes a :: "'w::len word"
  assumes ne: "a \<noteq> - 1"
  shows "saturating_add a 1 = a + 1" and "unat (a + 1) = unat a + 1"
proof -
  have one: "unat (1 :: 'w word) = 1" by simp
  have "a < - 1" using ne by (simp add: word_order.not_eq_extremum)
  then have "unat a < unat (- 1 :: 'w word)" by (simp add: word_less_nat_alt)
  moreover have "unat (- 1 :: 'w word) < 2 ^ LENGTH('w)" by (rule unsigned_less)
  ultimately have fits: "unat a + unat (1 :: 'w word) < 2 ^ LENGTH('w)" unfolding one by linarith
  then show "unat (a + 1) = unat a + 1" by (simp add: unat_word_ariths)
  from fits show "saturating_add a 1 = a + 1" by (simp add: saturating_add_def)
qed

lemma saturating_add_one_strict: "a \<noteq> - 1 \<Longrightarrow> a < saturating_add a 1" for a :: "'w::len word"
  by (simp add: saturating_add_one word_less_nat_alt)

lemma as_usize_of_nat [simp]: "n < 2 ^ 64 \<Longrightarrow> as_usize (int n) = n"
  by (simp add: as_usize_def)

lemma as_usize_id: "0 \<le> i \<Longrightarrow> i < 2 ^ 64 \<Longrightarrow> as_usize i = nat i"
  by (simp add: as_usize_def)

section \<open>Decimal numerals, as \<open>format!\<close> prints them\<close>

definition digit_char :: "nat \<Rightarrow> char" where
  "digit_char d = char_of (48 + d)"

fun show_nat :: "nat \<Rightarrow> string" where
  "show_nat n = (if n < 10 then [digit_char n] else show_nat (n div 10) @ [digit_char (n mod 10)])"

declare show_nat.simps [simp del]

lemma show_nat_nonempty [simp]: "show_nat n \<noteq> []"
  by (subst show_nat.simps) simp

section \<open>UTF-8 byte strings\<close>

abbreviation byte_of :: "char \<Rightarrow> nat" where
  "byte_of c \<equiv> of_char c"

definition is_cont :: "char \<Rightarrow> bool" where
  "is_cont c \<longleftrightarrow> 128 \<le> byte_of c \<and> byte_of c < 192"

text \<open>\<open>str::is_char_boundary\<close>.\<close>

definition is_char_boundary :: "string \<Rightarrow> nat \<Rightarrow> bool" where
  "is_char_boundary s i \<longleftrightarrow> i = 0 \<or> i = length s \<or> (i < length s \<and> \<not> is_cont (s ! i))"

text \<open>
  \<open>std::str::from_utf8\<close> accepts exactly the well-formed sequences of the Unicode standard: no
  overlong forms, no surrogates, nothing above U+10FFFF.
\<close>

fun utf8_valid :: "string \<Rightarrow> bool" where
  "utf8_valid [] = True"
| "utf8_valid (a # s) =
    (let x = byte_of a in
     if x < 128 then utf8_valid s
     else if 194 \<le> x \<and> x \<le> 223 then
       (case s of b # s' \<Rightarrow> is_cont b \<and> utf8_valid s' | _ \<Rightarrow> False)
     else if 224 \<le> x \<and> x \<le> 239 then
       (case s of b # c # s' \<Rightarrow> is_cont b \<and> is_cont c
          \<and> (x = 224 \<longrightarrow> 160 \<le> byte_of b) \<and> (x = 237 \<longrightarrow> byte_of b < 160) \<and> utf8_valid s'
        | _ \<Rightarrow> False)
     else if 240 \<le> x \<and> x \<le> 244 then
       (case s of b # c # d # s' \<Rightarrow> is_cont b \<and> is_cont c \<and> is_cont d
          \<and> (x = 240 \<longrightarrow> 144 \<le> byte_of b) \<and> (x = 244 \<longrightarrow> byte_of b < 144) \<and> utf8_valid s'
        | _ \<Rightarrow> False)
     else False)"

definition lead_ok :: "string \<Rightarrow> bool" where
  "lead_ok s \<longleftrightarrow> s = [] \<or> \<not> is_cont (hd s)"

lemma utf8_valid_lead: "utf8_valid s \<Longrightarrow> lead_ok s"
  by (cases s) (auto simp: lead_ok_def is_cont_def Let_def split: if_splits)

lemma char_boundary_0 [simp]: "is_char_boundary s 0"
  by (simp add: is_char_boundary_def)

lemma char_boundary_length [simp]: "is_char_boundary s (length s)"
  by (simp add: is_char_boundary_def)

lemma char_boundary_le: "is_char_boundary s i \<Longrightarrow> i \<le> length s"
  by (auto simp: is_char_boundary_def)

lemma char_boundary_drop: "is_char_boundary s i \<Longrightarrow> i \<noteq> 0 \<Longrightarrow> lead_ok (drop i s)"
  by (auto simp: is_char_boundary_def lead_ok_def hd_drop_conv_nth)

lemma lead_ok_drop: "lead_ok s \<Longrightarrow> is_char_boundary s i \<Longrightarrow> lead_ok (drop i s)"
  using char_boundary_drop by (cases i) (auto simp: lead_ok_def)

lemma char_boundary_iff:
  "i \<le> length s \<Longrightarrow> is_char_boundary s i \<longleftrightarrow> i = 0 \<or> lead_ok (drop i s)"
  by (auto simp: is_char_boundary_def lead_ok_def hd_drop_conv_nth)

lemma char_boundary_append:
  assumes "i \<le> length a"
  shows "is_char_boundary (a @ b) i \<longleftrightarrow>
    (if i < length a then is_char_boundary a i else i = 0 \<or> lead_ok b)"
  using assms by (auto simp: is_char_boundary_def nth_append lead_ok_def hd_conv_nth)

lemma char_boundary_append_right:
  assumes "a \<noteq> []"
  shows "is_char_boundary (a @ b) (length a + j) \<longleftrightarrow>
    (if j = 0 then lead_ok b else is_char_boundary b j)"
  using assms by (auto simp: is_char_boundary_def nth_append lead_ok_def hd_conv_nth)

text \<open>One encoded scalar value, and validity as a sequence of them.\<close>

definition utf8_char :: "string \<Rightarrow> bool" where
  "utf8_char c \<longleftrightarrow> (\<exists>a t. c = a # t \<and> utf8_valid c \<and> list_all is_cont t)"

lemma utf8_char_props:
  "utf8_char c \<Longrightarrow> c \<noteq> [] \<and> \<not> is_cont (hd c) \<and> list_all is_cont (tl c) \<and> utf8_valid c"
  by (auto simp: utf8_char_def dest: utf8_valid_lead simp: lead_ok_def)

lemma utf8_cont_head: "is_cont a \<Longrightarrow> \<not> utf8_valid (a # s)"
  by (auto simp: is_cont_def Let_def split: if_splits)

lemma utf8_uncons:
  assumes "utf8_valid (a # s)"
  obtains t s' where "s = t @ s'" "utf8_char (a # t)" "utf8_valid s'"
    "\<And>r. utf8_valid (a # t @ r) = utf8_valid r"
proof -
  let ?x = "byte_of a"
  consider (one) "?x < 128" | (two) "194 \<le> ?x" "?x \<le> 223" | (three) "224 \<le> ?x" "?x \<le> 239"
    | (four) "240 \<le> ?x" "?x \<le> 244"
    using assms by (auto simp: Let_def split: if_splits)
  then show ?thesis
  proof cases
    case one
    then show ?thesis using assms that [of "[]" s] by (simp add: utf8_char_def Let_def)
  next
    case two
    then obtain b s' where s: "s = b # s'" "is_cont b" "utf8_valid s'"
      using assms by (auto simp: Let_def split: list.splits)
    then show ?thesis using two that [of "[b]" s'] by (simp add: utf8_char_def Let_def)
  next
    case three
    then obtain b c s' where s: "s = b # c # s'" "is_cont b" "is_cont c" "utf8_valid s'"
        "?x = 224 \<longrightarrow> 160 \<le> byte_of b" "?x = 237 \<longrightarrow> byte_of b < 160"
      using assms by (auto simp: Let_def split: list.splits)
    then show ?thesis using three that [of "[b, c]" s'] by (simp add: utf8_char_def Let_def)
  next
    case four
    then obtain b c d s' where s: "s = b # c # d # s'" "is_cont b" "is_cont c" "is_cont d"
        "utf8_valid s'" "?x = 240 \<longrightarrow> 144 \<le> byte_of b" "?x = 244 \<longrightarrow> byte_of b < 144"
      using assms by (auto simp: Let_def split: list.splits)
    then show ?thesis using four that [of "[b, c, d]" s'] by (simp add: utf8_char_def Let_def)
  qed
qed

declare utf8_valid.simps(2) [simp del]

lemma utf8_induct [consumes 1, case_names Nil Char]:
  assumes "utf8_valid s" and "P []"
    and step: "\<And>a t s'. utf8_char (a # t) \<Longrightarrow> utf8_valid s' \<Longrightarrow> P s'
      \<Longrightarrow> (\<And>r. utf8_valid (a # t @ r) = utf8_valid r) \<Longrightarrow> P (a # t @ s')"
  shows "P s"
  using assms(1)
proof (induction "length s" arbitrary: s rule: less_induct)
  case less
  show ?case
  proof (cases s)
    case Nil
    then show ?thesis using assms(2) by simp
  next
    case (Cons a u)
    with less.prems obtain t s' where u: "u = t @ s'" "utf8_char (a # t)" "utf8_valid s'"
        "\<And>r. utf8_valid (a # t @ r) = utf8_valid r"
      by (auto elim: utf8_uncons)
    then have "P s'" using less.hyps [of s'] Cons by simp
    then show ?thesis using u Cons step by simp
  qed
qed

lemma utf8_valid_append [str_lemmas]:
  assumes "utf8_valid a" and "utf8_valid b"
  shows "utf8_valid (a @ b)"
  using assms(1) by (induction a rule: utf8_induct) (simp_all add: assms(2))

lemma utf8_split:
  "utf8_valid s \<Longrightarrow> is_char_boundary s i \<Longrightarrow> utf8_valid (take i s) \<and> utf8_valid (drop i s)"
proof (induction s arbitrary: i rule: utf8_induct)
  case Nil
  then show ?case by simp
next
  case (Char a t s)
  show ?case
  proof (cases i)
    case 0
    with Char show ?thesis by simp
  next
    case (Suc j)
    have cont: "list_all is_cont t" using Char.hyps(1) by (simp add: utf8_char_def)
    from Char.prems Suc have j: "j = length (t @ s) \<or> (j < length (t @ s) \<and> \<not> is_cont ((t @ s) ! j))"
      by (auto simp: is_char_boundary_def)
    have "length t \<le> j"
      using j cont by (auto simp: nth_append list_all_length split: if_splits)
    then obtain k where k: "j = length t + k" by (auto simp: le_iff_add)
    have "is_char_boundary s k" using j k by (auto simp: is_char_boundary_def nth_append)
    then have "utf8_valid (take k s) \<and> utf8_valid (drop k s)" by (rule Char.IH)
    then show ?thesis using Suc k Char.hyps(3) by simp
  qed
qed

lemma utf8_take [str_lemmas]: "utf8_valid s \<Longrightarrow> is_char_boundary s i \<Longrightarrow> utf8_valid (take i s)"
  and utf8_drop [str_lemmas]: "utf8_valid s \<Longrightarrow> is_char_boundary s i \<Longrightarrow> utf8_valid (drop i s)"
  using utf8_split by auto

section \<open>Rounding an offset down to a character boundary\<close>

text \<open>The loop \<open>while !s.is_char_boundary(i) { i -= 1 }\<close>.\<close>

fun floor_boundary :: "string \<Rightarrow> nat \<Rightarrow> nat" where
  "floor_boundary s 0 = 0"
| "floor_boundary s (Suc i) = (if is_char_boundary s (Suc i) then Suc i else floor_boundary s i)"

lemma floor_boundary_is_boundary [simp, str_lemmas]: "is_char_boundary s (floor_boundary s i)"
  by (induction i) auto

lemma floor_boundary_le: "floor_boundary s i \<le> i"
  by (induction i) (auto intro: le_SucI)

lemma floor_boundary_id [simp]: "is_char_boundary s i \<Longrightarrow> floor_boundary s i = i"
  by (cases i) auto

lemma floor_boundary_greatest:
  "is_char_boundary s j \<Longrightarrow> j \<le> i \<Longrightarrow> j \<le> floor_boundary s i"
  by (induction i) (auto simp: le_Suc_eq)

lemma floor_boundary_mono: "i \<le> j \<Longrightarrow> floor_boundary s i \<le> floor_boundary s j"
  by (meson floor_boundary_greatest floor_boundary_is_boundary floor_boundary_le order_trans)

lemma floor_boundary_le_length: "floor_boundary s i \<le> length s"
  by (rule char_boundary_le) simp

section \<open>Splitting and trimming strings\<close>

text \<open>The characters with the Unicode property \<open>White_Space\<close>, UTF-8 encoded.\<close>

definition ws_seqs :: "string list" where
  "ws_seqs =
    map (\<lambda>b. [char_of b]) [9, 10, 11, 12, 13, 32 :: nat]
    @ [[CHR 0xC2, CHR 0x85], [CHR 0xC2, CHR 0xA0], [CHR 0xE1, CHR 0x9A, CHR 0x80]]
    @ map (\<lambda>b. [CHR 0xE2, CHR 0x80, char_of b])
        [128, 129, 130, 131, 132, 133, 134, 135, 136, 137, 138, 168, 169, 175 :: nat]
    @ [[CHR 0xE2, CHR 0x81, CHR 0x9F], [CHR 0xE3, CHR 0x80, CHR 0x80]]"

lemma prefix_drop_shorter: "w \<noteq> [] \<Longrightarrow> prefix w s \<Longrightarrow> length (drop (length w) s) < length s"
  by (auto simp: prefix_def)

function strip_seqs :: "string list \<Rightarrow> string \<Rightarrow> string" where
  "strip_seqs ws s =
    (case find (\<lambda>w. w \<noteq> [] \<and> prefix w s) ws of
       None \<Rightarrow> s
     | Some w \<Rightarrow> strip_seqs ws (drop (length w) s))"
  by pat_completeness auto
termination
  by (relation "measure (\<lambda>(ws, s). length s)")
    (auto simp: find_Some_iff dest: prefix_drop_shorter)

declare strip_seqs.simps [simp del]

definition trim_start :: "string \<Rightarrow> string" where
  "trim_start s = strip_seqs ws_seqs s"

definition trim_end :: "string \<Rightarrow> string" where
  "trim_end s = rev (strip_seqs (map rev ws_seqs) (rev s))"

text \<open>\<open>str::trim\<close>.\<close>

definition trim :: "string \<Rightarrow> string" where
  "trim s = trim_end (trim_start s)"

text \<open>\<open>str::split(c)\<close> and \<open>str::split_once(c)\<close> for an ASCII character.\<close>

fun split_char :: "char \<Rightarrow> string \<Rightarrow> string list" where
  "split_char c [] = [[]]"
| "split_char c (x # xs) =
    (if x = c then [] # split_char c xs
     else (case split_char c xs of [] \<Rightarrow> [[x]] | y # ys \<Rightarrow> (x # y) # ys))"

fun split_once :: "char \<Rightarrow> string \<Rightarrow> (string \<times> string) option" where
  "split_once c [] = None"
| "split_once c (x # xs) =
    (if x = c then Some ([], xs)
     else map_option (\<lambda>(a, b). (x # a, b)) (split_once c xs))"

lemma strip_seqs_suffix: "suffix (strip_seqs ws s) s"
proof (induction ws s rule: strip_seqs.induct)
  case (1 ws s)
  show ?case
  proof (cases "find (\<lambda>w. w \<noteq> [] \<and> prefix w s) ws")
    case None
    then show ?thesis by (subst strip_seqs.simps) simp
  next
    case (Some w)
    have "suffix (strip_seqs ws (drop (length w) s)) (drop (length w) s)"
      using "1.IH" Some by blast
    then have "suffix (strip_seqs ws (drop (length w) s)) s"
      using suffix_drop suffix_order.trans by blast
    then show ?thesis using Some by (subst strip_seqs.simps) simp
  qed
qed

lemma split_once_Some_iff:
  "split_once c s = Some (a, b) \<longleftrightarrow> s = a @ c # b \<and> c \<notin> set a"
proof (induction s arbitrary: a)
  case Nil
  then show ?case by simp
next
  case (Cons x s)
  then show ?case by (cases a) (auto split: prod.splits)
qed

lemma split_once_None_iff: "split_once c s = None \<longleftrightarrow> c \<notin> set s"
  by (induction s) auto

section \<open>Slices\<close>

text \<open>\<open>[T]::partition_point\<close>; the sources call it on lists that the predicate partitions.\<close>

definition partition_point :: "('a \<Rightarrow> bool) \<Rightarrow> 'a list \<Rightarrow> nat" where
  "partition_point P xs = length (takeWhile P xs)"

definition position :: "('a \<Rightarrow> bool) \<Rightarrow> 'a list \<Rightarrow> nat option" where
  "position P xs =
    (let n = length (takeWhile (\<lambda>x. \<not> P x) xs) in if n < length xs then Some n else None)"

lemma partition_point_le: "partition_point P xs \<le> length xs"
  by (simp add: partition_point_def length_takeWhile_le)

lemma take_partition_point: "take (partition_point P xs) xs = takeWhile P xs"
  by (metis partition_point_def takeWhile_eq_take)

lemma drop_partition_point: "drop (partition_point P xs) xs = dropWhile P xs"
  by (metis partition_point_def dropWhile_eq_drop)

lemma position_Some:
  "position P xs = Some n \<Longrightarrow> n < length xs \<and> P (xs ! n) \<and> (\<forall>j < n. \<not> P (xs ! j))"
  by (auto simp: position_def Let_def split: if_splits
      dest: nth_length_takeWhile takeWhile_nth)
    (metis nth_mem set_takeWhileD takeWhile_nth)

lemma position_None: "position P xs = None \<longleftrightarrow> (\<forall>x \<in> set xs. \<not> P x)"
proof -
  have "length (takeWhile (\<lambda>x. \<not> P x) xs) = length xs \<longleftrightarrow> (\<forall>x \<in> set xs. \<not> P x)"
    by (metis takeWhile_eq_all_conv takeWhile_eq_take take_all_iff order_refl)
  then show ?thesis
    using length_takeWhile_le [of "\<lambda>x. \<not> P x" xs] by (auto simp: position_def Let_def)
qed

lemma position_less_length: "position P xs = Some n \<Longrightarrow> n < length xs"
  by (simp add: position_Some)

end
