(* ===== verification/Domain_Ids.thy ===== *)
theory Domain_Ids
  imports Forge_Prelude
begin

text \<open>
  The identifiers and timestamps of \<^verbatim>\<open>crates/domain/src/ids.rs\<close>. Every identifier is a newtype
  over a 128-bit UUID; generating a fresh one (\<open>Uuid::now_v7\<close>) and printing or parsing it are
  the \<open>uuid\<close> crate's and stay parameters wherever an operation needs them. A timestamp is an
  instant in UTC, here its count of nanoseconds from the Unix epoch, and a \<open>Duration\<close> is a
  natural number of nanoseconds.
\<close>

datatype project_id = ProjectId uuid
datatype project_group_id = ProjectGroupId uuid
datatype workspace_id = WorkspaceId uuid
datatype session_id = SessionId uuid
datatype terminal_id = TerminalId uuid
datatype client_id = ClientId uuid
datatype context_id = ContextId uuid
datatype agent_profile_id = AgentProfileId uuid
datatype share_rule_id = ShareRuleId uuid
datatype project_action_id = ProjectActionId uuid
datatype run_id = RunId uuid
datatype task_id = TaskId uuid
datatype attempt_id = AttemptId uuid
datatype agent_provider_id = AgentProviderId string

datatype timestamp = Timestamp int

type_synonym duration = nat

fun as_offset :: "timestamp \<Rightarrow> int" where
  "as_offset (Timestamp t) = t"

text \<open>Timestamps derive \<open>Ord\<close>: they are ordered as instants.\<close>

instantiation timestamp :: linorder
begin

definition less_eq_timestamp :: "timestamp \<Rightarrow> timestamp \<Rightarrow> bool" where
  "less_eq_timestamp a b \<longleftrightarrow> as_offset a \<le> as_offset b"

definition less_timestamp :: "timestamp \<Rightarrow> timestamp \<Rightarrow> bool" where
  "less_timestamp a b \<longleftrightarrow> as_offset a < as_offset b"

instance
proof
  fix x y z :: timestamp
  show "(x < y) = (x \<le> y \<and> \<not> y \<le> x)"
    by (auto simp: less_eq_timestamp_def less_timestamp_def)
  show "x \<le> x" by (simp add: less_eq_timestamp_def)
  show "x \<le> y \<Longrightarrow> y \<le> z \<Longrightarrow> x \<le> z" by (simp add: less_eq_timestamp_def)
  show "x \<le> y \<Longrightarrow> y \<le> x \<Longrightarrow> x = y"
    by (cases x; cases y) (simp add: less_eq_timestamp_def)
  show "x \<le> y \<or> y \<le> x" by (auto simp: less_eq_timestamp_def)
qed

end

definition UNIX_EPOCH :: timestamp where
  "UNIX_EPOCH = Timestamp 0"

text \<open>
  \<open>Duration::try_from(now - since).unwrap_or(Duration::ZERO)\<close>: a negative difference, from a
  clock that stepped back, is zero.
\<close>

definition elapsed_since :: "timestamp \<Rightarrow> timestamp \<Rightarrow> duration" where
  "elapsed_since since now =
    (let elapsed = as_offset now - as_offset since
     in if elapsed < 0 then 0 else nat elapsed)"

definition from_secs :: "nat \<Rightarrow> duration" where
  "from_secs s = s * 10 ^ 9"

definition as_secs :: "duration \<Rightarrow> nat" where
  "as_secs d = d div 10 ^ 9"

lemma elapsed_since_self [simp]: "elapsed_since t t = 0"
  by (simp add: elapsed_since_def)

lemma elapsed_since_mono: "a \<le> b \<Longrightarrow> elapsed_since t a \<le> elapsed_since t b"
  by (auto simp: elapsed_since_def less_eq_timestamp_def Let_def)

lemma elapsed_since_antimono: "a \<le> b \<Longrightarrow> elapsed_since b t \<le> elapsed_since a t"
  by (auto simp: elapsed_since_def less_eq_timestamp_def Let_def)

end
