(* ===== verification/Domain_Session.thy ===== *)
theory Domain_Session
  imports Domain_Ids
begin

text \<open>
  Sessions as \<^verbatim>\<open>crates/domain/src/session.rs\<close> defines them: the data of a session, the title it
  shows, the agent activity attached to it, and the life-cycle \<open>can_transition_to\<close> allows.
\<close>

datatype session_kind = SK_Shell | SK_Agent | SK_Editor | SK_Task

datatype session_state =
    Starting
  | Running
  | Exited (exit_code: "int option") (exit_signal: "int option")
  | Failed (fail_reason: string)
  | Orphaned

fun is_terminal :: "session_state \<Rightarrow> bool" where
  "is_terminal (Exited _ _) = True"
| "is_terminal (Failed _) = True"
| "is_terminal Orphaned = True"
| "is_terminal _ = False"

fun is_active :: "session_state \<Rightarrow> bool" where
  "is_active Starting = True"
| "is_active Running = True"
| "is_active _ = False"

fun can_transition_to :: "session_state \<Rightarrow> session_state \<Rightarrow> bool" where
  "can_transition_to Starting Running = True"
| "can_transition_to Starting (Failed _) = True"
| "can_transition_to Running (Exited _ _) = True"
| "can_transition_to Running Orphaned = True"
| "can_transition_to (Exited _ _) Starting = True"
| "can_transition_to (Failed _) Starting = True"
| "can_transition_to Orphaned Starting = True"
| "can_transition_to _ _ = False"

datatype session_role =
    Generic | Orchestrator | Planner | Researcher | Executor | Reviewer | Tester | Custom string

record session_title =
  title_user :: "string option"
  title_terminal :: "string option"

definition osc_str :: "string option \<Rightarrow> string option" where
  "osc_str raw =
    (case map_option trim raw of Some v \<Rightarrow> if v = [] then None else Some v | None \<Rightarrow> None)"

definition from_osc :: "string option \<Rightarrow> string option" where
  "from_osc raw = osc_str raw"

definition present_title :: "string option \<Rightarrow> string option" where
  "present_title v = (case v of Some s \<Rightarrow> if trim s = [] then None else Some s | None \<Rightarrow> None)"

definition resolve_title :: "session_title \<Rightarrow> string \<Rightarrow> string" where
  "resolve_title t fallback =
    (case present_title (title_user t) of
       Some s \<Rightarrow> s
     | None \<Rightarrow> (case present_title (title_terminal t) of Some s \<Rightarrow> s | None \<Rightarrow> fallback))"

record editor_find =
  find_focus :: u32
  find_pattern :: string
  find_case_sensitive :: bool
  find_whole_word :: bool
  find_regex :: bool
  find_total :: u32
  find_capped :: bool
  find_index :: u32
  find_error :: "string option"

record editor_state =
  ed_path :: string
  ed_line :: u32
  ed_column :: u32
  ed_dirty :: bool
  ed_read_only :: bool
  ed_document_version :: u64
  ed_top_line :: u32
  ed_visible_lines :: u32
  ed_total_lines :: u32
  ed_caret_line :: string
  ed_selection_length :: u32
  ed_cursor_count :: u32
  ed_status :: string
  ed_conflict :: bool
  ed_find :: "editor_find option"

datatype editor_find_command =
    Find_Set string bool bool bool
  | Find_Next
  | Find_Previous
  | Find_Close

datatype activity_state =
    Act_Unknown | Act_Starting | Act_Working | Act_Waiting | Act_Idle | Act_Unrecognized

datatype activity_evidence = Ev_Hook | Ev_Input | Ev_Exit | Ev_Unrecognized

record agent_activity =
  act_state :: activity_state
  act_since :: timestamp
  act_evidence :: "activity_evidence option"

definition activity_unknown :: agent_activity where
  "activity_unknown = \<lparr>act_state = Act_Unknown, act_since = UNIX_EPOCH, act_evidence = None\<rparr>"

definition activity_starting :: "timestamp \<Rightarrow> agent_activity" where
  "activity_starting now = \<lparr>act_state = Act_Starting, act_since = now, act_evidence = None\<rparr>"

text \<open>Runtime state of a \<open>Task\<close> session, from \<^verbatim>\<open>crates/domain/src/action.rs\<close>.\<close>

datatype action_readiness =
    Ready_Waiting "project_action_id list"
  | Ready_Probing
  | Ready_Ready "string option"
  | Ready_TimedOut
  | Ready_PortInUse u16
  | Ready_Unprobed

fun satisfies_dependents :: "action_readiness \<Rightarrow> bool" where
  "satisfies_dependents (Ready_Ready _) = True"
| "satisfies_dependents Ready_Unprobed = True"
| "satisfies_dependents _ = False"

record action_run =
  ar_action_id :: project_action_id
  ar_label :: string
  ar_port :: "u16 option"
  ar_readiness :: action_readiness
  ar_started_at :: "timestamp option"

record session =
  s_id :: session_id
  s_workspace_id :: workspace_id
  s_kind :: session_kind
  s_role :: session_role
  s_parent :: "session_id option"
  s_root :: session_id
  s_terminal_id :: "terminal_id option"
  s_editor :: "editor_state option"
  s_agent_provider_id :: "agent_provider_id option"
  s_agent_profile_id :: "agent_profile_id option"
  s_title :: session_title
  s_state :: session_state
  s_created_at :: timestamp
  s_launch_command :: "string option"
  s_last_activity_at :: timestamp
  s_ended_at :: "timestamp option"
  s_base_commit :: "string option"
  s_activity :: agent_activity
  s_action :: "action_run option"

definition is_root :: "session \<Rightarrow> bool" where
  "is_root s \<longleftrightarrow> s_parent s = None \<and> s_root s = s_id s"

definition idle_for :: "session \<Rightarrow> timestamp \<Rightarrow> duration" where
  "idle_for s now = elapsed_since (s_last_activity_at s) now"

definition age :: "session \<Rightarrow> timestamp \<Rightarrow> duration" where
  "age s now = elapsed_since (s_created_at s) now"

section \<open>The life-cycle\<close>

lemma terminal_iff_not_active: "is_terminal st \<longleftrightarrow> \<not> is_active st"
  by (cases st) simp_all

lemma transition_from_terminal: "is_terminal st \<Longrightarrow> can_transition_to st st' \<longleftrightarrow> st' = Starting"
  by (cases st; cases st') simp_all

lemma transition_to_terminal:
  "can_transition_to st st' \<Longrightarrow> is_terminal st' \<Longrightarrow> is_active st"
  by (cases st; cases st') simp_all

lemma transition_cases:
  assumes "can_transition_to st st'"
  obtains (start) "st = Starting" "st' = Running"
  | (spawn_failed) r where "st = Starting" "st' = Failed r"
  | (exited) c s where "st = Running" "st' = Exited c s"
  | (orphaned) "st = Running" "st' = Orphaned"
  | (restart) "is_terminal st" "st' = Starting"
  using assms by (cases st; cases st') auto

inductive session_run :: "session_state \<Rightarrow> session_state list \<Rightarrow> session_state \<Rightarrow> bool" where
  run_nil: "session_run st [] st"
| run_step: "can_transition_to st st' \<Longrightarrow> session_run st' sts st'' \<Longrightarrow> session_run st (st' # sts) st''"

inductive_simps session_run_nil [simp]: "session_run st [] st'"
inductive_simps session_run_cons [simp]: "session_run st (x # xs) st'"

lemma session_run_append:
  "session_run st (xs @ ys) st' \<longleftrightarrow> (\<exists>m. session_run st xs m \<and> session_run m ys st')"
  by (induction xs arbitrary: st) auto

lemma session_run_last: "session_run st xs st' \<Longrightarrow> st' = last (st # xs)"
  by (induction rule: session_run.induct) auto

end
