(* ===== verification/Daemon_Sessions.thy ===== *)
theory Daemon_Sessions
  imports Domain_Session
begin

text \<open>
  The daemon's session table: the checked state transitions and the placement of a new session in the
  session graph (\<^verbatim>\<open>crates/daemon/src/core.rs\<close>). The maps of the core that these operations touch are the fields
  of \<open>inner\<close>; a map of which they only remove keys is the set of its keys. The clock is an
  argument (\<open>now\<close>), and so is the outcome of a database write whose error the code ignores.
\<close>

datatype error_code =
    InvalidRequest | NotFound | Conflict | PreconditionFailed | GitError | SpawnError | IoError
  | ProviderNotInstalled | ProtocolViolation | Internal | UnknownCode

record protocol_error =
  pe_code :: error_code
  pe_message :: string
  pe_details :: "string option"

definition protocol_error_new :: "error_code \<Rightarrow> string \<Rightarrow> protocol_error" where
  "protocol_error_new c m = \<lparr>pe_code = c, pe_message = m, pe_details = None\<rparr>"

definition not_found :: "string \<Rightarrow> protocol_error" where
  "not_found m = protocol_error_new NotFound m"

text \<open>One \<open>flume\<close> sender of capacity one: whether its receiver is gone, whether a wake is queued.\<close>

record task_waiter =
  tw_disconnected :: bool
  tw_pinged :: bool

definition wake_waiters :: "task_waiter list \<Rightarrow> task_waiter list" where
  "wake_waiters ws = map (\<lambda>w. w\<lparr>tw_pinged := True\<rparr>) (filter (\<lambda>w. \<not> tw_disconnected w) ws)"

record workspace =
  ws_id :: workspace_id
  ws_project_id :: project_id
  ws_path :: string

text \<open>Of a row of the table \<open>sessions\<close>, the columns that hold the state.\<close>

record session_row =
  row_last_state :: string
  row_last_exit_code :: "int option"
  row_ended_at :: "timestamp option"

text \<open>A prompt that waits for its session (\<^verbatim>\<open>crates/daemon/src/prompts.rs\<close>).\<close>

record pending_prompt =
  pp_text :: string
  pp_submit :: bool
  pp_terminal :: terminal_id
  pp_context :: context_id

text \<open>The gate of a session is a shared mutex; a number names it.\<close>

record inner =
  in_sessions :: "session_id \<rightharpoonup> session"
  in_workspaces :: "workspace_id \<rightharpoonup> workspace"
  in_idle_warned :: "session_id set"
  in_pending_prompts :: "session_id \<rightharpoonup> pending_prompt"
  in_prompt_gates :: "session_id \<rightharpoonup> nat"
  in_db_sessions :: "session_id \<rightharpoonup> session_row"
  in_task_waiters :: "task_waiter list"
  in_resumed_from :: "session_id \<rightharpoonup> string"
  in_read_only :: "session_id set"
  in_launch_options :: "session_id set"
  in_close_on_exit :: "session_id set"

section \<open>State transitions\<close>

fun state_discriminant :: "session_state \<Rightarrow> string" where
  "state_discriminant Starting = ''Starting''"
| "state_discriminant Running = ''Running''"
| "state_discriminant (Exited _ _) = ''Exited''"
| "state_discriminant (Failed _) = ''Failed''"
| "state_discriminant Orphaned = ''Orphaned''"

fun state_exit_code :: "session_state \<Rightarrow> int option" where
  "state_exit_code (Exited c _) = c"
| "state_exit_code _ = None"

definition session_row_of :: "session_state \<Rightarrow> timestamp option \<Rightarrow> session_row" where
  "session_row_of st ended =
    \<lparr>row_last_state = state_discriminant st, row_last_exit_code = state_exit_code st, row_ended_at = ended\<rparr>"

text \<open>An \<open>UPDATE\<close> of a row that is not there changes nothing.\<close>

definition db_update_state ::
  "session_id \<Rightarrow> session_state \<Rightarrow> timestamp option \<Rightarrow> (session_id \<rightharpoonup> session_row)
    \<Rightarrow> (session_id \<rightharpoonup> session_row)"
where
  "db_update_state sid st ended rows =
    (case rows sid of
       None \<Rightarrow> rows
     | Some _ \<Rightarrow> rows(sid \<mapsto> session_row_of st ended))"

definition set_session_state ::
  "bool \<Rightarrow> timestamp \<Rightarrow> inner \<Rightarrow> session_id \<Rightarrow> session_state \<Rightarrow> terminal_id option
    \<Rightarrow> inner \<times> session option"
where
  "set_session_state db_ok now inn sid next terminal =
    (case in_sessions inn sid of
       None \<Rightarrow> (inn, None)
     | Some session \<Rightarrow>
         if \<not> can_transition_to (s_state session) next then (inn, None)
         else
           let ended_at = (if is_terminal next then Some now else None);
               restarting = (next = Starting);
               s1 = session\<lparr>s_state := next, s_terminal_id := terminal, s_ended_at := ended_at\<rparr>;
               s2 = (if restarting then s1\<lparr>s_last_activity_at := now\<rparr> else s1);
               s3 = (if restarting \<and> s_kind s2 = SK_Agent
                     then s2\<lparr>s_activity := activity_starting now\<rparr> else s2);
               clear = restarting \<or> is_terminal (s_state s3)
           in (inn\<lparr>in_sessions := (in_sessions inn)(sid \<mapsto> s3),
                   in_idle_warned := in_idle_warned inn - {sid},
                   in_pending_prompts :=
                     (if clear then (in_pending_prompts inn)(sid := None) else in_pending_prompts inn),
                   in_prompt_gates :=
                     (if clear then (in_prompt_gates inn)(sid := None) else in_prompt_gates inn),
                   in_db_sessions :=
                     (if db_ok then db_update_state sid (s_state s3) ended_at (in_db_sessions inn)
                      else in_db_sessions inn),
                   in_task_waiters := wake_waiters (in_task_waiters inn)\<rparr>, Some s3))"

text \<open>A session that has ended carries the time it ended, and only such a session does.\<close>

definition session_ok :: "session \<Rightarrow> bool" where
  "session_ok s \<longleftrightarrow> (s_ended_at s \<noteq> None) = is_terminal (s_state s)"

definition sessions_ok :: "inner \<Rightarrow> bool" where
  "sessions_ok inn \<longleftrightarrow> (\<forall>sid s. in_sessions inn sid = Some s \<longrightarrow> s_id s = sid \<and> session_ok s)"

lemma set_session_state_cases:
  obtains (refused) "set_session_state ok now inn sid nx t = (inn, None)"
      "\<forall>s. in_sessions inn sid = Some s \<longrightarrow> \<not> can_transition_to (s_state s) nx"
  | (moved) s s' inn' where "in_sessions inn sid = Some s" "can_transition_to (s_state s) nx"
      "set_session_state ok now inn sid nx t = (inn', Some s')"
      "in_sessions inn' = (in_sessions inn)(sid \<mapsto> s')"
      "s_state s' = nx" "s_terminal_id s' = t" "s_id s' = s_id s"
      "s_parent s' = s_parent s" "s_root s' = s_root s" "s_kind s' = s_kind s"
      "s_ended_at s' = (if is_terminal nx then Some now else None)"
      "in_workspaces inn' = in_workspaces inn"
      "in_idle_warned inn' = in_idle_warned inn - {sid}"
proof (cases "in_sessions inn sid")
  case None
  then show ?thesis using refused by (simp add: set_session_state_def)
next
  case (Some s)
  show ?thesis
  proof (cases "can_transition_to (s_state s) nx")
    case False
    with Some show ?thesis using refused by (simp add: set_session_state_def)
  next
    case True
    with Some show ?thesis using moved [of s] by (simp add: set_session_state_def Let_def)
  qed
qed

lemma set_session_state_sessions_ok:
  assumes "sessions_ok inn"
  shows "sessions_ok (fst (set_session_state ok now inn sid nx t))"
proof (cases rule: set_session_state_cases [of ok now inn sid nx t])
  case refused
  then show ?thesis using assms by simp
next
  case (moved s s' inn')
  then show ?thesis using assms by (auto simp: sessions_ok_def session_ok_def)
qed

text \<open>Any history of requested transitions, refused ones included, moves a session along the
  life-cycle.\<close>

fun request_states ::
  "inner \<Rightarrow> session_id \<Rightarrow> (bool \<times> timestamp \<times> session_state \<times> terminal_id option) list \<Rightarrow> inner"
where
  "request_states inn sid [] = inn"
| "request_states inn sid ((ok, now, nx, t) # rs) =
    request_states (fst (set_session_state ok now inn sid nx t)) sid rs"

lemma request_states_run:
  assumes "in_sessions inn sid = Some s"
  shows "\<exists>s' sts. in_sessions (request_states inn sid rs) sid = Some s'
    \<and> session_run (s_state s) sts (s_state s') \<and> set sts \<subseteq> (\<lambda>(_, _, nx, _). nx) ` set rs"
  using assms
proof (induction rs arbitrary: inn s)
  case Nil
  then show ?case by (auto intro: exI [of _ s] exI [of _ "[]"])
next
  case (Cons r rs)
  obtain ok now nx t where r: "r = (ok, now, nx, t)" by (cases r) auto
  show ?case
  proof (cases rule: set_session_state_cases [of ok now inn sid nx t])
    case refused
    then have "request_states inn sid (r # rs) = request_states inn sid rs" using r by simp
    then show ?thesis using Cons.IH [OF Cons.prems] by auto
  next
    case (moved s0 s' inn')
    then have "in_sessions inn' sid = Some s'" by simp
    from Cons.IH [OF this] obtain s'' sts where
      IH: "in_sessions (request_states inn' sid rs) sid = Some s''"
        "session_run (s_state s') sts (s_state s'')"
        "set sts \<subseteq> (\<lambda>(_, _, nx, _). nx) ` set rs" by blast
    then have "session_run (s_state s) (nx # sts) (s_state s'')"
      using moved Cons.prems by simp
    moreover have "request_states inn sid (r # rs) = request_states inn' sid rs"
      using moved r by simp
    moreover have "set (nx # sts) \<subseteq> (\<lambda>(_, _, nx, _). nx) ` set (r # rs)" using IH(3) r by auto
    ultimately show ?thesis using IH(1) by metis
  qed
qed

section \<open>Placing a session in the graph\<close>

definition MAX_GRAPH_DEPTH :: nat where "MAX_GRAPH_DEPTH = 8"

abbreviation parent_of :: "(session_id \<rightharpoonup> session) \<Rightarrow> session_id \<Rightarrow> session_id option" where
  "parent_of ss sid \<equiv> Option.bind (ss sid) s_parent"

function graph_walk ::
  "(session_id \<rightharpoonup> session) \<Rightarrow> session_id option \<Rightarrow> session_id set \<Rightarrow> nat \<Rightarrow> protocol_error + unit"
where
  "graph_walk ss None seen depth = Inr ()"
| "graph_walk ss (Some i) seen depth =
    (if i \<in> seen then Inl (protocol_error_new InvalidRequest ''cycle in session graph'')
     else if depth + 1 > MAX_GRAPH_DEPTH
       then Inl (protocol_error_new InvalidRequest ''session graph too deep'')
     else graph_walk ss (parent_of ss i) (insert i seen) (depth + 1))"
  by pat_completeness auto
termination
  by (relation "measure (\<lambda>(ss, cur, seen, depth). MAX_GRAPH_DEPTH + 1 - depth)") auto

definition graph_placement ::
  "inner \<Rightarrow> session_id option \<Rightarrow> workspace_id
    \<Rightarrow> protocol_error + (session_id option \<times> session_id option)"
where
  "graph_placement inn parent wid =
    (case parent of
       None \<Rightarrow> Inr (None, None)
     | Some pid \<Rightarrow>
         (case in_sessions inn pid of
            None \<Rightarrow> Inl (not_found ''parent session'')
          | Some p \<Rightarrow>
              let child_project = map_option ws_project_id (in_workspaces inn wid);
                  parent_project = map_option ws_project_id (in_workspaces inn (s_workspace_id p))
              in if child_project = None \<or> child_project \<noteq> parent_project
                 then Inl (protocol_error_new InvalidRequest
                        ''child must be in the same project as its parent'')
                 else (case graph_walk (in_sessions inn) (Some pid) {} 1 of
                         Inl e \<Rightarrow> Inl e
                       | Inr _ \<Rightarrow> Inr (Some pid, Some (s_root p)))))"

text \<open>
  The critical section of \<open>create_session_with_options\<close>: the row it builds and what it records
  about the session. The identifier is fresh by assumption of its users; building the launch
  command (\<open>build_spawn_spec\<close>) is an argument, its error if it fails, and so is the error of the
  insert. Launch options other than the default are recorded as the key only.
\<close>

definition new_session ::
  "session_id \<Rightarrow> workspace_id \<Rightarrow> session_kind \<Rightarrow> session_role \<Rightarrow> session_id option
    \<Rightarrow> session_id option \<Rightarrow> agent_provider_id option \<Rightarrow> agent_profile_id option
    \<Rightarrow> string option \<Rightarrow> string option \<Rightarrow> timestamp \<Rightarrow> session"
where
  "new_session sid wid kind role parent root provider profile title base now =
    \<lparr>s_id = sid, s_workspace_id = wid, s_kind = kind, s_role = role, s_parent = parent,
     s_root = (case root of None \<Rightarrow> sid | Some r \<Rightarrow> r),
     s_terminal_id = None, s_editor = None,
     s_agent_provider_id = provider, s_agent_profile_id = profile,
     s_title = \<lparr>title_user = title, title_terminal = None\<rparr>,
     s_state = Starting, s_created_at = now, s_launch_command = None,
     s_last_activity_at = now, s_ended_at = None, s_base_commit = base,
     s_activity = (if kind = SK_Agent then activity_starting now else activity_unknown),
     s_action = None\<rparr>"

record create_request =
  cr_workspace :: workspace_id
  cr_kind :: session_kind
  cr_provider :: "agent_provider_id option"
  cr_profile :: "agent_profile_id option"
  cr_parent :: "session_id option"
  cr_role :: session_role
  cr_resume :: "string option"
  cr_read_only :: bool
  cr_default_options :: bool
  cr_title :: "string option"

definition place_session ::
  "protocol_error option \<Rightarrow> protocol_error option \<Rightarrow> session_id \<Rightarrow> string option \<Rightarrow> timestamp
    \<Rightarrow> create_request \<Rightarrow> inner \<Rightarrow> protocol_error + inner"
where
  "place_session spec_error db_error sid base now c inn =
    (if in_workspaces inn (cr_workspace c) = None then Inl (not_found ''workspace'')
     else case graph_placement inn (cr_parent c) (cr_workspace c) of
       Inl e \<Rightarrow> Inl e
     | Inr (p, r) \<Rightarrow>
         (case spec_error of
            Some e \<Rightarrow> Inl e
          | None \<Rightarrow>
             (let s = new_session sid (cr_workspace c) (cr_kind c) (cr_role c) p r (cr_provider c)
                        (cr_profile c) (osc_str (cr_title c)) base now
              in case db_error of
                   Some e \<Rightarrow> Inl e
                 | None \<Rightarrow> Inr (inn\<lparr>
                     in_db_sessions := (in_db_sessions inn)(sid \<mapsto> session_row_of (s_state s) (s_ended_at s)),
                     in_sessions := (in_sessions inn)(sid \<mapsto> s),
                     in_resumed_from :=
                       (case cr_resume c of None \<Rightarrow> in_resumed_from inn
                        | Some v \<Rightarrow> (in_resumed_from inn)(sid \<mapsto> v)),
                     in_read_only :=
                       (if cr_read_only c then insert sid (in_read_only inn) else in_read_only inn),
                     in_launch_options :=
                       (if \<not> cr_default_options c then insert sid (in_launch_options inn)
                        else in_launch_options inn)\<rparr>))))"

text \<open>
  The depth of a session: a session without a known parent has depth one, every other one more
  than its parent. A session on a cycle has no depth.
\<close>

inductive graph_depth :: "(session_id \<rightharpoonup> session) \<Rightarrow> session_id \<Rightarrow> nat \<Rightarrow> bool"
  for ss :: "session_id \<rightharpoonup> session" where
  depth_root: "parent_of ss i = None \<Longrightarrow> graph_depth ss i (Suc 0)"
| depth_child: "parent_of ss i = Some p \<Longrightarrow> graph_depth ss p d \<Longrightarrow> graph_depth ss i (Suc d)"

inductive_cases graph_depth_elim: "graph_depth ss i d"

lemma graph_depth_unique: "graph_depth ss i d \<Longrightarrow> graph_depth ss i d' \<Longrightarrow> d' = d"
proof (induction arbitrary: d' rule: graph_depth.induct)
  case (depth_root i)
  then show ?case by (auto elim: graph_depth_elim)
next
  case (depth_child i p d)
  from depth_child.prems depth_child.hyps(1) obtain d0 where "d' = Suc d0" "graph_depth ss p d0"
    by (auto elim: graph_depth_elim)
  then show ?case using depth_child.IH by simp
qed

lemma graph_depth_pos: "graph_depth ss i d \<Longrightarrow> 1 \<le> d"
  by (induction rule: graph_depth.induct) auto

text \<open>The walk sees only sessions deeper than the one it is at, so it meets none of them again.\<close>

lemma graph_walk_ok:
  assumes "graph_depth ss i d" and "\<And>j. j \<in> seen \<Longrightarrow> \<exists>e > d. graph_depth ss j e"
  shows "graph_walk ss (Some i) seen n = Inr () \<longleftrightarrow> n + d \<le> MAX_GRAPH_DEPTH"
  using assms
proof (induction arbitrary: seen n rule: graph_depth.induct)
  case (depth_root i)
  have "i \<notin> seen"
    using depth_root graph_depth.depth_root [of ss i] graph_depth_unique by blast
  then show ?case using depth_root.hyps by simp
next
  case (depth_child i p d)
  have di: "graph_depth ss i (Suc d)" using depth_child.hyps by (rule graph_depth.depth_child)
  have "i \<notin> seen" using depth_child.prems di graph_depth_unique by blast
  moreover have "\<And>j. j \<in> insert i seen \<Longrightarrow> \<exists>e > d. graph_depth ss j e"
    using depth_child.prems di Suc_lessD by blast
  then have "graph_walk ss (Some p) (insert i seen) (n + 1) = Inr () \<longleftrightarrow> n + 1 + d \<le> MAX_GRAPH_DEPTH"
    by (rule depth_child.IH)
  ultimately show ?case using depth_child.hyps(1) by simp
qed

lemma graph_walk_depth:
  "graph_walk ss (Some i) seen n = Inr () \<Longrightarrow> \<exists>d. graph_depth ss i d"
proof (induction "MAX_GRAPH_DEPTH - n" arbitrary: i seen n)
  case 0
  then show ?case by (simp split: if_splits)
next
  case (Suc k)
  then have walk: "graph_walk ss (parent_of ss i) (insert i seen) (n + 1) = Inr ()"
    by (simp split: if_splits)
  show ?case
  proof (cases "parent_of ss i")
    case None
    then show ?thesis by (auto intro: depth_root)
  next
    case (Some p)
    have "k = MAX_GRAPH_DEPTH - (n + 1)" using Suc.hyps(2) by simp
    then obtain d where "graph_depth ss p d" using Suc.hyps(1) walk Some by metis
    then show ?thesis using Some by (auto intro: depth_child)
  qed
qed

lemma graph_walk_iff:
  "graph_walk ss (Some i) {} 1 = Inr () \<longleftrightarrow> (\<exists>d. graph_depth ss i d \<and> d < MAX_GRAPH_DEPTH)"
proof
  assume w: "graph_walk ss (Some i) {} 1 = Inr ()"
  then obtain d where d: "graph_depth ss i d" using graph_walk_depth by blast
  then have "1 + d \<le> MAX_GRAPH_DEPTH" using graph_walk_ok [OF d, of "{}" 1] w by simp
  with d show "\<exists>d. graph_depth ss i d \<and> d < MAX_GRAPH_DEPTH" by auto
next
  assume "\<exists>d. graph_depth ss i d \<and> d < MAX_GRAPH_DEPTH"
  then obtain d where "graph_depth ss i d" "d < MAX_GRAPH_DEPTH" by blast
  then show "graph_walk ss (Some i) {} 1 = Inr ()"
    using graph_walk_ok [of ss i d "{}" 1] by simp
qed

text \<open>
  The session graph: every session's parent is a session of the same root, roots are their own
  root, and every session has a depth of at most eight.
\<close>

definition graph_ok :: "(session_id \<rightharpoonup> session) \<Rightarrow> bool" where
  "graph_ok ss \<longleftrightarrow>
    (\<forall>i s. ss i = Some s \<longrightarrow>
      (\<exists>d \<le> MAX_GRAPH_DEPTH. graph_depth ss i d)
      \<and> (case s_parent s of
           None \<Rightarrow> s_root s = i
         | Some p \<Rightarrow> (\<exists>q. ss p = Some q \<and> s_root s = s_root q)))"

lemma graph_okD:
  assumes "graph_ok ss" and "ss i = Some s"
  shows "\<exists>d \<le> MAX_GRAPH_DEPTH. graph_depth ss i d"
    and "s_parent s = None \<Longrightarrow> s_root s = i"
    and "s_parent s = Some p \<Longrightarrow> \<exists>q. ss p = Some q \<and> s_root s = s_root q"
proof -
  have all: "(\<exists>d \<le> MAX_GRAPH_DEPTH. graph_depth ss i d)
      \<and> (case s_parent s of None \<Rightarrow> s_root s = i
           | Some p \<Rightarrow> (\<exists>q. ss p = Some q \<and> s_root s = s_root q))"
    using assms unfolding graph_ok_def by blast
  from all show "\<exists>d \<le> MAX_GRAPH_DEPTH. graph_depth ss i d" by blast
  from all show "s_root s = i" if "s_parent s = None" using that by simp
  from all show "\<exists>q. ss p = Some q \<and> s_root s = s_root q" if "s_parent s = Some p" using that by simp
qed

lemma graph_depth_insert:
  assumes "graph_depth ss i d" "i \<in> dom ss" and fresh: "k \<notin> dom ss"
    and closed: "\<And>j s p. ss j = Some s \<Longrightarrow> s_parent s = Some p \<Longrightarrow> p \<in> dom ss"
  shows "graph_depth (ss(k \<mapsto> s)) i d"
  using assms(1,2)
proof (induction rule: graph_depth.induct)
  case (depth_root i)
  then show ?case using fresh by (intro graph_depth.depth_root) auto
next
  case (depth_child i p d)
  then obtain si where "ss i = Some si" "s_parent si = Some p" by (auto simp: bind_eq_Some_conv)
  then have "p \<in> dom ss" using closed by blast
  moreover have "parent_of (ss(k \<mapsto> s)) i = Some p"
    using depth_child fresh by auto
  ultimately show ?case using depth_child.IH by (auto intro: graph_depth.depth_child)
qed

lemma graph_ok_closed:
  "graph_ok ss \<Longrightarrow> ss j = Some s \<Longrightarrow> s_parent s = Some p \<Longrightarrow> p \<in> dom ss"
  by (drule (2) graph_okD(3)) auto

lemma graph_placement_Inr:
  assumes "graph_placement inn (Some pid) wid = Inr (p, r)"
  obtains q d where "p = Some pid" "in_sessions inn pid = Some q" "r = Some (s_root q)"
    "graph_depth (in_sessions inn) pid d" "d < MAX_GRAPH_DEPTH"
proof -
  from assms obtain q where q: "in_sessions inn pid = Some q"
    and w: "graph_walk (in_sessions inn) (Some pid) {} 1 = Inr ()"
    and pr: "p = Some pid" "r = Some (s_root q)"
    by (auto simp: graph_placement_def Let_def simp del: graph_walk.simps
        split: option.splits if_splits sum.splits)
  from w obtain d where "graph_depth (in_sessions inn) pid d" "d < MAX_GRAPH_DEPTH"
    unfolding graph_walk_iff by blast
  with q pr show ?thesis using that by blast
qed

lemma graph_ok_place:
  assumes ok: "graph_ok (in_sessions inn)" and fresh: "sid \<notin> dom (in_sessions inn)"
    and placed: "place_session se de sid ba now c inn = Inr inn'"
  shows "graph_ok (in_sessions inn')"
proof -
  let ?ss = "in_sessions inn"
  obtain p r where pr: "graph_placement inn (cr_parent c) (cr_workspace c) = Inr (p, r)"
    using placed by (auto simp: place_session_def split: sum.splits if_splits)
  define s where "s = new_session sid (cr_workspace c) (cr_kind c) (cr_role c) p r (cr_provider c)
    (cr_profile c) (osc_str (cr_title c)) ba now"
  have ss': "in_sessions inn' = ?ss(sid \<mapsto> s)"
    using placed pr by (auto simp: place_session_def Let_def s_def split: if_splits option.splits)
  have sp: "s_parent s = p" "s_root s = (case r of None \<Rightarrow> sid | Some r \<Rightarrow> r)"
    by (simp_all add: s_def new_session_def)
  have old: "graph_depth (?ss(sid \<mapsto> s)) i d" if "graph_depth ?ss i d" "i \<in> dom ?ss" for i d
    using graph_depth_insert [OF that fresh] graph_ok_closed [OF ok] by blast
  have new: "(\<exists>d \<le> MAX_GRAPH_DEPTH. graph_depth (?ss(sid \<mapsto> s)) sid d)
      \<and> (case p of None \<Rightarrow> s_root s = sid
           | Some p' \<Rightarrow> (\<exists>q. (?ss(sid \<mapsto> s)) p' = Some q \<and> s_root s = s_root q))"
  proof (cases "cr_parent c")
    case None
    then have "p = None" "r = None" using pr by (auto simp: graph_placement_def)
    moreover have "graph_depth (?ss(sid \<mapsto> s)) sid (Suc 0)"
      using sp \<open>p = None\<close> by (intro depth_root) simp
    ultimately show ?thesis using sp by (auto simp: MAX_GRAPH_DEPTH_def intro: exI [of _ "Suc 0"])
  next
    case (Some pid)
    then obtain q d where q: "p = Some pid" "?ss pid = Some q" "r = Some (s_root q)"
      and d: "graph_depth ?ss pid d" "d < MAX_GRAPH_DEPTH"
      using pr graph_placement_Inr by metis
    have ne: "pid \<noteq> sid" using q fresh by auto
    have "graph_depth (?ss(sid \<mapsto> s)) pid d" using old d q by auto
    then have "graph_depth (?ss(sid \<mapsto> s)) sid (Suc d)"
      using sp q by (intro depth_child) auto
    then show ?thesis using d q sp ne by (auto intro: exI [of _ "Suc d"])
  qed
  show ?thesis unfolding graph_ok_def ss'
  proof (intro allI impI)
    fix i si
    assume i: "(?ss(sid \<mapsto> s)) i = Some si"
    show "(\<exists>d \<le> MAX_GRAPH_DEPTH. graph_depth (?ss(sid \<mapsto> s)) i d)
      \<and> (case s_parent si of None \<Rightarrow> s_root si = i
           | Some p \<Rightarrow> (\<exists>q. (?ss(sid \<mapsto> s)) p = Some q \<and> s_root si = s_root q))"
    proof (cases "i = sid")
      case True
      then have "si = s" using i by simp
      show ?thesis unfolding True \<open>si = s\<close> sp(1) by (rule new)
    next
      case False
      then have si: "?ss i = Some si" using i by simp
      then have "(\<exists>d \<le> MAX_GRAPH_DEPTH. graph_depth ?ss i d)" by (rule graph_okD(1) [OF ok])
      then have "\<exists>d \<le> MAX_GRAPH_DEPTH. graph_depth (?ss(sid \<mapsto> s)) i d" using old si by blast
      moreover have "case s_parent si of None \<Rightarrow> s_root si = i
           | Some p \<Rightarrow> (\<exists>q. (?ss(sid \<mapsto> s)) p = Some q \<and> s_root si = s_root q)"
      proof (cases "s_parent si")
        case None
        then show ?thesis using graph_okD(2) [OF ok si] by simp
      next
        case (Some p)
        then obtain q where q: "?ss p = Some q" "s_root si = s_root q"
          using graph_okD(3) [OF ok si] by blast
        then have "p \<noteq> sid" using fresh by auto
        then show ?thesis using Some q by simp
      qed
      ultimately show ?thesis by blast
    qed
  qed
qed

section \<open>Properties\<close>

text \<open>
  C1: Whatever transitions are requested for a session, by racing threads, in any order, the
  refused ones included, the session goes through legal transitions only; a session that ended
  leaves its end state only by starting again, and an ended session carries its end time while a
  running one does not.
\<close>

theorem session_lifecycle:
  assumes "in_sessions inn sid = Some s" and "sessions_ok inn"
  shows "\<exists>s' sts. in_sessions (request_states inn sid rs) sid = Some s'
    \<and> session_run (s_state s) sts (s_state s') \<and> set sts \<subseteq> (\<lambda>(_, _, nx, _). nx) ` set rs
    \<and> (is_terminal (s_state s) \<and> sts \<noteq> [] \<longrightarrow> hd sts = Starting)
    \<and> ((s_ended_at s' \<noteq> None) = is_terminal (s_state s')) \<and> sessions_ok (request_states inn sid rs)"
proof -
  obtain s' sts where r: "in_sessions (request_states inn sid rs) sid = Some s'"
      "session_run (s_state s) sts (s_state s')" "set sts \<subseteq> (\<lambda>(_, _, nx, _). nx) ` set rs"
    using request_states_run [OF assms(1)] by blast
  have ok: "sessions_ok (request_states inn sid rs)" using assms(2)
    by (induction inn sid rs rule: request_states.induct) (simp_all add: set_session_state_sessions_ok)
  have "hd sts = Starting" if "is_terminal (s_state s)" "sts \<noteq> []"
    using that r(2) by (cases sts) (auto simp: transition_from_terminal)
  moreover have "(s_ended_at s' \<noteq> None) = is_terminal (s_state s')"
    using ok r(1) by (auto simp: sessions_ok_def session_ok_def)
  ultimately show ?thesis using r ok by blast
qed

definition idle_inner :: "session list \<Rightarrow> inner" where
  "idle_inner ss = \<lparr>in_sessions = map_of (map (\<lambda>s. (s_id s, s)) ss), in_workspaces = Map.empty,
     in_idle_warned = {}, in_pending_prompts = Map.empty, in_prompt_gates = Map.empty, in_db_sessions = Map.empty,
     in_task_waiters = [], in_resumed_from = Map.empty, in_read_only = {}, in_launch_options = {},
     in_close_on_exit = {}\<rparr>"

theorem session_lifecycle_witness:
  "\<exists>s'. in_sessions (request_states
      (idle_inner [new_session (SessionId 1) (WorkspaceId 1) SK_Shell Generic None None None None None None UNIX_EPOCH])
      (SessionId 1) [(True, UNIX_EPOCH, Running, None), (True, UNIX_EPOCH, Starting, None)]) (SessionId 1) = Some s'
    \<and> s_ended_at s' = None"
proof -
  let ?s = "new_session (SessionId 1) (WorkspaceId 1) SK_Shell Generic None None None None None None UNIX_EPOCH"
  let ?rs = "[(True, UNIX_EPOCH, Running, None :: terminal_id option), (True, UNIX_EPOCH, Starting, None)]"
  have i: "s_id ?s = SessionId 1" "s_ended_at ?s = None" "s_state ?s = Starting"
    by (simp_all add: new_session_def)
  have a: "in_sessions (idle_inner [?s]) (SessionId 1) = Some ?s" by (simp add: idle_inner_def i)
  have b: "sessions_ok (idle_inner [?s])"
    by (auto simp: sessions_ok_def session_ok_def idle_inner_def i split: if_splits)
  obtain s' sts where s': "in_sessions (request_states (idle_inner [?s]) (SessionId 1) ?rs) (SessionId 1) = Some s'"
      "session_run (s_state ?s) sts (s_state s')" "set sts \<subseteq> (\<lambda>(_, _, nx, _). nx) ` set ?rs"
      "(s_ended_at s' \<noteq> None) = is_terminal (s_state s')"
    using session_lifecycle [OF a b, of ?rs] by blast
  have "s_state s' \<in> {Starting, Running}"
  proof (cases "sts = []")
    case True
    then show ?thesis using session_run_last [OF s'(2)] i(3) by simp
  next
    case False
    then have "last sts \<in> set sts" by (rule last_in_set)
    moreover have "set sts \<subseteq> {Running, Starting}" using s'(3) by simp
    ultimately have "last sts \<in> {Running, Starting}" by (rule rev_subsetD)
    then show ?thesis using session_run_last [OF s'(2)] False by auto
  qed
  then show ?thesis using s'(1,4) by auto
qed

text \<open>
  C13: A session is accepted under a parent exactly when the parent exists, is in the same project
  and has a well-founded depth below eight; accepting it keeps the session graph a forest of
  depth at most eight in which every session names the root of its tree.
\<close>

theorem graph_placement_exact:
  "((\<exists>p r. graph_placement inn (Some pid) wid = Inr (p, r)) \<longleftrightarrow>
      (\<exists>q w w' d. in_sessions inn pid = Some q \<and> in_workspaces inn wid = Some w
        \<and> in_workspaces inn (s_workspace_id q) = Some w' \<and> ws_project_id w = ws_project_id w'
        \<and> graph_depth (in_sessions inn) pid d \<and> d < MAX_GRAPH_DEPTH))
   \<and> (graph_ok (in_sessions inn) \<and> sid \<notin> dom (in_sessions inn)
        \<and> place_session se de sid base now c inn = Inr inn' \<longrightarrow> graph_ok (in_sessions inn'))"
proof -
  have w: "(\<exists>e. graph_walk (in_sessions inn) (Some pid) {} 1 = Inl e) \<longleftrightarrow>
      \<not> (\<exists>d. graph_depth (in_sessions inn) pid d \<and> d < MAX_GRAPH_DEPTH)"
    unfolding graph_walk_iff [symmetric]
    by (cases "graph_walk (in_sessions inn) (Some pid) {} 1") simp_all
  have sm: "Some x = map_option f y \<longleftrightarrow> (\<exists>z. y = Some z \<and> x = f z)"
    for x :: project_id and f :: "workspace \<Rightarrow> project_id" and y by (cases y) auto
  have "(\<exists>p r. graph_placement inn (Some pid) wid = Inr (p, r)) \<longleftrightarrow>
      (\<exists>q w w'. in_sessions inn pid = Some q \<and> in_workspaces inn wid = Some w
        \<and> in_workspaces inn (s_workspace_id q) = Some w' \<and> ws_project_id w = ws_project_id w')
      \<and> graph_walk (in_sessions inn) (Some pid) {} 1 = Inr ()"
    by (cases "graph_walk (in_sessions inn) (Some pid) {} 1")
      (auto simp: graph_placement_def Let_def sm simp del: graph_walk.simps split: option.splits)
  then show ?thesis using graph_ok_place [of inn sid se de base now c inn'] unfolding graph_walk_iff by blast
qed

theorem graph_placement_exact_witness:
  "\<exists>inn'. place_session None None (SessionId 1) None UNIX_EPOCH
      \<lparr>cr_workspace = WorkspaceId 1, cr_kind = SK_Agent, cr_provider = None, cr_profile = None,
       cr_parent = None, cr_role = Generic, cr_resume = None, cr_read_only = False,
       cr_default_options = True, cr_title = None\<rparr>
      ((idle_inner [])\<lparr>in_workspaces := [WorkspaceId 1 \<mapsto>
         \<lparr>ws_id = WorkspaceId 1, ws_project_id = ProjectId 1, ws_path = ''/p''\<rparr>]\<rparr>) = Inr inn'
    \<and> graph_ok (in_sessions inn')"
proof -
  let ?c = "\<lparr>cr_workspace = WorkspaceId 1, cr_kind = SK_Agent, cr_provider = None, cr_profile = None,
       cr_parent = None, cr_role = Generic, cr_resume = None, cr_read_only = False,
       cr_default_options = True, cr_title = None\<rparr>"
  let ?inn = "(idle_inner [])\<lparr>in_workspaces := [WorkspaceId 1 \<mapsto>
         \<lparr>ws_id = WorkspaceId 1, ws_project_id = ProjectId 1, ws_path = ''/p''\<rparr>]\<rparr>"
  obtain inn' where p: "place_session None None (SessionId 1) None UNIX_EPOCH ?c ?inn = Inr inn'"
    by (simp add: place_session_def graph_placement_def Let_def)
  have "graph_ok (in_sessions ?inn)" "SessionId 1 \<notin> dom (in_sessions ?inn)"
    by (simp_all add: graph_ok_def idle_inner_def)
  then show ?thesis
    using p graph_placement_exact [of ?inn undefined undefined "SessionId 1" None None None UNIX_EPOCH ?c inn']
    by blast
qed

end
