(* ===== verification/Daemon_Idle.thy ===== *)
theory Daemon_Idle
  imports Daemon_Sessions
begin

text \<open>
  The idle policy of \<^verbatim>\<open>crates/daemon/src/idle.rs\<close> and the bookkeeping of one sweep
  (\<open>sweep_idle_sessions\<close> of \<^verbatim>\<open>crates/daemon/src/core.rs\<close>): which sessions are reported, which are
  stopped, and that a quiet spell is reported once.
\<close>

datatype idle_reason = Inactive duration | LongRunning duration

fun reason_duration :: "idle_reason \<Rightarrow> duration" where
  "reason_duration (Inactive d) = d"
| "reason_duration (LongRunning d) = d"

datatype idle_action = Keep | Warn idle_reason | Stop idle_reason

record idle_policy =
  warn_after :: "duration option"
  stop_after :: "duration option"
  long_running_after :: "duration option"
  stop_attached :: bool
  include_shells :: bool

definition is_enabled :: "idle_policy \<Rightarrow> bool" where
  "is_enabled p \<longleftrightarrow> warn_after p \<noteq> None \<or> stop_after p \<noteq> None \<or> long_running_after p \<noteq> None"

definition past :: "duration option \<Rightarrow> duration \<Rightarrow> bool" where
  "past limit d \<longleftrightarrow> (case limit of None \<Rightarrow> False | Some l \<Rightarrow> l \<le> d)"

definition evaluate :: "idle_policy \<Rightarrow> session \<Rightarrow> timestamp \<Rightarrow> bool \<Rightarrow> bool \<Rightarrow> idle_action" where
  "evaluate p s now attached warned =
    (if \<not> is_active (s_state s) then Keep
     else if (s_kind s = SK_Shell \<or> s_kind s = SK_Task) \<and> \<not> include_shells p then Keep
     else if s_kind s = SK_Editor then Keep
     else
       let idle = idle_for s now in
       if past (stop_after p) idle \<and> (\<not> attached \<or> stop_attached p) then Stop (Inactive idle)
       else if warned then Keep
       else if past (warn_after p) idle then Warn (Inactive idle)
       else if past (long_running_after p) (age s now) then Warn (LongRunning (age s now))
       else Keep)"

definition is_settled :: "idle_policy \<Rightarrow> session \<Rightarrow> timestamp \<Rightarrow> bool" where
  "is_settled p s now \<longleftrightarrow>
    (if \<not> is_active (s_state s) then True
     else (case warn_after p of None \<Rightarrow> True | Some w \<Rightarrow> idle_for s now < w)
        \<and> (case long_running_after p of None \<Rightarrow> True | Some l \<Rightarrow> age s now < l))"

definition humanize :: "duration \<Rightarrow> string" where
  "humanize d =
    (let secs = as_secs d; h = secs div 3600; m = (secs mod 3600) div 60; s = secs mod 60 in
     if h = 0 \<and> m = 0 then show_nat s @ ''s''
     else if h = 0 then show_nat m @ ''m''
     else if m = 0 then show_nat h @ ''h''
     else show_nat h @ ''h '' @ show_nat m @ ''m'')"

definition describe_idle :: "session \<Rightarrow> idle_reason \<Rightarrow> bool \<Rightarrow> string" where
  "describe_idle s reason stopping =
    (let what = (case s_kind s of
           SK_Agent \<Rightarrow> (case s_agent_provider_id s of
               None \<Rightarrow> ''Agent'' | Some (AgentProviderId p) \<Rightarrow> p)
         | SK_Editor \<Rightarrow> ''Editor''
         | SK_Task \<Rightarrow> (case s_action s of None \<Rightarrow> ''Task'' | Some run \<Rightarrow> ar_label run)
         | SK_Shell \<Rightarrow> ''Shell'');
         name = resolve_title (s_title s) what;
         how_long = humanize (reason_duration reason)
     in case reason of
          Inactive _ \<Rightarrow>
            if stopping
            then ''Stopping \"'' @ name @ ''\": idle for '' @ how_long
                 @ '' (sessions.idle_stop_after_secs).''
            else ''\"'' @ name @ ''\" has been idle for '' @ how_long @ ''.''
        | LongRunning _ \<Rightarrow> ''\"'' @ name @ ''\" has been open for '' @ how_long @ ''.'')"

text \<open>
  The part of the sweep that runs under the core lock. \<open>order\<close> is the order in which the session
  map yields its values and \<open>attached\<close> the terminals some client watches. The result is the new
  core, the sessions to report and the sessions to stop.
\<close>

definition session_attached :: "terminal_id set \<Rightarrow> session \<Rightarrow> bool" where
  "session_attached att s \<longleftrightarrow> (case s_terminal_id s of None \<Rightarrow> False | Some t \<Rightarrow> t \<in> att)"

definition drop_settled :: "idle_policy \<Rightarrow> timestamp \<Rightarrow> inner \<Rightarrow> session_id set" where
  "drop_settled p now inn =
    {i \<in> in_idle_warned inn.
       \<not> (case in_sessions inn i of None \<Rightarrow> True | Some s \<Rightarrow> is_settled p s now)}"

fun pick_warn :: "(session \<Rightarrow> idle_action) \<Rightarrow> session list \<Rightarrow> (session \<times> idle_reason) list" where
  "pick_warn v [] = []"
| "pick_warn v (s # ss) = (case v s of Warn r \<Rightarrow> (s, r) # pick_warn v ss | _ \<Rightarrow> pick_warn v ss)"

fun pick_stop :: "(session \<Rightarrow> idle_action) \<Rightarrow> session list \<Rightarrow> (session \<times> idle_reason) list" where
  "pick_stop v [] = []"
| "pick_stop v (s # ss) = (case v s of Stop r \<Rightarrow> (s, r) # pick_stop v ss | _ \<Rightarrow> pick_stop v ss)"

definition sweep ::
  "idle_policy \<Rightarrow> timestamp \<Rightarrow> terminal_id set \<Rightarrow> session list \<Rightarrow> inner
    \<Rightarrow> inner \<times> (session \<times> idle_reason) list \<times> (session \<times> idle_reason) list"
where
  "sweep p now att order inn =
    (if \<not> is_enabled p then (inn, [], [])
     else
       let warned = drop_settled p now inn;
           verdict = (\<lambda>s. evaluate p s now (session_attached att s) (s_id s \<in> warned));
           warn = pick_warn verdict order;
           stop = pick_stop verdict order
       in (inn\<lparr>in_idle_warned := warned \<union> set (map (s_id \<circ> fst) warn)\<rparr>, warn, stop))"

lemma set_pick_warn: "(s, r) \<in> set (pick_warn v ss) \<longleftrightarrow> s \<in> set ss \<and> v s = Warn r"
  by (induction ss) (auto split: idle_action.splits)

lemma set_pick_stop: "(s, r) \<in> set (pick_stop v ss) \<longleftrightarrow> s \<in> set ss \<and> v s = Stop r"
  by (induction ss) (auto split: idle_action.splits)

section \<open>What the policy decides\<close>

lemma past_mono: "past l d \<Longrightarrow> d \<le> e \<Longrightarrow> past l e"
  by (auto simp: past_def split: option.splits)

lemma is_settled_active:
  "is_active (s_state s) \<Longrightarrow>
    is_settled p s now \<longleftrightarrow> \<not> past (warn_after p) (idle_for s now)
      \<and> \<not> past (long_running_after p) (age s now)"
  by (auto simp: is_settled_def past_def not_le split: option.splits)

lemma evaluate_Warn:
  assumes "evaluate p s now att w = Warn r"
  shows "\<not> w" and "is_active (s_state s)" and "s_kind s \<noteq> SK_Editor" and "\<not> is_settled p s now"
  using assms
  by (auto simp: evaluate_def is_settled_active Let_def split: if_splits)

lemma evaluate_Stop:
  assumes "evaluate p s now att w = Stop r"
  shows "is_active (s_state s)" and "s_kind s \<noteq> SK_Editor" and "\<not> att \<or> stop_attached p"
    and "past (stop_after p) (idle_for s now)" and "r = Inactive (idle_for s now)"
  using assms by (auto simp: evaluate_def Let_def split: if_splits)

lemma idle_for_mono: "now \<le> now' \<Longrightarrow> idle_for s now \<le> idle_for s now'"
  by (simp add: idle_for_def elapsed_since_mono)

lemma age_mono: "now \<le> now' \<Longrightarrow> age s now \<le> age s now'"
  by (simp add: age_def elapsed_since_mono)

text \<open>Once reported, a session that stays as it is stays reported: time alone never settles it.\<close>

lemma unsettled_stays:
  assumes "\<not> is_settled p s now" and le: "now \<le> now'"
  shows "\<not> is_settled p s now'"
proof -
  have act: "is_active (s_state s)" using assms(1) by (cases "is_active (s_state s)") (simp_all add: is_settled_def)
  then have "past (warn_after p) (idle_for s now) \<or> past (long_running_after p) (age s now)"
    using assms(1) by (simp add: is_settled_active)
  then have "past (warn_after p) (idle_for s now') \<or> past (long_running_after p) (age s now')"
    using past_mono idle_for_mono [OF le] age_mono [OF le] by blast
  then show ?thesis using act by (auto simp: is_settled_active)
qed

lemma sweep_enabled:
  "is_enabled p \<Longrightarrow> sweep p now att order inn =
    (let v = (\<lambda>s. evaluate p s now (session_attached att s) (s_id s \<in> drop_settled p now inn))
     in (inn\<lparr>in_idle_warned := drop_settled p now inn \<union> set (map (s_id \<circ> fst) (pick_warn v order))\<rparr>,
         pick_warn v order, pick_stop v order))"
  by (simp add: sweep_def Let_def)

lemma sweep_warned:
  assumes "sweep p now att order inn = (inn', warn, stop)" and "(s, r) \<in> set warn"
  shows "s \<in> set order"
    and "evaluate p s now (session_attached att s) (s_id s \<in> drop_settled p now inn) = Warn r"
    and "s_id s \<in> in_idle_warned inn'" and "in_sessions inn' = in_sessions inn"
proof -
  have en: "is_enabled p" using assms by (auto simp: sweep_def split: if_splits)
  define v where "v = (\<lambda>s. evaluate p s now (session_attached att s) (s_id s \<in> drop_settled p now inn))"
  have eq: "inn' = inn\<lparr>in_idle_warned := drop_settled p now inn \<union> set (map (s_id \<circ> fst) warn)\<rparr>"
    and w: "warn = pick_warn v order"
    using assms(1) unfolding sweep_enabled [OF en] v_def Let_def by auto
  from w assms(2) show "s \<in> set order" by (simp add: set_pick_warn)
  from w assms(2) have "v s = Warn r" by (simp add: set_pick_warn)
  then show "evaluate p s now (session_attached att s) (s_id s \<in> drop_settled p now inn) = Warn r"
    by (simp only: v_def)
  show "s_id s \<in> in_idle_warned inn'" using eq assms(2) by force
  show "in_sessions inn' = in_sessions inn" using eq by simp
qed

lemma sweep_stop:
  assumes "sweep p now att order inn = (inn', warn, stop)" and "(s, r) \<in> set stop"
  shows "s \<in> set order"
    and "evaluate p s now (session_attached att s) (s_id s \<in> drop_settled p now inn) = Stop r"
proof -
  have en: "is_enabled p" using assms by (auto simp: sweep_def split: if_splits)
  define v where "v = (\<lambda>s. evaluate p s now (session_attached att s) (s_id s \<in> drop_settled p now inn))"
  have w: "stop = pick_stop v order"
    using assms(1) unfolding sweep_enabled [OF en] v_def Let_def by auto
  from w assms(2) show "s \<in> set order" by (simp add: set_pick_stop)
  from w assms(2) have "v s = Stop r" by (simp add: set_pick_stop)
  then show "evaluate p s now (session_attached att s) (s_id s \<in> drop_settled p now inn) = Stop r"
    by (simp only: v_def)
qed

section \<open>Properties\<close>

text \<open>
  A quiet spell is reported once: if a session was reported by one sweep and by a later one,
  then in between it was active again (at some moment the policy saw it settled), so with the
  session unchanged it is never reported a second time, however often the sweep runs.
\<close>

theorem one_notice_per_quiet_spell:
  assumes "sweep p now att order inn = (inn', warn, stop)" and "(s, r) \<in> set warn"
    and "in_sessions inn (s_id s) = Some s" and "now \<le> now'"
    and "sweep p now' att' order' inn' = (inn'', warn', stop')"
  shows "(s, r') \<notin> set warn' \<and> s_id s \<in> in_idle_warned inn''"
proof -
  note w = sweep_warned [OF assms(1,2)]
  have "\<not> is_settled p s now'" using unsettled_stays [OF evaluate_Warn(4) [OF w(2)] assms(4)] .
  then have d: "s_id s \<in> drop_settled p now' inn'"
    using w(3,4) assms(3) by (simp add: drop_settled_def)
  have en: "is_enabled p" using assms(1,2) by (auto simp: sweep_def split: if_splits)
  have "s_id s \<in> in_idle_warned inn''"
    using assms(5) d unfolding sweep_enabled [OF en] Let_def by auto
  moreover have "(s, r') \<notin> set warn'"
    using sweep_warned(2) [OF assms(5)] evaluate_Warn(1) d by blast
  ultimately show ?thesis by simp
qed

theorem one_notice_per_quiet_spell_witness:
  "\<exists>p s inn' r. let s0 = new_session (SessionId 1) (WorkspaceId 1) SK_Agent Generic None None None None None None UNIX_EPOCH in
    s = s0\<lparr>s_state := Running\<rparr> \<and> sweep p (Timestamp 10) {} [s] (idle_inner [s]) = (inn', [(s, r)], [])
    \<and> fst (snd (sweep p (Timestamp 20) {} [s] inn')) = []"
proof -
  let ?s = "(new_session (SessionId 1) (WorkspaceId 1) SK_Agent Generic None None None None None None UNIX_EPOCH)\<lparr>s_state := Running\<rparr>"
  let ?p = "\<lparr>warn_after = Some 5, stop_after = None, long_running_after = None, stop_attached = False, include_shells = False\<rparr>"

  obtain inn' r where a: "sweep ?p (Timestamp 10) {} [?s] (idle_inner [?s]) = (inn', [(?s, r)], [])"
    by (simp add: sweep_def is_enabled_def evaluate_def new_session_def past_def idle_for_def
        elapsed_since_def drop_settled_def idle_inner_def UNIX_EPOCH_def Let_def)
  obtain inn'' warn' stop' where b: "sweep ?p (Timestamp 20) {} [?s] inn' = (inn'', warn', stop')"
    by (metis prod_cases3)
  have s: "in_sessions (idle_inner [?s]) (s_id ?s) = Some ?s" by (simp add: idle_inner_def)
  have t: "Timestamp 10 \<le> Timestamp 20" by (simp add: less_eq_timestamp_def)
  have "(?s, r') \<notin> set warn'" for r'
    using one_notice_per_quiet_spell [OF a _ s t b, of r r'] by simp
  moreover have "fst x = ?s" if "x \<in> set warn'" for x
    using sweep_warned(1) [OF b] that by (cases x) auto
  ultimately have "warn' = []" by (cases warn') (auto, metis prod.collapse)
  then have "fst (snd (sweep ?p (Timestamp 20) {} [?s] inn')) = []" using b by simp
  with a show ?thesis unfolding Let_def by blast
qed

text \<open>
  The sweep stops only what the policy may stop: a session that is active, is not an editor,
  has been quiet for at least the configured limit, and is watched by nobody unless stopping
  attached sessions was asked for; shells and tasks only when they were included. A session is
  never both reported and stopped by one sweep.
\<close>

theorem sweep_stops_only_idle:
  assumes "sweep p now att order inn = (inn', warn, stop)" and "(s, r) \<in> set stop"
  shows "s \<in> set order \<and> is_active (s_state s) \<and> s_kind s \<noteq> SK_Editor
    \<and> (\<exists>l. stop_after p = Some l \<and> l \<le> idle_for s now) \<and> r = Inactive (idle_for s now)
    \<and> (session_attached att s \<longrightarrow> stop_attached p)
    \<and> (s_kind s \<in> {SK_Shell, SK_Task} \<longrightarrow> include_shells p)
    \<and> (\<forall>r'. (s, r') \<notin> set warn)"
proof -
  note e = sweep_stop(2) [OF assms]
  have "s_kind s \<in> {SK_Shell, SK_Task} \<longrightarrow> include_shells p"
    using e by (auto simp: evaluate_def split: if_splits)
  moreover have "(s, r') \<notin> set warn" for r' using e sweep_warned(2) [OF assms(1)] by force
  ultimately show ?thesis
    using evaluate_Stop [OF e] sweep_stop(1) [OF assms] by (auto simp: past_def split: option.splits)
qed

theorem sweep_stops_only_idle_witness:
  "let s = (new_session (SessionId 1) (WorkspaceId 1) SK_Agent Generic None None None None None None UNIX_EPOCH)\<lparr>s_state := Running\<rparr>;
       p = \<lparr>warn_after = None, stop_after = Some 5, long_running_after = None, stop_attached = False, include_shells = False\<rparr>
   in (\<exists>r. (s, r) \<in> set (snd (snd (sweep p (Timestamp 10) {} [s] (idle_inner [s])))))
      \<and> 5 \<le> idle_for s (Timestamp 10)"
proof -
  let ?s = "(new_session (SessionId 1) (WorkspaceId 1) SK_Agent Generic None None None None None None UNIX_EPOCH)\<lparr>s_state := Running\<rparr>"
  let ?p = "\<lparr>warn_after = None, stop_after = Some 5, long_running_after = None, stop_attached = False, include_shells = False\<rparr>"

  obtain inn' r where a: "sweep ?p (Timestamp 10) {} [?s] (idle_inner [?s]) = (inn', [], [(?s, r)])"
    by (simp add: sweep_def is_enabled_def evaluate_def new_session_def past_def idle_for_def
        elapsed_since_def session_attached_def drop_settled_def idle_inner_def UNIX_EPOCH_def Let_def)
  show ?thesis using sweep_stops_only_idle [OF a, of ?s r] a by (auto simp: Let_def)
qed

end
