(* ===== verification/Orch_Types.thy ===== *)
theory Orch_Types
  imports Domain_Session
begin

text \<open>
  The orchestration ledger of \<^verbatim>\<open>crates/domain/src/orchestration/mod.rs\<close>: runs, the tasks of a run,
  the attempts at a task, the board, and the limits the daemon applies. Enumerations keep the
  source's constructors behind a prefix, because several share names.
\<close>

definition MAX_BOARD_VALUE_BYTES :: nat where "MAX_BOARD_VALUE_BYTES = 16 * 1024"
definition MAX_BOARD_KEYS :: nat where "MAX_BOARD_KEYS = 256"
definition MAX_BOARD_KEY_BYTES :: nat where "MAX_BOARD_KEY_BYTES = 128"
definition MIN_ID_PREFIX :: nat where "MIN_ID_PREFIX = 8"

definition DEFAULT_MAX_ACTIVE_ATTEMPTS :: u32 where "DEFAULT_MAX_ACTIVE_ATTEMPTS = 4"
definition DEFAULT_MAX_TASKS :: u32 where "DEFAULT_MAX_TASKS = 32"
definition DEFAULT_MAX_RUN_DEPTH :: u32 where "DEFAULT_MAX_RUN_DEPTH = 2"
definition DEFAULT_MAX_ATTEMPTS :: u32 where "DEFAULT_MAX_ATTEMPTS = 3"
definition DEFAULT_STALL_AFTER_SECS :: nat where "DEFAULT_STALL_AFTER_SECS = 900"
definition WAITING_ATTENTION_SECS :: nat where "WAITING_ATTENTION_SECS = 60"
definition STARTING_ATTENTION_SECS :: nat where "STARTING_ATTENTION_SECS = 90"

datatype integrate_permission = IP_None | IP_Merge | IP_Pr | IP_Unrecognized

datatype run_status = RS_Active | RS_Completed | RS_Cancelled | RS_Interrupted | RS_Unrecognized

fun is_open :: "run_status \<Rightarrow> bool" where
  "is_open RS_Active = True"
| "is_open RS_Interrupted = True"
| "is_open _ = False"

datatype task_status =
    TS_Pending | TS_Ready | TS_Active | TS_Review | TS_Accepted | TS_Integrated | TS_Blocked
  | TS_Cancelled | TS_Failed | TS_Unrecognized

fun satisfies_dependency :: "task_status \<Rightarrow> bool" where
  "satisfies_dependency TS_Accepted = True"
| "satisfies_dependency TS_Integrated = True"
| "satisfies_dependency _ = False"

fun is_final :: "task_status \<Rightarrow> bool" where
  "is_final TS_Integrated = True"
| "is_final TS_Cancelled = True"
| "is_final TS_Failed = True"
| "is_final TS_Unrecognized = True"
| "is_final _ = False"

datatype work_mode = WM_Write | WM_ReadOnly | WM_Unrecognized

datatype report_outcome = RO_Done | RO_Failed | RO_Blocked | RO_Unrecognized

datatype attempt_phase =
    AP_Starting | AP_Running | AP_Reported | AP_Rejected | AP_Lost | AP_Unrecognized

datatype lost_reason =
    LR_ExitedWithoutReport | LR_DaemonRestarted | LR_Cancelled | LR_SpawnFailed | LR_Unrecognized

datatype controller_spec =
    CS_None
  | CS_SelfSession
  | CS_Agent agent_provider_id "agent_profile_id option"

datatype integration_placement = IPl_New | IPl_Current | IPl_Workspace workspace_id

datatype task_decision =
    TD_Accept "string option"
  | TD_Reject string bool
  | TD_Cancel bool
  | TD_Unrecognized

datatype attempt_placement =
    APl_Worktree | APl_Integration | APl_Same | APl_Workspace workspace_id

record run =
  run_id :: run_id
  run_project_id :: project_id
  run_objective :: string
  run_brief :: string
  run_brief_version :: u64
  run_controller :: "session_id option"
  run_integration_workspace :: "workspace_id option"
  run_base :: "string option"
  run_parent_attempt :: "attempt_id option"
  run_status :: run_status
  run_revision :: u64
  run_created_at :: timestamp
  run_updated_at :: timestamp
  run_closed_at :: "timestamp option"

record task =
  t_id :: task_id
  t_run_id :: run_id
  t_title :: string
  t_spec :: string
  t_acceptance :: string
  t_after :: "task_id list"
  t_mode :: work_mode
  t_allow_subruns :: bool
  t_status :: task_status
  t_attempts_used :: u32
  t_revision :: u64
  t_created_at :: timestamp
  t_updated_at :: timestamp
  t_feedback :: "string option"

record attempt_report =
  rep_outcome :: report_outcome
  rep_summary :: string
  rep_verification :: "string option"
  rep_result_path :: "string option"
  rep_reported_head :: "string option"
  rep_dirty_at_report :: bool
  rep_files_changed :: "string list"

record attempt =
  at_id :: attempt_id
  at_task_id :: task_id
  at_n :: u32
  at_session_id :: "session_id option"
  at_workspace_id :: "workspace_id option"
  at_branch :: "string option"
  at_base_commit :: "string option"
  at_provider_id :: agent_provider_id
  at_profile_id :: "agent_profile_id option"
  at_read_only :: bool
  at_phase :: attempt_phase
  at_outcome :: "report_outcome option"
  at_lost_reason :: "lost_reason option"
  at_report :: "attempt_report option"
  at_integrated_commit :: "string option"
  at_created_at :: timestamp
  at_settled_at :: "timestamp option"

definition live_phase :: "attempt_phase \<Rightarrow> bool" where
  "live_phase ph \<longleftrightarrow> ph = AP_Starting \<or> ph = AP_Running"

definition is_live :: "attempt \<Rightarrow> bool" where
  "is_live a \<longleftrightarrow> live_phase (at_phase a)"

record board_entry =
  be_run_id :: run_id
  be_key :: string
  be_value_json :: string
  be_version :: u64
  be_updated_by :: "session_id option"
  be_updated_at :: timestamp

datatype attention_kind =
    AK_Question | AK_Reported | AK_Waiting | AK_Stalled | AK_Starting | AK_ExitedWithoutReport
  | AK_IntegrationConflict | AK_Unrecognized

record attention_item =
  ai_kind :: attention_kind
  ai_task_id :: "task_id option"
  ai_attempt_id :: "attempt_id option"
  ai_message_id :: "context_id option"
  ai_text :: "string option"
  ai_outcome :: "report_outcome option"

record run_view =
  rv_run :: run
  rv_tasks :: "task list"
  rv_attempts :: "attempt list"
  rv_attention :: "attention_item list"
  rv_board_keys :: "string list"

record orchestration_limits =
  max_active_attempts_per_run :: u32
  max_tasks_per_run :: u32
  max_run_depth :: u32
  max_attempts_per_task :: u32
  stall_after :: duration
  waiting_attention_after :: duration
  starting_attention_after :: duration
  agent_may_integrate :: integrate_permission

definition default_limits :: orchestration_limits where
  "default_limits =
    \<lparr>max_active_attempts_per_run = DEFAULT_MAX_ACTIVE_ATTEMPTS,
     max_tasks_per_run = DEFAULT_MAX_TASKS,
     max_run_depth = DEFAULT_MAX_RUN_DEPTH,
     max_attempts_per_task = DEFAULT_MAX_ATTEMPTS,
     stall_after = from_secs DEFAULT_STALL_AFTER_SECS,
     waiting_attention_after = from_secs WAITING_ATTENTION_SECS,
     starting_attention_after = from_secs STARTING_ATTENTION_SECS,
     agent_may_integrate = IP_Pr\<rparr>"

record rail_refusal =
  rail :: string
  refusal_message :: string

definition rail_refusal_new :: "string \<Rightarrow> string \<Rightarrow> rail_refusal" where
  "rail_refusal_new r m = \<lparr>rail = r, refusal_message = m\<rparr>"

end
