(* ===== verification/Orch_Policy.thy ===== *)
theory Orch_Policy
  imports Orch_Types
begin

text \<open>
  The pure decisions of \<^verbatim>\<open>crates/domain/src/orchestration/policy.rs\<close>: how activity moves, when a
  report settles an attempt, the rails on starting work, promotion of ready tasks, the
  reconciliation after a daemon restart, attention and waking, addresses, the board's
  compare-and-set and the text clamp. The dependency-cycle check is in theory \<open>Orch_Graph\<close>.
\<close>

section \<open>Activity\<close>

datatype activity_trigger = Hook activity_state | Input | Silence | ProcessExit

definition apply_activity :: "agent_activity \<Rightarrow> activity_trigger \<Rightarrow> timestamp \<Rightarrow> agent_activity" where
  "apply_activity current trigger now =
    (let next_state =
       (case trigger of
          Silence \<Rightarrow> None
        | ProcessExit \<Rightarrow> None
        | Input \<Rightarrow>
            if act_state current = Act_Idle \<or> act_state current = Act_Waiting
            then Some Act_Working else None
        | Hook st \<Rightarrow>
            if st = Act_Working \<or> st = Act_Waiting \<or> st = Act_Idle then Some st else None)
     in case next_state of
          None \<Rightarrow> current
        | Some st \<Rightarrow>
            if st = act_state current then current
            else \<lparr>act_state = st, act_since = now,
                  act_evidence =
                    (case trigger of
                       Input \<Rightarrow> Some Ev_Input
                     | Hook _ \<Rightarrow> Some Ev_Hook
                     | ProcessExit \<Rightarrow> Some Ev_Exit
                     | Silence \<Rightarrow> None)\<rparr>)"

datatype pointer_verdict = PD_Type | PD_Queue | PD_Suppress

definition pointer_decision :: "activity_state \<Rightarrow> bool \<Rightarrow> bool \<Rightarrow> pointer_verdict" where
  "pointer_decision st inbox_watched typed_this_idle =
    (if inbox_watched then PD_Suppress
     else case st of
            Act_Idle \<Rightarrow> if \<not> typed_this_idle then PD_Type else PD_Suppress
          | Act_Working \<Rightarrow> PD_Queue
          | _ \<Rightarrow> PD_Suppress)"

text \<open>The dash in the line is U+2014, three bytes of UTF-8.\<close>

definition pointer_line :: "nat \<Rightarrow> string" where
  "pointer_line unread =
    (let n = max unread 1; noun = (if n = 1 then ''message'' else ''messages'')
     in ''Forge: '' @ show_nat n @ '' new '' @ noun @ '' for this task ''
        @ [CHR 0xE2, CHR 0x80, CHR 0x94] @ '' run: forgectl inbox'')"

section \<open>Settling an attempt\<close>

datatype report_refuse = Foreign | Superseded

definition settle_report ::
  "attempt_phase \<Rightarrow> session_id option \<Rightarrow> session_id option \<Rightarrow> bool \<Rightarrow> report_refuse + unit" where
  "settle_report phase attempt_session caller newer_attempt_exists =
    (if newer_attempt_exists \<or> \<not> live_phase phase then Inl Superseded
     else if caller = None \<or> caller \<noteq> attempt_session then Inl Foreign
     else Inr ())"

definition task_status_after_report :: "report_outcome \<Rightarrow> u32 \<Rightarrow> u32 \<Rightarrow> task_status" where
  "task_status_after_report outcome attempts_used max_attempts =
    (case outcome of
       RO_Blocked \<Rightarrow> TS_Blocked
     | RO_Done \<Rightarrow> TS_Review
     | RO_Unrecognized \<Rightarrow> TS_Review
     | RO_Failed \<Rightarrow> if max_attempts \<le> attempts_used then TS_Failed else TS_Review)"

definition task_status_after_loss :: "u32 \<Rightarrow> u32 \<Rightarrow> task_status" where
  "task_status_after_loss attempts_used max_attempts =
    (if max_attempts \<le> attempts_used then TS_Failed else TS_Ready)"

section \<open>Rails\<close>

definition allow_new_task :: "nat \<Rightarrow> orchestration_limits \<Rightarrow> rail_refusal + unit" where
  "allow_new_task existing limits =
    (if existing \<ge> unat (max_tasks_per_run limits) then
       Inl (rail_refusal_new ''max_tasks''
         (''run already has '' @ show_nat existing @ '' tasks (limit ''
          @ show_nat (unat (max_tasks_per_run limits)) @ '')''))
     else Inr ())"

definition allow_start ::
  "nat \<Rightarrow> u32 \<Rightarrow> work_mode \<Rightarrow> bool \<Rightarrow> orchestration_limits \<Rightarrow> rail_refusal + unit" where
  "allow_start active_in_run attempts_used mode workspace_has_writer limits =
    (if active_in_run \<ge> unat (max_active_attempts_per_run limits) then
       Inl (rail_refusal_new ''max_active_attempts''
         (''run already has '' @ show_nat active_in_run @ '' live attempts (limit ''
          @ show_nat (unat (max_active_attempts_per_run limits)) @ '')''))
     else if attempts_used \<ge> max_attempts_per_task limits then
       Inl (rail_refusal_new ''max_attempts''
         (''task already used '' @ show_nat (unat attempts_used) @ '' attempts (limit ''
          @ show_nat (unat (max_attempts_per_task limits)) @ '')''))
     else if mode = WM_Write \<and> workspace_has_writer then
       Inl (rail_refusal_new ''one_writer''
         ''this workspace already has a live writing attempt'')
     else Inr ())"

definition allow_nested_run :: "u32 \<Rightarrow> bool \<Rightarrow> orchestration_limits \<Rightarrow> rail_refusal + unit" where
  "allow_nested_run parent_depth parent_allows_subruns limits =
    (if \<not> parent_allows_subruns then
       Inl (rail_refusal_new ''subruns'' ''the parent task does not allow a nested run'')
     else
       let depth = saturating_add parent_depth 1 in
       if depth > max_run_depth limits then
         Inl (rail_refusal_new ''max_run_depth''
           (''nested run would be depth '' @ show_nat (unat depth) @ '' (limit ''
            @ show_nat (unat (max_run_depth limits)) @ '')''))
       else Inr ())"

definition allow_controller :: "session_id option \<Rightarrow> session_id option \<Rightarrow> rail_refusal + unit" where
  "allow_controller caller controller =
    (if caller = None then Inr ()
     else if caller = controller then Inr ()
     else Inl (rail_refusal_new ''controller_only''
            ''only the run's controller or a human may decide''))"

fun allow_agent_integrate :: "bool \<Rightarrow> integrate_permission \<Rightarrow> rail_refusal + unit" where
  "allow_agent_integrate False IP_None =
    Inl (rail_refusal_new ''agent_may_integrate''
      ''an agent controller may not merge into the integration branch'')"
| "allow_agent_integrate True IP_None =
    Inl (rail_refusal_new ''agent_may_integrate''
      ''an agent controller may not open a pull request'')"
| "allow_agent_integrate True IP_Merge =
    Inl (rail_refusal_new ''agent_may_integrate''
      ''an agent controller may not open a pull request'')"
| "allow_agent_integrate True IP_Pr = Inr ()"
| "allow_agent_integrate False IP_Merge = Inr ()"
| "allow_agent_integrate False IP_Pr = Inr ()"
| "allow_agent_integrate _ IP_Unrecognized =
    Inl (rail_refusal_new ''agent_may_integrate'' ''integration permission is not recognized'')"

section \<open>Dependencies\<close>

definition dependencies_met :: "task_id list \<Rightarrow> (task_id \<Rightarrow> task_status option) \<Rightarrow> bool" where
  "dependencies_met after status =
    list_all (\<lambda>i. case status i of None \<Rightarrow> False | Some st \<Rightarrow> satisfies_dependency st) after"

text \<open>
  Collecting pairs into a \<open>HashMap\<close> keeps the last pair of a key: \<^const>\<open>map_of\<close> of the reversed
  list.
\<close>

definition task_statuses :: "task list \<Rightarrow> task_id \<rightharpoonup> task_status" where
  "task_statuses tasks = map_of (rev (map (\<lambda>t. (t_id t, t_status t)) tasks))"

definition promote_ready :: "task list \<Rightarrow> task list" where
  "promote_ready tasks =
    (let statuses = task_statuses tasks in
     map (\<lambda>t. if t_status t = TS_Pending \<and> dependencies_met (t_after t) statuses
              then t\<lparr>t_status := TS_Ready\<rparr> else t) tasks)"

section \<open>After a daemon restart\<close>

record restart_reconcile =
  rr_runs :: "run list"
  rr_tasks :: "task list"
  rr_attempts :: "attempt list"

definition lose_attempt :: "timestamp \<Rightarrow> attempt \<Rightarrow> attempt" where
  "lose_attempt now a =
    (if is_live a
     then a\<lparr>at_phase := AP_Lost, at_lost_reason := Some LR_DaemonRestarted,
            at_outcome := None, at_settled_at := Some now\<rparr>
     else a)"

definition lost_tasks :: "attempt list \<Rightarrow> task_id set" where
  "lost_tasks attempts = set (map at_task_id (filter is_live attempts))"

definition reconcile_task :: "task_id set \<Rightarrow> orchestration_limits \<Rightarrow> timestamp \<Rightarrow> task \<Rightarrow> task" where
  "reconcile_task lost limits now t =
    (if t_id t \<in> lost \<and> (t_status t = TS_Active \<or> t_status t = TS_Blocked)
     then t\<lparr>t_status := task_status_after_loss (t_attempts_used t) (max_attempts_per_task limits),
            t_updated_at := now, t_revision := saturating_add (t_revision t) 1\<rparr>
     else t)"

definition interrupt_run :: "timestamp \<Rightarrow> run \<Rightarrow> run" where
  "interrupt_run now r =
    (if run_status r = RS_Active
     then r\<lparr>run_status := RS_Interrupted, run_updated_at := now,
            run_revision := saturating_add (run_revision r) 1\<rparr>
     else r)"

definition reconcile_restart ::
  "run list \<Rightarrow> task list \<Rightarrow> attempt list \<Rightarrow> orchestration_limits \<Rightarrow> timestamp \<Rightarrow> restart_reconcile"
where
  "reconcile_restart runs tasks attempts limits now =
    \<lparr>rr_runs = map (interrupt_run now) runs,
     rr_tasks = map (reconcile_task (lost_tasks attempts) limits now) tasks,
     rr_attempts = map (lose_attempt now) attempts\<rparr>"

section \<open>Attention\<close>

record question_fact =
  q_id :: context_id
  q_task_id :: "task_id option"
  q_text :: string
  q_answered :: bool

record attempt_fact =
  af_attempt :: attempt
  af_activity :: activity_state
  af_activity_since :: timestamp
  af_session_exited :: bool

definition attempt_item :: "attention_kind \<Rightarrow> attempt \<Rightarrow> attention_item" where
  "attempt_item kind a =
    \<lparr>ai_kind = kind, ai_task_id = Some (at_task_id a), ai_attempt_id = Some (at_id a),
     ai_message_id = None, ai_text = None, ai_outcome = None\<rparr>"

definition question_items :: "question_fact \<Rightarrow> attention_item list" where
  "question_items q =
    (if q_answered q then []
     else [\<lparr>ai_kind = AK_Question, ai_task_id = q_task_id q, ai_attempt_id = None,
            ai_message_id = Some (q_id q), ai_text = Some (q_text q), ai_outcome = None\<rparr>])"

definition reported_items :: "attempt \<Rightarrow> attention_item list" where
  "reported_items a =
    (if at_phase a = AP_Reported then
       (case at_report a of
          None \<Rightarrow> []
        | Some rep \<Rightarrow> [(attempt_item AK_Reported a)
              \<lparr>ai_text := Some (rep_summary rep), ai_outcome := Some (rep_outcome rep)\<rparr>])
     else [])"

definition stale_items :: "attempt_fact \<Rightarrow> timestamp \<Rightarrow> orchestration_limits \<Rightarrow> attention_item list" where
  "stale_items f now limits =
    (let a = af_attempt f; elapsed = elapsed_since (af_activity_since f) now in
     if \<not> is_live a then []
     else case af_activity f of
            Act_Waiting \<Rightarrow>
              if elapsed \<ge> waiting_attention_after limits then [attempt_item AK_Waiting a] else []
          | Act_Idle \<Rightarrow>
              if elapsed \<ge> stall_after limits then [attempt_item AK_Stalled a] else []
          | Act_Starting \<Rightarrow>
              if elapsed \<ge> starting_attention_after limits then [attempt_item AK_Starting a] else []
          | _ \<Rightarrow> [])"

definition fact_items :: "timestamp \<Rightarrow> orchestration_limits \<Rightarrow> attempt_fact \<Rightarrow> attention_item list" where
  "fact_items now limits f =
    reported_items (af_attempt f)
    @ (if at_lost_reason (af_attempt f) = Some LR_ExitedWithoutReport
       then [attempt_item AK_ExitedWithoutReport (af_attempt f)] else [])
    @ stale_items f now limits"

definition conflict_item :: attention_item where
  "conflict_item = \<lparr>ai_kind = AK_IntegrationConflict, ai_task_id = None, ai_attempt_id = None,
     ai_message_id = None, ai_text = None, ai_outcome = None\<rparr>"

definition attention ::
  "question_fact list \<Rightarrow> attempt_fact list \<Rightarrow> bool \<Rightarrow> timestamp \<Rightarrow> orchestration_limits
    \<Rightarrow> attention_item list"
where
  "attention questions attempts integration_conflict now limits =
    concat (map question_items questions)
    @ concat (map (fact_items now limits) attempts)
    @ (if integration_conflict then [conflict_item] else [])"

section \<open>Addresses and identifier prefixes\<close>

datatype address = Addr_Controller | Addr_Task task_id | Addr_Session session_id | Addr_Run run_id

datatype address_error = AE_Empty | AE_BadPrefix | AE_Unknown

datatype delivery_target = DT_Session session_id | DT_HumanController

record live_attempt =
  la_task_id :: task_id
  la_session_id :: "session_id option"
  la_n :: u32
  la_live :: bool

text \<open>\<open>Iterator::max_by_key\<close> returns the last of several greatest elements.\<close>

fun max_by_key :: "('a \<Rightarrow> 'k::linorder) \<Rightarrow> 'a list \<Rightarrow> 'a option" where
  "max_by_key f [] = None"
| "max_by_key f (x # xs) =
    (case max_by_key f xs of
       None \<Rightarrow> Some x
     | Some y \<Rightarrow> if f y < f x then Some x else Some y)"

definition resolve_address ::
  "address \<Rightarrow> session_id option \<Rightarrow> live_attempt list \<Rightarrow> address_error + delivery_target list" where
  "resolve_address addr controller attempts =
    (case addr of
       Addr_Controller \<Rightarrow>
         Inr [case controller of Some s \<Rightarrow> DT_Session s | None \<Rightarrow> DT_HumanController]
     | Addr_Session s \<Rightarrow> Inr [DT_Session s]
     | Addr_Task t \<Rightarrow>
         (case Option.bind
                 (max_by_key (\<lambda>a. (la_live a, la_n a))
                   (filter (\<lambda>a. la_task_id a = t \<and> la_session_id a \<noteq> None) attempts))
                 la_session_id of
            Some s \<Rightarrow> Inr [DT_Session s]
          | None \<Rightarrow> Inl AE_Unknown)
     | Addr_Run _ \<Rightarrow>
         Inr (concat (map (\<lambda>a. if la_live a
                               then (case la_session_id a of Some s \<Rightarrow> [DT_Session s] | None \<Rightarrow> [])
                               else []) attempts)))"

datatype parsed_address = PA_Controller | PA_Task string | PA_Session string | PA_Run string

definition parse_address :: "string \<Rightarrow> address_error + parsed_address" where
  "parse_address raw0 =
    (let raw = trim raw0 in
     if raw = [] then Inl AE_Empty
     else if raw = ''controller'' then Inr PA_Controller
     else case split_once (CHR '':'') raw of
            None \<Rightarrow> Inl AE_BadPrefix
          | Some (kind, i) \<Rightarrow>
              if length i < MIN_ID_PREFIX then Inl AE_BadPrefix
              else if kind = ''task'' then Inr (PA_Task i)
              else if kind = ''session'' then Inr (PA_Session i)
              else if kind = ''run'' then Inr (PA_Run i)
              else Inl AE_BadPrefix)"

datatype prefix_error = PE_TooShort | PE_None | PE_Ambiguous

fun resolve_prefix_loop ::
  "('a \<Rightarrow> string) \<Rightarrow> string \<Rightarrow> 'a option \<Rightarrow> 'a list \<Rightarrow> prefix_error + 'a" where
  "resolve_prefix_loop to_string raw found [] =
    (case found of Some c \<Rightarrow> Inr c | None \<Rightarrow> Inl PE_None)"
| "resolve_prefix_loop to_string raw found (c # cs) =
    (let txt = to_string c in
     if txt = raw then Inr c
     else if prefix raw txt then
       (if found \<noteq> None then Inl PE_Ambiguous
        else resolve_prefix_loop to_string raw (Some c) cs)
     else resolve_prefix_loop to_string raw found cs)"

definition resolve_prefix :: "('a \<Rightarrow> string) \<Rightarrow> 'a list \<Rightarrow> string \<Rightarrow> prefix_error + 'a" where
  "resolve_prefix to_string candidates raw0 =
    (let raw = trim raw0 in
     if length raw < MIN_ID_PREFIX then Inl PE_TooShort
     else resolve_prefix_loop to_string raw None candidates)"

section \<open>The board: compare-and-set, keys and values\<close>

datatype cas_outcome = Created | Updated u64 | Mismatch u64

definition compare_and_set :: "u64 option \<Rightarrow> u64 \<Rightarrow> cas_outcome" where
  "compare_and_set current if_version =
    (case current of
       None \<Rightarrow> if if_version = 0 then Created else Mismatch 0
     | Some version \<Rightarrow>
         if version = if_version \<and> if_version \<noteq> 0 then Updated (saturating_add version 1)
         else Mismatch version)"

datatype board_write = AddsKey | KeepsKeyCount

definition board_is_full :: "nat \<Rightarrow> board_write \<Rightarrow> bool" where
  "board_is_full existing_keys w \<longleftrightarrow> w = AddsKey \<and> existing_keys \<ge> MAX_BOARD_KEYS"

definition board_key_byte :: "char \<Rightarrow> bool" where
  "board_key_byte c \<longleftrightarrow>
    (97 \<le> byte_of c \<and> byte_of c \<le> 122) \<or> (48 \<le> byte_of c \<and> byte_of c \<le> 57)
    \<or> c = CHR ''.'' \<or> c = CHR ''_'' \<or> c = CHR ''/'' \<or> c = CHR ''-''"

definition valid_board_key :: "string \<Rightarrow> bool" where
  "valid_board_key key \<longleftrightarrow>
    key \<noteq> [] \<and> length key \<le> MAX_BOARD_KEY_BYTES \<and> list_all board_key_byte key"

datatype board_value_error = Oversize nat | NotJson

text \<open>\<open>is_json\<close> is whether \<open>serde_json::from_str\<close> accepts the text.\<close>

definition board_value :: "(string \<Rightarrow> bool) \<Rightarrow> string \<Rightarrow> board_value_error + string" where
  "board_value is_json raw =
    (if length raw > MAX_BOARD_VALUE_BYTES then Inl (Oversize (length raw))
     else if \<not> is_json raw then Inl NotJson
     else Inr raw)"

definition board_inline :: "board_entry list \<Rightarrow> nat \<Rightarrow> (string \<times> string) list" where
  "board_inline entries max_value_bytes =
    map (\<lambda>e. (be_key e, be_value_json e))
      (filter (\<lambda>e. length (be_value_json e) \<le> max_value_bytes) entries)"

section \<open>Clamping text to a byte budget\<close>

definition truncated_mark :: string where
  "truncated_mark = CHR 0x0A # ''[truncated]''"

definition clamp_text :: "string \<Rightarrow> nat \<Rightarrow> string \<times> bool" where
  "clamp_text input max_bytes =
    (if length input \<le> max_bytes then (input, False)
     else
       let budget = max_bytes - length truncated_mark;
           end0 = floor_boundary input (min budget (length input));
           out = take end0 input
                 @ (if max_bytes \<ge> length truncated_mark then truncated_mark else []);
           out' = (if length out > max_bytes then take max_bytes out else out)
       in (out', True))"

section \<open>Waiting for a run\<close>

datatype wait_kind = WK_Attention | WK_Reported | WK_Question | WK_Settled

fun parse_wait_part :: "string \<Rightarrow> wait_kind option" where
  "parse_wait_part p =
    (if p = ''attention'' then Some WK_Attention
     else if p = ''reported'' then Some WK_Reported
     else if p = ''question'' then Some WK_Question
     else if p = ''settled'' then Some WK_Settled
     else None)"

fun parse_wait_loop :: "string list \<Rightarrow> wait_kind list option" where
  "parse_wait_loop [] = Some []"
| "parse_wait_loop (raw # rest) =
    (let p = trim raw in
     if p = [] then parse_wait_loop rest
     else case parse_wait_part p of
            None \<Rightarrow> None
          | Some k \<Rightarrow> map_option (Cons k) (parse_wait_loop rest))"

text \<open>\<open>None\<close> is \<open>Err(WaitParseError)\<close>.\<close>

definition parse_wait_kinds :: "string \<Rightarrow> wait_kind list option" where
  "parse_wait_kinds raw =
    (case parse_wait_loop (split_char (CHR '','') raw) of
       None \<Rightarrow> None
     | Some kinds \<Rightarrow> if kinds = [] then None else Some kinds)"

definition task_filter_misses :: "task_id list \<Rightarrow> attention_item \<Rightarrow> bool" where
  "task_filter_misses task_filter item =
    (if task_filter = [] then False
     else case ai_task_id item of Some i \<Rightarrow> i \<notin> set task_filter | None \<Rightarrow> True)"

definition wake_hit :: "wait_kind \<Rightarrow> attention_item \<Rightarrow> bool" where
  "wake_hit k item =
    (case k of
       WK_Attention \<Rightarrow> True
     | WK_Reported \<Rightarrow> ai_kind item = AK_Reported
     | WK_Question \<Rightarrow> ai_kind item = AK_Question
     | WK_Settled \<Rightarrow> False)"

definition settled_item :: attention_item where
  "settled_item = \<lparr>ai_kind = AK_Unrecognized, ai_task_id = None, ai_attempt_id = None,
     ai_message_id = None, ai_text = Some ''settled'', ai_outcome = None\<rparr>"

definition matching_wake ::
  "wait_kind list \<Rightarrow> attention_item list \<Rightarrow> task_id list \<Rightarrow> bool \<Rightarrow> attention_item list" where
  "matching_wake kinds items task_filter run_settled =
    (let matched =
       filter (\<lambda>item.
           \<not> (task_filter \<noteq> [] \<and>
              (case ai_task_id item of Some i \<Rightarrow> i \<notin> set task_filter | None \<Rightarrow> False))
           \<and> \<not> task_filter_misses task_filter item
           \<and> list_ex (\<lambda>k. wake_hit k item) kinds) items
     in if WK_Settled \<in> set kinds \<and> run_settled \<and> matched = []
        then [settled_item] else matched)"

definition run_was_interrupted :: "run list \<Rightarrow> bool" where
  "run_was_interrupted runs = list_ex (\<lambda>r. run_status r = RS_Interrupted) runs"

definition limits_or_default :: "orchestration_limits option \<Rightarrow> orchestration_limits" where
  "limits_or_default limits = (case limits of None \<Rightarrow> default_limits | Some l \<Rightarrow> l)"

section \<open>Lemmas\<close>

lemma apply_activity_inert [simp]:
  "apply_activity a Silence now = a" "apply_activity a ProcessExit now = a"
  by (simp_all add: apply_activity_def)

lemma apply_activity_idle:
  "act_state (apply_activity a t now) = Act_Idle \<Longrightarrow> act_state a = Act_Idle \<or> t = Hook Act_Idle"
  by (cases t) (auto simp: apply_activity_def Let_def split: if_splits)

lemma apply_activity_evidence:
  "apply_activity a t now \<noteq> a \<Longrightarrow>
    act_since (apply_activity a t now) = now
    \<and> act_state (apply_activity a t now) \<noteq> act_state a
    \<and> (act_evidence (apply_activity a t now) = Some Ev_Input \<and> t = Input
       \<or> act_evidence (apply_activity a t now) = Some Ev_Hook \<and> (\<exists>st. t = Hook st))"
  by (cases t) (auto simp: apply_activity_def Let_def split: if_splits)

definition activity_trace :: "agent_activity \<Rightarrow> (activity_trigger \<times> timestamp) list \<Rightarrow> agent_activity" where
  "activity_trace a ts = foldl (\<lambda>a (t, now). apply_activity a t now) a ts"

lemma activity_trace_Nil [simp]: "activity_trace a [] = a"
  and activity_trace_Cons [simp]:
    "activity_trace a ((t, now) # ts) = activity_trace (apply_activity a t now) ts"
  by (simp_all add: activity_trace_def)

lemma activity_trace_idle:
  assumes "act_state (activity_trace a ts) = Act_Idle" and "act_state a \<noteq> Act_Idle"
  shows "\<exists>now. (Hook Act_Idle, now) \<in> set ts"
  using assms
proof (induction ts arbitrary: a)
  case Nil
  then show ?case by simp
next
  case (Cons e ts)
  obtain t now where e: "e = (t, now)" by (cases e)
  show ?case
  proof (cases "act_state (apply_activity a t now) = Act_Idle")
    case True
    then have "t = Hook Act_Idle" using Cons.prems(2) apply_activity_idle by blast
    then show ?thesis using e by auto
  next
    case False
    then show ?thesis using Cons e by auto
  qed
qed

lemma activity_trace_quiet:
  "\<forall>(t, now) \<in> set ts. t = Silence \<or> t = ProcessExit \<Longrightarrow> activity_trace a ts = a"
  by (induction ts) auto

text \<open>Promotion.\<close>

lemma promote_ready_ids: "map t_id (promote_ready ts) = map t_id ts"
  by (simp add: promote_ready_def Let_def)

lemma map_of_rev_map_fst:
  assumes "distinct (map t_id ts)"
  shows "task_statuses ts i = Some st \<longleftrightarrow> (\<exists>t \<in> set ts. t_id t = i \<and> t_status t = st)"
proof -
  let ?kv = "map (\<lambda>t. (t_id t, t_status t)) ts"
  have "distinct (map fst ?kv)" using assms by (simp add: comp_def)
  then have d: "distinct (map fst (rev ?kv))" by (simp add: rev_map [symmetric])
  then have "map_of (rev ?kv) i = Some st \<longleftrightarrow> (i, st) \<in> set (rev ?kv)"
    by (rule map_of_eq_Some_iff)
  then show ?thesis by (auto simp: task_statuses_def)
qed

definition promoted :: "(task_id \<rightharpoonup> task_status) \<Rightarrow> task \<Rightarrow> task" where
  "promoted sts t = (if t_status t = TS_Pending \<and> dependencies_met (t_after t) sts
     then t\<lparr>t_status := TS_Ready\<rparr> else t)"

lemma promote_ready_map: "promote_ready ts = map (promoted (task_statuses ts)) ts"
  by (simp add: promote_ready_def promoted_def Let_def)

lemma promoted_id [simp]: "t_id (promoted sts t) = t_id t"
  by (simp add: promoted_def)

lemma promoted_after [simp]: "t_after (promoted sts t) = t_after t"
  by (simp add: promoted_def)

text \<open>Promotion neither adds nor removes a satisfied dependency.\<close>

lemma promoted_satisfies [simp]:
  "satisfies_dependency (t_status (promoted sts t)) = satisfies_dependency (t_status t)"
  by (simp add: promoted_def)

lemma task_statuses_map:
  "(\<And>t. t_id (f t) = t_id t) \<Longrightarrow>
    task_statuses (map f ts) = (\<lambda>i. map_of (rev (map (\<lambda>t. (t_id t, t_status (f t))) ts)) i)"
  by (simp add: task_statuses_def comp_def)

lemma map_of_satisfies:
  "(\<And>t. satisfies_dependency (g t) = satisfies_dependency (h t)) \<Longrightarrow>
   (case map_of (map (\<lambda>t. (t_id t, g t)) xs) i of None \<Rightarrow> False | Some st \<Rightarrow> satisfies_dependency st)
    = (case map_of (map (\<lambda>t. (t_id t, h t)) xs) i of None \<Rightarrow> False | Some st \<Rightarrow> satisfies_dependency st)"
  by (induction xs) auto

lemma dependencies_met_promoted:
  "dependencies_met after (task_statuses (map (promoted sts) ts)) = dependencies_met after (task_statuses ts)"
proof -
  have "(case task_statuses (map (promoted sts) ts) i of None \<Rightarrow> False | Some st \<Rightarrow> satisfies_dependency st)
    = (case task_statuses ts i of None \<Rightarrow> False | Some st \<Rightarrow> satisfies_dependency st)" for i
    using map_of_satisfies [of "\<lambda>t. t_status (promoted sts t)" t_status "rev ts" i]
    by (simp add: task_statuses_def rev_map comp_def)
  then show ?thesis by (simp add: dependencies_met_def)
qed

lemma promote_ready_idem: "promote_ready (promote_ready ts) = promote_ready ts"
proof -
  let ?s = "task_statuses ts"
  have "promoted (task_statuses (map (promoted ?s) ts)) (promoted ?s t) = promoted ?s t" for t
    by (auto simp: promoted_def [of "task_statuses (map (promoted ?s) ts)"] dependencies_met_promoted)
      (auto simp: promoted_def)
  then show ?thesis by (simp add: promote_ready_map comp_def)
qed

text \<open>Restart.\<close>

lemma lose_attempt_not_live [simp]: "\<not> is_live (lose_attempt now a)"
  by (auto simp: lose_attempt_def is_live_def live_phase_def)

lemma lose_attempt_idem [simp]: "\<not> is_live a \<Longrightarrow> lose_attempt now a = a"
  by (simp add: lose_attempt_def)

lemma lost_tasks_after [simp]: "lost_tasks (map (lose_attempt now) as) = {}"
  by (auto simp: lost_tasks_def)

lemma interrupt_run_idem [simp]: "interrupt_run now' (interrupt_run now r) = interrupt_run now r"
  by (simp add: interrupt_run_def)

lemma reconcile_task_empty [simp]: "reconcile_task {} l now t = t"
  by (simp add: reconcile_task_def)

text \<open>Clamping.\<close>

lemma length_truncated_mark [simp]: "length truncated_mark = 12"
  by (simp add: truncated_mark_def)

lemma utf8_truncated_mark: "utf8_valid truncated_mark"
  by code_simp

lemma clamp_text_cut:
  assumes "max_bytes < length input"
  shows "clamp_text input max_bytes =
    (take (floor_boundary input (max_bytes - 12)) input
      @ (if 12 \<le> max_bytes then truncated_mark else []), True)"
proof -
  let ?e = "floor_boundary input (max_bytes - 12)"
  have m: "min (max_bytes - 12) (length input) = max_bytes - 12" using assms by simp
  have "?e \<le> max_bytes - 12" by (rule floor_boundary_le)
  then show ?thesis using assms m by (auto simp: clamp_text_def Let_def)
qed

text \<open>Addresses.\<close>

lemma max_by_key_Some_iff: "max_by_key f xs = None \<longleftrightarrow> xs = []"
  by (cases xs) (auto split: option.splits)

lemma max_by_key_max:
  "max_by_key f xs = Some x \<Longrightarrow> x \<in> set xs \<and> (\<forall>y \<in> set xs. f y \<le> f x)"
proof (induction xs arbitrary: x)
  case Nil
  then show ?case by simp
next
  case (Cons a xs)
  show ?case
  proof (cases "max_by_key f xs")
    case None
    then have "xs = []" by (simp add: max_by_key_Some_iff)
    then show ?thesis using Cons.prems by simp
  next
    case (Some y)
    then have "y \<in> set xs" "\<forall>z \<in> set xs. f z \<le> f y" using Cons.IH by auto
    then show ?thesis using Cons.prems Some by (auto split: if_splits)
  qed
qed

text \<open>Prefixes: with display forms that are pairwise different and equally long, the loop finds the
  one candidate that starts with the prefix.\<close>

definition uniform :: "('a \<Rightarrow> string) \<Rightarrow> 'a list \<Rightarrow> bool" where
  "uniform to_string cs \<longleftrightarrow> distinct (map to_string cs)
     \<and> (\<forall>c \<in> set cs. \<forall>d \<in> set cs. length (to_string c) = length (to_string d))"

definition matches :: "('a \<Rightarrow> string) \<Rightarrow> string \<Rightarrow> 'a list \<Rightarrow> 'a list" where
  "matches to_string raw cs = filter (\<lambda>c. prefix raw (to_string c)) cs"

lemma resolve_prefix_loop_matches:
  assumes "\<forall>c \<in> set cs. \<forall>d \<in> set cs \<union> set_option found. to_string c = raw \<longrightarrow>
      prefix raw (to_string d) \<longrightarrow> d = c"
    and "\<forall>c \<in> set_option found. prefix raw (to_string c)" and "distinct cs"
    and "\<forall>c \<in> set_option found. c \<notin> set cs"
  shows "resolve_prefix_loop to_string raw found cs =
    (case (case found of None \<Rightarrow> [] | Some f \<Rightarrow> [f]) @ matches to_string raw cs of
       [] \<Rightarrow> Inl PE_None | [c] \<Rightarrow> Inr c | _ \<Rightarrow> Inl PE_Ambiguous)"
  using assms
proof (induction cs arbitrary: found)
  case Nil
  then show ?case by (simp add: matches_def split: option.splits)
next
  case (Cons c cs)
  show ?case
  proof (cases "to_string c = raw")
    case True
    have "matches to_string raw cs = []"
      using Cons.prems(1,3) True by (force simp: matches_def filter_empty_conv)
    moreover have "found = None"
    proof (rule ccontr)
      assume "found \<noteq> None"
      then obtain f where f: "found = Some f" by auto
      then have "f = c" using Cons.prems(1,2) True by auto
      then show False using Cons.prems(4) f by auto
    qed
    ultimately show ?thesis using True by (simp add: matches_def)
  next
    case False
    show ?thesis
    proof (cases "prefix raw (to_string c)")
      case True
      show ?thesis
      proof (cases found)
        case None
        have p1: "\<forall>x \<in> set cs. \<forall>d \<in> set cs \<union> set_option (Some c). to_string x = raw \<longrightarrow>
            prefix raw (to_string d) \<longrightarrow> d = x"
          using Cons.prems(1) by (metis UnCI UnE insert_iff list.set(2) option.simps(15) singletonD)
        have p2: "\<forall>d \<in> set_option (Some c). prefix raw (to_string d)" using True by simp
        have p3: "distinct cs" and p4: "\<forall>d \<in> set_option (Some c). d \<notin> set cs"
          using Cons.prems(3) by simp_all
        have "resolve_prefix_loop to_string raw (Some c) cs =
          (case [c] @ matches to_string raw cs of
             [] \<Rightarrow> Inl PE_None | [c] \<Rightarrow> Inr c | _ \<Rightarrow> Inl PE_Ambiguous)"
          using Cons.IH [of "Some c", OF p1 p2 p3 p4] by simp
        then show ?thesis using None False True by (simp add: matches_def)
      next
        case (Some f)
        then show ?thesis using False True by (simp add: matches_def)
      qed
    next
      case np: False
      have "resolve_prefix_loop to_string raw found cs =
        (case (case found of None \<Rightarrow> [] | Some f \<Rightarrow> [f]) @ matches to_string raw cs of
           [] \<Rightarrow> Inl PE_None | [c] \<Rightarrow> Inr c | _ \<Rightarrow> Inl PE_Ambiguous)"
      proof (rule Cons.IH)
        show "\<forall>x \<in> set cs. \<forall>d \<in> set cs \<union> set_option found. to_string x = raw \<longrightarrow>
            prefix raw (to_string d) \<longrightarrow> d = x" using Cons.prems(1) by simp
        show "\<forall>c \<in> set_option found. prefix raw (to_string c)" by (fact Cons.prems(2))
        show "distinct cs" using Cons.prems(3) by simp
        show "\<forall>x \<in> set_option found. x \<notin> set cs" using Cons.prems(4) by simp
      qed
      then show ?thesis using False np by (simp add: matches_def)
    qed
  qed
qed

lemma resolve_prefix_uniform:
  assumes "uniform to_string cs" and "MIN_ID_PREFIX \<le> length (trim raw)"
  shows "resolve_prefix to_string cs raw =
    (case matches to_string (trim raw) cs of
       [] \<Rightarrow> Inl PE_None | [c] \<Rightarrow> Inr c | _ \<Rightarrow> Inl PE_Ambiguous)"
proof -
  have d: "distinct cs" using assms(1) by (auto simp: uniform_def distinct_map)
  have u: "d = c" if "c \<in> set cs" "d \<in> set cs" "to_string c = trim raw" "prefix (trim raw) (to_string d)" for c d
  proof -
    have "length (to_string c) = length (to_string d)" using assms(1) that by (auto simp: uniform_def)
    then have "to_string c = to_string d" using that by (auto simp: prefix_def)
    then show ?thesis using assms(1) that by (auto simp: uniform_def distinct_map inj_on_def)
  qed
  show ?thesis
    using resolve_prefix_loop_matches [of cs None to_string "trim raw"] u d assms(2)
    by (auto simp: resolve_prefix_def Let_def)
qed

text \<open>Attention never goes away with time alone.\<close>

lemma stale_items_mono:
  "now \<le> now' \<Longrightarrow> set (stale_items f now l) \<subseteq> set (stale_items f now' l)"
  using elapsed_since_mono [of now now' "af_activity_since f"]
  by (auto simp: stale_items_def Let_def split: activity_state.splits)

lemma fact_items_mono: "now \<le> now' \<Longrightarrow> set (fact_items now l f) \<subseteq> set (fact_items now' l f)"
  using stale_items_mono [of now now' f l] by (auto simp: fact_items_def)


section \<open>Properties\<close>

text \<open>
  An agent is only ever believed idle because its own hook said so: whatever mixture of
  terminal input, silence, process exit and hook events is applied to an activity that is not
  idle, the result is idle only if a hook reported idle; and silence and exit alone leave the
  activity, its time stamp and its evidence exactly as they were.
\<close>

theorem activity_idle_only_by_hook:
  "(act_state a \<noteq> Act_Idle \<and> act_state (activity_trace a ts) = Act_Idle
      \<longrightarrow> (\<exists>now. (Hook Act_Idle, now) \<in> set ts))
   \<and> (fst ` set ts \<subseteq> {Silence, ProcessExit} \<longrightarrow> activity_trace a ts = a)"
  using activity_trace_idle [of a ts] activity_trace_quiet [of ts a] by fastforce

theorem activity_idle_only_by_hook_witness:
  "\<exists>now. (Hook Act_Idle, now) \<in> set [(Silence, UNIX_EPOCH), (Hook Act_Idle, UNIX_EPOCH)]"
proof -
  let ?a = "\<lparr>act_state = Act_Working, act_since = UNIX_EPOCH, act_evidence = None\<rparr>"
  have "act_state (activity_trace ?a [(Silence, UNIX_EPOCH), (Hook Act_Idle, UNIX_EPOCH)]) = Act_Idle"
    by (simp add: apply_activity_def)
  then show ?thesis
    using activity_idle_only_by_hook [of ?a "[(Silence, UNIX_EPOCH), (Hook Act_Idle, UNIX_EPOCH)]"]
    by simp
qed

text \<open>
  \<^const>\<open>promote_ready\<close> promotes exactly the pending tasks all of whose dependencies exist and
  are satisfied, changes nothing else of any task nor their order, and promoting twice is
  promoting once (one pass is enough because becoming ready satisfies nobody).
\<close>

theorem promote_ready_exact:
  "promote_ready (promote_ready ts) = promote_ready ts
   \<and> promote_ready ts = map (\<lambda>t. t\<lparr>t_status :=
       (if t_status t = TS_Pending
           \<and> set (t_after t) \<subseteq> {i. \<exists>st. task_statuses ts i = Some st \<and> satisfies_dependency st}
        then TS_Ready else t_status t)\<rparr>) ts"
proof -
  have "dependencies_met (t_after t) (task_statuses ts) \<longleftrightarrow>
      set (t_after t) \<subseteq> {i. \<exists>st. task_statuses ts i = Some st \<and> satisfies_dependency st}" for t :: task
    by (auto simp: dependencies_met_def list_all_iff split: option.splits)
  then have "promoted (task_statuses ts) t = t\<lparr>t_status :=
       (if t_status t = TS_Pending
           \<and> set (t_after t) \<subseteq> {i. \<exists>st. task_statuses ts i = Some st \<and> satisfies_dependency st}
        then TS_Ready else t_status t)\<rparr>" for t :: task
    by (simp add: promoted_def)
  then show ?thesis by (simp add: promote_ready_idem) (simp add: promote_ready_map)
qed

text \<open>
  C26: After a restart no attempt is live and no run is active, whatever the tables held: a live attempt
  is lost, an active run interrupted, and every other attempt and run is left as it was, each in its place;
  a task is touched only
  if a live attempt of it was lost while it was active or blocked, and then it is ready again or,
  with its attempts used up, failed; and reconciling a second time changes nothing.
\<close>

theorem reconcile_restart_settles:
  "let r = reconcile_restart runs tasks attempts limits now in
    filter is_live (rr_attempts r) = []
    \<and> filter (\<lambda>x. run_status x = RS_Active) (rr_runs r) = []
    \<and> filter (\<lambda>a. at_lost_reason a \<noteq> Some LR_DaemonRestarted) (rr_attempts r)
        = filter (\<lambda>a. at_lost_reason a \<noteq> Some LR_DaemonRestarted) (filter (Not \<circ> is_live) attempts)
    \<and> rr_tasks r = map (\<lambda>t.
        if (\<exists>a \<in> set attempts. is_live a \<and> at_task_id a = t_id t) \<and> t_status t \<in> {TS_Active, TS_Blocked}
        then t\<lparr>t_status := (if t_attempts_used t \<ge> max_attempts_per_task limits then TS_Failed else TS_Ready),
               t_updated_at := now, t_revision := saturating_add (t_revision t) 1\<rparr>
        else t) tasks
    \<and> list_all2 (\<lambda>x x'. if run_status x = RS_Active
         then run_status x' = RS_Interrupted \<and> run_id x' = run_id x \<and> run_closed_at x' = run_closed_at x else x' = x) runs (rr_runs r)
    \<and> list_all2 (\<lambda>a a'. if is_live a
         then at_phase a' = AP_Lost \<and> at_lost_reason a' = Some LR_DaemonRestarted \<and> at_id a' = at_id a
           \<and> at_task_id a' = at_task_id a \<and> at_n a' = at_n a \<and> at_report a' = at_report a
         else a' = a) attempts (rr_attempts r)
    \<and> reconcile_restart (rr_runs r) (rr_tasks r) (rr_attempts r) limits now' = r"
proof -
  have l: "t_id t \<in> lost_tasks attempts \<longleftrightarrow> (\<exists>a \<in> set attempts. is_live a \<and> at_task_id a = t_id t)" for t
    by (auto simp: lost_tasks_def intro: rev_image_eqI)
  have a: "filter (\<lambda>a. at_lost_reason a \<noteq> Some LR_DaemonRestarted) (map (lose_attempt now) as)
      = filter (\<lambda>a. at_lost_reason a \<noteq> Some LR_DaemonRestarted) (filter (Not \<circ> is_live) as)" for as
    by (induction as) (auto simp: lose_attempt_def)
  have r: "filter (\<lambda>x. run_status x = RS_Active) (map (interrupt_run now) rs) = []" for rs
    by (induction rs) (auto simp: interrupt_run_def)
  have t: "map (reconcile_task (lost_tasks attempts) limits now) tasks = map (\<lambda>t.
        if (\<exists>a \<in> set attempts. is_live a \<and> at_task_id a = t_id t) \<and> t_status t \<in> {TS_Active, TS_Blocked}
        then t\<lparr>t_status := (if t_attempts_used t \<ge> max_attempts_per_task limits then TS_Failed else TS_Ready),
               t_updated_at := now, t_revision := saturating_add (t_revision t) 1\<rparr>
        else t) tasks"
    by (rule map_cong) (auto simp: reconcile_task_def l task_status_after_loss_def)
  have r2: "list_all2 (\<lambda>x x'. if run_status x = RS_Active
      then run_status x' = RS_Interrupted \<and> run_id x' = run_id x \<and> run_closed_at x' = run_closed_at x else x' = x)
      runs (map (interrupt_run now) runs)"
    unfolding list_all2_map2 by (rule list_all2_refl) (simp add: interrupt_run_def)
  have a2: "list_all2 (\<lambda>a a'. if is_live a
      then at_phase a' = AP_Lost \<and> at_lost_reason a' = Some LR_DaemonRestarted \<and> at_id a' = at_id a
        \<and> at_task_id a' = at_task_id a \<and> at_n a' = at_n a \<and> at_report a' = at_report a
      else a' = a) attempts (map (lose_attempt now) attempts)"
    unfolding list_all2_map2 by (rule list_all2_refl) (simp add: lose_attempt_def)
  show ?thesis
    unfolding Let_def reconcile_restart_def restart_reconcile.simps t [symmetric] a r
    using r2 a2 by (simp add: filter_empty_conv comp_def reconcile_task_empty [abs_def])
qed

text \<open>
  \<^const>\<open>clamp_text\<close> on valid UTF-8 never exceeds the byte budget, always returns valid UTF-8, says
  truncated exactly when the input was too long, returns a short input unchanged, and otherwise
  returns a prefix of the input followed by the mark when the budget has room for it.
\<close>

theorem clamp_text_bounded:
  assumes "utf8_valid input"
  shows "length (fst (clamp_text input max_bytes)) \<le> max_bytes
    \<and> utf8_valid (fst (clamp_text input max_bytes))
    \<and> (snd (clamp_text input max_bytes) \<longleftrightarrow> max_bytes < length input)
    \<and> (length input \<le> max_bytes \<longrightarrow> fst (clamp_text input max_bytes) = input)
    \<and> (max_bytes < length input \<longrightarrow>
        (\<exists>p. prefix p input \<and> length p \<le> max_bytes - 12 \<and>
          fst (clamp_text input max_bytes) = p @ (if 12 \<le> max_bytes then truncated_mark else [])))"
proof (cases "length input \<le> max_bytes")
  case True
  then show ?thesis using assms by (simp add: clamp_text_def)
next
  case False
  let ?p = "take (floor_boundary input (max_bytes - 12)) input"
  have c: "clamp_text input max_bytes = (?p @ (if 12 \<le> max_bytes then truncated_mark else []), True)"
    using clamp_text_cut False by simp
  have v: "utf8_valid ?p" using assms by (intro utf8_take floor_boundary_is_boundary)
  have le: "length ?p \<le> max_bytes - 12" using floor_boundary_le [of input "max_bytes - 12"] by simp
  have vm: "utf8_valid (?p @ truncated_mark)" using v utf8_truncated_mark by (simp add: utf8_valid_append)
  have "prefix ?p input" by (rule take_is_prefix)
  then show ?thesis using False v vm le unfolding c by auto
qed

theorem clamp_text_bounded_witness:
  "length (fst (clamp_text ''abcdefghijklmnopq'' 14)) \<le> 14
   \<and> fst (clamp_text ''abcdefghijklmnopq'' 14) = ''ab'' @ truncated_mark"
proof -
  have v: "utf8_valid ''abcdefghijklmnopq''" by code_simp
  have e: "fst (clamp_text ''abcdefghijklmnopq'' 14) = ''ab'' @ truncated_mark" by code_simp
  show ?thesis using clamp_text_bounded [OF v, of 14] e by blast
qed

text \<open>
  Abbreviated identifiers are never resolved to the wrong thing: when the candidates print to
  different texts of one length (as UUIDs do), a prefix of at least \<^const>\<open>MIN_ID_PREFIX\<close> bytes
  resolves to a candidate exactly when that is the only one it starts, is ambiguous exactly when
  it starts several and unknown exactly when it starts none; a shorter one is refused.
\<close>

theorem resolve_prefix_unique:
  assumes "uniform to_string cs"
  shows "(resolve_prefix to_string cs raw = Inl PE_TooShort \<longleftrightarrow> length (trim raw) < MIN_ID_PREFIX)
    \<and> (MIN_ID_PREFIX \<le> length (trim raw) \<longrightarrow>
        (\<forall>c. resolve_prefix to_string cs raw = Inr c \<longleftrightarrow> matches to_string (trim raw) cs = [c])
        \<and> (resolve_prefix to_string cs raw = Inl PE_Ambiguous
             \<longleftrightarrow> 2 \<le> length (matches to_string (trim raw) cs))
        \<and> (resolve_prefix to_string cs raw = Inl PE_None \<longleftrightarrow> matches to_string (trim raw) cs = []))"
proof (cases "MIN_ID_PREFIX \<le> length (trim raw)")
  case True
  show ?thesis unfolding resolve_prefix_uniform [OF assms True] using True
    by (auto split: list.splits)
next
  case False
  then show ?thesis by (simp add: resolve_prefix_def Let_def)
qed

theorem resolve_prefix_unique_witness:
  "resolve_prefix id [''0123456789'', ''0123456700''] ''01234567 '' = Inl PE_Ambiguous"
proof -
  have u: "uniform id [''0123456789'', ''0123456700'']" by (simp add: uniform_def)
  have t: "trim ''01234567 '' = ''01234567''" by code_simp
  have m: "length (matches id ''01234567'' [''0123456789'', ''0123456700'']) = 2"
    by (simp add: matches_def)
  show ?thesis using resolve_prefix_unique [OF u, of "''01234567 ''"] unfolding t m
    by (simp add: MIN_ID_PREFIX_def)
qed

text \<open>
  A message addressed to a task reaches a session of that task if any attempt has one, and no
  attempt with a session outranks the one chosen: a live attempt wins over a settled one and a
  later attempt over an earlier one; a run-wide message reaches the live attempts only.
\<close>

theorem resolve_address_task:
  "(resolve_address (Addr_Task t) controller attempts = Inl AE_Unknown \<longleftrightarrow>
      filter (\<lambda>a. la_task_id a = t \<and> la_session_id a \<noteq> None) attempts = [])
   \<and> (resolve_address (Addr_Task t) controller attempts \<noteq> Inl AE_Unknown \<longrightarrow>
      (\<exists>a s. a \<in> set attempts \<and> la_task_id a = t \<and> la_session_id a = Some s
        \<and> resolve_address (Addr_Task t) controller attempts = Inr [DT_Session s]
        \<and> (\<forall>b \<in> set attempts. la_task_id b = t \<and> la_session_id b \<noteq> None \<longrightarrow>
             (la_live b \<longrightarrow> la_live a) \<and> (la_live b = la_live a \<longrightarrow> la_n b \<le> la_n a))))
   \<and> (\<exists>ts. resolve_address (Addr_Run r) controller attempts = Inr ts
        \<and> set ts = {DT_Session s | a s. a \<in> set attempts \<and> la_live a \<and> la_session_id a = Some s})"
proof -
  let ?c = "filter (\<lambda>a. la_task_id a = t \<and> la_session_id a \<noteq> None) attempts"
  let ?k = "\<lambda>a. (la_live a, la_n a)"
  have run: "\<exists>ts. resolve_address (Addr_Run r) controller attempts = Inr ts
        \<and> set ts = {DT_Session s | a s. a \<in> set attempts \<and> la_live a \<and> la_session_id a = Some s}"
    by (force simp: resolve_address_def split: option.splits if_splits)
  show ?thesis
  proof (cases "max_by_key ?k ?c")
    case None
    then have "?c = []" by (simp add: max_by_key_Some_iff)
    then show ?thesis using run by (simp add: resolve_address_def)
  next
    case (Some a)
    then have a: "a \<in> set ?c" "\<forall>b \<in> set ?c. ?k b \<le> ?k a" using max_by_key_max [OF Some] by auto
    then obtain s where s: "la_session_id a = Some s" by auto
    then have r: "resolve_address (Addr_Task t) controller attempts = Inr [DT_Session s]"
      using Some by (simp add: resolve_address_def)
    have best: "(la_live b \<longrightarrow> la_live a) \<and> (la_live b = la_live a \<longrightarrow> la_n b \<le> la_n a)"
      if "b \<in> set attempts" "la_task_id b = t" "la_session_id b \<noteq> None" for b
    proof -
      have "?k b \<le> ?k a" using a(2) that by simp
      then show ?thesis by (auto simp: less_eq_prod_def)
    qed
    have "?c \<noteq> []" using a(1) by (metis empty_iff empty_set)
    then show ?thesis using run r best a(1) s by auto
  qed
qed

theorem resolve_address_task_witness:
  "let a = \<lparr>la_task_id = TaskId 1, la_session_id = Some (SessionId 1), la_n = 1, la_live = True\<rparr>;
       b = \<lparr>la_task_id = TaskId 1, la_session_id = Some (SessionId 2), la_n = 2, la_live = False\<rparr>
   in resolve_address (Addr_Task (TaskId 1)) None [a, b] = Inr [DT_Session (SessionId 1)]"
proof -
  let ?a = "\<lparr>la_task_id = TaskId 1, la_session_id = Some (SessionId 1), la_n = 1, la_live = True\<rparr>"
  let ?b = "\<lparr>la_task_id = TaskId 1, la_session_id = Some (SessionId 2), la_n = 2, la_live = False\<rparr>"
  have "resolve_address (Addr_Task (TaskId 1)) None [?a, ?b] \<noteq> Inl AE_Unknown"
    by (simp add: resolve_address_def less_eq_prod_def less_prod_def)
  then obtain x s where "x \<in> set [?a, ?b]" "la_session_id x = Some s"
      "resolve_address (Addr_Task (TaskId 1)) None [?a, ?b] = Inr [DT_Session s]"
      "\<forall>b \<in> set [?a, ?b]. la_task_id b = TaskId 1 \<and> la_session_id b \<noteq> None \<longrightarrow>
         (la_live b \<longrightarrow> la_live x) \<and> (la_live b = la_live x \<longrightarrow> la_n b \<le> la_n x)"
    using resolve_address_task [of "TaskId 1" None "[?a, ?b]"] by blast
  then show ?thesis by auto
qed

text \<open>
  Time alone never clears attention: with the same facts, everything that asked for attention
  earlier still does later, so a stall, a wait or a silent start stays reported until something
  happens.
\<close>

theorem attention_monotone:
  assumes "now \<le> now'"
  shows "set (attention questions attempts conflict now limits)
    \<subseteq> set (attention questions attempts conflict now' limits)"
proof -
  have "x \<in> set (fact_items now' limits f)" if "x \<in> set (fact_items now limits f)" for x f
    using fact_items_mono [OF assms] that by blast
  then show ?thesis by (auto simp: attention_def)
qed

theorem attention_monotone_witness:
  "set (attention [] [] True UNIX_EPOCH default_limits)
    \<subseteq> set (attention [] [] True (Timestamp 5) default_limits)"
proof -
  have "UNIX_EPOCH \<le> Timestamp 5" by (simp add: UNIX_EPOCH_def less_eq_timestamp_def)
  then show ?thesis by (rule attention_monotone)
qed

end
