(* ===== verification/Orch_Graph.thy ===== *)
theory Orch_Graph
  imports Orch_Types "HOL-Library.AList"
begin

text \<open>
  \<open>dependency_cycle\<close> of \<^verbatim>\<open>crates/domain/src/orchestration/policy.rs\<close>: the depth-first walk that
  refuses a task whose dependencies would make the task graph of a run cyclic. The graph is a
  \<open>HashMap\<close> from a task to its list of dependencies, here an association list; the order in
  which the map yields its keys is the parameter \<open>key_order\<close>.
\<close>

type_synonym dep_graph = "(task_id \<times> task_id list) list"

definition graph_extend :: "task_id \<Rightarrow> task_id list \<Rightarrow> dep_graph \<Rightarrow> dep_graph" where
  "graph_extend k vs g = AList.update k ((case map_of g k of None \<Rightarrow> [] | Some ds \<Rightarrow> ds) @ vs) g"

definition graph_of :: "(task_id \<times> task_id) list \<Rightarrow> task_id \<Rightarrow> task_id list \<Rightarrow> dep_graph" where
  "graph_of edges task after =
    graph_extend task after (foldl (\<lambda>g (src, dst). graph_extend src [dst] g) [] edges)"

text \<open>
  The walk returns its verdict with the \<open>seen\<close> and \<open>stack\<close> sets it was passed by reference;
  \<open>walk_deps\<close> is its inner loop.
\<close>

function (sequential)
  walk :: "dep_graph \<Rightarrow> task_id \<Rightarrow> task_id set \<Rightarrow> task_id set \<Rightarrow> bool \<times> task_id set \<times> task_id set"
  and walk_deps ::
    "dep_graph \<Rightarrow> task_id list \<Rightarrow> task_id set \<Rightarrow> task_id set \<Rightarrow> bool \<times> task_id set \<times> task_id set"
where
  "walk graph node seen stack =
    (if node \<in> stack then (True, seen, stack)
     else if node \<in> seen then (False, seen, insert node stack - {node})
     else case map_of graph node of
            None \<Rightarrow> (False, insert node seen, insert node stack - {node})
          | Some next_nodes \<Rightarrow>
              (case walk_deps graph next_nodes (insert node seen) (insert node stack) of
                 (b, seen', stack') \<Rightarrow>
                   if b then (True, seen', stack') else (False, seen', stack' - {node})))"
| "walk_deps graph [] seen stack = (False, seen, stack)"
| "walk_deps graph (dep # deps) seen stack =
    (case walk graph dep seen stack of
       (b, seen', stack') \<Rightarrow>
         if b then (True, seen', stack') else walk_deps graph deps seen' stack')"
  by pat_completeness auto

text \<open>A call never forgets a node it has seen, so the number of unseen keys bounds the recursion.\<close>

lemma walk_seen_grows:
  "walk_walk_deps_dom (Inl (g, n, s, st)) \<Longrightarrow> walk g n s st = (b, s', st') \<Longrightarrow> s \<subseteq> s'"
  "walk_walk_deps_dom (Inr (g, ns, s, st)) \<Longrightarrow> walk_deps g ns s st = (b, s', st') \<Longrightarrow> s \<subseteq> s'"
proof (induction arbitrary: b s' st' and b s' st' rule: walk_walk_deps.pinduct)
  case (1 graph node seen stack)
  then show ?case
    by (auto simp: walk.psimps split: if_splits option.splits prod.splits)
next
  case (2 graph seen stack)
  then show ?case by (simp add: walk_deps.psimps)
next
  case (3 graph dep deps seen stack)
  then show ?case
    by (auto simp: walk_deps.psimps split: if_splits prod.splits) blast+
qed

definition unseen :: "dep_graph \<Rightarrow> task_id set \<Rightarrow> nat" where
  "unseen g s = card (fst ` set g - s)"

lemma unseen_mono: "s \<subseteq> s' \<Longrightarrow> unseen g s' \<le> unseen g s"
  unfolding unseen_def by (rule card_mono) auto

lemma unseen_insert: "map_of g n = Some ds \<Longrightarrow> n \<notin> s \<Longrightarrow> unseen g (insert n s) < unseen g s"
  unfolding unseen_def
proof (rule psubset_card_mono)
  assume "map_of g n = Some ds" "n \<notin> s"
  then have "n \<in> fst ` set g - s" by (force dest: map_of_SomeD)
  then show "fst ` set g - insert n s \<subset> fst ` set g - s" by blast
qed simp

termination walk
proof (relation "measures [\<lambda>x. case x of Inl (g, n, s, st) \<Rightarrow> unseen g s | Inr (g, ns, s, st) \<Rightarrow> unseen g s,
    \<lambda>x. case x of Inl _ \<Rightarrow> 0 | Inr (g, ns, s, st) \<Rightarrow> length ns]", goal_cases)
  case 1
  show ?case by simp
next
  case (2 g n s st ds)
  then show ?case using unseen_insert [of g n ds s] by simp
next
  case (3 g d ds s st)
  then show ?case by simp
next
  case (4 g d ds s st b y s' st')
  then have "s \<subseteq> s'" using walk_seen_grows(1) [of g d s st b s' st'] by metis
  then show ?case using unseen_mono [of s s' g] by (simp add: order_le_less)
qed

declare walk.simps [simp del]

text \<open>\<open>key_order\<close> is the order in which the map's keys are collected.\<close>

fun walk_all :: "dep_graph \<Rightarrow> task_id list \<Rightarrow> task_id set \<Rightarrow> task_id set \<Rightarrow> bool" where
  "walk_all g [] seen stack = False"
| "walk_all g (n # ns) seen stack =
    (case walk g n seen stack of (b, seen', stack') \<Rightarrow> if b then True else walk_all g ns seen' stack')"

definition dependency_cycle ::
  "(task_id list \<Rightarrow> task_id list) \<Rightarrow> (task_id \<times> task_id) list \<Rightarrow> task_id \<Rightarrow> task_id list \<Rightarrow> bool" where
  "dependency_cycle key_order edges task after =
    (let graph = graph_of edges task after;
         nodes = key_order (map fst graph) @ [task] @ after
     in walk_all graph nodes {} {})"

section \<open>Lemmas\<close>

definition graph_rel :: "dep_graph \<Rightarrow> (task_id \<times> task_id) set" where
  "graph_rel g = {(x, y). \<exists>ds. map_of g x = Some ds \<and> y \<in> set ds}"

lemma graph_rel_extend: "graph_rel (graph_extend k vs g) = graph_rel g \<union> {k} \<times> set vs"
  by (auto simp: graph_rel_def graph_extend_def update_conv split: option.splits if_splits)

lemma graph_rel_foldl:
  "graph_rel (foldl (\<lambda>g (src, dst). graph_extend src [dst] g) g es) = graph_rel g \<union> set es"
  by (induction es arbitrary: g) (auto simp: graph_rel_extend)

lemma graph_rel_of: "graph_rel (graph_of edges task after) = set edges \<union> {task} \<times> set after"
  by (simp add: graph_of_def graph_rel_extend graph_rel_foldl) (simp add: graph_rel_def)

lemma graph_rel_keys: "(x, y) \<in> graph_rel g \<Longrightarrow> x \<in> set (map fst g)"
  by (force simp: graph_rel_def dest: map_of_SomeD)

text \<open>A verdict of cyclic is right: everything on the stack reaches the node being walked.\<close>

text \<open>The finished nodes: closed under dependencies and on no cycle.\<close>

definition finished :: "dep_graph \<Rightarrow> task_id set \<Rightarrow> bool" where
  "finished g f \<longleftrightarrow> graph_rel g `` f \<subseteq> f \<and> (\<forall>x \<in> f. (x, x) \<notin> (graph_rel g)\<^sup>+)"

lemma walk_stack:
  "walk g n s st = (False, s', st') \<Longrightarrow> st' = st"
  "walk_deps g ns s st = (False, s', st') \<Longrightarrow> st' = st"
proof (induction g n s st and g ns s st arbitrary: s' st' and s' st' rule: walk_walk_deps.induct)
  case (1 graph node seen stack)
  show ?case
  proof (cases "node \<in> stack \<or> node \<in> seen \<or> map_of graph node = None")
    case True
    then show ?thesis using 1(2) by (auto simp: walk.simps split: if_splits option.splits)
  next
    case False
    then obtain ds st1 where ds: "map_of graph node = Some ds" "st' = st1 - {node}"
        "walk_deps graph ds (insert node seen) (insert node stack) = (False, s', st1)"
      using 1(2) by (simp add: walk.simps) (auto split: prod.splits if_splits)
    have "st1 = insert node stack" using 1(1) [OF _ _ ds(1,3)] False by simp
    then show ?thesis using ds(2) False by auto
  qed
next
  case (2 graph seen stack)
  then show ?case by simp
next
  case (3 graph dep deps seen stack)
  obtain s1 st1 where w: "walk graph dep seen stack = (False, s1, st1)"
      and d: "walk_deps graph deps s1 st1 = (False, s', st')"
    using 3(3) by (auto split: prod.splits if_splits)
  have "st1 = stack" using 3(1) [OF w] .
  then show ?case using 3(2) [OF w [symmetric] refl _ d] by simp
qed

lemma walk_sound:
  "walk g n s st = (True, s', st') \<Longrightarrow> st \<times> {n} \<subseteq> (graph_rel g)\<^sup>+ \<Longrightarrow> \<not> acyclic (graph_rel g)"
  "walk_deps g ns s st = (True, s', st') \<Longrightarrow> st \<times> set ns \<subseteq> (graph_rel g)\<^sup>+ \<Longrightarrow> \<not> acyclic (graph_rel g)"
proof (induction g n s st and g ns s st arbitrary: s' st' and s' st' rule: walk_walk_deps.induct)
  case (1 graph node seen stack)
  show ?case
  proof (cases "node \<in> stack")
    case True
    then show ?thesis using 1(3) by (auto simp: acyclic_def)
  next
    case False
    then obtain ds where ds: "node \<notin> seen" "map_of graph node = Some ds"
        "walk_deps graph ds (insert node seen) (insert node stack) = (True, s', st')"
      using 1(2) by (auto simp: walk.simps split: if_splits option.splits prod.splits)
    have "{node} \<times> set ds \<subseteq> graph_rel graph" using ds(2) by (auto simp: graph_rel_def)
    then have "insert node stack \<times> set ds \<subseteq> (graph_rel graph)\<^sup>+"
      using 1(3) by (auto intro: trancl_into_trancl)
    then show ?thesis using 1(1) [OF False ds(1,2,3)] by blast
  qed
next
  case (2 graph seen stack)
  then show ?case by simp
next
  case (3 graph dep deps seen stack)
  obtain b s1 st1 where w: "walk graph dep seen stack = (b, s1, st1)" by (metis prod_cases3)
  show ?case
  proof (cases b)
    case True
    then show ?thesis using 3(1) [of s1 st1] 3(4) w by auto
  next
    case False
    then have "st1 = stack" using w walk_stack(1) [of graph dep seen stack s1 st1] by simp
    then show ?thesis using 3(2) [OF w [symmetric] refl] 3(3,4) w False by auto
  qed
qed

text \<open>The finished nodes, those seen and off the stack, stay closed and acyclic.\<close>

lemma finished_insert:
  assumes "finished g f" and "n \<notin> f" and "graph_rel g `` {n} \<subseteq> f"
  shows "finished g (insert n f)"
proof -
  have cl: "y \<in> f" if "(x, y) \<in> (graph_rel g)\<^sup>*" "x \<in> f" for x y
    using that assms(1) by (induction rule: rtrancl_induct) (auto simp: finished_def)
  have "(n, n) \<notin> (graph_rel g)\<^sup>+"
  proof
    assume "(n, n) \<in> (graph_rel g)\<^sup>+"
    then obtain d where "(n, d) \<in> graph_rel g" "(d, n) \<in> (graph_rel g)\<^sup>*" by (meson tranclD)
    then show False using cl assms(2,3) by blast
  qed
  then show ?thesis using assms by (auto simp: finished_def)
qed

lemma walk_finished:
  "walk g n s st = (False, s', st') \<Longrightarrow> st \<subseteq> s \<Longrightarrow> finished g (s - st) \<Longrightarrow>
    s \<subseteq> s' \<and> n \<in> s' - st \<and> finished g (s' - st)"
  "walk_deps g ns s st = (False, s', st') \<Longrightarrow> st \<subseteq> s \<Longrightarrow> finished g (s - st) \<Longrightarrow>
    s \<subseteq> s' \<and> set ns \<subseteq> s' - st \<and> finished g (s' - st)"
proof (induction g n s st and g ns s st arbitrary: s' st' and s' st' rule: walk_walk_deps.induct)
  case (1 graph node seen stack)
  have ns: "node \<notin> stack" using 1(2) by (auto simp: walk.simps split: if_splits)
  show ?case
  proof (cases "node \<in> seen")
    case True
    then show ?thesis using 1(2,4) ns by (simp add: walk.simps)
  next
    case False
    have f0: "insert node seen - insert node stack = seen - stack" using False by auto
    show ?thesis
    proof (cases "map_of graph node")
      case None
      then have "graph_rel graph `` {node} = {}" by (auto simp: graph_rel_def)
      then have "finished graph (insert node (seen - stack))"
        using finished_insert [OF 1(4)] False by auto
      moreover have "s' = insert node seen" using 1(2) ns False None by (simp add: walk.simps)
      moreover have "insert node seen - stack = insert node (seen - stack)" using ns by auto
      ultimately show ?thesis using ns by auto
    next
      case (Some ds)
      then obtain st1 where w:
          "walk_deps graph ds (insert node seen) (insert node stack) = (False, s', st1)"
        using 1(2) ns False by (auto simp: walk.simps split: prod.splits if_splits)
      have "insert node seen \<subseteq> s' \<and> set ds \<subseteq> s' - insert node stack
          \<and> finished graph (s' - insert node stack)"
        using 1(1) [OF ns False Some w] 1(3,4) f0 by auto
      moreover have "graph_rel graph `` {node} = set ds" using Some by (auto simp: graph_rel_def)
      ultimately have "finished graph (insert node (s' - insert node stack))"
        and "insert node seen \<subseteq> s'"
        using finished_insert [of graph "s' - insert node stack" node] by auto
      moreover have "insert node (s' - insert node stack) = s' - stack"
        using ns \<open>insert node seen \<subseteq> s'\<close> by auto
      ultimately show ?thesis using ns by auto
    qed
  qed
next
  case (2 graph seen stack)
  then show ?case by simp
next
  case (3 graph dep deps seen stack)
  obtain s1 st1 where w: "walk graph dep seen stack = (False, s1, st1)"
      and d: "walk_deps graph deps s1 st1 = (False, s', st')"
    using 3(3) by (auto split: prod.splits if_splits)
  have st1: "st1 = stack" using w walk_stack(1) by blast
  have i: "seen \<subseteq> s1" "dep \<in> s1 - stack" "finished graph (s1 - stack)"
    using 3(1) [OF w 3(4,5)] by auto
  have "s1 \<subseteq> s' \<and> set deps \<subseteq> s' - stack \<and> finished graph (s' - stack)"
    using 3(2) [OF w [symmetric] refl _ d] i 3(4) st1 by auto
  then show ?case using i by auto
qed

lemma walk_all_sound: "walk_all g ns s {} \<Longrightarrow> \<not> acyclic (graph_rel g)"
proof (induction ns arbitrary: s)
  case Nil
  then show ?case by simp
next
  case (Cons n ns)
  obtain b s1 st1 where w: "walk g n s {} = (b, s1, st1)" by (metis prod_cases3)
  show ?case
  proof (cases b)
    case True
    then show ?thesis using walk_sound(1) [of g n s "{}" s1 st1] w by simp
  next
    case False
    then have "st1 = {}" using w walk_stack(1) [of g n s "{}" s1 st1] by simp
    then show ?thesis using Cons w False by simp
  qed
qed

lemma walk_all_complete:
  "\<not> walk_all g ns s {} \<Longrightarrow> finished g s \<Longrightarrow> \<exists>f. finished g f \<and> s \<subseteq> f \<and> set ns \<subseteq> f"
proof (induction ns arbitrary: s)
  case Nil
  then show ?case by auto
next
  case (Cons n ns)
  obtain s1 st1 where w: "walk g n s {} = (False, s1, st1)" and r: "\<not> walk_all g ns s1 st1"
    using Cons.prems(1) by (auto split: prod.splits if_splits)
  have st: "st1 = {}" using w walk_stack(1) [of g n s "{}" s1 st1] by simp
  have "s \<subseteq> s1" "n \<in> s1" "finished g s1" using walk_finished(1) [OF w] Cons.prems(2) by auto
  then show ?case using Cons.IH [of s1] r st by auto
qed

lemma finished_acyclic:
  assumes "finished g f" and "fst ` set g \<subseteq> f"
  shows "acyclic (graph_rel g)"
proof -
  have "x \<in> f" if "(x, y) \<in> (graph_rel g)\<^sup>+" for x y
    using that assms(2) graph_rel_keys by (metis image_set subsetD tranclD)
  then show ?thesis using assms(1) by (auto simp: finished_def acyclic_def)
qed

section \<open>Properties\<close>

text \<open>
  C20: \<^const>\<open>dependency_cycle\<close> answers exactly the question it is asked: it refuses a task exactly
  when the run's dependency edges with the new task's added contain a cycle, whether the cycle
  goes through the new task or was there before, and whatever order the hash map yields its keys
  in. The walk always returns.
\<close>

theorem dependency_cycle_correct:
  assumes "\<And>ks. set (key_order ks) = set ks"
  shows "dependency_cycle key_order edges task after \<longleftrightarrow>
    \<not> acyclic (set edges \<union> {task} \<times> set after)"
proof -
  let ?g = "graph_of edges task after"
  let ?ns = "key_order (map fst ?g) @ [task] @ after"
  have "\<not> walk_all ?g ?ns {} {} \<Longrightarrow> acyclic (graph_rel ?g)"
  proof -
    assume "\<not> walk_all ?g ?ns {} {}"
    moreover have "finished ?g {}" by (simp add: finished_def)
    ultimately obtain f where "finished ?g f" "set ?ns \<subseteq> f" using walk_all_complete by blast
    then show "acyclic (graph_rel ?g)" using finished_acyclic assms by auto
  qed
  then show ?thesis using walk_all_sound [of ?g ?ns "{}"]
    by (auto simp: dependency_cycle_def Let_def graph_rel_of)
qed

theorem dependency_cycle_correct_witness:
  "dependency_cycle rev [(TaskId 1, TaskId 2), (TaskId 2, TaskId 3)] (TaskId 3) [TaskId 1]"
proof -
  let ?r = "set [(TaskId 1, TaskId 2), (TaskId 2, TaskId 3)] \<union> {TaskId 3} \<times> set [TaskId 1]"
  have "(TaskId 1, TaskId 2) \<in> ?r\<^sup>+" "(TaskId 2, TaskId 3) \<in> ?r\<^sup>+" "(TaskId 3, TaskId 1) \<in> ?r\<^sup>+"
    by (auto intro: r_into_trancl)
  then have "(TaskId 1, TaskId 1) \<in> ?r\<^sup>+" by (meson trancl_trans)
  then have "\<not> acyclic ?r" by (auto simp: acyclic_def)
  then show ?thesis by (simp only: dependency_cycle_correct [of rev] set_rev not_False_eq_True)
qed

end
