(* ===== verification/Orch_Board.thy ===== *)
theory Orch_Board
  imports Orch_Policy Daemon_Sessions "HOL-Library.AList" "HOL-Library.List_Lexorder" "HOL-Library.Char_ord"
begin

text \<open>
  The shared board of a run: \<open>list_state\<close>, \<open>get_state\<close> and \<open>set_state\<close> of
  \<^verbatim>\<open>crates/daemon/src/orchestration/mod.rs\<close> with the two statements of
  \<^verbatim>\<open>crates/persistence/src/repositories/orchestration.rs\<close> they run. A \<open>HashMap\<close> and the table
  \<open>run_state\<close> with its primary key are association lists; the interface both are used through is
  the locale \<open>keyed_store\<close>. The clock, the JSON parser and the outcome of the database statement
  (the text of its error, if it fails and so changes nothing) are arguments.
\<close>

section \<open>The store interface\<close>

locale keyed_store =
  fixes find :: "'s \<Rightarrow> 'k \<Rightarrow> 'v option"
    and put :: "'k \<Rightarrow> 'v \<Rightarrow> 's \<Rightarrow> 's"
    and drop_key :: "'k \<Rightarrow> 's \<Rightarrow> 's"
    and all_keys :: "'s \<Rightarrow> 'k list"
    and ok :: "'s \<Rightarrow> bool"
  assumes find_put: "find (put k v s) k' = (if k' = k then Some v else find s k')"
    and find_drop: "find (drop_key k s) k' = (if k' = k then None else find s k')"
    and all_keys_find: "k \<in> set (all_keys s) \<longleftrightarrow> (\<exists>v. find s k = Some v)"
    and ok_distinct: "ok s \<Longrightarrow> distinct (all_keys s)"
    and ok_put: "ok s \<Longrightarrow> ok (put k v s)"
    and ok_drop: "ok s \<Longrightarrow> ok (drop_key k s)"
begin

definition holds_all :: "('k \<Rightarrow> 'v \<Rightarrow> bool) \<Rightarrow> 's \<Rightarrow> bool" where
  "holds_all P s \<longleftrightarrow> ok s \<and> (\<forall>k v. find s k = Some v \<longrightarrow> P k v)"

definition count_keys :: "('k \<Rightarrow> bool) \<Rightarrow> 's \<Rightarrow> nat" where
  "count_keys Q s = length (filter Q (all_keys s))"

lemma holds_all_put: "holds_all P s \<Longrightarrow> P k v \<Longrightarrow> holds_all P (put k v s)"
  by (auto simp: holds_all_def ok_put find_put)

lemma holds_all_drop: "holds_all P s \<Longrightarrow> holds_all P (drop_key k s)"
  by (auto simp: holds_all_def ok_drop find_drop split: if_splits)

lemma count_keys_card: "ok s \<Longrightarrow> count_keys Q s = card {k. (\<exists>v. find s k = Some v) \<and> Q k}"
proof -
  assume "ok s"
  then have "length (filter Q (all_keys s)) = card (set (filter Q (all_keys s)))"
    by (intro distinct_card [symmetric] distinct_filter ok_distinct)
  also have "set (filter Q (all_keys s)) = {k. (\<exists>v. find s k = Some v) \<and> Q k}"
    by (auto simp: all_keys_find)
  finally show ?thesis by (simp add: count_keys_def)
qed

lemma finite_found: "finite {k. (\<exists>v. find s k = Some v) \<and> Q k}"
  by (rule finite_subset [of _ "set (all_keys s)"]) (auto simp: all_keys_find)

lemma count_keys_put:
  assumes "ok s"
  shows "count_keys Q (put k v s) = count_keys Q s + (if find s k = None \<and> Q k then 1 else 0)"
proof -
  have "{k'. (\<exists>w. find (put k v s) k' = Some w) \<and> Q k'} =
      (if find s k = None \<and> Q k then insert k {k'. (\<exists>w. find s k' = Some w) \<and> Q k'}
       else {k'. (\<exists>w. find s k' = Some w) \<and> Q k'})" by (auto simp: find_put)
  then show ?thesis
    by (simp add: count_keys_card assms ok_put) (simp add: card_insert_disjoint [OF finite_found])
qed

lemma count_keys_drop_le: "ok s \<Longrightarrow> count_keys Q (drop_key k s) \<le> count_keys Q s"
  unfolding count_keys_card [OF ok_drop] count_keys_card
  by (rule card_mono [OF finite_found]) (auto simp: find_drop split: if_splits)

end

interpretation al: keyed_store map_of AList.update AList.delete "map fst" "\<lambda>s. distinct (map fst s)"
proof unfold_locales
  fix k :: 'a and v :: 'b and k' and s :: "('a \<times> 'b) list"
  show "map_of (AList.update k v s) k' = (if k' = k then Some v else map_of s k')"
    by (simp add: update_conv)
  show "map_of (AList.delete k s) k' = (if k' = k then None else map_of s k')"
    by (simp add: delete_conv)
  show "k \<in> set (map fst s) \<longleftrightarrow> (\<exists>v. map_of s k = Some v)"
    using map_of_eq_None_iff [of s k] by (cases "map_of s k") auto
qed (auto simp: distinct_update distinct_delete)

section \<open>The board\<close>

type_synonym board = "((run_id \<times> string) \<times> board_entry) list"

record board_state =
  bs_runs :: "run_id \<rightharpoonup> run"
  bs_board :: board
  bs_rows :: board
  bs_events :: "(run_id \<times> string \<times> u64) list"

datatype board_response = Ack | RunStateValue board_entry | RunStateList "board_entry list"

definition policy :: "rail_refusal \<Rightarrow> protocol_error" where
  "policy refusal =
    \<lparr>pe_code = PreconditionFailed, pe_message = refusal_message refusal,
     pe_details = Some (''{'' @ [CHR 0x22] @ ''reason'' @ [CHR 0x22] @ '':'' @ [CHR 0x22]
       @ ''policy:'' @ rail refusal @ [CHR 0x22] @ ''}'')\<rparr>"

definition version_conflict :: "u64 \<Rightarrow> protocol_error" where
  "version_conflict current =
    \<lparr>pe_code = Conflict, pe_message = ''current version is '' @ show_nat (unat current),
     pe_details = Some (''{'' @ [CHR 0x22] @ ''current_version'' @ [CHR 0x22] @ '':''
       @ show_nat (unat current) @ ''}'')\<rparr>"

definition db_err :: "string \<Rightarrow> protocol_error" where
  "db_err m = protocol_error_new Internal m"

definition upsert_board :: "board_entry \<Rightarrow> board \<Rightarrow> board" where
  "upsert_board e rows = AList.update (be_run_id e, be_key e) e rows"

definition delete_board :: "run_id \<Rightarrow> string \<Rightarrow> board \<Rightarrow> board" where
  "delete_board r key rows = AList.delete (r, key) rows"

definition list_state ::
  "run_id \<Rightarrow> string option \<Rightarrow> board_state \<Rightarrow> protocol_error + board_response" where
  "list_state r pre st =
    (if bs_runs st r = None then Inl (not_found ''run'')
     else Inr (RunStateList (sort_key be_key
            (filter (\<lambda>e. case pre of None \<Rightarrow> True | Some p \<Rightarrow> prefix p (be_key e))
              (filter (\<lambda>e. be_run_id e = r) (map snd (bs_board st)))))))"

definition get_state :: "run_id \<Rightarrow> string \<Rightarrow> board_state \<Rightarrow> protocol_error + board_response" where
  "get_state r key st =
    (case map_of (bs_board st) (r, key) of
       None \<Rightarrow> Inl (not_found ''board key'')
     | Some e \<Rightarrow> Inr (RunStateValue e))"

definition board_value_message :: "board_value_error \<Rightarrow> string" where
  "board_value_message e =
    (case e of
       Oversize len \<Rightarrow> ''board value is '' @ show_nat len @ '' bytes''
     | NotJson \<Rightarrow> ''board value is not json'')"

definition set_state_cas ::
  "string option \<Rightarrow> timestamp \<Rightarrow> session_id option \<Rightarrow> run_id \<Rightarrow> string \<Rightarrow> string \<Rightarrow> u64 \<Rightarrow> bool
    \<Rightarrow> board_state \<Rightarrow> (protocol_error + board_response) \<times> board_state" where
  "set_state_cas db_error now caller r key value_json expected_version delete st =
    (let current = map_option be_version (map_of (bs_board st) (r, key));
         outcome = compare_and_set current expected_version in
     case outcome of
       Mismatch v \<Rightarrow> (Inl (version_conflict v), st)
     | _ \<Rightarrow>
       if outcome = Created \<and> delete then (Inl (version_conflict 0), st)
       else if delete then
         (let st1 = st\<lparr>bs_board := AList.delete (r, key) (bs_board st)\<rparr> in
          case db_error of
            Some m \<Rightarrow> (Inl (db_err m), st1)
          | None \<Rightarrow> (Inr Ack, st1\<lparr>bs_rows := delete_board r key (bs_rows st),
                                bs_events := bs_events st @ [(r, key, 0)]\<rparr>))
       else
         (let next_v = saturating_add (case current of None \<Rightarrow> 0 | Some v \<Rightarrow> v) 1;
              entry = \<lparr>be_run_id = r, be_key = key, be_value_json = value_json,
                       be_version = next_v, be_updated_by = caller, be_updated_at = now\<rparr> in
          case db_error of
            Some m \<Rightarrow> (Inl (db_err m), st)
          | None \<Rightarrow> (Inr (RunStateValue entry),
              st\<lparr>bs_rows := upsert_board entry (bs_rows st),
                 bs_board := AList.update (r, key) entry (bs_board st),
                 bs_events := bs_events st @ [(r, key, next_v)]\<rparr>)))"

definition set_state ::
  "(string \<Rightarrow> bool) \<Rightarrow> string option \<Rightarrow> timestamp \<Rightarrow> session_id option \<Rightarrow> run_id \<Rightarrow> string \<Rightarrow> string
    \<Rightarrow> u64 \<Rightarrow> bool \<Rightarrow> board_state \<Rightarrow> (protocol_error + board_response) \<times> board_state" where
  "set_state is_json db_error now caller r key value_json expected_version delete st =
    (if \<not> valid_board_key key then
       (Inl (protocol_error_new InvalidRequest ''board key must match [a-z0-9._/-]{1,128}''), st)
     else case (if delete then Inr value_json else board_value is_json value_json) of
       Inl e \<Rightarrow> (Inl (protocol_error_new InvalidRequest (board_value_message e)), st)
     | Inr _ \<Rightarrow>
       if bs_runs st r = None then (Inl (not_found ''run''), st)
       else
         let write = (if map_of (bs_board st) (r, key) = None \<and> \<not> delete
                      then AddsKey else KeepsKeyCount) in
         if board_is_full (length (filter (\<lambda>k. fst k = r) (map fst (bs_board st)))) write then
           (Inl (policy (rail_refusal_new ''max_board_keys'' ''run board is full'')), st)
         else set_state_cas db_error now caller r key value_json expected_version delete st)"

section \<open>Lemmas\<close>

definition board_current :: "run_id \<Rightarrow> string \<Rightarrow> board_state \<Rightarrow> u64 option" where
  "board_current r key st = map_option be_version (map_of (bs_board st) (r, key))"

definition written_entry ::
  "timestamp \<Rightarrow> session_id option \<Rightarrow> run_id \<Rightarrow> string \<Rightarrow> string \<Rightarrow> board_state \<Rightarrow> board_entry" where
  "written_entry now caller r key v st =
    \<lparr>be_run_id = r, be_key = key, be_value_json = v,
     be_version = saturating_add (case board_current r key st of None \<Rightarrow> 0 | Some n \<Rightarrow> n) 1,
     be_updated_by = caller, be_updated_at = now\<rparr>"

text \<open>The ways a call can end: refused, deleted (with the row or without it), or written.\<close>

inductive set_outcome ::
  "(string \<Rightarrow> bool) \<Rightarrow> string option \<Rightarrow> timestamp \<Rightarrow> session_id option \<Rightarrow> run_id \<Rightarrow> string \<Rightarrow> string
    \<Rightarrow> u64 \<Rightarrow> bool \<Rightarrow> board_state \<Rightarrow> (protocol_error + board_response) \<times> board_state \<Rightarrow> bool"
where
  refused: "set_outcome is_json db now caller r key v exp del st (Inl e, st)"
| deleted: "board_current r key st = Some exp \<Longrightarrow> exp \<noteq> 0 \<Longrightarrow>
    set_outcome is_json None now caller r key v exp True st
      (Inr Ack, st\<lparr>bs_board := AList.delete (r, key) (bs_board st),
        bs_rows := AList.delete (r, key) (bs_rows st), bs_events := bs_events st @ [(r, key, 0)]\<rparr>)"
| half_deleted: "board_current r key st = Some exp \<Longrightarrow> exp \<noteq> 0 \<Longrightarrow>
    set_outcome is_json (Some m) now caller r key v exp True st
      (Inl (db_err m), st\<lparr>bs_board := AList.delete (r, key) (bs_board st)\<rparr>)"
| written: "valid_board_key key \<Longrightarrow> board_value is_json v = Inr v \<Longrightarrow> bs_runs st r \<noteq> None \<Longrightarrow>
    board_current r key st = (if exp = 0 then None else Some exp) \<Longrightarrow>
    (board_current r key st = None \<Longrightarrow> al.count_keys (\<lambda>k. fst k = r) (bs_board st) < MAX_BOARD_KEYS) \<Longrightarrow>
    e = written_entry now caller r key v st \<Longrightarrow>
    set_outcome is_json None now caller r key v exp False st
      (Inr (RunStateValue e), st\<lparr>bs_rows := AList.update (r, key) e (bs_rows st),
        bs_board := AList.update (r, key) e (bs_board st),
        bs_events := bs_events st @ [(r, key, be_version e)]\<rparr>)"

lemma compare_and_set_ok:
  "compare_and_set cur exp = Created \<longleftrightarrow> cur = None \<and> exp = 0"
  "compare_and_set cur exp = Updated n \<longleftrightarrow> cur = Some exp \<and> exp \<noteq> 0 \<and> n = saturating_add exp 1"
  by (auto simp: compare_and_set_def split: option.splits)

lemma set_state_cas_outcome:
  assumes "valid_board_key key" and "\<not> del \<Longrightarrow> board_value is_json v = Inr v" and "bs_runs st r \<noteq> None"
    and "\<not> del \<Longrightarrow> board_current r key st = None \<Longrightarrow>
          al.count_keys (\<lambda>k. fst k = r) (bs_board st) < MAX_BOARD_KEYS"
  shows "set_outcome is_json db now caller r key v exp del st
    (set_state_cas db now caller r key v exp del st)"
proof (cases "compare_and_set (board_current r key st) exp")
  case (Mismatch n)
  then show ?thesis by (simp add: set_state_cas_def board_current_def refused)
next
  case Created
  then have c: "board_current r key st = None" "exp = 0" by (simp_all add: compare_and_set_ok)
  show ?thesis
  proof (cases del)
    case True
    then show ?thesis using Created by (simp add: set_state_cas_def board_current_def refused)
  next
    case False
    then show ?thesis
      using Created c assms
        written [of key is_json v st r exp "written_entry now caller r key v st" now caller]
      by (cases db) (auto simp: set_state_cas_def board_current_def written_entry_def upsert_board_def
          Let_def intro: refused)
  qed
next
  case (Updated n)
  then have c: "board_current r key st = Some exp" "exp \<noteq> 0" by (simp_all add: compare_and_set_ok)
  show ?thesis
  proof (cases del)
    case True
    then show ?thesis using Updated c deleted [of r key st exp] half_deleted [of r key st exp]
      by (cases db) (auto simp: set_state_cas_def board_current_def delete_board_def Let_def)
  next
    case False
    then show ?thesis
      using Updated c assms
        written [of key is_json v st r exp "written_entry now caller r key v st" now caller]
      by (cases db) (auto simp: set_state_cas_def board_current_def written_entry_def upsert_board_def
          Let_def intro: refused)
  qed
qed

lemma set_state_outcome:
  "set_outcome is_json db now caller r key v exp del st
    (set_state is_json db now caller r key v exp del st)"
proof -
  let ?full = "board_is_full (length (filter (\<lambda>k. fst k = r) (map fst (bs_board st))))
    (if map_of (bs_board st) (r, key) = None \<and> \<not> del then AddsKey else KeepsKeyCount)"
  consider (key) "\<not> valid_board_key key"
    | (val) e where "valid_board_key key" "\<not> del" "board_value is_json v = Inl e"
    | (run) "valid_board_key key" "\<not> del \<Longrightarrow> board_value is_json v = Inr v" "bs_runs st r = None"
    | (full) "valid_board_key key" "\<not> del \<Longrightarrow> board_value is_json v = Inr v" "bs_runs st r \<noteq> None" ?full
    | (cas) "valid_board_key key" "\<not> del \<Longrightarrow> board_value is_json v = Inr v" "bs_runs st r \<noteq> None"
        "\<not> ?full"
  proof (cases "board_value is_json v")
    case (Inr w)
    then have "w = v" by (simp add: board_value_def split: if_splits)
    then show ?thesis using Inr that by (cases "bs_runs st r = None") auto
  qed (use that in \<open>auto, blast+\<close>)
  then show ?thesis
  proof cases
    case cas
    then have "set_state is_json db now caller r key v exp del st =
        set_state_cas db now caller r key v exp del st"
      by (cases del) (auto simp: set_state_def Let_def)
    moreover have "al.count_keys (\<lambda>k. fst k = r) (bs_board st) < MAX_BOARD_KEYS"
      if "\<not> del" "board_current r key st = None"
      using cas(4) that by (simp add: board_is_full_def al.count_keys_def board_current_def)
    ultimately show ?thesis using set_state_cas_outcome [of key del is_json v st r] cas(1,2,3) by simp
  qed (cases del; simp add: set_state_def refused Let_def)+
qed

text \<open>The board's invariant, and its agreement with the table it is loaded from.\<close>

definition entry_ok :: "(string \<Rightarrow> bool) \<Rightarrow> run_id \<times> string \<Rightarrow> board_entry \<Rightarrow> bool" where
  "entry_ok is_json k e \<longleftrightarrow> k = (be_run_id e, be_key e) \<and> valid_board_key (be_key e)
     \<and> length (be_value_json e) \<le> MAX_BOARD_VALUE_BYTES \<and> is_json (be_value_json e) \<and> be_version e \<noteq> 0"

definition board_ok :: "(string \<Rightarrow> bool) \<Rightarrow> board_state \<Rightarrow> bool" where
  "board_ok is_json st \<longleftrightarrow> al.holds_all (entry_ok is_json) (bs_board st)
     \<and> (\<forall>r. al.count_keys (\<lambda>k. fst k = r) (bs_board st) \<le> MAX_BOARD_KEYS)"

definition board_synced :: "board_state \<Rightarrow> bool" where
  "board_synced st \<longleftrightarrow> map_of (bs_rows st) = map_of (bs_board st)"

lemma saturating_add_one_pos: "saturating_add (v::u64) 1 \<noteq> 0"
  using saturating_add_one_strict [of v] saturating_add_ge [of v 1] by (cases "v = - 1") auto

lemma entry_ok_written:
  "valid_board_key key \<Longrightarrow> board_value is_json v = Inr v \<Longrightarrow>
    entry_ok is_json (r, key) (written_entry now caller r key v st)"
  by (auto simp: entry_ok_def written_entry_def board_value_def saturating_add_one_pos split: if_splits)

lemma board_ok_outcome:
  assumes "set_outcome is_json db now caller r key v exp del st res" and "board_ok is_json st"
  shows "board_ok is_json (snd res)"
proof -
  have ok: "al.holds_all (entry_ok is_json) (bs_board st)" "distinct (map fst (bs_board st))"
    and c: "al.count_keys (\<lambda>k. fst k = q) (bs_board st) \<le> MAX_BOARD_KEYS" for q
    using assms(2) by (simp_all add: board_ok_def al.holds_all_def)
  have del: "board_ok is_json (st\<lparr>bs_board := AList.delete (r, key) (bs_board st)\<rparr>)"
    using al.holds_all_drop [OF ok(1)] order_trans [OF al.count_keys_drop_le [OF ok(2)] c]
    by (simp add: board_ok_def)
  from assms(1) show ?thesis
  proof cases
    case (written e)
    have "al.count_keys (\<lambda>k. fst k = q) (AList.update (r, key) e (bs_board st)) \<le> MAX_BOARD_KEYS" for q
      using written(8) c [of q] by (auto simp: al.count_keys_put [OF ok(2)] board_current_def)
    then show ?thesis
      using written al.holds_all_put [OF ok(1) entry_ok_written [OF written(4,5)]]
      by (simp add: board_ok_def)
  qed (use assms(2) del in \<open>simp_all add: board_ok_def\<close>)
qed

lemma board_synced_outcome:
  assumes "set_outcome is_json db now caller r key v exp del st res" and "board_synced st"
    and "db = None \<or> \<not> del"
  shows "board_synced (snd res)"
  using assms by (cases rule: set_outcome.cases) (auto simp: board_synced_def update_conv' delete_conv')

text \<open>A sequence of calls, from any clients.\<close>

record board_call =
  bc_db :: "string option"
  bc_now :: timestamp
  bc_caller :: "session_id option"
  bc_run :: run_id
  bc_key :: string
  bc_value :: string
  bc_expected :: u64
  bc_delete :: bool

definition apply_call :: "(string \<Rightarrow> bool) \<Rightarrow> board_state \<Rightarrow> board_call \<Rightarrow> board_state" where
  "apply_call is_json st c = snd (set_state is_json (bc_db c) (bc_now c) (bc_caller c) (bc_run c)
     (bc_key c) (bc_value c) (bc_expected c) (bc_delete c) st)"

definition board_calls :: "(string \<Rightarrow> bool) \<Rightarrow> board_state \<Rightarrow> board_call list \<Rightarrow> board_state" where
  "board_calls is_json = foldl (apply_call is_json)"

lemma board_calls_ok: "board_ok is_json st \<Longrightarrow> board_ok is_json (board_calls is_json st cs)"
proof (induction cs arbitrary: st)
  case (Cons c cs)
  have "board_ok is_json (apply_call is_json st c)"
    unfolding apply_call_def by (rule board_ok_outcome [OF set_state_outcome Cons.prems])
  then show ?case using Cons.IH by (simp add: board_calls_def)
qed (simp add: board_calls_def)

lemma board_calls_synced:
  "board_synced st \<Longrightarrow> (\<And>c. c \<in> set cs \<Longrightarrow> bc_db c = None \<or> \<not> bc_delete c) \<Longrightarrow>
    board_synced (board_calls is_json st cs)"
proof (induction cs arbitrary: st)
  case (Cons c cs)
  have "board_synced (apply_call is_json st c)"
    unfolding apply_call_def
    by (rule board_synced_outcome [OF set_state_outcome Cons.prems(1)]) (simp add: Cons.prems(2))
  then show ?case using Cons.IH Cons.prems(2) by (simp add: board_calls_def)
qed (simp add: board_calls_def)

text \<open>Once past \<open>n\<close>, a key that is not deleted stays past \<open>n\<close>.\<close>

definition key_past :: "run_id \<Rightarrow> string \<Rightarrow> u64 \<Rightarrow> board_state \<Rightarrow> bool" where
  "key_past r key n st \<longleftrightarrow> (\<exists>m. board_current r key st = Some m \<and> n < m)"

lemma key_past_outcome:
  assumes "set_outcome is_json db now caller r' key' v exp del st res" and "key_past r key n st"
    and "del \<Longrightarrow> (r', key') \<noteq> (r, key)"
  shows "key_past r key n (snd res)"
  using assms(1)
proof cases
  case (written e)
  show ?thesis
  proof (cases "(r', key') = (r, key)")
    case True
    obtain m where m: "board_current r key st = Some m" "n < m" using assms(2) by (auto simp: key_past_def)
    have "m \<le> be_version e"
      using m True written(9) saturating_add_ge [of m 1] by (simp add: written_entry_def)
    then show ?thesis using True m written(3) by (auto simp: key_past_def board_current_def update_conv)
  next
    case False
    then show ?thesis
      using assms(2) written(3) by (auto simp: key_past_def board_current_def update_conv)
  qed
qed (use assms(2,3) in \<open>auto simp: key_past_def board_current_def delete_conv\<close>)

lemma key_past_calls:
  "key_past r key n st \<Longrightarrow> (\<And>c. c \<in> set cs \<Longrightarrow> bc_delete c \<Longrightarrow> (bc_run c, bc_key c) \<noteq> (r, key)) \<Longrightarrow>
    key_past r key n (board_calls is_json st cs)"
proof (induction cs arbitrary: st)
  case (Cons c cs)
  have "key_past r key n (apply_call is_json st c)"
    unfolding apply_call_def
    by (rule key_past_outcome [OF set_state_outcome Cons.prems(1)], rule Cons.prems(2)) simp_all
  then show ?case using Cons.IH Cons.prems(2) by (simp add: board_calls_def)
qed (simp add: board_calls_def)

lemma key_past_refuses:
  assumes "key_past r key n st"
  shows "\<exists>e. set_state is_json db now caller r key v n del st = (Inl e, st)"
  using set_state_outcome [of is_json db now caller r key v n del st]
proof cases
  case (refused e)
  then show ?thesis by blast
qed (use assms in \<open>auto simp: key_past_def split: if_splits\<close>)

section \<open>Properties\<close>

text \<open>
  Whatever calls any clients make, in any order and with the database failing at any of them,
  a board that started empty always holds one entry per key, every entry under its own run and a
  well-formed key, with a JSON value of at most 16 KiB and a version of at least 1, and no run
  ever has more than 256 keys.
\<close>

theorem set_state_invariant:
  "board_ok is_json (board_calls is_json
     \<lparr>bs_runs = runs, bs_board = [], bs_rows = rows, bs_events = events\<rparr> cs)"
  by (rule board_calls_ok) (simp add: board_ok_def al.holds_all_def al.count_keys_def)

text \<open>
  C21: Compare-and-set has one winner: after a write expecting version \<open>n\<close> is accepted, the reader
  sees that entry, and however many other calls follow (none of them deleting this key), a second
  call expecting \<open>n\<close> is refused and changes nothing. (At the largest version the counter
  saturates, hence the hypothesis.)
\<close>

theorem set_state_one_winner:
  assumes "set_state is_json db now caller r key v n False st = (Inr (RunStateValue e), st1)"
    and "n \<noteq> - 1"
    and "set cs \<subseteq> {c. bc_delete c \<longrightarrow> (bc_run c, bc_key c) \<noteq> (r, key)}"
  shows "get_state r key st1 = Inr (RunStateValue e) \<and> be_version e = n + 1
    \<and> (\<exists>err. set_state is_json db' now' caller' r key v' n del (board_calls is_json st1 cs)
          = (Inl err, board_calls is_json st1 cs))"
proof -
  have o: "set_outcome is_json db now caller r key v n False st (Inr (RunStateValue e), st1)"
    using set_state_outcome [of is_json db now caller r key v n False st] assms(1) by simp
  then obtain st1: "map_of (bs_board st1) (r, key) = Some e" and
      e: "e = written_entry now caller r key v st"
      and c: "board_current r key st = (if n = 0 then None else Some n)"
    by cases (auto simp: update_conv)
  have v: "be_version e = saturating_add n 1" using e c by (simp add: written_entry_def)
  moreover have lt: "n < saturating_add n 1" by (rule saturating_add_one_strict [OF assms(2)])
  moreover have "saturating_add n 1 = n + 1" by (rule saturating_add_one(1) [OF assms(2)])
  moreover have "key_past r key n st1" using st1 v lt by (simp add: key_past_def board_current_def)
  moreover have "key_past r key n (board_calls is_json st1 cs)"
    by (rule key_past_calls [OF \<open>key_past r key n st1\<close>]) (use assms(3) in blast)
  ultimately show ?thesis using key_past_refuses st1 by (simp add: get_state_def)
qed

theorem set_state_one_winner_witness:
  "\<exists>st1 e err. set_state (\<lambda>_. True) None UNIX_EPOCH None (RunId 7) ''k'' ''1'' 0 False
      \<lparr>bs_runs = (\<lambda>_. Some undefined), bs_board = [], bs_rows = [], bs_events = []\<rparr>
      = (Inr (RunStateValue e), st1)
    \<and> set_state (\<lambda>_. True) None UNIX_EPOCH None (RunId 7) ''k'' ''2'' 0 False st1 = (Inl err, st1)"
proof -
  let ?st = "\<lparr>bs_runs = (\<lambda>_. Some undefined), bs_board = [], bs_rows = [], bs_events = []\<rparr>"
  have k: "valid_board_key ''k''" by code_simp
  have b: "board_value (\<lambda>_. True) ''1'' = Inr ''1''" by code_simp
  obtain e st1 where w: "set_state (\<lambda>_. True) None UNIX_EPOCH None (RunId 7) ''k'' ''1'' 0 False ?st
      = (Inr (RunStateValue e), st1)"
    by (simp add: set_state_def k b set_state_cas_def board_is_full_def MAX_BOARD_KEYS_def
        compare_and_set_def Let_def)
  have "\<exists>err. set_state (\<lambda>_. True) None UNIX_EPOCH None (RunId 7) ''k'' ''2'' 0 False
      (board_calls (\<lambda>_. True) st1 []) = (Inl err, board_calls (\<lambda>_. True) st1 [])"
    using set_state_one_winner [OF w, of "[]"] by simp
  then show ?thesis using w by (auto simp: board_calls_def)
qed

text \<open>
  The board in memory and the table it is reloaded from agree after any sequence of calls in
  which no delete met a database error; a failed write leaves both as they were.
\<close>

theorem set_state_write_through:
  assumes "board_synced st"
    and "set cs \<subseteq> {c. bc_db c = None \<or> \<not> bc_delete c}"
  shows "board_synced (board_calls is_json st cs)"
  by (rule board_calls_synced) (use assms in auto)

theorem set_state_write_through_witness:
  "board_synced (board_calls (\<lambda>_. True)
     \<lparr>bs_runs = (\<lambda>_. Some undefined), bs_board = [], bs_rows = [], bs_events = []\<rparr>
     [\<lparr>bc_db = None, bc_now = UNIX_EPOCH, bc_caller = None, bc_run = RunId 7, bc_key = ''k'',
       bc_value = ''1'', bc_expected = 0, bc_delete = False\<rparr>])"
  by (rule set_state_write_through) (simp_all add: board_synced_def)

text \<open>
  A delete is different: it removes the key from memory before it runs the statement, so when
  the statement fails the caller is told of an error although the key is already gone for every
  reader, while the table still has it and the next start of the daemon brings it back.
\<close>

theorem set_state_failed_delete_diverges:
  assumes "map_of (bs_board st) (r, key) = Some e" and "be_version e \<noteq> 0" and "valid_board_key key"
    and "bs_runs st r = Some rn" and "board_synced st"
  shows "\<exists>st'. set_state is_json (Some m) now caller r key v (be_version e) True st = (Inl (db_err m), st')
    \<and> get_state r key st' = Inl (not_found ''board key'')
    \<and> map_of (bs_rows st') (r, key) = Some e \<and> \<not> board_synced st' \<and> bs_events st' = bs_events st"
proof -
  let ?st = "st\<lparr>bs_board := AList.delete (r, key) (bs_board st)\<rparr>"
  have "set_state is_json (Some m) now caller r key v (be_version e) True st = (Inl (db_err m), ?st)"
    using assms by (simp add: set_state_def set_state_cas_def compare_and_set_def board_is_full_def Let_def)
  moreover have r: "map_of (bs_rows ?st) (r, key) = Some e" using assms(1,5) by (simp add: board_synced_def)
  moreover have n: "map_of (bs_board ?st) (r, key) = None" by (simp add: delete_conv)
  moreover have "\<not> board_synced ?st" using r n by (metis board_synced_def option.distinct(1))
  ultimately show ?thesis by (simp add: get_state_def)
qed

theorem set_state_failed_delete_diverges_witness:
  "\<exists>st'. \<not> board_synced st' \<and> get_state (RunId 7) ''k'' st' = Inl (not_found ''board key'')"
proof -
  let ?e = "\<lparr>be_run_id = RunId 7, be_key = ''k'', be_value_json = ''1'', be_version = 3,
    be_updated_by = None, be_updated_at = UNIX_EPOCH\<rparr>"
  let ?st = "\<lparr>bs_runs = (\<lambda>_. Some undefined), bs_board = [((RunId 7, ''k''), ?e)],
    bs_rows = [((RunId 7, ''k''), ?e)], bs_events = []\<rparr>"
  have "valid_board_key ''k''" by code_simp
  then show ?thesis
    using set_state_failed_delete_diverges [of ?st "RunId 7" "''k''" ?e undefined "\<lambda>_. True"
        "''disk full''" UNIX_EPOCH None "[]"]
    by (auto simp: board_synced_def)
qed

end
