(* ===== verification/Editor_Selection.thy ===== *)
theory Editor_Selection
  imports Forge_Prelude
begin

text \<open>
  Positions and carets of \<^verbatim>\<open>crates/editor-core/src/selection.rs\<close>: byte ranges, one cursor, and a
  selection, which is a set of cursors kept sorted and disjoint by \<open>many\<close>. Offsets are \<open>usize\<close>
  and so natural numbers.
\<close>

section \<open>Ranges\<close>

record byte_range =
  r_start :: nat
  r_end :: nat

definition range_new :: "nat \<Rightarrow> nat \<Rightarrow> byte_range" where
  "range_new s e = (if s \<le> e then \<lparr>r_start = s, r_end = e\<rparr> else \<lparr>r_start = e, r_end = s\<rparr>)"

definition range_empty :: "nat \<Rightarrow> byte_range" where
  "range_empty at = \<lparr>r_start = at, r_end = at\<rparr>"

definition range_len :: "byte_range \<Rightarrow> nat" where
  "range_len r = r_end r - r_start r"

definition range_is_empty :: "byte_range \<Rightarrow> bool" where
  "range_is_empty r \<longleftrightarrow> r_start r = r_end r"

definition range_contains :: "byte_range \<Rightarrow> nat \<Rightarrow> bool" where
  "range_contains r off \<longleftrightarrow> r_start r \<le> off \<and> off < r_end r"

record line_col =
  lc_line :: nat
  lc_column :: nat

section \<open>One caret\<close>

record cursor =
  c_anchor :: nat
  c_head :: nat
  c_goal_column :: "nat option"

definition cursor_caret :: "nat \<Rightarrow> cursor" where
  "cursor_caret at = \<lparr>c_anchor = at, c_head = at, c_goal_column = None\<rparr>"

definition cursor_new :: "nat \<Rightarrow> nat \<Rightarrow> cursor" where
  "cursor_new anchor head = \<lparr>c_anchor = anchor, c_head = head, c_goal_column = None\<rparr>"

definition cursor_range :: "cursor \<Rightarrow> byte_range" where
  "cursor_range c = range_new (c_anchor c) (c_head c)"

definition cursor_is_empty :: "cursor \<Rightarrow> bool" where
  "cursor_is_empty c \<longleftrightarrow> c_anchor c = c_head c"

definition cursor_collapsed :: "cursor \<Rightarrow> cursor" where
  "cursor_collapsed c = \<lparr>c_anchor = c_head c, c_head = c_head c, c_goal_column = c_goal_column c\<rparr>"

definition cursor_with_head :: "cursor \<Rightarrow> nat \<Rightarrow> bool \<Rightarrow> cursor" where
  "cursor_with_head c head extending =
    \<lparr>c_anchor = (if extending then c_anchor c else head), c_head = head, c_goal_column = None\<rparr>"

definition cursor_shifted :: "cursor \<Rightarrow> int \<Rightarrow> cursor" where
  "cursor_shifted c delta =
    (let move_one = (\<lambda>at. as_usize (max (int at + delta) 0)) in
     \<lparr>c_anchor = move_one (c_anchor c), c_head = move_one (c_head c), c_goal_column = c_goal_column c\<rparr>)"

section \<open>Every caret of a buffer\<close>

definition MAX_CURSORS :: nat where "MAX_CURSORS = 64"

record selection =
  sel_cursors :: "cursor list"
  sel_primary :: nat

definition selection_one :: "cursor \<Rightarrow> selection" where
  "selection_one c = \<lparr>sel_cursors = [c], sel_primary = 0\<rparr>"

definition selection_default :: selection where
  "selection_default = selection_one \<lparr>c_anchor = 0, c_head = 0, c_goal_column = None\<rparr>"

definition selection_caret :: "nat \<Rightarrow> selection" where
  "selection_caret at = selection_one (cursor_caret at)"

definition selection_new :: "nat \<Rightarrow> nat \<Rightarrow> selection" where
  "selection_new anchor head = selection_one (cursor_new anchor head)"

definition merge_into :: "cursor \<Rightarrow> cursor \<Rightarrow> cursor" where
  "merge_into lst c =
    (let r = range_new (min (r_start (cursor_range lst)) (r_start (cursor_range c)))
                       (max (r_end (cursor_range lst)) (r_end (cursor_range c)))
     in if c_head c \<ge> c_anchor c then cursor_new (r_start r) (r_end r)
        else cursor_new (r_end r) (r_start r))"

definition merge_step :: "cursor list \<Rightarrow> cursor \<Rightarrow> cursor list" where
  "merge_step merged c =
    (if merged \<noteq> [] \<and> r_start (cursor_range c) \<le> r_end (cursor_range (last merged))
     then butlast merged @ [merge_into (last merged) c]
     else merged @ [c])"

definition cap_cursors :: "cursor \<Rightarrow> cursor list \<Rightarrow> cursor list" where
  "cap_cursors keep merged =
    (if length merged > MAX_CURSORS then
       let at = (case position (\<lambda>c. r_start (cursor_range c) \<ge> r_start (cursor_range keep)) merged of
                   Some i \<Rightarrow> i | None \<Rightarrow> 0);
           start = min (at - MAX_CURSORS div 2) (length merged - MAX_CURSORS)
       in take MAX_CURSORS (drop start merged)
     else merged)"

definition selection_many :: "cursor list \<Rightarrow> nat \<Rightarrow> selection" where
  "selection_many cursors primary =
    (if cursors = [] then selection_default
     else
       let keep = (if primary < length cursors then cursors ! primary else cursors ! 0);
           ordered = sort_key (\<lambda>c. (r_start (cursor_range c), r_end (cursor_range c))) cursors;
           merged = cap_cursors keep (foldl merge_step [] ordered)
       in \<lparr>sel_cursors = merged,
           sel_primary = (case position (\<lambda>c. range_contains (cursor_range c) (c_head keep)
                                         \<or> c_head c = c_head keep) merged of
                            Some i \<Rightarrow> i | None \<Rightarrow> 0)\<rparr>)"

definition primary_cursor :: "selection \<Rightarrow> cursor" where
  "primary_cursor s = sel_cursors s ! sel_primary s"

definition selection_count :: "selection \<Rightarrow> nat" where
  "selection_count s = length (sel_cursors s)"

definition is_multiple :: "selection \<Rightarrow> bool" where
  "is_multiple s \<longleftrightarrow> length (sel_cursors s) > 1"

definition selection_anchor :: "selection \<Rightarrow> nat" where
  "selection_anchor s = c_anchor (primary_cursor s)"

definition selection_head :: "selection \<Rightarrow> nat" where
  "selection_head s = c_head (primary_cursor s)"

definition selection_goal_column :: "selection \<Rightarrow> nat option" where
  "selection_goal_column s = c_goal_column (primary_cursor s)"

definition selection_range :: "selection \<Rightarrow> byte_range" where
  "selection_range s = cursor_range (primary_cursor s)"

definition selection_is_empty :: "selection \<Rightarrow> bool" where
  "selection_is_empty s \<longleftrightarrow> cursor_is_empty (primary_cursor s)"

definition all_empty :: "selection \<Rightarrow> bool" where
  "all_empty s \<longleftrightarrow> list_all cursor_is_empty (sel_cursors s)"

definition selection_mapped :: "selection \<Rightarrow> (cursor \<Rightarrow> cursor) \<Rightarrow> selection" where
  "selection_mapped s f = selection_many (map f (sel_cursors s)) (sel_primary s)"

definition selection_collapsed :: "selection \<Rightarrow> selection" where
  "selection_collapsed s = selection_mapped s cursor_collapsed"

definition selection_single :: "selection \<Rightarrow> selection" where
  "selection_single s = selection_one (primary_cursor s)"

definition selection_with_head :: "selection \<Rightarrow> nat \<Rightarrow> bool \<Rightarrow> selection" where
  "selection_with_head s head extending = selection_one (cursor_with_head (primary_cursor s) head extending)"

definition with_added :: "selection \<Rightarrow> cursor \<Rightarrow> selection" where
  "with_added s c = selection_many (sel_cursors s @ [c]) (length (sel_cursors s))"

definition selection_shifted :: "selection \<Rightarrow> int \<Rightarrow> selection" where
  "selection_shifted s delta = selection_mapped s (\<lambda>c. cursor_shifted c delta)"

section \<open>The invariant\<close>

abbreviation c_lo :: "cursor \<Rightarrow> nat" where "c_lo c \<equiv> r_start (cursor_range c)"
abbreviation c_hi :: "cursor \<Rightarrow> nat" where "c_hi c \<equiv> r_end (cursor_range c)"

definition apart :: "cursor list \<Rightarrow> bool" where
  "apart xs \<longleftrightarrow> sorted_wrt (\<lambda>a b. c_hi a < c_lo b) xs"

definition sel_ok :: "selection \<Rightarrow> bool" where
  "sel_ok s \<longleftrightarrow> sel_cursors s \<noteq> [] \<and> length (sel_cursors s) \<le> MAX_CURSORS
     \<and> sel_primary s < length (sel_cursors s) \<and> apart (sel_cursors s)"

lemma range_new_simps [simp]: "r_start (range_new a b) = min a b" "r_end (range_new a b) = max a b"
  by (auto simp: range_new_def)

lemma cursor_new_range [simp]: "c_lo (cursor_new a b) = min a b" "c_hi (cursor_new a b) = max a b"
  by (simp_all add: cursor_new_def cursor_range_def)

lemma c_lo_le_hi [simp]: "c_lo c \<le> c_hi c"
  by (simp add: cursor_range_def)

lemma merge_into_range [simp]:
  "c_lo (merge_into a b) = min (c_lo a) (c_lo b)" "c_hi (merge_into a b) = max (c_hi a) (c_hi b)"
proof -
  have "min (c_lo a) (c_lo b) \<le> max (c_hi a) (c_hi b)" using c_lo_le_hi [of a] by linarith
  then show "c_lo (merge_into a b) = min (c_lo a) (c_lo b)" "c_hi (merge_into a b) = max (c_hi a) (c_hi b)"
    by (simp_all add: merge_into_def Let_def)
qed

lemma merge_step_not_Nil [simp]: "merge_step xs c \<noteq> []"
  by (simp add: merge_step_def)

text \<open>Merging cursors that arrive in order keeps the list apart.\<close>

lemma apart_snoc: "apart (xs @ [c]) \<longleftrightarrow> apart xs \<and> (\<forall>x \<in> set xs. c_hi x < c_lo c)"
  by (auto simp: apart_def sorted_wrt_append)

lemma merge_step_apart:
  assumes "apart xs" and "\<And>x. x \<in> set xs \<Longrightarrow> c_lo x \<le> c_lo c"
  shows "apart (merge_step xs c)" and "\<And>x. x \<in> set (merge_step xs c) \<Longrightarrow> c_lo x \<le> c_lo c"
proof -
  show "apart (merge_step xs c)"
  proof (cases xs rule: rev_cases)
    case Nil
    then show ?thesis by (simp add: merge_step_def apart_def)
  next
    case (snoc ys l)
    have a: "apart ys" "\<forall>y \<in> set ys. c_hi y < c_lo l" using assms(1) snoc apart_snoc by auto
    have l: "c_lo l \<le> c_lo c" using assms(2) snoc by simp
    show ?thesis
    proof (cases "c_lo c \<le> c_hi l")
      case True
      then show ?thesis using a l snoc by (simp add: merge_step_def apart_snoc)
    next
      case False
      then have "c_hi x < c_lo c" if "x \<in> set xs" for x
        using a(2) that snoc order_less_trans [of "c_hi x" "c_lo l" "c_lo c"] c_lo_le_hi [of l] by fastforce
      then have "apart (xs @ [c])" using assms(1) by (simp only: apart_snoc) blast
      moreover have "merge_step xs c = xs @ [c]" using False snoc by (simp add: merge_step_def)
      ultimately show ?thesis by simp
    qed
  qed
  show "c_lo x \<le> c_lo c" if "x \<in> set (merge_step xs c)" for x
    using that assms(2) by (auto simp: merge_step_def split: if_splits dest: in_set_butlastD)
qed

lemma foldl_merge_apart:
  assumes "sorted (map c_lo ys)" and "apart xs" and "\<And>x y. x \<in> set xs \<Longrightarrow> y \<in> set ys \<Longrightarrow> c_lo x \<le> c_lo y"
  shows "apart (foldl merge_step xs ys)"
  using assms
proof (induction ys arbitrary: xs)
  case Nil
  then show ?case by simp
next
  case (Cons y ys)
  have "apart (merge_step xs y)" by (rule merge_step_apart) (use Cons.prems in auto)
  moreover have "c_lo x \<le> c_lo z" if "x \<in> set (merge_step xs y)" "z \<in> set ys" for x z
  proof -
    have "c_lo x \<le> c_lo y" by (rule merge_step_apart(2) [of xs]) (use Cons.prems that in auto)
    then show ?thesis using Cons.prems(1) that(2) by (auto simp: order_trans)
  qed
  ultimately show ?case using Cons.IH Cons.prems(1) by simp
qed

text \<open>Every cursor stays inside one of the merged ones.\<close>

definition covers :: "cursor \<Rightarrow> cursor \<Rightarrow> bool" where
  "covers m c \<longleftrightarrow> c_lo m \<le> c_lo c \<and> c_hi c \<le> c_hi m"

lemma covers_trans: "covers a b \<Longrightarrow> covers b c \<Longrightarrow> covers a c"
  by (auto simp: covers_def)

lemma merge_step_covers:
  "x \<in> set xs \<or> x = c \<Longrightarrow> \<exists>m \<in> set (merge_step xs c). covers m x"
proof (cases xs rule: rev_cases)
  case Nil
  assume "x \<in> set xs \<or> x = c"
  then show ?thesis using Nil by (auto simp: merge_step_def covers_def)
next
  case (snoc ys l)
  assume "x \<in> set xs \<or> x = c"
  then show ?thesis using snoc by (fastforce simp: merge_step_def covers_def)
qed

lemma foldl_merge_covers:
  "x \<in> set xs \<union> set ys \<Longrightarrow> \<exists>m \<in> set (foldl merge_step xs ys). covers m x"
proof (induction ys arbitrary: x xs)
  case Nil
  then show ?case by (auto simp: covers_def)
next
  case (Cons y ys)
  then obtain m where "m \<in> set (merge_step xs y) \<union> set ys" "covers m x"
    using merge_step_covers [of x xs y] by (auto simp: covers_def)
  then show ?case using Cons.IH [of m "merge_step xs y"] covers_trans by auto
qed

lemma foldl_merge_not_Nil: "xs \<noteq> [] \<or> ys \<noteq> [] \<Longrightarrow> foldl merge_step xs ys \<noteq> []"
  by (induction ys arbitrary: xs) auto

lemma sort_key_lo: "sorted (map c_lo (sort_key (\<lambda>c. (c_lo c, c_hi c)) xs))"
proof -
  let ?ys = "sort_key (\<lambda>c. (c_lo c, c_hi c)) xs"
  have "sorted (map (\<lambda>c. (c_lo c, c_hi c)) ?ys)" by simp
  then have "sorted (map fst (map (\<lambda>c. (c_lo c, c_hi c)) ?ys))"
    by (auto simp: sorted_iff_nth_mono less_eq_prod_def order_le_less)
  then show ?thesis by (simp add: comp_def)
qed

lemma apart_infix: "apart xs \<Longrightarrow> apart (take n (drop m xs))"
  by (simp add: apart_def sorted_wrt_take sorted_wrt_drop)

lemma cap_cursors_props:
  assumes "apart xs" and "xs \<noteq> []"
  shows "apart (cap_cursors k xs)" and "cap_cursors k xs \<noteq> []" and "length (cap_cursors k xs) \<le> MAX_CURSORS"
    and "length xs \<le> MAX_CURSORS \<Longrightarrow> cap_cursors k xs = xs"
  using assms by (auto simp: cap_cursors_def Let_def apart_infix MAX_CURSORS_def)

lemma length_foldl_merge: "length (foldl merge_step xs ys) \<le> length xs + length ys"
proof (induction ys arbitrary: xs)
  case (Cons y ys)
  have "length (merge_step xs y) \<le> Suc (length xs)" by (auto simp: merge_step_def)
  then show ?case using Cons.IH [of "merge_step xs y"] by simp
qed simp

lemma selection_many_unfold:
  assumes "xs \<noteq> []"
  obtains keep merged where "keep = (if p < length xs then xs ! p else xs ! 0)"
    "merged = foldl merge_step [] (sort_key (\<lambda>c. (c_lo c, c_hi c)) xs)" "apart merged" "merged \<noteq> []"
    "length merged \<le> length xs" "\<And>c. c \<in> set xs \<Longrightarrow> \<exists>m \<in> set merged. covers m c"
    "sel_cursors (selection_many xs p) = cap_cursors keep merged"
    "sel_primary (selection_many xs p) =
      (case position (\<lambda>c. range_contains (cursor_range c) (c_head keep) \<or> c_head c = c_head keep)
         (cap_cursors keep merged) of Some i \<Rightarrow> i | None \<Rightarrow> 0)"
proof -
  let ?o = "sort_key (\<lambda>c. (c_lo c, c_hi c)) xs"
  let ?m = "foldl merge_step [] ?o"
  let ?k = "if p < length xs then xs ! p else xs ! 0"
  have o: "?o \<noteq> []" using assms by (metis length_0_conv length_sort)
  show ?thesis
  proof (rule that [of ?k ?m])
    show "apart ?m" by (rule foldl_merge_apart [OF sort_key_lo]) (simp_all add: apart_def)
    show "?m \<noteq> []" using foldl_merge_not_Nil o by blast
    show "length ?m \<le> length xs" using length_foldl_merge [of "[]" ?o] by simp
    show "\<exists>m \<in> set ?m. covers m c" if "c \<in> set xs" for c using foldl_merge_covers [of c "[]" ?o] that by simp
  qed (simp_all add: selection_many_def assms Let_def)
qed

lemma position_case_less: "xs \<noteq> [] \<Longrightarrow> (case position P xs of Some i \<Rightarrow> i | None \<Rightarrow> 0) < length xs"
  by (auto dest: position_less_length split: option.splits)

lemma sel_ok_many: "sel_ok (selection_many xs p)"
proof (cases "xs = []")
  case True
  then show ?thesis
    by (simp add: selection_many_def selection_default_def selection_one_def sel_ok_def apart_def MAX_CURSORS_def)
next
  case False
  then show ?thesis
    by (rule selection_many_unfold [of xs p])
      (simp add: sel_ok_def cap_cursors_props position_case_less)
qed

lemma sel_ok_one [simp]: "sel_ok (selection_one c)"
  by (simp add: selection_one_def sel_ok_def apart_def MAX_CURSORS_def)

lemma c_head_range: "c_lo c \<le> c_head c" "c_head c \<le> c_hi c"
  by (simp_all add: cursor_range_def)

lemma apart_nth: "apart xs \<Longrightarrow> i < j \<Longrightarrow> j < length xs \<Longrightarrow> c_hi (xs ! i) < c_lo (xs ! j)"
  by (simp add: apart_def sorted_wrt_iff_nth_less)

text \<open>In a list of cursors that are apart, a caret position names at most one of them.\<close>

lemma position_head:
  assumes "apart xs" and "k \<in> set xs"
  shows "\<exists>i. position (\<lambda>c. range_contains (cursor_range c) (c_head k) \<or> c_head c = c_head k) xs = Some i
    \<and> xs ! i = k"
proof -
  let ?P = "\<lambda>c. range_contains (cursor_range c) (c_head k) \<or> c_head c = c_head k"
  obtain j where j: "j < length xs" "xs ! j = k" using assms(2) by (auto simp: in_set_conv_nth)
  obtain i where i: "position ?P xs = Some i" using position_None [of ?P xs] assms(2) by (cases "position ?P xs") auto
  note p = position_Some [OF i]
  have "\<not> j < i" using p j by auto
  moreover have "\<not> i < j"
  proof
    assume "i < j"
    then have "c_hi (xs ! i) < c_lo k" using apart_nth [OF assms(1)] j by blast
    then have "c_hi (xs ! i) < c_head k" using c_head_range(1) [of k] by linarith
    then show False using p c_head_range(2) [of "xs ! i"] by (auto simp: range_contains_def)
  qed
  ultimately show ?thesis using i j by (cases i j rule: linorder_cases) auto
qed

section \<open>Properties\<close>

text \<open>
  Whatever carets a selection is built from, in any order and overlapping in any way, the
  result is never empty, has at most 64 carets in document order, no two of which overlap or even
  touch, and a primary index that is in range; up to the cap no selected byte is lost (every
  caret given lies inside one of the result), and a primary caret that was not merged away stays
  primary. Every other way to build a selection goes through this one or holds a single caret.
\<close>

theorem selection_many_normal:
  "sel_ok (selection_many xs p)
   \<and> (xs \<noteq> [] \<and> length xs \<le> MAX_CURSORS \<longrightarrow>
        (\<forall>c \<in> set xs. \<exists>m \<in> set (sel_cursors (selection_many xs p)). covers m c))
   \<and> (p < length xs \<and> xs ! p \<in> set (sel_cursors (selection_many xs p)) \<longrightarrow>
        primary_cursor (selection_many xs p) = xs ! p)"
proof (cases "xs = []")
  case True
  then show ?thesis using sel_ok_many by simp
next
  case False
  then show ?thesis
  proof (rule selection_many_unfold [of xs p])
    fix keep merged
    assume k: "keep = (if p < length xs then xs ! p else xs ! 0)"
      and m: "apart merged" "merged \<noteq> []" "length merged \<le> length xs"
      and cov: "\<And>c. c \<in> set xs \<Longrightarrow> \<exists>m \<in> set merged. covers m c"
      and s: "sel_cursors (selection_many xs p) = cap_cursors keep merged"
      and pr: "sel_primary (selection_many xs p) =
        (case position (\<lambda>c. range_contains (cursor_range c) (c_head keep) \<or> c_head c = c_head keep)
           (cap_cursors keep merged) of Some i \<Rightarrow> i | None \<Rightarrow> 0)"
    have "primary_cursor (selection_many xs p) = xs ! p"
      if "p < length xs" "xs ! p \<in> set (sel_cursors (selection_many xs p))"
      using position_head [OF cap_cursors_props(1) [OF m(1,2)], of keep keep] that k s pr
      by (auto simp: primary_cursor_def)
    moreover have "cap_cursors keep merged = merged" if "length xs \<le> MAX_CURSORS"
      using cap_cursors_props(4) [OF m(1,2)] m(3) that by simp
    ultimately show ?thesis using sel_ok_many cov s by auto
  qed
qed

theorem selection_many_normal_witness:
  "primary_cursor (selection_many [cursor_new 9 7, cursor_new 2 4, cursor_new 3 5] 0) = cursor_new 9 7"
proof -
  have "sel_cursors (selection_many [cursor_new 9 7, cursor_new 2 4, cursor_new 3 5] 0)
      = [cursor_new 2 5, cursor_new 9 7]" by code_simp
  then show ?thesis
    using selection_many_normal [of "[cursor_new 9 7, cursor_new 2 4, cursor_new 3 5]" 0] by simp
qed

text \<open>
  A primary caret that is merged away is not always followed: the caret at 15 is swallowed by the
  range 10..15, whose own caret ends up at 10, and then the search for 15 finds neither and falls
  back to the first caret of the buffer.
\<close>

lemma many_primary_lost:
  "selection_many [cursor_caret 0, cursor_new 10 15, cursor_new 15 13] 1
     = \<lparr>sel_cursors = [cursor_caret 0, cursor_new 15 10], sel_primary = 0\<rparr>"
  by code_simp

end
