(* ===== verification/Editor_Text.thy ===== *)
theory Editor_Text
  imports Editor_Selection
begin

text \<open>
  The buffer of \<^verbatim>\<open>crates/editor-core/src/text.rs\<close>: the file's bytes and the offsets at which its
  lines start, maintained by shifting instead of rescanning. The main result is that the
  maintained index is the one a rescan would give. What the document relies on is the locale
  \<open>buffer\<close>, interpreted on this model.
\<close>

abbreviation nl :: char where "nl \<equiv> CHR 0x0A"
abbreviation cr :: char where "cr \<equiv> CHR 0x0D"

text \<open>\<open>match_indices\<close> of a newline, counted from \<open>i\<close>.\<close>

fun newlines_at :: "nat \<Rightarrow> string \<Rightarrow> nat list" where
  "newlines_at i [] = []"
| "newlines_at i (c # s) = (if c = nl then i # newlines_at (Suc i) s else newlines_at (Suc i) s)"

definition scan_line_starts :: "string \<Rightarrow> nat list" where
  "scan_line_starts bytes = 0 # map (\<lambda>at. at + 1) (newlines_at 0 bytes)"

record text_buf =
  tx_bytes :: string
  tx_line_starts :: "nat list"

definition text_new :: "string \<Rightarrow> text_buf" where
  "text_new bytes = \<lparr>tx_bytes = bytes, tx_line_starts = scan_line_starts bytes\<rparr>"

definition text_len :: "text_buf \<Rightarrow> nat" where
  "text_len t = length (tx_bytes t)"

definition text_is_empty :: "text_buf \<Rightarrow> bool" where
  "text_is_empty t \<longleftrightarrow> tx_bytes t = []"

definition line_count :: "text_buf \<Rightarrow> nat" where
  "line_count t = length (tx_line_starts t)"

definition line_start :: "text_buf \<Rightarrow> nat \<Rightarrow> nat" where
  "line_start t line = tx_line_starts t ! min line (length (tx_line_starts t) - 1)"

definition line_end :: "text_buf \<Rightarrow> nat \<Rightarrow> nat" where
  "line_end t line0 =
    (let line = min line0 (length (tx_line_starts t) - 1);
         start = tx_line_starts t ! line
     in if line + 1 < length (tx_line_starts t) then
          let e = tx_line_starts t ! (line + 1) - 1
          in if e > start \<and> tx_bytes t ! (e - 1) = cr then e - 1 else e
        else length (tx_bytes t))"

definition substr :: "string \<Rightarrow> nat \<Rightarrow> nat \<Rightarrow> string" where
  "substr s i j = take (j - i) (drop i s)"

definition line_terminator :: "text_buf \<Rightarrow> nat \<Rightarrow> string" where
  "line_terminator t line0 =
    (let line = min line0 (length (tx_line_starts t) - 1)
     in if line + 1 < length (tx_line_starts t)
        then substr (tx_bytes t) (line_end t line) (tx_line_starts t ! (line + 1))
        else [])"

definition text_line :: "text_buf \<Rightarrow> nat \<Rightarrow> string" where
  "text_line t line = substr (tx_bytes t) (line_start t line) (line_end t line)"

definition line_of_offset :: "text_buf \<Rightarrow> nat \<Rightarrow> nat" where
  "line_of_offset t off0 =
    (let off = min off0 (length (tx_bytes t))
     in partition_point (\<lambda>start. start \<le> off) (tx_line_starts t) - 1)"

definition clamp_offset :: "text_buf \<Rightarrow> nat \<Rightarrow> nat" where
  "clamp_offset t off = floor_boundary (tx_bytes t) (min off (length (tx_bytes t)))"

definition text_line_col :: "text_buf \<Rightarrow> nat \<Rightarrow> line_col" where
  "text_line_col t off0 =
    (let off = clamp_offset t off0; line = line_of_offset t off
     in \<lparr>lc_line = line, lc_column = off - tx_line_starts t ! line\<rparr>)"

definition offset_of :: "text_buf \<Rightarrow> line_col \<Rightarrow> nat" where
  "offset_of t pos =
    (let line = min (lc_line pos) (length (tx_line_starts t) - 1);
         start = tx_line_starts t ! line;
         e = line_end t line
     in clamp_offset t (min (start + lc_column pos) e))"

definition clamp_range :: "text_buf \<Rightarrow> byte_range \<Rightarrow> byte_range" where
  "clamp_range t r =
    (let start = clamp_offset t (r_start r)
     in \<lparr>r_start = start, r_end = max (clamp_offset t (r_end r)) start\<rparr>)"

definition text_slice :: "text_buf \<Rightarrow> byte_range \<Rightarrow> string" where
  "text_slice t r0 = (let r = clamp_range t r0 in substr (tx_bytes t) (r_start r) (r_end r))"

definition is_boundary :: "text_buf \<Rightarrow> nat \<Rightarrow> bool" where
  "is_boundary t off \<longleftrightarrow> off \<le> length (tx_bytes t) \<and> is_char_boundary (tx_bytes t) off"

definition text_replace :: "text_buf \<Rightarrow> byte_range \<Rightarrow> string \<Rightarrow> text_buf" where
  "text_replace t r0 ins =
    (let r = clamp_range t r0;
         removed = r_end r - r_start r;
         from_i = partition_point (\<lambda>start. start \<le> r_start r) (tx_line_starts t);
         to_i = partition_point (\<lambda>start. start \<le> r_end r) (tx_line_starts t);
         moved = (if length ins \<ge> removed
                  then take to_i (tx_line_starts t)
                       @ map (\<lambda>start. start + (length ins - removed)) (drop to_i (tx_line_starts t))
                  else take to_i (tx_line_starts t)
                       @ map (\<lambda>start. start - (removed - length ins)) (drop to_i (tx_line_starts t)));
         fresh = map (\<lambda>at. r_start r + at + 1) (newlines_at 0 ins)
     in \<lparr>tx_bytes = take (r_start r) (tx_bytes t) @ ins @ drop (r_end r) (tx_bytes t),
         tx_line_starts = take from_i moved @ fresh @ drop to_i moved\<rparr>)"

definition newlines :: "string \<Rightarrow> nat" where
  "newlines body = length (filter (\<lambda>b. b = nl) body)"

section \<open>The line index\<close>

definition text_ok :: "text_buf \<Rightarrow> bool" where
  "text_ok t \<longleftrightarrow> tx_line_starts t = scan_line_starts (tx_bytes t)"

lemma newlines_at_append:
  "newlines_at i (a @ b) = newlines_at i a @ newlines_at (i + length a) b"
  by (induction a arbitrary: i) auto

lemma newlines_at_shift: "newlines_at (i + k) s = map (\<lambda>x. x + k) (newlines_at i s)"
  by (induction s arbitrary: i) (auto simp: add_Suc [symmetric] simp del: add_Suc)

lemma newlines_at_set: "x \<in> set (newlines_at i s) \<longleftrightarrow> i \<le> x \<and> x < i + length s \<and> s ! (x - i) = nl"
proof (induction s arbitrary: i)
  case (Cons c s)
  have "x - i = Suc (x - Suc i)" if "Suc i \<le> x" using that by simp
  then show ?case using Cons [of "Suc i"] by (auto simp: nth_Cons' le_Suc_eq)
qed simp

lemma length_newlines_at: "length (newlines_at i s) = newlines s"
  by (induction s arbitrary: i) (auto simp: newlines_def)

lemma newlines_append [simp]: "newlines (a @ b) = newlines a + newlines b"
  by (simp add: newlines_def)

lemma scan_line_starts_append:
  "scan_line_starts (a @ b) = scan_line_starts a @ map (\<lambda>x. x + length a + 1) (newlines_at 0 b)"
  using newlines_at_shift [of 0 "length a" b]
  by (simp add: scan_line_starts_def newlines_at_append comp_def)

lemma scan_line_starts_le: "x \<in> set (scan_line_starts s) \<Longrightarrow> x \<le> length s"
  by (auto simp: scan_line_starts_def newlines_at_set)

lemma sorted_newlines_at: "sorted_wrt (<) (newlines_at i s)"
  by (induction s arbitrary: i) (auto simp: newlines_at_set)

lemma sorted_scan_line_starts: "sorted_wrt (<) (scan_line_starts s)"
  using sorted_newlines_at [of 0 s] by (auto simp: scan_line_starts_def sorted_wrt_map)

lemma partition_point_append:
  "(\<forall>x \<in> set xs. P x) \<Longrightarrow> (\<forall>y \<in> set ys. \<not> P y) \<Longrightarrow> partition_point P (xs @ ys) = length xs"
proof -
  assume a: "\<forall>x \<in> set xs. P x" "\<forall>y \<in> set ys. \<not> P y"
  then have "takeWhile P (xs @ ys) = xs @ takeWhile P ys" by simp
  moreover have "takeWhile P ys = []" using a(2) by (cases ys) auto
  ultimately show ?thesis by (simp add: partition_point_def)
qed

lemma partition_point_scan:
  "partition_point (\<lambda>x. x \<le> length a) (scan_line_starts (a @ b)) = Suc (newlines a)"
proof -
  have "partition_point (\<lambda>x. x \<le> length a)
      (scan_line_starts a @ map (\<lambda>x. x + length a + 1) (newlines_at 0 b)) = length (scan_line_starts a)"
    by (rule partition_point_append) (auto dest: scan_line_starts_le)
  then show ?thesis
    by (simp add: scan_line_starts_append) (simp add: scan_line_starts_def length_newlines_at)
qed

text \<open>Splicing at cut points \<open>a\<close> and \<open>a @ m\<close>: the index that \<open>replace\<close> computes is a rescan's.\<close>

lemma splice_line_starts:
  fixes a m b ins :: string
  defines "ls \<equiv> scan_line_starts (a @ m @ b)"
  defines "f \<equiv> (\<lambda>x. if length m \<le> length ins then x + (length ins - length m) else x - (length m - length ins))"
  shows "take (Suc (newlines a)) (take (Suc (newlines (a @ m))) ls @ map f (drop (Suc (newlines (a @ m))) ls))
      @ map (\<lambda>at. length a + at + 1) (newlines_at 0 ins)
      @ drop (Suc (newlines (a @ m))) (take (Suc (newlines (a @ m))) ls @ map f (drop (Suc (newlines (a @ m))) ls))
    = scan_line_starts (a @ ins @ b)"
proof -
  let ?la = "scan_line_starts a"
  let ?lm = "map (\<lambda>x. x + length a + 1) (newlines_at 0 m)"
  let ?lb = "map (\<lambda>x. x + length (a @ m) + 1) (newlines_at 0 b)"
  have ls: "ls = ?la @ ?lm @ ?lb"
    using scan_line_starts_append [of "a @ m" b] scan_line_starts_append [of a m] by (simp add: ls_def)
  have la: "length ?la = Suc (newlines a)" by (simp add: scan_line_starts_def length_newlines_at)
  have lm: "length (?la @ ?lm) = Suc (newlines (a @ m))" using la by (simp add: length_newlines_at)
  have t: "take (Suc (newlines (a @ m))) ls = ?la @ ?lm" "drop (Suc (newlines (a @ m))) ls = ?lb"
    unfolding ls lm [symmetric] by simp_all
  have fb: "map f ?lb = map (\<lambda>x. x + length (a @ ins) + 1) (newlines_at 0 b)"
    by (auto simp: f_def)
  have "scan_line_starts (a @ ins @ b)
      = ?la @ map (\<lambda>x. x + length a + 1) (newlines_at 0 ins) @ map (\<lambda>x. x + length (a @ ins) + 1) (newlines_at 0 b)"
    using scan_line_starts_append [of "a @ ins" b] scan_line_starts_append [of a ins] by simp
  moreover have "take (Suc (newlines a)) ((?la @ ?lm) @ map f ?lb) = ?la" using la by simp
  moreover have "drop (Suc (newlines (a @ m))) ((?la @ ?lm) @ map f ?lb) = map f ?lb"
    using lm by simp
  ultimately show ?thesis unfolding t fb by (simp add: ac_simps)
qed

lemma clamp_offset_boundary: "is_char_boundary (tx_bytes t) (clamp_offset t o')"
  by (simp add: clamp_offset_def)

lemma clamp_offset_le: "clamp_offset t o' \<le> length (tx_bytes t)"
  using floor_boundary_le_length by (simp add: clamp_offset_def)

lemma clamp_offset_id [simp]: "is_char_boundary (tx_bytes t) i \<Longrightarrow> clamp_offset t i = i"
  using char_boundary_le [of "tx_bytes t" i] by (simp add: clamp_offset_def)

lemma clamp_offset_le_arg: "clamp_offset t i \<le> i"
  using floor_boundary_le [of "tx_bytes t" "min i (length (tx_bytes t))"] by (simp add: clamp_offset_def)

lemma clamp_range_cases:
  obtains i j where "clamp_range t r = \<lparr>r_start = i, r_end = j\<rparr>" "i \<le> j" "j \<le> length (tx_bytes t)"
    "is_char_boundary (tx_bytes t) i" "is_char_boundary (tx_bytes t) j"
proof (rule that [of "clamp_offset t (r_start r)" "max (clamp_offset t (r_end r)) (clamp_offset t (r_start r))"])
  show "is_char_boundary (tx_bytes t) (max (clamp_offset t (r_end r)) (clamp_offset t (r_start r)))"
    using clamp_offset_boundary by (simp add: max_def)
qed (simp_all add: clamp_range_def Let_def clamp_offset_le clamp_offset_boundary)

lemma clamp_range_id:
  "is_char_boundary (tx_bytes t) i \<Longrightarrow> is_char_boundary (tx_bytes t) j \<Longrightarrow> i \<le> j \<Longrightarrow>
    clamp_range t \<lparr>r_start = i, r_end = j\<rparr> = \<lparr>r_start = i, r_end = j\<rparr>"
  by (simp add: clamp_range_def Let_def max_def)

text \<open>\<open>replace\<close> is the splice of the clamped range, with the index of a rescan.\<close>

lemma text_replace_new:
  assumes "text_ok t" and r: "clamp_range t r0 = \<lparr>r_start = i, r_end = j\<rparr>" "i \<le> j" "j \<le> length (tx_bytes t)"
  shows "text_replace t r0 ins = text_new (take i (tx_bytes t) @ ins @ drop j (tx_bytes t))"
proof -
  let ?a = "take i (tx_bytes t)" and ?m = "take (j - i) (drop i (tx_bytes t))" and ?b = "drop j (tx_bytes t)"
  have s: "tx_bytes t = ?a @ ?m @ ?b"
    using r(2) by (metis append_take_drop_id drop_drop le_add_diff_inverse2)
  have la: "length ?a = i" and lm: "length ?m = j - i" and lam: "length (?a @ ?m) = j" using r(2,3) by simp_all
  have ls: "tx_line_starts t = scan_line_starts (?a @ ?m @ ?b)" using assms(1) s by (simp add: text_ok_def)
  have pi: "partition_point (\<lambda>x. x \<le> i) (tx_line_starts t) = Suc (newlines ?a)"
    using partition_point_scan [of ?a "?m @ ?b"] unfolding ls la .
  have pj: "partition_point (\<lambda>x. x \<le> j) (tx_line_starts t) = Suc (newlines (?a @ ?m))"
    using partition_point_scan [of "?a @ ?m" ?b] unfolding ls lam by simp
  show ?thesis
    using splice_line_starts [of ?a ?m ?b ins, folded ls, unfolded la lm]
    unfolding text_replace_def text_new_def r byte_range.simps Let_def pi pj
    by (auto split: if_splits)
qed

lemma text_ok_new [simp]: "text_ok (text_new s)"
  by (simp add: text_ok_def text_new_def)

lemma tx_bytes_new [simp]: "tx_bytes (text_new s) = s"
  by (simp add: text_new_def)

section \<open>What the document relies on\<close>

locale buffer =
  fixes content :: "'b \<Rightarrow> string"
    and repl :: "'b \<Rightarrow> byte_range \<Rightarrow> string \<Rightarrow> 'b"
    and slice :: "'b \<Rightarrow> byte_range \<Rightarrow> string"
    and ok :: "'b \<Rightarrow> bool"
  assumes content_repl: "ok b \<Longrightarrow> i \<le> j \<Longrightarrow> is_char_boundary (content b) i \<Longrightarrow>
      is_char_boundary (content b) j \<Longrightarrow>
      content (repl b \<lparr>r_start = i, r_end = j\<rparr> ins) = take i (content b) @ ins @ drop j (content b)"
    and ok_repl: "ok b \<Longrightarrow> ok (repl b r ins)"
    and content_slice: "ok b \<Longrightarrow> i \<le> j \<Longrightarrow> is_char_boundary (content b) i \<Longrightarrow>
      is_char_boundary (content b) j \<Longrightarrow> slice b \<lparr>r_start = i, r_end = j\<rparr> = take (j - i) (drop i (content b))"

interpretation tb: buffer tx_bytes text_replace text_slice text_ok
proof unfold_locales
  fix t :: text_buf and i j and ins :: string
  assume ok: "text_ok t"
  show "text_ok (text_replace t r ins)" for r
  proof (rule clamp_range_cases [of t r])
    fix i j
    assume "clamp_range t r = \<lparr>r_start = i, r_end = j\<rparr>" "i \<le> j" "j \<le> length (tx_bytes t)"
    then show ?thesis using text_replace_new [OF ok] by simp
  qed
  assume ij: "i \<le> j" "is_char_boundary (tx_bytes t) i" "is_char_boundary (tx_bytes t) j"
  note c = clamp_range_id [OF ij(2,3,1)]
  show "tx_bytes (text_replace t \<lparr>r_start = i, r_end = j\<rparr> ins) = take i (tx_bytes t) @ ins @ drop j (tx_bytes t)"
    using text_replace_new [OF ok c ij(1) char_boundary_le [OF ij(3)]] by simp
  show "text_slice t \<lparr>r_start = i, r_end = j\<rparr> = take (j - i) (drop i (tx_bytes t))"
    by (simp add: text_slice_def c substr_def)
qed

section \<open>Lines and positions\<close>

lemma length_scan: "length (scan_line_starts s) = Suc (newlines s)"
  by (simp add: scan_line_starts_def length_newlines_at)

lemma scan_nth_0 [simp]: "scan_line_starts s ! 0 = 0"
  by (simp add: scan_line_starts_def)

lemma scan_nth_mono: "i < j \<Longrightarrow> j < length (scan_line_starts s) \<Longrightarrow> scan_line_starts s ! i < scan_line_starts s ! j"
  using sorted_scan_line_starts [of s] by (simp add: sorted_wrt_iff_nth_less)

lemma scan_nth_Suc:
  assumes "Suc l < length (scan_line_starts s)"
  obtains p where "scan_line_starts s ! Suc l = Suc p" "p < length s" "s ! p = nl" "scan_line_starts s ! l \<le> p"
proof -
  have "scan_line_starts s ! Suc l \<in> set (map (\<lambda>at. at + 1) (newlines_at 0 s))"
    using assms by (simp add: scan_line_starts_def)
  then obtain p where p: "scan_line_starts s ! Suc l = Suc p" "p \<in> set (newlines_at 0 s)" by auto
  moreover have "scan_line_starts s ! l < Suc p" using scan_nth_mono [of l "Suc l" s] assms p by simp
  ultimately show ?thesis using that [of p] by (auto simp: newlines_at_set)
qed

lemma ascii_boundary: "p < length s \<Longrightarrow> s ! p = nl \<or> s ! p = cr \<Longrightarrow> is_char_boundary s p"
  by (auto simp: is_char_boundary_def is_cont_def)

lemma line_end_props:
  assumes "text_ok t" and "l < line_count t"
  shows "tx_line_starts t ! l \<le> line_end t l" and "is_char_boundary (tx_bytes t) (line_end t l)"
    and "Suc l < line_count t \<Longrightarrow> line_end t l < tx_line_starts t ! Suc l"
    and "Suc l = line_count t \<Longrightarrow> line_end t l = length (tx_bytes t)"
proof -
  let ?s = "tx_bytes t" and ?ls = "scan_line_starts (tx_bytes t)"
  have ls: "tx_line_starts t = ?ls" using assms(1) by (simp add: text_ok_def)
  have n: "l < length ?ls" using assms(2) by (simp add: line_count_def ls)
  have m: "min l (length ?ls - 1) = l" using n by simp
  have last: "line_end t l = length ?s" if "Suc l = length ?ls"
    using that m by (simp add: line_end_def ls Let_def)
  have mid: "?ls ! l \<le> line_end t l \<and> is_char_boundary ?s (line_end t l) \<and> line_end t l < ?ls ! Suc l"
    if "Suc l < length ?ls"
  proof (rule scan_nth_Suc [OF that])
    fix p
    assume p: "?ls ! Suc l = Suc p" "p < length ?s" "?s ! p = nl" "?ls ! l \<le> p"
    have e: "line_end t l = (if p > ?ls ! l \<and> ?s ! (p - 1) = cr then p - 1 else p)"
      using that p(1) m by (simp add: line_end_def ls Let_def)
    then show ?thesis using p ascii_boundary [of p ?s] ascii_boundary [of "p - 1" ?s] by auto
  qed
  have last_le: "?ls ! l \<le> length ?s" using n scan_line_starts_le nth_mem by blast
  show "tx_line_starts t ! l \<le> line_end t l" "is_char_boundary ?s (line_end t l)"
    using mid last last_le n ls by (cases "Suc l = length ?ls"; force)+
  show "line_end t l < tx_line_starts t ! Suc l" if "Suc l < line_count t"
    using mid that by (simp add: line_count_def ls)
  show "line_end t l = length ?s" if "Suc l = line_count t" using last that by (simp add: line_count_def ls)
qed

lemma substr_append: "i \<le> j \<Longrightarrow> j \<le> k \<Longrightarrow> substr s i j @ substr s j k = substr s i k"
proof -
  assume ij: "i \<le> j" "j \<le> k"
  have "drop j s = drop (j - i) (drop i s)" using ij(1) by simp
  moreover have "k - i = (j - i) + (k - j)" using ij by simp
  ultimately show ?thesis unfolding substr_def by (simp only: take_add)
qed

lemma line_with_terminator:
  assumes "text_ok t" and "l < line_count t"
  shows "text_line t l @ line_terminator t l =
    substr (tx_bytes t) (tx_line_starts t ! l)
      (if Suc l < line_count t then tx_line_starts t ! Suc l else length (tx_bytes t))"
proof -
  have m: "min l (length (tx_line_starts t) - 1) = l" using assms(2) by (simp add: line_count_def)
  note e = line_end_props [OF assms]
  show ?thesis
  proof (cases "Suc l < line_count t")
    case True
    then show ?thesis using m e(1) e(3) [OF True]
      by (simp add: text_line_def line_terminator_def line_start_def Let_def line_count_def substr_append)
  next
    case False
    then have "Suc l = line_count t" using assms(2) by simp
    then show ?thesis using m e(4)
      by (simp add: text_line_def line_terminator_def line_start_def Let_def line_count_def)
  qed
qed

lemma lines_concat_upto:
  assumes "text_ok t" and "n < line_count t"
  shows "concat (map (\<lambda>l. text_line t l @ line_terminator t l) [0..<n]) = take (tx_line_starts t ! n) (tx_bytes t)"
  using assms(2)
proof (induction n)
  case 0
  then show ?case using assms(1) by (simp add: text_ok_def)
next
  case (Suc n)
  have "tx_line_starts t ! n \<le> tx_line_starts t ! Suc n"
    using scan_nth_mono [of n "Suc n" "tx_bytes t"] assms(1) Suc.prems by (simp add: text_ok_def line_count_def)
  then have "take (tx_line_starts t ! n) (tx_bytes t) @ substr (tx_bytes t) (tx_line_starts t ! n) (tx_line_starts t ! Suc n)
      = take (tx_line_starts t ! Suc n) (tx_bytes t)"
    by (metis append_take_drop_id le_add_diff_inverse substr_def take_add)
  then show ?case using Suc line_with_terminator [OF assms(1), of n] by simp
qed

lemma line_of_offset_props:
  assumes "text_ok t" and "off \<le> length (tx_bytes t)"
  shows "line_of_offset t off < line_count t" and "tx_line_starts t ! line_of_offset t off \<le> off"
    and "Suc (line_of_offset t off) < line_count t \<Longrightarrow> off < tx_line_starts t ! Suc (line_of_offset t off)"
proof -
  let ?s = "tx_bytes t" and ?a = "take off (tx_bytes t)" and ?b = "drop off (tx_bytes t)"
  have s: "?s = ?a @ ?b" and la: "length ?a = off" using assms(2) by simp_all
  have ls: "tx_line_starts t = scan_line_starts (?a @ ?b)" using assms(1) by (simp add: text_ok_def)
  have l: "line_of_offset t off = newlines ?a"
    using partition_point_scan [of ?a ?b] assms(2) unfolding line_of_offset_def Let_def ls la by simp
  have sa: "scan_line_starts (?a @ ?b) = scan_line_starts ?a @ map (\<lambda>x. x + off + 1) (newlines_at 0 ?b)"
    using scan_line_starts_append [of ?a ?b] la by simp
  have lt: "newlines ?a < length (scan_line_starts ?a)" by (simp add: length_scan)
  show "line_of_offset t off < line_count t" using lt unfolding l line_count_def ls sa by simp
  have "scan_line_starts ?a ! newlines ?a \<le> length ?a" using lt scan_line_starts_le nth_mem by blast
  then show "tx_line_starts t ! line_of_offset t off \<le> off"
    using lt la unfolding l ls sa by (simp add: nth_append)
  show "off < tx_line_starts t ! Suc (line_of_offset t off)" if "Suc (line_of_offset t off) < line_count t"
  proof -
    have "Suc (newlines ?a) < length (tx_line_starts t)" using that unfolding l line_count_def .
    then have "tx_line_starts t ! Suc (newlines ?a) \<in> set (map (\<lambda>x. x + off + 1) (newlines_at 0 ?b))"
      unfolding ls sa by (simp add: nth_append length_scan)
    then show ?thesis unfolding l by auto
  qed
qed

section \<open>Properties\<close>

text \<open>
  C27: The incrementally maintained line index is always the one a full rescan would produce:
  after any sequence of replacements, whatever their ranges, the buffer is exactly the buffer
  built anew from its bytes; and one replacement of a range whose ends are character boundaries
  puts the inserted bytes in place of that range and keeps every other byte.
\<close>

theorem replace_keeps_line_index:
  "let t = foldl (\<lambda>t (r, ins). text_replace t r ins) (text_new s) es
   in t = text_new (tx_bytes t)
      \<and> (is_boundary t i \<and> is_boundary t j \<and> i \<le> j \<longrightarrow>
          text_replace t \<lparr>r_start = i, r_end = j\<rparr> ins
            = text_new (take i (tx_bytes t) @ ins @ drop j (tx_bytes t)))"
proof -
  have "text_ok t \<Longrightarrow> text_ok (foldl (\<lambda>t (r, ins). text_replace t r ins) t es)" for t
    by (induction es arbitrary: t) (auto simp: tb.ok_repl)
  then have ok: "text_ok (foldl (\<lambda>t (r, ins). text_replace t r ins) (text_new s) es)" by simp
  show ?thesis
    using ok text_replace_new [OF ok clamp_range_id]
    by (simp add: Let_def is_boundary_def) (simp add: text_ok_def text_new_def)
qed

theorem replace_keeps_line_index_witness:
  "text_replace (text_new (''ab'' @ [nl] @ ''cd'')) \<lparr>r_start = 1, r_end = 4\<rparr> ([nl] @ [nl] @ ''x'')
     = text_new (''a'' @ [nl] @ [nl] @ ''xd'')"
proof -
  have "is_boundary (text_new (''ab'' @ [nl] @ ''cd'')) 1" "is_boundary (text_new (''ab'' @ [nl] @ ''cd'')) 4"
    by code_simp+
  then show ?thesis
    using replace_keeps_line_index [of "''ab'' @ [nl] @ ''cd''" "[]" 1 4 "[nl] @ [nl] @ ''x''"] by simp
qed

text \<open>
  Nothing of a file is lost in its lines: every line followed by its own terminator, the lines
  in order, is the file again byte for byte, whatever mixture of LF and CRLF it has; and a caret
  converted to a line and column and back is the caret, except inside a CRLF, where it comes back
  at the end of the line.
\<close>

theorem lines_round_trip:
  assumes "text_ok t"
  shows "concat (map (\<lambda>l. text_line t l @ line_terminator t l) [0..<line_count t]) = tx_bytes t
    \<and> (is_boundary t off \<longrightarrow> offset_of t (text_line_col t off) = min off (line_end t (line_of_offset t off)))"
proof
  have "line_count t \<noteq> 0" using assms by (simp add: line_count_def text_ok_def scan_line_starts_def)
  then obtain n where n: "line_count t = Suc n" by (cases "line_count t") auto
  have "tx_line_starts t ! n \<le> length (tx_bytes t)"
    using assms n by (metis lessI line_count_def nth_mem scan_line_starts_le text_ok_def)
  then show "concat (map (\<lambda>l. text_line t l @ line_terminator t l) [0..<line_count t]) = tx_bytes t"
    using lines_concat_upto [OF assms, of n] line_with_terminator [OF assms, of n]
    by (simp add: n substr_def)
  show "is_boundary t off \<longrightarrow> offset_of t (text_line_col t off) = min off (line_end t (line_of_offset t off))"
  proof
    assume b: "is_boundary t off"
    let ?l = "line_of_offset t off"
    have off: "off \<le> length (tx_bytes t)" "clamp_offset t off = off" using b by (simp_all add: is_boundary_def)
    note p = line_of_offset_props [OF assms off(1)]
    have "is_char_boundary (tx_bytes t) (min off (line_end t ?l))"
      using b line_end_props(2) [OF assms p(1)] by (simp add: is_boundary_def min_def)
    moreover have "min ?l (length (tx_line_starts t) - 1) = ?l" using p(1) by (simp add: line_count_def)
    ultimately show "offset_of t (text_line_col t off) = min off (line_end t ?l)"
      using p(2) off by (simp add: offset_of_def text_line_col_def Let_def)
  qed
qed

theorem lines_round_trip_witness:
  "offset_of (text_new (''a'' @ [cr, nl] @ ''b'')) (text_line_col (text_new (''a'' @ [cr, nl] @ ''b'')) 2) = 1
   \<and> concat (map (\<lambda>l. text_line (text_new (''a'' @ [cr, nl] @ ''b'')) l
        @ line_terminator (text_new (''a'' @ [cr, nl] @ ''b'')) l) [0..<2]) = ''a'' @ [cr, nl] @ ''b''"
proof -
  let ?t = "text_new (''a'' @ [cr, nl] @ ''b'')"
  have "is_boundary ?t 2" "line_count ?t = 2" "min 2 (line_end ?t (line_of_offset ?t 2)) = 1" by code_simp+
  then show ?thesis using lines_round_trip [of ?t 2] by simp
qed

end
