(* ===== verification/Editor_Transaction.thy ===== *)
theory Editor_Transaction
  imports Editor_Text "HOL-Library.Multiset"
begin

text \<open>
  Edits and transactions of \<^verbatim>\<open>crates/editor-core/src/transaction.rs\<close>, and the theory of applying
  them: what a list of disjoint edits makes of a text (\<open>edited\<close>), its inverse, and that the
  loop that applies them one after the other with a running shift computes it. The loop is
  verified once, for every \<open>buffer\<close>.
\<close>

record edit =
  e_range :: byte_range
  e_insert :: string

definition edit_insert :: "nat \<Rightarrow> string \<Rightarrow> edit" where
  "edit_insert at txt = \<lparr>e_range = range_empty at, e_insert = txt\<rparr>"

definition edit_delete :: "byte_range \<Rightarrow> edit" where
  "edit_delete r = \<lparr>e_range = r, e_insert = []\<rparr>"

definition edit_replace :: "byte_range \<Rightarrow> string \<Rightarrow> edit" where
  "edit_replace r txt = \<lparr>e_range = r, e_insert = txt\<rparr>"

datatype origin = Or_Input | Or_Paste | Or_Replace | Or_ReplaceAll | Or_History | Or_Preview | Or_Reload

definition coalesces :: "origin \<Rightarrow> bool" where
  "coalesces o' \<longleftrightarrow> o' = Or_Input"

datatype edit_error =
    UnsavedChanges
  | ReadOnly
  | Overlapping
  | OutOfBounds nat nat
  | TooLarge nat nat

record transaction =
  tr_edits :: "edit list"
  tr_origin :: origin
  tr_selection_before :: selection
  tr_selection_after :: "selection option"

abbreviation e_start :: "edit \<Rightarrow> nat" where "e_start e \<equiv> r_start (e_range e)"
abbreviation e_end :: "edit \<Rightarrow> nat" where "e_end e \<equiv> r_end (e_range e)"

fun windows_overlap :: "edit list \<Rightarrow> bool" where
  "windows_overlap (a # b # es) = (e_end a > e_start b \<or> windows_overlap (b # es))"
| "windows_overlap _ = False"

definition transaction_new :: "edit list \<Rightarrow> origin \<Rightarrow> selection \<Rightarrow> edit_error + transaction" where
  "transaction_new es0 org selection_before =
    (let es = sort_key (\<lambda>e. (e_start e, e_end e)) es0 in
     if windows_overlap es then Inl Overlapping
     else Inr \<lparr>tr_edits = es, tr_origin = org, tr_selection_before = selection_before,
               tr_selection_after = None\<rparr>)"

definition with_selection_after :: "transaction \<Rightarrow> selection \<Rightarrow> transaction" where
  "with_selection_after t s = t\<lparr>tr_selection_after := Some s\<rparr>"

definition transaction_is_empty :: "transaction \<Rightarrow> bool" where
  "transaction_is_empty t \<longleftrightarrow> list_all (\<lambda>e. range_is_empty (e_range e) \<and> e_insert e = []) (tr_edits t)"

definition size_delta :: "transaction \<Rightarrow> int" where
  "size_delta t = sum_list (map (\<lambda>e. int (length (e_insert e)) - int (range_len (e_range e))) (tr_edits t))"

definition retained_bytes :: "transaction \<Rightarrow> nat" where
  "retained_bytes t = sum_list (map (\<lambda>e. length (e_insert e) + range_len (e_range e)) (tr_edits t))"

section \<open>Disjointness\<close>

definition e_apart :: "edit \<Rightarrow> edit \<Rightarrow> bool" where
  "e_apart a b \<longleftrightarrow> e_end a \<le> e_start b \<or> e_end b \<le> e_start a"

lemma e_apart_sym: "e_apart a b \<longleftrightarrow> e_apart b a"
  by (auto simp: e_apart_def)

lemma sorted_wrt_symmetric_mset:
  assumes "\<And>a b. R a b \<longleftrightarrow> R b a" and "mset xs = mset ys"
  shows "sorted_wrt R xs \<longleftrightarrow> sorted_wrt R ys"
proof -
  have "sorted_wrt R zs \<longleftrightarrow> (\<forall>a b m. mset zs = add_mset a (add_mset b m) \<longrightarrow> R a b)" for zs
  proof (induction zs)
    case (Cons z zs)
    show ?case
    proof
      assume s: "sorted_wrt R (z # zs)"
      show "\<forall>a b m. mset (z # zs) = add_mset a (add_mset b m) \<longrightarrow> R a b"
      proof (intro allI impI)
        fix a b m
        assume m: "mset (z # zs) = add_mset a (add_mset b m)"
        consider "a = z" | "a \<noteq> z" "b = z" | "a \<noteq> z" "b \<noteq> z" by blast
        then show "R a b"
        proof cases
          case 1
          then have "b \<in> set zs" using m by (metis add_mset_add_mset_same_iff mset.simps(2) set_mset_mset union_single_eq_member)
          then show ?thesis using s 1 by simp
        next
          case 2
          then have "mset zs = add_mset a m" using m by (simp add: add_mset_commute)
          then have "a \<in> set zs" by (metis set_mset_mset union_single_eq_member)
          then show ?thesis using s 2 assms(1) by auto
        next
          case 3
          then obtain k where "m = add_mset z k" using m by (metis insert_noteq_member mset.simps(2) multi_member_split union_single_eq_member)
          then have "mset zs = add_mset a (add_mset b k)" using m by (simp add: add_mset_commute)
          then show ?thesis using Cons s by simp
        qed
      qed
    next
      assume h: "\<forall>a b m. mset (z # zs) = add_mset a (add_mset b m) \<longrightarrow> R a b"
      have "R z b" if "b \<in> set zs" for b
      proof -
        obtain k where "mset zs = add_mset b k" using \<open>b \<in> set zs\<close> by (metis multi_member_split set_mset_mset)
        then show ?thesis using h by simp
      qed
      moreover have "mset zs = add_mset a (add_mset b m) \<Longrightarrow> R a b" for a b m
        using h by (simp add: add_mset_commute)
      ultimately show "sorted_wrt R (z # zs)" using Cons by simp
    qed
  qed simp
  then show ?thesis using assms(2) by simp
qed

lemma no_windows_overlap:
  "\<forall>e \<in> set es. e_start e \<le> e_end e \<Longrightarrow>
    \<not> windows_overlap es \<longleftrightarrow> sorted_wrt (\<lambda>a b. e_end a \<le> e_start b) es"
proof (induction es rule: windows_overlap.induct)
  case (1 a b es)
  then show ?case by (force intro: order_trans)
qed simp_all

lemma sorted_apart:
  assumes "sorted (map (\<lambda>e. (e_start e, e_end e)) es)" and "\<forall>e \<in> set es. e_start e \<le> e_end e"
  shows "sorted_wrt e_apart es \<longleftrightarrow> sorted_wrt (\<lambda>a b. e_end a \<le> e_start b) es"
  using assms
proof (induction es)
  case (Cons a es)
  have "e_apart a b \<longleftrightarrow> e_end a \<le> e_start b" if "b \<in> set es" for b
  proof -
    have "(e_start a, e_end a) \<le> (e_start b, e_end b)" "e_start b \<le> e_end b" using Cons.prems that by auto
    then show ?thesis by (auto simp: e_apart_def less_eq_prod_def)
  qed
  then show ?case using Cons by auto
qed simp

section \<open>What a list of edits does to a text\<close>

text \<open>From offset \<open>p\<close> on, all edits lying after it.\<close>

fun edited :: "nat \<Rightarrow> string \<Rightarrow> edit list \<Rightarrow> string" where
  "edited p s [] = drop p s"
| "edited p s (e # es) = substr s p (e_start e) @ e_insert e @ edited (e_end e) s es"

fun fits :: "nat \<Rightarrow> string \<Rightarrow> edit list \<Rightarrow> bool" where
  "fits p s [] = (p \<le> length s)"
| "fits p s (e # es) = (p \<le> e_start e \<and> e_start e \<le> e_end e \<and> e_end e \<le> length s
     \<and> is_char_boundary s (e_start e) \<and> is_char_boundary s (e_end e) \<and> utf8_valid (e_insert e)
     \<and> fits (e_end e) s es)"

fun inverse_edits :: "nat \<Rightarrow> nat \<Rightarrow> string \<Rightarrow> edit list \<Rightarrow> edit list" where
  "inverse_edits q p s [] = []"
| "inverse_edits q p s (e # es) =
    (let i = q + (e_start e - p); j = i + length (e_insert e) in
     \<lparr>e_range = \<lparr>r_start = i, r_end = j\<rparr>, e_insert = substr s (e_start e) (e_end e)\<rparr>
       # inverse_edits j (e_end e) s es)"

lemma fits_le: "fits p s es \<Longrightarrow> p \<le> length s"
  by (cases es) auto

lemma length_substr: "j \<le> length s \<Longrightarrow> length (substr s i j) = j - i"
  by (simp add: substr_def)

lemma utf8_substr:
  assumes "utf8_valid s" "is_char_boundary s i" "is_char_boundary s j" "i \<le> j"
  shows "utf8_valid (substr s i j)"
proof -
  have v: "utf8_valid (drop i s)" using assms(1,2) by (rule utf8_drop)
  show ?thesis
  proof (cases "j = i")
    case True
    then show ?thesis by (simp add: substr_def)
  next
    case False
    have "is_char_boundary (drop i s) (j - i)"
      using assms(3,4) False by (auto simp: is_char_boundary_def)
    then show ?thesis unfolding substr_def by (rule utf8_take [OF v])
  qed
qed

lemma utf8_edited:
  "utf8_valid s \<Longrightarrow> is_char_boundary s p \<Longrightarrow> fits p s es \<Longrightarrow> utf8_valid (edited p s es)"
proof (induction p s es rule: edited.induct)
  case (1 p s)
  then show ?case by (simp add: utf8_drop)
next
  case (2 p s e es)
  then show ?case by (simp add: utf8_substr utf8_valid_append)
qed

lemma length_edited:
  "fits p s es \<Longrightarrow> int (length (edited p s es)) = int (length s) - int p
    + sum_list (map (\<lambda>e. int (length (e_insert e)) - int (range_len (e_range e))) es)"
  by (induction p s es rule: edited.induct) (auto simp: length_substr range_len_def)

lemma boundary_after:
  assumes "utf8_valid a" and "utf8_valid b"
  shows "is_char_boundary (a @ b) (length a)"
  using utf8_valid_lead [OF assms(2)] char_boundary_append [of "length a" a b] by simp

text \<open>The inverse fits the edited text and gives the old text back.\<close>

lemma inverse_edits_correct:
  assumes "utf8_valid s" "is_char_boundary s p" "fits p s es" "length P = q" "utf8_valid P"
  shows "fits q (P @ edited p s es) (inverse_edits q p s es)
    \<and> edited q (P @ edited p s es) (inverse_edits q p s es) = drop p s"
  using assms
proof (induction es arbitrary: p q P)
  case Nil
  then show ?case by simp
next
  case (Cons e es)
  let ?a = "substr s p (e_start e)" and ?i = "q + (e_start e - p)"
  let ?j = "?i + length (e_insert e)" and ?rest = "edited (e_end e) s es"
  let ?P = "P @ ?a @ e_insert e"
  have f: "p \<le> e_start e" "e_start e \<le> e_end e" "e_end e \<le> length s" "is_char_boundary s (e_start e)"
    "is_char_boundary s (e_end e)" "utf8_valid (e_insert e)" "fits (e_end e) s es"
    using Cons.prems(3) by simp_all
  have va: "utf8_valid ?a" using Cons.prems(1,2) f(1,4) by (simp add: utf8_substr)
  have vr: "utf8_valid ?rest" using utf8_edited [OF Cons.prems(1) f(5,7)] .
  have la: "length (P @ ?a) = ?i" and lj: "length ?P = ?j" using Cons.prems(4) f by (simp_all add: length_substr)
  have vP: "utf8_valid (P @ ?a)" "utf8_valid ?P"
    using Cons.prems(5) va f(6) by (simp_all add: utf8_valid_append)
  have N: "P @ edited p s (e # es) = ?P @ ?rest" by simp
  have ih: "fits ?j (?P @ ?rest) (inverse_edits ?j (e_end e) s es)"
      "edited ?j (?P @ ?rest) (inverse_edits ?j (e_end e) s es) = drop (e_end e) s"
    using Cons.IH [OF Cons.prems(1) f(5,7) lj vP(2)] by simp_all
  have b1: "is_char_boundary (?P @ ?rest) ?i"
    using boundary_after [OF vP(1), of "e_insert e @ ?rest"] f(6) vr la by (simp add: utf8_valid_append)
  have b2: "is_char_boundary (?P @ ?rest) ?j" using boundary_after [OF vP(2) vr] unfolding lj .
  have b3: "utf8_valid (substr s (e_start e) (e_end e))" using Cons.prems(1) f by (simp add: utf8_substr)
  have fi: "fits q (P @ edited p s (e # es)) (inverse_edits q p s (e # es))"
    unfolding N using b1 b2 b3 ih(1) lj by (simp add: Let_def)
  have "substr (?P @ ?rest) q ?i = ?a" using la Cons.prems(4) by (auto simp: substr_def)
  then have "edited q (P @ edited p s (e # es)) (inverse_edits q p s (e # es))
      = ?a @ substr s (e_start e) (e_end e) @ drop (e_end e) s"
    unfolding N using ih(2) by (simp add: Let_def)
  also have "\<dots> = drop p s"
  proof -
    have "drop p s = substr s p (length s)" "drop (e_end e) s = substr s (e_end e) (length s)"
      by (simp_all add: substr_def)
    then show ?thesis using f substr_append by simp
  qed
  finally have "edited q (P @ edited p s (e # es)) (inverse_edits q p s (e # es)) = drop p s" .
  with fi show ?case by blast
qed

section \<open>The loop that applies edits in place\<close>

text \<open>
  The loop of \<open>apply_validated\<close> in \<^verbatim>\<open>document.rs\<close>, on any buffer: each edit is applied at its
  range moved by the shift so far. It returns the buffer, where the last edit ended, and the
  change in the number of lines.
\<close>

fun apply_loop ::
  "('b \<Rightarrow> byte_range \<Rightarrow> string) \<Rightarrow> ('b \<Rightarrow> byte_range \<Rightarrow> string \<Rightarrow> 'b)
    \<Rightarrow> edit list \<Rightarrow> int \<Rightarrow> nat \<Rightarrow> int \<Rightarrow> 'b \<Rightarrow> 'b \<times> nat \<times> int"
where
  "apply_loop slc rpl [] shift resume_at line_delta b = (b, resume_at, line_delta)"
| "apply_loop slc rpl (e # es) shift resume_at line_delta b =
    (let start = as_usize (int (e_start e) + shift);
         end0 = as_usize (int (e_end e) + shift);
         line_delta' = line_delta + int (newlines (e_insert e)) - int (newlines (slc b (range_new start end0)));
         b' = rpl b (range_new start end0) (e_insert e);
         shift' = shift + int (length (e_insert e)) - (int end0 - int start)
     in apply_loop slc rpl es shift' (start + length (e_insert e)) line_delta' b')"

fun resume_of :: "nat \<Rightarrow> nat \<Rightarrow> edit list \<Rightarrow> nat \<Rightarrow> nat" where
  "resume_of q p [] d = d"
| "resume_of q p (e # es) d =
    (let j = q + (e_start e - p) + length (e_insert e) in resume_of j (e_end e) es j)"

lemma as_usize_shift:
  "p \<le> x \<Longrightarrow> q + (x - p) < 2 ^ 64 \<Longrightarrow> as_usize (int x + (int q - int p)) = q + (x - p)"
proof -
  assume a: "p \<le> x" "q + (x - p) < 2 ^ 64"
  then have "int x + (int q - int p) = int (q + (x - p))" by simp
  then show ?thesis using a(2) by (simp only: as_usize_of_nat)
qed

lemma drop_exact: "drop (length x) (x @ y) = y"
  by simp

context buffer
begin

text \<open>After a prefix of the edits the buffer holds what they made of the text up to \<open>p\<close>, then the
  rest of the old text, and the shift is the difference of the two lengths.\<close>

lemma apply_loop_edited:
  assumes "ok b" "content b = P @ drop p s" "utf8_valid s" "utf8_valid P" "is_char_boundary s p" "fits p s es"
    and "length P + (length s - p) + sum_list (map (\<lambda>e. length (e_insert e)) es) < 2 ^ 64"
  shows "\<exists>b'. apply_loop slice repl es (int (length P) - int p) d ld b =
      (b', resume_of (length P) p es d, ld + int (newlines (edited p s es)) - int (newlines (drop p s)))
    \<and> ok b' \<and> content b' = P @ edited p s es"
  using assms
proof (induction es arbitrary: b P p d ld)
  case Nil
  then show ?case by simp
next
  case (Cons e es)
  let ?q = "length P" and ?a = "substr s p (e_start e)"
  let ?i = "?q + (e_start e - p)" and ?j = "?q + (e_end e - p)"
  have f: "p \<le> e_start e" "e_start e \<le> e_end e" "e_end e \<le> length s" "is_char_boundary s (e_start e)"
    "is_char_boundary s (e_end e)" "utf8_valid (e_insert e)" "fits (e_end e) s es"
    using Cons.prems(6) by simp_all
  have ii: "as_usize (int (e_start e) + (int ?q - int p)) = ?i" and jj: "as_usize (int (e_end e) + (int ?q - int p)) = ?j"
    using f Cons.prems(7) by (intro as_usize_shift; simp)+
  have r: "range_new ?i ?j = \<lparr>r_start = ?i, r_end = ?j\<rparr>" using f by (simp add: range_new_def)
  have v: "utf8_valid ?a" "utf8_valid (drop (e_start e) s)" "utf8_valid (drop (e_end e) s)"
      "utf8_valid (substr s (e_start e) (e_end e))"
    using Cons.prems(3,5) f by (simp_all add: utf8_substr utf8_drop)
  have split: "drop p s = ?a @ substr s (e_start e) (e_end e) @ drop (e_end e) s"
  proof -
    have "drop p s = substr s p (length s)" "drop (e_end e) s = substr s (e_end e) (length s)"
      by (simp_all add: substr_def)
    then show ?thesis using f substr_append by simp
  qed
  let ?m = "substr s (e_start e) (e_end e)"
  have c: "content b = (P @ ?a) @ ?m @ drop (e_end e) s" using Cons.prems(2) split by simp
  have la: "length (P @ ?a) = ?i" "length ?m = ?j - ?i" using f by (simp_all add: length_substr)
  have lj: "length ((P @ ?a) @ ?m) = ?j" using la f by simp
  have bi: "is_char_boundary (content b) ?i"
    using boundary_after [of "P @ ?a" "?m @ drop (e_end e) s"] Cons.prems(4) v la
    unfolding c by (simp add: utf8_valid_append)
  have bj: "is_char_boundary (content b) ?j"
    using boundary_after [of "(P @ ?a) @ ?m" "drop (e_end e) s"] Cons.prems(4) v lj
    unfolding c by (simp add: utf8_valid_append)
  have ij: "?i \<le> ?j" using f by simp
  let ?b = "repl b \<lparr>r_start = ?i, r_end = ?j\<rparr> (e_insert e)" and ?P = "P @ ?a @ e_insert e"
  have cb: "content ?b = ?P @ drop (e_end e) s"
  proof -
    have "take ?i (content b) = P @ ?a" unfolding c la(1) [symmetric] by simp
    moreover have "drop ?j (content b) = drop (e_end e) s"
      unfolding c append_assoc [symmetric, of "P @ ?a"] lj [symmetric] by (rule drop_exact)
    ultimately show ?thesis
      using content_repl [OF Cons.prems(1) ij bi bj, of "e_insert e"] by (simp only: append_assoc)
  qed
  have sl: "slice b \<lparr>r_start = ?i, r_end = ?j\<rparr> = ?m"
    using content_slice [OF Cons.prems(1) ij bi bj] la unfolding c by simp
  have sh: "int ?q - int p + int (length (e_insert e)) - (int ?j - int ?i) = int (length ?P) - int (e_end e)"
    using f by (simp add: length_substr)
  have bnd: "length ?P + (length s - e_end e) + sum_list (map (\<lambda>e. length (e_insert e)) es) < 2 ^ 64"
    using Cons.prems(7) f by (simp add: length_substr)
  have vP: "utf8_valid ?P" using Cons.prems(4) v f(6) by (simp add: utf8_valid_append)
  have lP: "length ?P = ?i + length (e_insert e)" using la by simp
  obtain b' where b': "apply_loop slice repl es (int (length ?P) - int (e_end e)) (length ?P)
        (ld + int (newlines (e_insert e)) - int (newlines ?m)) ?b =
      (b', resume_of (length ?P) (e_end e) es (length ?P),
       ld + int (newlines (e_insert e)) - int (newlines ?m)
         + int (newlines (edited (e_end e) s es)) - int (newlines (drop (e_end e) s)))"
      "ok b'" "content b' = ?P @ edited (e_end e) s es"
    using Cons.IH [OF ok_repl [OF Cons.prems(1)] cb Cons.prems(3) vP f(5,7) bnd] by blast
  have "apply_loop slice repl (e # es) (int ?q - int p) d ld b =
      apply_loop slice repl es (int (length ?P) - int (e_end e)) (length ?P)
        (ld + int (newlines (e_insert e)) - int (newlines ?m)) ?b"
    by (simp only: apply_loop.simps ii jj r sl sh lP [symmetric] Let_def)
  moreover have "resume_of ?q p (e # es) d = resume_of (length ?P) (e_end e) es (length ?P)"
    unfolding lP by (simp add: Let_def)
  moreover have "ld + int (newlines (e_insert e)) - int (newlines ?m)
         + int (newlines (edited (e_end e) s es)) - int (newlines (drop (e_end e) s))
      = ld + int (newlines (edited p s (e # es))) - int (newlines (drop p s))"
    unfolding split by simp
  ultimately show ?case using b' by simp
qed

end

section \<open>Transactions that fit\<close>

lemma fits_mem:
  "fits p s es \<Longrightarrow> e \<in> set es \<Longrightarrow> p \<le> e_start e \<and> e_start e \<le> e_end e"
  by (induction p s es rule: fits.induct) fastforce+

lemma fits_sorted: "fits p s es \<Longrightarrow> sorted (map (\<lambda>e. (e_start e, e_end e)) es)"
proof (induction p s es rule: fits.induct)
  case (2 p s e es)
  have "(e_start e, e_end e) \<le> (e_start x, e_end x)" if "x \<in> set es" for x
    using fits_mem [of "e_end e" s es x] 2 that by (auto simp: less_eq_prod_def)
  then show ?case using 2 by simp
qed simp

lemma fits_no_overlap: "fits p s es \<Longrightarrow> \<not> windows_overlap es"
proof (induction es arbitrary: p rule: windows_overlap.induct)
  case (1 a b es)
  then have "fits (e_end a) s (b # es)" by simp
  then show ?case using 1 by auto
qed simp_all

lemma transaction_new_fits:
  "fits p s es \<Longrightarrow> transaction_new es o' sel = Inr \<lparr>tr_edits = es, tr_origin = o',
    tr_selection_before = sel, tr_selection_after = None\<rparr>"
  by (simp add: transaction_new_def fits_no_overlap fits_sorted sorted_sort_id sort_key_id_if_sorted)

lemma transaction_new_props:
  assumes "transaction_new es o' sel = Inr t" and "\<forall>e \<in> set es. e_start e \<le> e_end e"
  shows "mset (tr_edits t) = mset es" and "sorted_wrt (\<lambda>a b. e_end a \<le> e_start b) (tr_edits t)"
    and "tr_origin t = o'" and "tr_selection_before t = sel" and "tr_selection_after t = None"
  using assms no_windows_overlap [of "sort_key (\<lambda>e. (e_start e, e_end e)) es"]
  by (auto simp: transaction_new_def Let_def split: if_splits)

text \<open>Disjoint edits within bounds, in order, fit.\<close>

lemma sorted_fits:
  assumes "sorted_wrt (\<lambda>a b. e_end a \<le> e_start b) es" and "p \<le> length s"
    and "\<And>e. e \<in> set es \<Longrightarrow> p \<le> e_start e \<and> e_start e \<le> e_end e \<and> e_end e \<le> length s
      \<and> is_char_boundary s (e_start e) \<and> is_char_boundary s (e_end e) \<and> utf8_valid (e_insert e)"
  shows "fits p s es"
  using assms
proof (induction es arbitrary: p)
  case (Cons e es)
  have "fits (e_end e) s es" by (rule Cons.IH) (use Cons.prems in auto)
  then show ?case using Cons.prems(3) [of e] by simp
qed simp

section \<open>Properties\<close>

text \<open>
  A transaction is accepted exactly when no two of its edits overlap, in whatever order they
  were given; an accepted one holds the same edits, each ending before the next begins.
\<close>

theorem transaction_new_disjoint:
  assumes "\<forall>e \<in> set es. e_start e \<le> e_end e"
  shows "((\<exists>t. transaction_new es o' sel = Inr t) \<longleftrightarrow> sorted_wrt e_apart es)
    \<and> (\<forall>t. transaction_new es o' sel = Inr t \<longrightarrow>
         mset (tr_edits t) = mset es \<and> sorted_wrt (\<lambda>a b. e_end a \<le> e_start b) (tr_edits t))"
proof -
  let ?ss = "sort_key (\<lambda>e. (e_start e, e_end e)) es"
  have n: "\<forall>e \<in> set ?ss. e_start e \<le> e_end e" using assms by simp
  have "sorted_wrt e_apart es \<longleftrightarrow> sorted_wrt e_apart ?ss"
    by (rule sorted_wrt_symmetric_mset) (simp_all add: e_apart_sym [of _ _])
  also have "\<dots> \<longleftrightarrow> sorted_wrt (\<lambda>a b. e_end a \<le> e_start b) ?ss"
    by (rule sorted_apart) (use n in simp_all)
  also have "\<dots> \<longleftrightarrow> \<not> windows_overlap ?ss" using no_windows_overlap [OF n] by simp
  finally show ?thesis
    using transaction_new_props [OF _ assms] by (auto simp: transaction_new_def Let_def)
qed

theorem transaction_new_disjoint_witness:
  "\<not> (\<exists>t. transaction_new [edit_insert 5 ''x'', edit_delete \<lparr>r_start = 3, r_end = 8\<rparr>] Or_Input selection_default = Inr t)"
proof -
  let ?es = "[edit_insert 5 ''x'', edit_delete \<lparr>r_start = 3, r_end = 8\<rparr>]"
  have "\<forall>e \<in> set ?es. e_start e \<le> e_end e" by (simp add: edit_insert_def edit_delete_def range_empty_def)
  moreover have "\<not> sorted_wrt e_apart ?es"
    by (simp add: edit_insert_def edit_delete_def range_empty_def e_apart_def)
  ultimately show ?thesis using transaction_new_disjoint [of ?es Or_Input selection_default] by blast
qed

end
