(* ===== verification/Editor_History.thy ===== *)
theory Editor_History
  imports Editor_Transaction
begin

text \<open>
  Undo and redo of \<^verbatim>\<open>crates/editor-core/src/history.rs\<close>: entries with a transaction and its inverse,
  coalescing of typing, the byte budget. \<open>VecDeque\<close> and \<open>Vec\<close> are lists whose last element is
  the newest. Content states are \<open>u64\<close> counters that grow by one per applied transaction and are
  natural numbers here.
\<close>

definition MAX_HISTORY_BYTES :: nat where "MAX_HISTORY_BYTES = 4 * 1024 * 1024"
definition MAX_HISTORY_ENTRIES :: nat where "MAX_HISTORY_ENTRIES = 4096"

record hentry =
  h_undo :: transaction
  h_redo :: transaction
  h_state_before :: nat
  h_state_after :: nat
  h_retained :: nat
  h_resume_at :: nat

record history =
  hi_undo :: "hentry list"
  hi_redo :: "hentry list"
  hi_retained :: nat
  hi_dropped :: nat
  hi_sealed :: bool

definition history_default :: history where
  "history_default = \<lparr>hi_undo = [], hi_redo = [], hi_retained = 0, hi_dropped = 0, hi_sealed = False\<rparr>"

record history_stats =
  hs_undo_entries :: nat
  hs_redo_entries :: nat
  hs_retained_bytes :: nat
  hs_dropped :: nat

fun single_edit :: "transaction \<Rightarrow> edit option" where
  "single_edit t = (case tr_edits t of [e] \<Rightarrow> Some e | _ \<Rightarrow> None)"

text \<open>\<open>None\<close> is the answer \<open>false\<close>, \<open>Some\<close> the entry merged in place.\<close>

definition coalesce :: "hentry \<Rightarrow> transaction \<Rightarrow> transaction \<Rightarrow> hentry option" where
  "coalesce lst undo redo =
    (if \<not> coalesces (tr_origin (h_redo lst)) \<or> \<not> coalesces (tr_origin redo) then None
     else case single_edit redo of
       None \<Rightarrow> None
     | Some addition \<Rightarrow>
         if single_edit undo = None \<or> \<not> range_is_empty (e_range addition)
            \<or> e_start addition \<noteq> h_resume_at lst \<or> single_edit (h_undo lst) = None then None
         else case single_edit (h_redo lst) of
           None \<Rightarrow> None
         | Some previous_redo \<Rightarrow>
             let redo' = previous_redo\<lparr>e_insert := e_insert previous_redo @ e_insert addition\<rparr>;
                 start = e_start previous_redo;
                 inserted = length (e_insert redo');
                 undo' = (case single_edit (h_undo lst) of
                            Some previous_undo \<Rightarrow>
                              (h_undo lst)\<lparr>tr_edits := [previous_undo\<lparr>e_range := range_new start (start + inserted)\<rparr>]\<rparr>
                          | None \<Rightarrow> h_undo lst)
             in Some (lst\<lparr>h_redo := (h_redo lst)\<lparr>tr_edits := [redo']\<rparr>,
                          h_undo := undo'\<lparr>tr_origin := Or_History\<rparr>\<rparr>))"

fun trim_loop :: "hentry list \<Rightarrow> nat \<Rightarrow> nat \<Rightarrow> hentry list \<times> nat \<times> nat" where
  "trim_loop [] retained dropped = ([], retained, dropped)"
| "trim_loop (oldest # rest) retained dropped =
    (if length (oldest # rest) > MAX_HISTORY_ENTRIES
        \<or> (retained > MAX_HISTORY_BYTES \<and> length (oldest # rest) > 1)
     then trim_loop rest (retained - h_retained oldest) (dropped + 1)
     else (oldest # rest, retained, dropped))"

definition history_trim :: "history \<Rightarrow> history" where
  "history_trim h =
    (case trim_loop (hi_undo h) (hi_retained h) (hi_dropped h) of
       (u, r, d) \<Rightarrow> h\<lparr>hi_undo := u, hi_retained := r, hi_dropped := d\<rparr>)"

definition push_entry :: "transaction \<Rightarrow> transaction \<Rightarrow> nat \<Rightarrow> nat \<Rightarrow> nat \<Rightarrow> history \<Rightarrow> history" where
  "push_entry undo redo state_before state_after resume_at h =
    (let retained = retained_bytes undo + retained_bytes redo in
     history_trim (h\<lparr>hi_sealed := False, hi_retained := hi_retained h + retained,
       hi_undo := hi_undo h @ [\<lparr>h_undo = undo, h_redo = redo, h_state_before = state_before,
         h_state_after = state_after, h_retained = retained, h_resume_at = resume_at\<rparr>]\<rparr>))"

definition history_record ::
  "transaction \<Rightarrow> transaction \<Rightarrow> nat \<Rightarrow> nat \<Rightarrow> nat \<Rightarrow> history \<Rightarrow> history" where
  "history_record undo redo state_before state_after resume_at h0 =
    (let h = h0\<lparr>hi_retained := hi_retained h0 - sum_list (map h_retained (hi_redo h0)), hi_redo := []\<rparr>;
         retained = retained_bytes undo + retained_bytes redo
     in if \<not> hi_sealed h \<and> hi_undo h \<noteq> [] then
          (case coalesce (last (hi_undo h)) undo redo of
             Some lst \<Rightarrow>
               history_trim (h\<lparr>hi_undo := butlast (hi_undo h) @
                   [lst\<lparr>h_undo := (h_undo lst)\<lparr>tr_selection_before := tr_selection_before undo\<rparr>,
                        h_redo := (h_redo lst)\<lparr>tr_selection_after := tr_selection_after redo\<rparr>,
                        h_state_after := state_after, h_resume_at := resume_at,
                        h_retained := h_retained lst + retained\<rparr>],
                 hi_retained := hi_retained h + retained\<rparr>)
           | None \<Rightarrow> push_entry undo redo state_before state_after resume_at h)
        else push_entry undo redo state_before state_after resume_at h)"

definition history_seal :: "history \<Rightarrow> history" where
  "history_seal h = h\<lparr>hi_sealed := True\<rparr>"

definition pop_undo :: "history \<Rightarrow> ((transaction \<times> nat) \<times> history) option" where
  "pop_undo h =
    (if hi_undo h = [] then None
     else let entry = last (hi_undo h) in
       Some ((h_undo entry, h_state_before entry),
             h\<lparr>hi_undo := butlast (hi_undo h), hi_redo := hi_redo h @ [entry], hi_sealed := True\<rparr>))"

definition pop_redo :: "history \<Rightarrow> ((transaction \<times> nat) \<times> history) option" where
  "pop_redo h =
    (if hi_redo h = [] then None
     else let entry = last (hi_redo h) in
       Some ((h_redo entry, h_state_after entry),
             h\<lparr>hi_redo := butlast (hi_redo h), hi_undo := hi_undo h @ [entry], hi_sealed := True\<rparr>))"

definition can_undo :: "history \<Rightarrow> bool" where
  "can_undo h \<longleftrightarrow> hi_undo h \<noteq> []"

definition can_redo :: "history \<Rightarrow> bool" where
  "can_redo h \<longleftrightarrow> hi_redo h \<noteq> []"

definition history_stats_of :: "history \<Rightarrow> history_stats" where
  "history_stats_of h = \<lparr>hs_undo_entries = length (hi_undo h), hs_redo_entries = length (hi_redo h),
     hs_retained_bytes = hi_retained h, hs_dropped = hi_dropped h\<rparr>"

section \<open>The budget\<close>

abbreviation kept :: "hentry list \<Rightarrow> nat" where
  "kept es \<equiv> sum_list (map h_retained es)"

definition hist_ok :: "history \<Rightarrow> bool" where
  "hist_ok h \<longleftrightarrow> hi_retained h = kept (hi_undo h) + kept (hi_redo h)
     \<and> length (hi_undo h) + length (hi_redo h) \<le> MAX_HISTORY_ENTRIES
     \<and> (hi_retained h \<le> MAX_HISTORY_BYTES \<or> length (hi_undo h) + length (hi_redo h) \<le> 1)"

lemma trim_loop_suffix:
  "trim_loop es r d = (es', r', d') \<Longrightarrow> r = kept es \<Longrightarrow>
    r' = kept es' \<and> length es' \<le> MAX_HISTORY_ENTRIES \<and> (r' \<le> MAX_HISTORY_BYTES \<or> length es' \<le> 1)
    \<and> d' + length es' = d + length es \<and> suffix es' es \<and> (es \<noteq> [] \<longrightarrow> es' \<noteq> [])"
proof (induction es r d rule: trim_loop.induct)
  case (1 r d)
  then show ?case by simp
next
  case (2 e es r d)
  show ?case
  proof (cases "length (e # es) > MAX_HISTORY_ENTRIES \<or> (r > MAX_HISTORY_BYTES \<and> length (e # es) > 1)")
    case True
    then have t: "trim_loop es (r - h_retained e) (d + 1) = (es', r', d')" using 2(2) by (simp only: trim_loop.simps if_True)
    have ne: "es \<noteq> []" using True by (auto simp: MAX_HISTORY_ENTRIES_def)
    have r: "r - h_retained e = kept es" using 2(3) by simp
    have "r' = kept es' \<and> length es' \<le> MAX_HISTORY_ENTRIES
        \<and> (r' \<le> MAX_HISTORY_BYTES \<or> length es' \<le> 1) \<and> d' + length es' = d + 1 + length es
        \<and> suffix es' es \<and> es' \<noteq> []"
      using 2(1) [OF True t r] ne by blast
    then show ?thesis by (auto intro: suffix_ConsI)
  next
    case False
    then have "es' = e # es" "r' = r" "d' = d" using 2(2) by (simp_all only: trim_loop.simps if_False prod.inject)
    then show ?thesis using False 2(3) by auto
  qed
qed

lemma history_trim_props:
  assumes "hi_retained h = kept (hi_undo h)" and "hi_redo h = []"
  shows "hist_ok (history_trim h)" and "suffix (hi_undo (history_trim h)) (hi_undo h)"
    and "hi_undo h \<noteq> [] \<Longrightarrow> hi_undo (history_trim h) \<noteq> []"
    and "hi_redo (history_trim h) = []" and "hi_sealed (history_trim h) = hi_sealed h"
    and "hi_dropped (history_trim h) + length (hi_undo (history_trim h)) = hi_dropped h + length (hi_undo h)"
proof -
  obtain u r d where t: "trim_loop (hi_undo h) (hi_retained h) (hi_dropped h) = (u, r, d)" by (metis prod_cases3)
  note p = trim_loop_suffix [OF t assms(1)]
  show "hist_ok (history_trim h)" "suffix (hi_undo (history_trim h)) (hi_undo h)"
    "hi_undo h \<noteq> [] \<Longrightarrow> hi_undo (history_trim h) \<noteq> []" "hi_redo (history_trim h) = []"
    "hi_sealed (history_trim h) = hi_sealed h"
    "hi_dropped (history_trim h) + length (hi_undo (history_trim h)) = hi_dropped h + length (hi_undo h)"
    using p assms(2) by (auto simp: history_trim_def t hist_ok_def)
qed

lemma coalesce_retained [simp]: "coalesce lst u r = Some lst' \<Longrightarrow> h_retained lst' = h_retained lst"
  by (auto simp: coalesce_def Let_def split: if_splits option.splits)

lemma suffix_snocE:
  assumes "suffix xs (ys @ [y])" and "xs \<noteq> []"
  obtains us where "xs = us @ [y]" "suffix us ys"
  using assms by (auto simp: suffix_snoc)

text \<open>What recording leaves: a suffix of the old entries with the new one, or with the last one grown.\<close>

lemma history_record_undo:
  assumes "hist_ok h"
  obtains (pushed) us where "hi_undo (history_record u r sb sa ra h) = us @ [\<lparr>h_undo = u, h_redo = r,
        h_state_before = sb, h_state_after = sa, h_retained = retained_bytes u + retained_bytes r, h_resume_at = ra\<rparr>]"
      "suffix us (hi_undo h)" "hi_redo (history_record u r sb sa ra h) = []" "hist_ok (history_record u r sb sa ra h)"
  | (grown) us lst lst' where "hi_undo (history_record u r sb sa ra h) = us @
        [lst'\<lparr>h_undo := (h_undo lst')\<lparr>tr_selection_before := tr_selection_before u\<rparr>,
              h_redo := (h_redo lst')\<lparr>tr_selection_after := tr_selection_after r\<rparr>,
              h_state_after := sa, h_resume_at := ra,
              h_retained := h_retained lst' + (retained_bytes u + retained_bytes r)\<rparr>]"
      "suffix (us @ [lst]) (hi_undo h)" "coalesce lst u r = Some lst'" "\<not> hi_sealed h"
      "hi_redo (history_record u r sb sa ra h) = []" "hist_ok (history_record u r sb sa ra h)"
proof -
  let ?h = "h\<lparr>hi_retained := hi_retained h - sum_list (map h_retained (hi_redo h)), hi_redo := []\<rparr>"
  let ?n = "retained_bytes u + retained_bytes r"
  let ?e = "\<lparr>h_undo = u, h_redo = r, h_state_before = sb, h_state_after = sa, h_retained = ?n, h_resume_at = ra\<rparr>"
  have ret: "hi_retained ?h = kept (hi_undo ?h)" using assms by (simp add: hist_ok_def)
  have push: thesis if "history_record u r sb sa ra h = push_entry u r sb sa ra ?h"
  proof -
    let ?g = "?h\<lparr>hi_sealed := False, hi_retained := hi_retained ?h + ?n, hi_undo := hi_undo ?h @ [?e]\<rparr>"
    have eq: "history_record u r sb sa ra h = history_trim ?g" using that by (simp add: push_entry_def Let_def)
    have "hi_retained ?g = kept (hi_undo ?g)" "hi_redo ?g = []" using ret by simp_all
    note t = history_trim_props [OF this]
    have "suffix (hi_undo (history_trim ?g)) (hi_undo h @ [?e])" "hi_undo (history_trim ?g) \<noteq> []"
      using t(2,3) by simp_all
    then obtain us where "hi_undo (history_trim ?g) = us @ [?e]" "suffix us (hi_undo h)"
      by (rule suffix_snocE)
    then show thesis using pushed t(1,4) eq by metis
  qed
  show thesis
  proof (cases "\<not> hi_sealed h \<and> hi_undo h \<noteq> []")
    case False
    then show thesis by (intro push) (auto simp: history_record_def Let_def)
  next
    case c: True
    show thesis
    proof (cases "coalesce (last (hi_undo h)) u r")
      case None
      then show thesis using c by (intro push) (simp add: history_record_def Let_def)
    next
      case (Some lst)
      let ?l = "lst\<lparr>h_undo := (h_undo lst)\<lparr>tr_selection_before := tr_selection_before u\<rparr>,
              h_redo := (h_redo lst)\<lparr>tr_selection_after := tr_selection_after r\<rparr>,
              h_state_after := sa, h_resume_at := ra, h_retained := h_retained lst + ?n\<rparr>"
      let ?g = "?h\<lparr>hi_undo := butlast (hi_undo h) @ [?l], hi_retained := hi_retained ?h + ?n\<rparr>"
      have eq: "history_record u r sb sa ra h = history_trim ?g"
        using c Some by (simp add: history_record_def Let_def)
      have sp: "hi_undo h = butlast (hi_undo h) @ [last (hi_undo h)]" using c by simp
      have "kept (hi_undo h) = kept (butlast (hi_undo h)) + h_retained (last (hi_undo h))"
        by (subst sp) simp
      then have "hi_retained ?g = kept (hi_undo ?g)" "hi_redo ?g = []" using ret Some by simp_all
      note t = history_trim_props [OF this]
      have "suffix (hi_undo (history_trim ?g)) (butlast (hi_undo h) @ [?l])" "hi_undo (history_trim ?g) \<noteq> []"
        using t(2,3) by simp_all
      then obtain us where us: "hi_undo (history_trim ?g) = us @ [?l]" "suffix us (butlast (hi_undo h))"
        by (rule suffix_snocE)
      have "suffix (us @ [last (hi_undo h)]) (butlast (hi_undo h) @ [last (hi_undo h)])"
        using us(2) by (auto simp: suffix_def)
      then have "suffix (us @ [last (hi_undo h)]) (hi_undo h)" using sp by simp
      then show thesis using grown us(1) Some c t(1,4) eq by metis
    qed
  qed
qed

datatype hist_op =
    H_Record transaction transaction nat nat nat
  | H_Seal
  | H_Undo
  | H_Redo

fun hist_step :: "history \<Rightarrow> hist_op \<Rightarrow> history" where
  "hist_step h (H_Record u r sb sa ra) = history_record u r sb sa ra h"
| "hist_step h H_Seal = history_seal h"
| "hist_step h H_Undo = (case pop_undo h of None \<Rightarrow> h | Some (_, h') \<Rightarrow> h')"
| "hist_step h H_Redo = (case pop_redo h of None \<Rightarrow> h | Some (_, h') \<Rightarrow> h')"

lemma pop_undo_Some:
  assumes "pop_undo h = Some (x, h')"
  obtains us e where "hi_undo h = us @ [e]" "x = (h_undo e, h_state_before e)"
    "h' = h\<lparr>hi_undo := us, hi_redo := hi_redo h @ [e], hi_sealed := True\<rparr>"
  using assms by (cases "hi_undo h" rule: rev_cases) (auto simp: pop_undo_def Let_def)

lemma pop_redo_Some:
  assumes "pop_redo h = Some (x, h')"
  obtains rs e where "hi_redo h = rs @ [e]" "x = (h_redo e, h_state_after e)"
    "h' = h\<lparr>hi_redo := rs, hi_undo := hi_undo h @ [e], hi_sealed := True\<rparr>"
  using assms by (cases "hi_redo h" rule: rev_cases) (auto simp: pop_redo_def Let_def)

lemma pop_undo_ok: "hist_ok h \<Longrightarrow> pop_undo h = Some (x, h') \<Longrightarrow> hist_ok h'"
proof -
  assume h: "hist_ok h" and p: "pop_undo h = Some (x, h')"
  obtain us e where "hi_undo h = us @ [e]" "h' = h\<lparr>hi_undo := us, hi_redo := hi_redo h @ [e], hi_sealed := True\<rparr>"
    by (rule pop_undo_Some [OF p])
  then show "hist_ok h'" using h by (simp add: hist_ok_def) (elim conjE, simp)
qed

lemma pop_redo_ok: "hist_ok h \<Longrightarrow> pop_redo h = Some (x, h') \<Longrightarrow> hist_ok h'"
proof -
  assume h: "hist_ok h" and p: "pop_redo h = Some (x, h')"
  obtain rs e where "hi_redo h = rs @ [e]" "h' = h\<lparr>hi_redo := rs, hi_undo := hi_undo h @ [e], hi_sealed := True\<rparr>"
    by (rule pop_redo_Some [OF p])
  then show "hist_ok h'" using h by (simp add: hist_ok_def) (elim conjE, simp)
qed

lemma history_record_ok: "hist_ok h \<Longrightarrow> hist_ok (history_record u r sb sa ra h)"
  by (rule history_record_undo [of h u r sb sa ra])

lemma history_seal_ok [simp]: "hist_ok (history_seal h) = hist_ok h"
  by (simp add: history_seal_def hist_ok_def)

lemma hist_ok_default [simp]: "hist_ok history_default"
  by (simp add: history_default_def hist_ok_def)

lemma hist_step_ok: "hist_ok h \<Longrightarrow> hist_ok (hist_step h op)"
proof (cases op)
  case H_Undo
  assume "hist_ok h"
  then show ?thesis using H_Undo pop_undo_ok [of h] by (cases "pop_undo h") auto
next
  case H_Redo
  assume "hist_ok h"
  then show ?thesis using H_Redo pop_redo_ok [of h] by (cases "pop_redo h") auto
qed (simp_all add: history_record_ok)

section \<open>Properties\<close>

text \<open>
  C28: The history's byte counter is exact and its budget holds after any sequence of recording,
  sealing, undoing and redoing: the counter is the sum over the entries of both stacks (so no
  subtraction of the code can underflow), there are at most 4096 entries, and the retained text
  is at most 4 MiB unless a single entry is all there is.
\<close>

theorem history_budget: "hist_ok (foldl hist_step history_default ops)"
proof -
  have "hist_ok h \<Longrightarrow> hist_ok (foldl hist_step h ops)" for h
    by (induction ops arbitrary: h) (auto simp: hist_step_ok)
  then show ?thesis by simp
qed

end
