(* ===== verification/Editor_Document.thy ===== *)
theory Editor_Document
  imports Editor_History
begin

text \<open>
  One open document, \<^verbatim>\<open>crates/editor-core/src/document.rs\<close>: text, selection, history, versions and
  the dirty flag. The input style is a value the document only stores, of any type. Versions and
  content states are \<open>u64\<close> counters that start at zero and grow by one per applied transaction;
  they are natural numbers here. The function a deletion extends the caret by, and the ranges a
  search found, are arguments.
\<close>

definition MAX_DOCUMENT_BYTES :: nat where "MAX_DOCUMENT_BYTES = 2 * 1024 * 1024"

datatype load_error = LoadTooLarge nat nat | NotUtf8

record snapshot =
  sn_version :: nat
  sn_state :: nat
  sn_text :: string

record applied =
  ap_version :: nat
  ap_first_line :: nat
  ap_last_line :: nat
  ap_line_delta :: int

record 'st document =
  d_text :: text_buf
  d_selection :: selection
  d_history :: history
  d_read_only :: bool
  d_version :: nat
  d_state :: nat
  d_next_state :: nat
  d_saved_state :: "nat option"
  d_disk_revision :: "string option"
  d_style :: 'st

abbreviation d_str :: "'st document \<Rightarrow> string" where
  "d_str d \<equiv> tx_bytes (d_text d)"

section \<open>Loading and reading\<close>

definition from_string :: "'st \<Rightarrow> string \<Rightarrow> bool \<Rightarrow> 'st document" where
  "from_string style body read_only =
    \<lparr>d_text = text_new body, d_selection = selection_caret 0, d_history = history_default,
     d_read_only = read_only, d_version = 0, d_state = 0, d_next_state = 1, d_saved_state = Some 0,
     d_disk_revision = None, d_style = style\<rparr>"

definition from_bytes :: "'st \<Rightarrow> string \<Rightarrow> bool \<Rightarrow> load_error + 'st document" where
  "from_bytes style bytes read_only =
    (if length bytes > MAX_DOCUMENT_BYTES then Inl (LoadTooLarge (length bytes) MAX_DOCUMENT_BYTES)
     else if \<not> utf8_valid bytes then Inl NotUtf8
     else Inr (from_string style bytes read_only))"

definition set_input_style :: "'st \<Rightarrow> 'st document \<Rightarrow> 'st document" where
  "set_input_style style d = d\<lparr>d_style := style\<rparr>"

definition doc_caret :: "'st document \<Rightarrow> nat" where
  "doc_caret d = selection_head (d_selection d)"

definition caret_line_col :: "'st document \<Rightarrow> line_col" where
  "caret_line_col d = text_line_col (d_text d) (selection_head (d_selection d))"

definition u64_max :: nat where "u64_max = 2 ^ 64 - 1"

definition continue_from :: "nat \<Rightarrow> 'st document \<Rightarrow> 'st document" where
  "continue_from replaced d = d\<lparr>d_version := max (d_version d) (min (replaced + 1) u64_max)\<rparr>"

definition is_dirty :: "'st document \<Rightarrow> bool" where
  "is_dirty d \<longleftrightarrow> d_saved_state d \<noteq> Some (d_state d)"

definition clamp_cursor :: "text_buf \<Rightarrow> cursor \<Rightarrow> cursor" where
  "clamp_cursor t c = \<lparr>c_anchor = clamp_offset t (c_anchor c), c_head = clamp_offset t (c_head c),
     c_goal_column = c_goal_column c\<rparr>"

definition set_selection :: "selection \<Rightarrow> 'st document \<Rightarrow> 'st document" where
  "set_selection selection d =
    (let clamped = selection_mapped selection (clamp_cursor (d_text d));
         moved = selection_head clamped \<noteq> selection_head (d_selection d)
                 \<or> selection_count clamped \<noteq> selection_count (d_selection d)
     in d\<lparr>d_history := (if moved then history_seal (d_history d) else d_history d),
          d_selection := clamped\<rparr>)"

definition set_read_only :: "bool \<Rightarrow> 'st document \<Rightarrow> 'st document" where
  "set_read_only read_only d = d\<lparr>d_read_only := read_only\<rparr>"

definition doc_snapshot :: "'st document \<Rightarrow> snapshot" where
  "doc_snapshot d = \<lparr>sn_version = d_version d, sn_state = d_state d, sn_text = d_str d\<rparr>"

definition confirm_save :: "snapshot \<Rightarrow> string \<Rightarrow> 'st document \<Rightarrow> 'st document" where
  "confirm_save sn revision d =
    d\<lparr>d_saved_state := Some (sn_state sn), d_disk_revision := Some revision\<rparr>"

definition set_disk_revision :: "string \<Rightarrow> 'st document \<Rightarrow> 'st document" where
  "set_disk_revision revision d = d\<lparr>d_disk_revision := Some revision\<rparr>"

definition break_undo_group :: "'st document \<Rightarrow> 'st document" where
  "break_undo_group d = d\<lparr>d_history := history_seal (d_history d)\<rparr>"

section \<open>Applying a transaction\<close>

fun validate_edits :: "text_buf \<Rightarrow> edit list \<Rightarrow> edit_error option" where
  "validate_edits t [] = None"
| "validate_edits t (e # es) =
    (if e_end e > text_len t \<or> \<not> is_boundary t (e_start e) \<or> \<not> is_boundary t (e_end e)
     then Some (OutOfBounds (e_start e) (e_end e)) else validate_edits t es)"

definition validate :: "transaction \<Rightarrow> 'st document \<Rightarrow> edit_error option" where
  "validate tr d =
    (case validate_edits (d_text d) (tr_edits tr) of
       Some err \<Rightarrow> Some err
     | None \<Rightarrow>
         let size = as_usize (max (int (text_len (d_text d)) + size_delta tr) 0)
         in if size > MAX_DOCUMENT_BYTES then Some (TooLarge size MAX_DOCUMENT_BYTES) else None)"

fun inverse_loop :: "text_buf \<Rightarrow> int \<Rightarrow> edit list \<Rightarrow> edit list" where
  "inverse_loop t shift [] = []"
| "inverse_loop t shift (e # es) =
    (let start = as_usize (int (e_start e) + shift);
         end0 = start + length (e_insert e)
     in edit_replace (range_new start end0) (text_slice t (e_range e))
        # inverse_loop t (shift + int (length (e_insert e)) - int (range_len (e_range e))) es)"

definition inverse_of :: "transaction \<Rightarrow> 'st document \<Rightarrow> transaction" where
  "inverse_of tr d =
    with_selection_after
      (case transaction_new (inverse_loop (d_text d) 0 (tr_edits tr)) Or_History (d_selection d) of
         Inr t \<Rightarrow> t
       | Inl _ \<Rightarrow> \<lparr>tr_edits = [], tr_origin = Or_History, tr_selection_before = d_selection d,
                    tr_selection_after = None\<rparr>)
      (tr_selection_before tr)"

definition apply_validated :: "transaction \<Rightarrow> bool \<Rightarrow> 'st document \<Rightarrow> 'st document \<times> applied" where
  "apply_validated tr record_it d =
    (let es = tr_edits tr;
         first_line = line_of_offset (d_text d)
           (if es = [] then selection_head (d_selection d) else e_start (hd es));
         last_line = line_of_offset (d_text d)
           (if es = [] then selection_head (d_selection d) else e_end (last es));
         inverse = inverse_of tr d
     in case apply_loop text_slice text_replace es 0 (selection_head (d_selection d)) 0 (d_text d) of
          (t, resume_at, line_delta) \<Rightarrow>
            let state_before = d_state d;
                state_after = d_next_state d;
                selection = (case tr_selection_after tr of
                               Some s \<Rightarrow> s | None \<Rightarrow> selection_caret resume_at);
                d1 = d\<lparr>d_text := t, d_state := state_after, d_next_state := d_next_state d + 1,
                       d_version := d_version d + 1,
                       d_selection := selection_mapped selection
                         (\<lambda>c. cursor_new (clamp_offset t (c_anchor c)) (clamp_offset t (c_head c)))\<rparr>;
                d2 = (if record_it
                      then d1\<lparr>d_history :=
                             history_record inverse tr state_before state_after resume_at (d_history d1)\<rparr>
                      else d1)
            in (d2, \<lparr>ap_version = d_version d2, ap_first_line = first_line, ap_last_line = last_line,
                    ap_line_delta = line_delta\<rparr>))"

definition doc_apply :: "transaction \<Rightarrow> 'st document \<Rightarrow> (edit_error + applied) \<times> 'st document" where
  "doc_apply tr d =
    (if d_read_only d then (Inl ReadOnly, d)
     else case validate tr d of
       Some err \<Rightarrow> (Inl err, d)
     | None \<Rightarrow> (case apply_validated tr True d of (d', ap) \<Rightarrow> (Inr ap, d')))"

section \<open>Editing commands\<close>

fun around_loop :: "string \<Rightarrow> nat \<Rightarrow> int \<Rightarrow> cursor list \<Rightarrow> edit list \<times> cursor list" where
  "around_loop inserted before_len shift [] = ([], [])"
| "around_loop inserted before_len shift (c # cs) =
    (let r = cursor_range c;
         at = as_usize (int (r_start r) + shift) + before_len;
         (es, carets) = around_loop inserted before_len
                          (shift + int (length inserted) - int (range_len r)) cs
     in (edit_replace r inserted # es, cursor_caret at # carets))"

definition insert_around ::
  "string \<Rightarrow> string \<Rightarrow> origin \<Rightarrow> 'st document \<Rightarrow> (edit_error + applied) \<times> 'st document" where
  "insert_around before after org d =
    (case around_loop (before @ after) (length before) 0 (sel_cursors (d_selection d)) of
       (es, carets) \<Rightarrow>
         let sel = selection_many carets (sel_primary (d_selection d)) in
         (case transaction_new es org (d_selection d) of
            Inl err \<Rightarrow> (Inl err, d)
          | Inr tr \<Rightarrow> doc_apply (with_selection_after tr sel) d))"

definition doc_insert :: "string \<Rightarrow> origin \<Rightarrow> 'st document \<Rightarrow> (edit_error + applied) \<times> 'st document" where
  "doc_insert txt org d = insert_around txt [] org d"

fun delete_loop ::
  "(text_buf \<Rightarrow> nat \<Rightarrow> nat) \<Rightarrow> text_buf \<Rightarrow> int \<Rightarrow> cursor list \<Rightarrow> edit list \<times> cursor list" where
  "delete_loop into t shift [] = ([], [])"
| "delete_loop into t shift (c # cs) =
    (let r = (if cursor_is_empty c then range_new (c_head c) (into t (c_head c)) else cursor_range c);
         at = as_usize (int (r_start r) + shift);
         shift' = (if range_is_empty r then shift else shift - int (range_len r));
         (es, carets) = delete_loop into t shift' cs
     in (if range_is_empty r then es else edit_delete r # es, cursor_caret at # carets))"

definition doc_delete ::
  "(text_buf \<Rightarrow> nat \<Rightarrow> nat) \<Rightarrow> origin \<Rightarrow> 'st document \<Rightarrow> (edit_error + applied option) \<times> 'st document" where
  "doc_delete into org d =
    (if d_read_only d then (Inl ReadOnly, d)
     else case delete_loop into (d_text d) 0 (sel_cursors (d_selection d)) of
       (es, carets) \<Rightarrow>
         if es = [] then (Inr None, d)
         else
           let sel = selection_many carets (sel_primary (d_selection d)) in
           (case transaction_new es org (d_selection d) of
              Inl err \<Rightarrow> (Inl err, d)
            | Inr tr \<Rightarrow>
                (case doc_apply (with_selection_after tr sel) d of
                   (Inl err, d') \<Rightarrow> (Inl err, d')
                 | (Inr ap, d') \<Rightarrow> (Inr (Some ap), d'))))"

definition doc_undo :: "'st document \<Rightarrow> ('st document \<times> applied) option" where
  "doc_undo d =
    (if d_read_only d then None
     else case pop_undo (d_history d) of
       None \<Rightarrow> None
     | Some ((tr, state), h) \<Rightarrow>
         (case apply_validated tr False (d\<lparr>d_history := h\<rparr>) of
            (d', ap) \<Rightarrow> Some (d'\<lparr>d_state := state\<rparr>, ap)))"

definition doc_redo :: "'st document \<Rightarrow> ('st document \<times> applied) option" where
  "doc_redo d =
    (if d_read_only d then None
     else case pop_redo (d_history d) of
       None \<Rightarrow> None
     | Some ((tr, state), h) \<Rightarrow>
         (case apply_validated tr False (d\<lparr>d_history := h\<rparr>) of
            (d', ap) \<Rightarrow> Some (d'\<lparr>d_state := state\<rparr>, ap)))"

text \<open>\<open>ranges\<close> is what \<open>search::replace_all_ranges\<close> returned, \<open>Inl\<close> the limit it found exceeded.\<close>

datatype replace_outcome = Replaced nat "applied option" | OverBudget nat

definition replace_all ::
  "nat + byte_range list \<Rightarrow> string \<Rightarrow> 'st document \<Rightarrow> (edit_error + replace_outcome) \<times> 'st document" where
  "replace_all ranges replacement d =
    (if d_read_only d then (Inl ReadOnly, d)
     else case ranges of
       Inl limit \<Rightarrow> (Inr (OverBudget limit), d)
     | Inr rs \<Rightarrow>
         if rs = [] then (Inr (Replaced 0 None), d)
         else
           let count = length rs;
               removed = sum_list (map (\<lambda>r. r_end r - r_start r) rs);
               inserted = length replacement * count;
               size0 = text_len (d_text d) - removed + inserted;
               size = (if inserted > usize_max \<or> size0 > usize_max then usize_max else size0)
           in if size > MAX_DOCUMENT_BYTES then (Inl (TooLarge size MAX_DOCUMENT_BYTES), d)
              else (case transaction_new (map (\<lambda>r. edit_replace r replacement) rs) Or_ReplaceAll
                           (d_selection d) of
                 Inl err \<Rightarrow> (Inl err, d)
               | Inr tr \<Rightarrow>
                   (case doc_apply tr (break_undo_group d) of
                      (Inl err, d') \<Rightarrow> (Inl err, d')
                    | (Inr ap, d') \<Rightarrow> (Inr (Replaced count (Some ap)), break_undo_group d'))))"

definition goto_line :: "nat \<Rightarrow> 'st document \<Rightarrow> 'st document" where
  "goto_line line_one_based d =
    (let line = min (line_one_based - 1) (line_count (d_text d) - 1)
     in set_selection (selection_caret (line_start (d_text d) line)) d)"

definition doc_reload :: "string \<Rightarrow> string \<Rightarrow> 'st document \<Rightarrow> (edit_error + applied) \<times> 'st document" where
  "doc_reload body revision d =
    (let was_read_only = d_read_only d;
         d1 = d\<lparr>d_read_only := False\<rparr>;
         caret = min (selection_head (d_selection d)) (length body)
     in case transaction_new [edit_replace (range_new 0 (text_len (d_text d1))) body] Or_Reload
               (d_selection d) of
          Inl err \<Rightarrow> (Inl err, d1)
        | Inr tr \<Rightarrow>
            (case doc_apply (with_selection_after tr (selection_caret caret)) (break_undo_group d1) of
               (Inl err, d') \<Rightarrow> (Inl err, d'\<lparr>d_read_only := was_read_only\<rparr>)
             | (Inr ap, d') \<Rightarrow>
                 (Inr ap, d'\<lparr>d_read_only := was_read_only, d_saved_state := Some (d_state d'),
                             d_disk_revision := Some revision\<rparr>)))"

section \<open>Reconciling a clean buffer with the disk\<close>

fun common_prefix :: "string \<Rightarrow> string \<Rightarrow> nat" where
  "common_prefix (a # as) (b # bs) = (if a = b then Suc (common_prefix as bs) else 0)"
| "common_prefix _ _ = 0"

text \<open>The two loops that move a cut to a character boundary of both texts.\<close>

fun floor_both :: "string \<Rightarrow> string \<Rightarrow> nat \<Rightarrow> nat" where
  "floor_both a b 0 = 0"
| "floor_both a b (Suc i) =
    (if is_char_boundary a (Suc i) \<and> is_char_boundary b (Suc i) then Suc i else floor_both a b i)"

function ceil_both :: "string \<Rightarrow> string \<Rightarrow> nat \<Rightarrow> nat \<Rightarrow> nat \<times> nat" where
  "ceil_both a b i j =
    (if (is_char_boundary a i \<and> is_char_boundary b j) \<or> length a \<le> i then (i, j)
     else ceil_both a b (Suc i) (Suc j))"
  by pat_completeness auto
termination
  by (relation "measure (\<lambda>(a, b, i, j). length a - i)") auto

declare ceil_both.simps [simp del]

definition diff_cut :: "string \<Rightarrow> string \<Rightarrow> nat \<times> nat \<times> nat" where
  "diff_cut old new =
    (let start = floor_both old new (common_prefix old new);
         suffix_len = common_prefix (rev (drop start old)) (rev (drop start new));
         (old_end, new_end) = ceil_both old new (length old - suffix_len) (length new - suffix_len)
     in (start, old_end, new_end))"

definition reload_clean ::
  "string \<Rightarrow> string \<Rightarrow> 'st document \<Rightarrow> (edit_error + applied option) \<times> 'st document" where
  "reload_clean txt revision d =
    (if is_dirty d then (Inl UnsavedChanges, d)
     else if length txt > MAX_DOCUMENT_BYTES then (Inl (TooLarge (length txt) MAX_DOCUMENT_BYTES), d)
     else if d_str d = txt then (Inr None, set_disk_revision revision d)
     else
       case diff_cut (d_str d) txt of
         (start, old_end, new_end) \<Rightarrow>
           let map_off = (\<lambda>off. if off < start then off
                            else if off \<ge> old_end then new_end + off - old_end
                            else start + min (off - start) (new_end - start));
               sel = selection_mapped (d_selection d)
                       (\<lambda>c. cursor_new (map_off (c_anchor c)) (map_off (c_head c)))
           in case transaction_new [edit_replace (range_new start old_end) (substr txt start new_end)]
                     Or_Reload (d_selection d) of
                Inl err \<Rightarrow> (Inl err, d)
              | Inr tr \<Rightarrow>
                  let tr' = with_selection_after tr sel in
                  (case validate tr' d of
                     Some err \<Rightarrow> (Inl err, d)
                   | None \<Rightarrow>
                       (case apply_validated tr' True (break_undo_group d) of
                          (d', ap) \<Rightarrow>
                            (Inr (Some ap), set_disk_revision revision
                               (d'\<lparr>d_saved_state := Some (d_state d')\<rparr>)))))"

section \<open>What one applied transaction does\<close>

lemma fits_removed: "fits p s es \<Longrightarrow> p + sum_list (map (\<lambda>e. range_len (e_range e)) es) \<le> length s"
  by (induction p s es rule: fits.induct) (auto simp: range_len_def)

lemma sum_list_int_diff:
  "sum_list (map (\<lambda>e. int (f e) - int (g e)) es) = int (sum_list (map f es)) - int (sum_list (map g es))"
  by (induction es) auto

lemma fits_inserted:
  "fits 0 s es \<Longrightarrow> sum_list (map (\<lambda>e. length (e_insert e)) es) \<le> length (edited 0 s es)"
  using fits_removed [of 0 s es] length_edited [of 0 s es]
  by (simp add: sum_list_int_diff [of "\<lambda>e. length (e_insert e)" "\<lambda>e. range_len (e_range e)"])


lemma edit_range_eta: "\<lparr>r_start = e_start e, r_end = e_end e\<rparr> = e_range e"
  by simp

lemma inverse_loop_edits:
  assumes "text_ok t" "fits p (tx_bytes t) es"
    "q + (length (tx_bytes t) - p) + sum_list (map (\<lambda>e. length (e_insert e)) es) < 2 ^ 64"
  shows "inverse_loop t (int q - int p) es = inverse_edits q p (tx_bytes t) es"
  using assms(2,3)
proof (induction es arbitrary: p q)
  case (Cons e es)
  let ?i = "q + (e_start e - p)"
  have f: "p \<le> e_start e" "e_start e \<le> e_end e" "e_end e \<le> length (tx_bytes t)"
      "is_char_boundary (tx_bytes t) (e_start e)" "is_char_boundary (tx_bytes t) (e_end e)"
      "fits (e_end e) (tx_bytes t) es"
    using Cons.prems(1) by simp_all
  have i: "as_usize (int (e_start e) + (int q - int p)) = ?i"
    using f Cons.prems(2) by (intro as_usize_shift) simp_all
  have sl: "text_slice t (e_range e) = substr (tx_bytes t) (e_start e) (e_end e)"
    using tb.content_slice [OF assms(1) f(2,4,5)] by (simp add: substr_def edit_range_eta)
  have sh: "int q - int p + int (length (e_insert e)) - int (range_len (e_range e))
      = int (?i + length (e_insert e)) - int (e_end e)"
    using f by (simp add: range_len_def)
  have ih: "inverse_loop t (int (?i + length (e_insert e)) - int (e_end e)) es
      = inverse_edits (?i + length (e_insert e)) (e_end e) (tx_bytes t) es"
    by (rule Cons.IH [OF f(6)]) (use f Cons.prems(2) in simp)
  have r: "range_new ?i (?i + length (e_insert e)) = \<lparr>r_start = ?i, r_end = ?i + length (e_insert e)\<rparr>"
    by (simp add: range_new_def)
  show ?case by (simp only: inverse_loop.simps inverse_edits.simps i sl sh ih r edit_replace_def Let_def)
qed simp

text \<open>A transaction that fits the document and does not make it too large.\<close>

definition tr_fits :: "transaction \<Rightarrow> string \<Rightarrow> bool" where
  "tr_fits tr s \<longleftrightarrow> utf8_valid s \<and> length s \<le> MAX_DOCUMENT_BYTES \<and> fits 0 s (tr_edits tr)
     \<and> length (edited 0 s (tr_edits tr)) \<le> MAX_DOCUMENT_BYTES"

lemma tr_fits_bound:
  "tr_fits tr s \<Longrightarrow> length s + sum_list (map (\<lambda>e. length (e_insert e)) (tr_edits tr)) < 2 ^ 64"
  using fits_inserted [of s "tr_edits tr"] by (simp add: tr_fits_def MAX_DOCUMENT_BYTES_def)

lemma inverse_of_edits:
  assumes "text_ok (d_text d)" "tr_fits tr (d_str d)"
  shows "tr_edits (inverse_of tr d) = inverse_edits 0 0 (d_str d) (tr_edits tr)"
proof -
  have f: "utf8_valid (d_str d)" "fits 0 (d_str d) (tr_edits tr)" using assms(2) by (simp_all add: tr_fits_def)
  have "inverse_loop (d_text d) 0 (tr_edits tr) = inverse_edits 0 0 (d_str d) (tr_edits tr)"
    using inverse_loop_edits [OF assms(1) f(2), of 0] tr_fits_bound [OF assms(2)] by simp
  moreover have "fits 0 (edited 0 (d_str d) (tr_edits tr)) (inverse_edits 0 0 (d_str d) (tr_edits tr))"
    using inverse_edits_correct [OF f(1) _ f(2), of "[]" 0] by simp
  ultimately show ?thesis
    by (simp add: inverse_of_def with_selection_after_def transaction_new_fits)
qed

lemma apply_loop_doc:
  assumes "text_ok t" "tr_fits tr (tx_bytes t)"
  shows "apply_loop text_slice text_replace (tr_edits tr) 0 r 0 t =
    (text_new (edited 0 (tx_bytes t) (tr_edits tr)), resume_of 0 0 (tr_edits tr) r,
     int (newlines (edited 0 (tx_bytes t) (tr_edits tr))) - int (newlines (tx_bytes t)))"
proof -
  let ?s = "tx_bytes t" and ?es = "tr_edits tr"
  have f: "utf8_valid ?s" "fits 0 ?s ?es" using assms(2) by (simp_all add: tr_fits_def)
  have b: "length [] + (length ?s - 0) + sum_list (map (\<lambda>e. length (e_insert e)) ?es) < 2 ^ 64"
    using tr_fits_bound [OF assms(2)] by simp
  obtain b' where b': "apply_loop text_slice text_replace ?es 0 r 0 t =
      (b', resume_of 0 0 ?es r, int (newlines (edited 0 ?s ?es)) - int (newlines ?s))"
      "text_ok b'" "tx_bytes b' = edited 0 ?s ?es"
    using tb.apply_loop_edited [OF assms(1), of "[]" 0 ?s ?es r 0] f b by auto
  have "b' = text_new (edited 0 ?s ?es)" using b'(2,3) by (simp add: text_new_def text_ok_def)
  then show ?thesis using b'(1) by simp
qed

lemma apply_validated_fields:
  assumes "text_ok (d_text d)" "tr_fits tr (d_str d)"
  obtains d' ap where "apply_validated tr rec d = (d', ap)"
    "d_text d' = text_new (edited 0 (d_str d) (tr_edits tr))" "sel_ok (d_selection d')"
    "d_history d' = (if rec then history_record (inverse_of tr d) tr (d_state d) (d_next_state d)
        (resume_of 0 0 (tr_edits tr) (selection_head (d_selection d))) (d_history d) else d_history d)"
    "d_read_only d' = d_read_only d" "d_version d' = d_version d + 1" "d_state d' = d_next_state d"
    "d_next_state d' = d_next_state d + 1" "d_saved_state d' = d_saved_state d"
    "d_disk_revision d' = d_disk_revision d" "ap_version ap = d_version d'"
    "ap_line_delta ap = int (line_count (d_text d')) - int (line_count (d_text d))"
proof -
  obtain d' ap where a: "apply_validated tr rec d = (d', ap)" by (cases "apply_validated tr rec d")
  have lc: "line_count (text_new s) = Suc (newlines s)" for s
    by (simp add: line_count_def text_new_def length_scan)
  have ld: "line_count (d_text d) = Suc (newlines (d_str d))"
    using assms(1) by (simp add: line_count_def text_ok_def length_scan)
  show thesis
    by (rule that [OF a]; insert a)
      (auto simp: apply_validated_def apply_loop_doc [OF assms] Let_def selection_mapped_def sel_ok_many lc ld
        split: if_splits)
qed

section \<open>The document's invariant\<close>

text \<open>
  \<open>\<sigma>\<close> says which text each content state stands for. Entries lead from the text of their state
  before to that of their state after, their undo is the exact inverse, and they are linked:
  the undo stack leads to the current state and the redo stack away from it.
\<close>

definition hentry_ok :: "(nat \<Rightarrow> string) \<Rightarrow> hentry \<Rightarrow> bool" where
  "hentry_ok \<sigma> e \<longleftrightarrow>
    fits 0 (\<sigma> (h_state_before e)) (tr_edits (h_redo e))
    \<and> \<sigma> (h_state_after e) = edited 0 (\<sigma> (h_state_before e)) (tr_edits (h_redo e))
    \<and> tr_edits (h_undo e) = inverse_edits 0 0 (\<sigma> (h_state_before e)) (tr_edits (h_redo e))
    \<and> (\<forall>r. tr_edits (h_redo e) = [r] \<longrightarrow> h_resume_at e = e_start r + length (e_insert r))
    \<and> h_retained e = retained_bytes (h_undo e) + retained_bytes (h_redo e)"

fun path :: "nat \<Rightarrow> hentry list \<Rightarrow> nat \<Rightarrow> bool" where
  "path a [] b = (a = b)"
| "path a (e # es) b = (h_state_before e = a \<and> path (h_state_after e) es b)"

definition doc_inv :: "(nat \<Rightarrow> string) \<Rightarrow> 'st document \<Rightarrow> bool" where
  "doc_inv \<sigma> d \<longleftrightarrow>
    text_ok (d_text d) \<and> sel_ok (d_selection d) \<and> hist_ok (d_history d)
    \<and> d_state d < d_next_state d \<and> \<sigma> (d_state d) = d_str d
    \<and> (\<forall>k < d_next_state d. utf8_valid (\<sigma> k) \<and> length (\<sigma> k) \<le> MAX_DOCUMENT_BYTES)
    \<and> (\<forall>e \<in> set (hi_undo (d_history d)) \<union> set (hi_redo (d_history d)).
         hentry_ok \<sigma> e \<and> h_state_before e < d_next_state d \<and> h_state_after e < d_next_state d)
    \<and> (\<exists>a. path a (hi_undo (d_history d)) (d_state d))
    \<and> (\<exists>z. path (d_state d) (rev (hi_redo (d_history d))) z)
    \<and> (\<forall>k. d_saved_state d = Some k \<longrightarrow> k < d_next_state d)"

lemma path_append: "path a (xs @ ys) b \<longleftrightarrow> (\<exists>m. path a xs m \<and> path m ys b)"
  by (induction xs arbitrary: a) auto

lemma path_suffix: "suffix ys xs \<Longrightarrow> path a xs b \<Longrightarrow> \<exists>c. path c ys b"
  by (auto simp: suffix_def path_append)

lemma hentry_ok_cong:
  "\<sigma> (h_state_before e) = \<tau> (h_state_before e) \<Longrightarrow> \<sigma> (h_state_after e) = \<tau> (h_state_after e) \<Longrightarrow>
    hentry_ok \<sigma> e = hentry_ok \<tau> e"
  by (simp add: hentry_ok_def)

lemma doc_inv_from_string:
  "utf8_valid body \<Longrightarrow> length body \<le> MAX_DOCUMENT_BYTES \<Longrightarrow> doc_inv (\<lambda>_. body) (from_string st body ro)"
  by (simp add: doc_inv_def from_string_def selection_caret_def history_default_def hist_ok_def)

lemma edited_single: "edited 0 s [e] = take (e_start e) s @ e_insert e @ drop (e_end e) s"
  by (simp add: substr_def)

text \<open>A keystroke that continues a typing run merges into it exactly.\<close>

lemma coalesce_ok:
  assumes "coalesce lst u r = Some lst'" and "hentry_ok \<sigma> lst" and "fits 0 (\<sigma> (h_state_after lst)) (tr_edits r)"
    and "tr_edits u = inverse_edits 0 0 (\<sigma> (h_state_after lst)) (tr_edits r)"
    and "\<tau> (h_state_before lst) = \<sigma> (h_state_before lst)"
    and "\<tau> n = edited 0 (\<sigma> (h_state_after lst)) (tr_edits r)"
    and "ra = resume_of 0 0 (tr_edits r) d0"
  shows "hentry_ok \<tau> (lst'\<lparr>h_undo := (h_undo lst')\<lparr>tr_selection_before := x\<rparr>,
      h_redo := (h_redo lst')\<lparr>tr_selection_after := y\<rparr>, h_state_after := n, h_resume_at := ra,
      h_retained := h_retained lst' + (retained_bytes u + retained_bytes r)\<rparr>)
    \<and> h_state_before lst' = h_state_before lst"
proof -
  let ?s0 = "\<sigma> (h_state_before lst)" and ?s1 = "\<sigma> (h_state_after lst)"
  obtain a p where a: "tr_edits r = [a]" "range_is_empty (e_range a)" "e_start a = h_resume_at lst"
      and p: "tr_edits (h_redo lst) = [p]"
    using assms(1) by (auto simp: coalesce_def Let_def split: if_splits option.splits list.splits)
  have pu: "tr_edits (h_undo lst) =
      [\<lparr>e_range = \<lparr>r_start = e_start p, r_end = e_start p + length (e_insert p)\<rparr>, e_insert = substr ?s0 (e_start p) (e_end p)\<rparr>]"
    using assms(2) p by (simp add: hentry_ok_def Let_def)
  have f: "fits 0 ?s0 [p]" "?s1 = edited 0 ?s0 [p]" "h_resume_at lst = e_start p + length (e_insert p)"
      "h_retained lst = retained_bytes (h_undo lst) + retained_bytes (h_redo lst)"
    using assms(2) p by (simp_all add: hentry_ok_def)
  let ?p = "p\<lparr>e_insert := e_insert p @ e_insert a\<rparr>"
  let ?n = "length (e_insert p) + length (e_insert a)"
  let ?pu = "\<lparr>e_range = \<lparr>r_start = e_start p, r_end = e_start p + ?n\<rparr>, e_insert = substr ?s0 (e_start p) (e_end p)\<rparr>"
  have l: "lst' = lst\<lparr>h_redo := (h_redo lst)\<lparr>tr_edits := [?p]\<rparr>,
      h_undo := (h_undo lst)\<lparr>tr_edits := [?pu], tr_origin := Or_History\<rparr>\<rparr>"
    using assms(1) a(1) p pu
    by (auto simp: coalesce_def Let_def range_new_def split: if_splits option.splits list.splits)
  have va: "utf8_valid (e_insert a)" using assms(3) a(1) by simp
  have ae: "e_end a = e_start a" using a(2) by (simp add: range_is_empty_def)
  have st: "e_start p \<le> length ?s0" using f(1) by simp
  have "edited 0 ?s1 [a] = take (e_start a) ?s1 @ e_insert a @ drop (e_start a) ?s1" using ae by (simp only: edited_single)
  also have "\<dots> = edited 0 ?s0 [?p]"
    using st unfolding f(2) a(3) f(3) edited_single by simp
  finally have e: "edited 0 ?s1 [a] = edited 0 ?s0 [?p]" .
  have fp: "fits 0 ?s0 [?p]" using f(1) va by (simp add: utf8_valid_append)
  have ra: "ra = e_start p + ?n" using assms(7) a f(3) by (simp add: Let_def)
  have u: "tr_edits u = [\<lparr>e_range = \<lparr>r_start = e_start a, r_end = e_start a + length (e_insert a)\<rparr>, e_insert = []\<rparr>]"
    using assms(4) a ae by (simp add: substr_def Let_def)
  have ret: "h_retained lst + (retained_bytes u + retained_bytes r) =
      retained_bytes (h_undo lst')  + retained_bytes (h_redo lst')"
    using f(1,4) by (simp add: retained_bytes_def l u a(1) p pu range_len_def ae length_substr)
  show ?thesis
    using fp e assms(5,6) ra ret a(1) l
    by (simp add: hentry_ok_def retained_bytes_def Let_def)
qed

lemma doc_invD:
  assumes "doc_inv \<sigma> d"
  shows "text_ok (d_text d)" "sel_ok (d_selection d)" "hist_ok (d_history d)" "d_state d < d_next_state d"
    "\<sigma> (d_state d) = d_str d" "utf8_valid (d_str d)" "length (d_str d) \<le> MAX_DOCUMENT_BYTES"
  using assms by (auto simp: doc_inv_def)

lemma doc_inv_entry:
  assumes "doc_inv \<sigma> d" and "e \<in> set (hi_undo (d_history d)) \<union> set (hi_redo (d_history d))"
  shows "hentry_ok \<sigma> e" "h_state_before e < d_next_state d" "h_state_after e < d_next_state d"
  using assms by (auto simp: doc_inv_def)

lemma hentry_ok_upd:
  assumes "doc_inv \<sigma> d" and "e \<in> set (hi_undo (d_history d)) \<union> set (hi_redo (d_history d))"
  shows "hentry_ok (\<sigma>(d_next_state d := N)) e"
proof -
  note e = doc_inv_entry [OF assms]
  have "hentry_ok (\<sigma>(d_next_state d := N)) e = hentry_ok \<sigma> e" using e(2,3) by (intro hentry_ok_cong) auto
  then show ?thesis using e(1) by simp
qed

text \<open>Assembling the invariant of a document with one more content state.\<close>

lemma doc_inv_step:
  assumes inv: "doc_inv \<sigma> d" and N: "utf8_valid N" "length N \<le> MAX_DOCUMENT_BYTES"
    and d': "text_ok (d_text d')" "sel_ok (d_selection d')" "hist_ok (d_history d')"
      "d_next_state d' = d_next_state d + 1" "d_state d' < d_next_state d'"
      "(\<sigma>(d_next_state d := N)) (d_state d') = d_str d'"
      "\<And>k. d_saved_state d' = Some k \<Longrightarrow> k < d_next_state d'"
    and es: "\<And>e. e \<in> set (hi_undo (d_history d')) \<union> set (hi_redo (d_history d')) \<Longrightarrow>
        hentry_ok (\<sigma>(d_next_state d := N)) e \<and> h_state_before e < d_next_state d' \<and> h_state_after e < d_next_state d'"
    and p: "\<exists>a. path a (hi_undo (d_history d')) (d_state d')" "\<exists>z. path (d_state d') (rev (hi_redo (d_history d'))) z"
  shows "doc_inv (\<sigma>(d_next_state d := N)) d'"
proof -
  have "\<forall>k < d_next_state d'. utf8_valid ((\<sigma>(d_next_state d := N)) k)
      \<and> length ((\<sigma>(d_next_state d := N)) k) \<le> MAX_DOCUMENT_BYTES"
    using inv N d'(4) by (auto simp: doc_inv_def less_Suc_eq)
  then show ?thesis using d' es p unfolding doc_inv_def by blast
qed

lemma doc_inv_record:
  assumes inv: "doc_inv \<sigma> d" and fit: "tr_fits tr (d_str d)"
    and d': "apply_validated tr True d = (d', ap)"
  defines "N \<equiv> edited 0 (d_str d) (tr_edits tr)"
  shows "doc_inv (\<sigma>(d_next_state d := N)) d'" and "d_str d' = N"
proof -
  let ?u = "inverse_of tr d" and ?n = "d_next_state d"
  let ?ra = "resume_of 0 0 (tr_edits tr) (selection_head (d_selection d))"
  note D = doc_invD [OF inv]
  have f: "fits 0 (d_str d) (tr_edits tr)" "length N \<le> MAX_DOCUMENT_BYTES"
    using fit by (simp_all add: tr_fits_def N_def)
  have vN: "utf8_valid N" using utf8_edited [OF D(6) _ f(1)] by (simp add: N_def)
  obtain a where pa: "path a (hi_undo (d_history d)) (d_state d)" using inv by (auto simp: doc_inv_def)
  have F: "d_text d' = text_new N" "sel_ok (d_selection d')"
      "d_history d' = history_record ?u tr (d_state d) ?n ?ra (d_history d)"
      "d_state d' = ?n" "d_next_state d' = ?n + 1" "d_saved_state d' = d_saved_state d"
    using apply_validated_fields [OF D(1) fit, of True] d' by (auto simp: N_def)
  show "d_str d' = N" using F(1) by simp
  note iu = inverse_of_edits [OF D(1) fit]
  have sv: "k < d_next_state d'" if "d_saved_state d' = Some k" for k
    using inv that F by (auto simp: doc_inv_def)
  have build: "doc_inv (\<sigma>(?n := N)) d'"
    if h: "hist_ok (d_history d')" "hi_redo (d_history d') = []" "hi_undo (d_history d') = us @ [e]"
      and us: "set us \<subseteq> set (hi_undo (d_history d))" "path c us (h_state_before e)"
      and e: "hentry_ok (\<sigma>(?n := N)) e" "h_state_before e < ?n" "h_state_after e = ?n" for us e c
  proof (rule doc_inv_step [OF inv vN f(2)])
    show "hentry_ok (\<sigma>(?n := N)) x \<and> h_state_before x < d_next_state d' \<and> h_state_after x < d_next_state d'"
      if "x \<in> set (hi_undo (d_history d')) \<union> set (hi_redo (d_history d'))" for x
      using that h us(1) e hentry_ok_upd [OF inv, of x N] doc_inv_entry [OF inv, of x] F(5) by fastforce
    show "\<exists>a. path a (hi_undo (d_history d')) (d_state d')"
      using us(2) e(3) F(4) h(3) by (auto simp: path_append intro!: exI [of _ c])
  qed (use F h sv in simp_all)
  show "doc_inv (\<sigma>(?n := N)) d'"
  proof (rule history_record_undo [OF D(3), of ?u tr "d_state d" ?n ?ra])
    fix us
    let ?e = "\<lparr>h_undo = ?u, h_redo = tr, h_state_before = d_state d, h_state_after = ?n,
      h_retained = retained_bytes ?u + retained_bytes tr, h_resume_at = ?ra\<rparr>"
    assume h: "hi_undo (history_record ?u tr (d_state d) ?n ?ra (d_history d)) = us @ [?e]"
      "suffix us (hi_undo (d_history d))" "hi_redo (history_record ?u tr (d_state d) ?n ?ra (d_history d)) = []"
      "hist_ok (history_record ?u tr (d_state d) ?n ?ra (d_history d))"
    obtain c where "path c us (d_state d)" using path_suffix [OF h(2) pa] by blast
    moreover have "hentry_ok (\<sigma>(?n := N)) ?e"
      using D(4,5) f(1) iu by (auto simp: hentry_ok_def N_def Let_def)
    ultimately show ?thesis
      using build [of us ?e c] h F(3) D(4) set_mono_suffix [OF h(2)] by simp
  next
    fix us and lst lst' :: hentry
    let ?e = "lst'\<lparr>h_undo := (h_undo lst')\<lparr>tr_selection_before := tr_selection_before ?u\<rparr>,
        h_redo := (h_redo lst')\<lparr>tr_selection_after := tr_selection_after tr\<rparr>, h_state_after := ?n,
        h_resume_at := ?ra, h_retained := h_retained lst' + (retained_bytes ?u + retained_bytes tr)\<rparr>"
    assume h: "hi_undo (history_record ?u tr (d_state d) ?n ?ra (d_history d)) = us @ [?e]"
      "suffix (us @ [lst]) (hi_undo (d_history d))" "coalesce lst ?u tr = Some lst'"
      "hi_redo (history_record ?u tr (d_state d) ?n ?ra (d_history d)) = []"
      "hist_ok (history_record ?u tr (d_state d) ?n ?ra (d_history d))"
    have mem: "lst \<in> set (hi_undo (d_history d)) \<union> set (hi_redo (d_history d))"
      using set_mono_suffix [OF h(2)] by simp
    obtain c where c: "path c (us @ [lst]) (d_state d)" using path_suffix [OF h(2) pa] by blast
    then have la: "h_state_after lst = d_state d" and pl: "path c us (h_state_before lst)"
      by (auto simp: path_append)
    have ok: "hentry_ok (\<sigma>(?n := N)) ?e \<and> h_state_before lst' = h_state_before lst"
      by (rule coalesce_ok [OF h(3) doc_inv_entry(1) [OF inv mem]])
        (use la D(5) f(1) iu doc_inv_entry(2) [OF inv mem] in \<open>auto simp: N_def\<close>)
    then show ?thesis
      using build [of us ?e c] h pl F(3) doc_inv_entry(2) [OF inv mem] set_mono_suffix [OF h(2)] by simp
  qed
qed

lemma hentry_undo_fits:
  assumes "hentry_ok \<sigma> e" "utf8_valid (\<sigma> (h_state_before e))" "length (\<sigma> (h_state_before e)) \<le> MAX_DOCUMENT_BYTES"
    "length (\<sigma> (h_state_after e)) \<le> MAX_DOCUMENT_BYTES"
  shows "tr_fits (h_undo e) (\<sigma> (h_state_after e))"
    and "edited 0 (\<sigma> (h_state_after e)) (tr_edits (h_undo e)) = \<sigma> (h_state_before e)"
    and "tr_fits (h_redo e) (\<sigma> (h_state_before e))"
    and "edited 0 (\<sigma> (h_state_before e)) (tr_edits (h_redo e)) = \<sigma> (h_state_after e)"
proof -
  let ?s = "\<sigma> (h_state_before e)" and ?es = "tr_edits (h_redo e)"
  have f: "fits 0 ?s ?es" "\<sigma> (h_state_after e) = edited 0 ?s ?es" "tr_edits (h_undo e) = inverse_edits 0 0 ?s ?es"
    using assms(1) by (simp_all add: hentry_ok_def)
  have c: "fits 0 (edited 0 ?s ?es) (inverse_edits 0 0 ?s ?es)"
      "edited 0 (edited 0 ?s ?es) (inverse_edits 0 0 ?s ?es) = ?s"
    using inverse_edits_correct [OF assms(2) _ f(1), of "[]" 0] by simp_all
  have v: "utf8_valid (edited 0 ?s ?es)" using utf8_edited [OF assms(2) _ f(1)] by simp
  show "tr_fits (h_undo e) (\<sigma> (h_state_after e))" "edited 0 (\<sigma> (h_state_after e)) (tr_edits (h_undo e)) = ?s"
    "tr_fits (h_redo e) ?s" "edited 0 ?s ?es = \<sigma> (h_state_after e)"
    using c v f assms(2,3,4) by (simp_all add: tr_fits_def)
qed

text \<open>Undo and redo move along the entries and restore the text of the state they lead to.\<close>

lemma doc_undo_inv:
  assumes inv: "doc_inv \<sigma> d" and u: "doc_undo d = Some (d', ap)"
  obtains us e where "hi_undo (d_history d) = us @ [e]" "h_state_after e = d_state d"
    "d_state d' = h_state_before e" "d_str d' = \<sigma> (h_state_before e)"
    "d_history d' = (d_history d)\<lparr>hi_undo := us, hi_redo := hi_redo (d_history d) @ [e], hi_sealed := True\<rparr>"
    "d_version d' = d_version d + 1" "d_next_state d' = d_next_state d + 1" "d_saved_state d' = d_saved_state d"
    "d_read_only d' = d_read_only d" "doc_inv (\<sigma>(d_next_state d := \<sigma> (h_state_before e))) d'"
proof -
  note D = doc_invD [OF inv]
  obtain x h where p: "pop_undo (d_history d) = Some (x, h)" and ro: "\<not> d_read_only d"
    using u by (auto simp: doc_undo_def split: if_splits option.splits prod.splits)
  obtain us e where e: "hi_undo (d_history d) = us @ [e]" "x = (h_undo e, h_state_before e)"
      "h = (d_history d)\<lparr>hi_undo := us, hi_redo := hi_redo (d_history d) @ [e], hi_sealed := True\<rparr>"
    by (rule pop_undo_Some [OF p])
  have mem: "e \<in> set (hi_undo (d_history d)) \<union> set (hi_redo (d_history d))" using e(1) by simp
  note E = doc_inv_entry [OF inv mem]
  obtain a where pa: "path a (us @ [e]) (d_state d)" using inv e(1) by (auto simp: doc_inv_def)
  then have ea: "h_state_after e = d_state d" and pu: "path a us (h_state_before e)" by (auto simp: path_append)
  have len: "utf8_valid (\<sigma> (h_state_before e))" "length (\<sigma> (h_state_before e)) \<le> MAX_DOCUMENT_BYTES"
    using inv E(2) by (auto simp: doc_inv_def)
  have "length (\<sigma> (h_state_after e)) \<le> MAX_DOCUMENT_BYTES" using ea D(5,7) by simp
  note F = hentry_undo_fits [OF E(1) len this, unfolded ea D(5)]
  let ?d = "d\<lparr>d_history := h\<rparr>"
  have "text_ok (d_text ?d)" "tr_fits (h_undo e) (d_str ?d)" using D(1) F(1) by simp_all
  note V = this
  obtain d1 ap1 where A1: "apply_validated (h_undo e) False ?d = (d1, ap1)" by fastforce
  have A: "apply_validated (h_undo e) False ?d = (d1, ap1)" "d_text d1 = text_new (\<sigma> (h_state_before e))"
      "sel_ok (d_selection d1)" "d_history d1 = h" "d_read_only d1 = d_read_only d" "d_version d1 = d_version d + 1"
      "d_next_state d1 = d_next_state d + 1" "d_saved_state d1 = d_saved_state d"
    using apply_validated_fields [OF V, of False] A1 F(2) by auto
  have d': "d' = d1\<lparr>d_state := h_state_before e\<rparr>" using u p ro A(1) e(2) by (simp add: doc_undo_def)
  obtain z where pz: "path (d_state d) (rev (hi_redo (d_history d))) z" using inv by (auto simp: doc_inv_def)
  have "doc_inv (\<sigma>(d_next_state d := \<sigma> (h_state_before e))) d'"
  proof (rule doc_inv_step [OF inv len])
    show "hentry_ok (\<sigma>(d_next_state d := \<sigma> (h_state_before e))) y \<and> h_state_before y < d_next_state d'
        \<and> h_state_after y < d_next_state d'"
      if "y \<in> set (hi_undo (d_history d')) \<union> set (hi_redo (d_history d'))" for y
    proof -
      have "y \<in> set (hi_undo (d_history d)) \<union> set (hi_redo (d_history d))" using that d' A e by auto
      then show ?thesis using hentry_ok_upd [OF inv] doc_inv_entry [OF inv] d' A by fastforce
    qed
    show "hist_ok (d_history d')" using pop_undo_ok [OF D(3) p] d' A by simp
    show "k < d_next_state d'" if "d_saved_state d' = Some k" for k
      using inv that d' A by (auto simp: doc_inv_def)
  qed (use d' A e E(2) pu pz ea in auto)
  then show thesis using that [of us e] e ea d' A by simp
qed

lemma doc_redo_inv:
  assumes inv: "doc_inv \<sigma> d" and u: "doc_redo d = Some (d', ap)"
  obtains rs e where "hi_redo (d_history d) = rs @ [e]" "h_state_before e = d_state d"
    "d_state d' = h_state_after e" "d_str d' = \<sigma> (h_state_after e)"
    "d_history d' = (d_history d)\<lparr>hi_redo := rs, hi_undo := hi_undo (d_history d) @ [e], hi_sealed := True\<rparr>"
    "d_version d' = d_version d + 1" "d_next_state d' = d_next_state d + 1" "d_saved_state d' = d_saved_state d"
    "d_read_only d' = d_read_only d" "doc_inv (\<sigma>(d_next_state d := \<sigma> (h_state_after e))) d'"
proof -
  note D = doc_invD [OF inv]
  obtain x h where p: "pop_redo (d_history d) = Some (x, h)" and ro: "\<not> d_read_only d"
    using u by (auto simp: doc_redo_def split: if_splits option.splits prod.splits)
  obtain rs e where e: "hi_redo (d_history d) = rs @ [e]" "x = (h_redo e, h_state_after e)"
      "h = (d_history d)\<lparr>hi_redo := rs, hi_undo := hi_undo (d_history d) @ [e], hi_sealed := True\<rparr>"
    by (rule pop_redo_Some [OF p])
  have mem: "e \<in> set (hi_undo (d_history d)) \<union> set (hi_redo (d_history d))" using e(1) by simp
  note E = doc_inv_entry [OF inv mem]
  obtain z where pz: "path (d_state d) (e # rev rs) z" using inv e(1) by (auto simp: doc_inv_def)
  then have eb: "h_state_before e = d_state d" and pr: "path (h_state_after e) (rev rs) z" by auto
  have len: "utf8_valid (\<sigma> (h_state_after e))" "length (\<sigma> (h_state_after e)) \<le> MAX_DOCUMENT_BYTES"
    using inv E(3) by (auto simp: doc_inv_def)
  have "utf8_valid (\<sigma> (h_state_before e))" "length (\<sigma> (h_state_before e)) \<le> MAX_DOCUMENT_BYTES" using eb D by simp_all
  note F = hentry_undo_fits [OF E(1) this len(2), unfolded eb D(5)]
  let ?d = "d\<lparr>d_history := h\<rparr>"
  have "text_ok (d_text ?d)" "tr_fits (h_redo e) (d_str ?d)" using D(1) F(3) by simp_all
  note V = this
  obtain d1 ap1 where A1: "apply_validated (h_redo e) False ?d = (d1, ap1)" by fastforce
  have A: "apply_validated (h_redo e) False ?d = (d1, ap1)" "d_text d1 = text_new (\<sigma> (h_state_after e))"
      "sel_ok (d_selection d1)" "d_history d1 = h" "d_read_only d1 = d_read_only d" "d_version d1 = d_version d + 1"
      "d_next_state d1 = d_next_state d + 1" "d_saved_state d1 = d_saved_state d"
    using apply_validated_fields [OF V, of False] A1 F(4) by auto
  have d': "d' = d1\<lparr>d_state := h_state_after e\<rparr>" using u p ro A(1) e(2) by (simp add: doc_redo_def)
  obtain a where pa: "path a (hi_undo (d_history d)) (d_state d)" using inv by (auto simp: doc_inv_def)
  have "doc_inv (\<sigma>(d_next_state d := \<sigma> (h_state_after e))) d'"
  proof (rule doc_inv_step [OF inv len])
    show "hentry_ok (\<sigma>(d_next_state d := \<sigma> (h_state_after e))) y \<and> h_state_before y < d_next_state d'
        \<and> h_state_after y < d_next_state d'"
      if "y \<in> set (hi_undo (d_history d')) \<union> set (hi_redo (d_history d'))" for y
    proof -
      have "y \<in> set (hi_undo (d_history d)) \<union> set (hi_redo (d_history d))" using that d' A e by auto
      then show ?thesis using hentry_ok_upd [OF inv] doc_inv_entry [OF inv] d' A by fastforce
    qed
    show "hist_ok (d_history d')" using pop_redo_ok [OF D(3) p] d' A by simp
    show "k < d_next_state d'" if "d_saved_state d' = Some k" for k
      using inv that d' A by (auto simp: doc_inv_def)
    show "\<exists>a. path a (hi_undo (d_history d')) (d_state d')"
      using pa eb d' A e by (auto simp: path_append intro!: exI [of _ a])
  qed (use d' A e E(3) pr eb in auto)
  then show thesis using that [of rs e] e eb d' A by simp
qed

section \<open>Accepting and refusing\<close>

text \<open>
  A transaction as \<open>Transaction::new\<close> builds it: normalized ranges in order, inserted strings that
  are valid UTF-8 and together fit the address space.
\<close>

definition wf_tr :: "transaction \<Rightarrow> bool" where
  "wf_tr tr \<longleftrightarrow> (\<forall>e \<in> set (tr_edits tr). e_start e \<le> e_end e \<and> utf8_valid (e_insert e))
     \<and> sorted_wrt (\<lambda>a b. e_end a \<le> e_start b) (tr_edits tr)
     \<and> sum_list (map (\<lambda>e. length (e_insert e)) (tr_edits tr)) < 2 ^ 62"

lemma validate_edits_None:
  "validate_edits t es = None \<longleftrightarrow>
    (\<forall>e \<in> set es. e_end e \<le> text_len t \<and> is_boundary t (e_start e) \<and> is_boundary t (e_end e))"
  by (induction es) auto

lemma fits_bounds:
  "fits p s es \<Longrightarrow> e \<in> set es \<Longrightarrow> e_end e \<le> length s \<and> is_char_boundary s (e_start e) \<and> is_char_boundary s (e_end e)"
  by (induction p s es rule: fits.induct) auto

lemma validate_iff:
  assumes "doc_inv \<sigma> d" and "wf_tr tr"
  shows "validate tr d = None \<longleftrightarrow> tr_fits tr (d_str d)"
proof -
  let ?s = "d_str d" and ?es = "tr_edits tr"
  note D = doc_invD [OF assms(1)]
  have fits: "validate_edits (d_text d) ?es = None \<longleftrightarrow> fits 0 ?s ?es"
  proof
    assume "validate_edits (d_text d) ?es = None"
    then show "fits 0 ?s ?es"
      using assms(2) by (intro sorted_fits) (auto simp: validate_edits_None wf_tr_def is_boundary_def text_len_def)
  next
    assume "fits 0 ?s ?es"
    then show "validate_edits (d_text d) ?es = None"
      using fits_bounds [of 0 ?s ?es] char_boundary_le by (fastforce simp: validate_edits_None text_len_def is_boundary_def)
  qed
  have sz: "as_usize (max (int (text_len (d_text d)) + size_delta tr) 0) = length (edited 0 ?s ?es)" if "fits 0 ?s ?es"
  proof -
    have e: "int (text_len (d_text d)) + size_delta tr = int (length (edited 0 ?s ?es))"
      using length_edited [OF that] by (simp add: text_len_def size_delta_def)
    have "length (edited 0 ?s ?es) \<le> length ?s + sum_list (map (\<lambda>e. length (e_insert e)) ?es)"
      using length_edited [OF that]
      by (simp add: sum_list_int_diff [of "\<lambda>e. length (e_insert e)" "\<lambda>e. range_len (e_range e)"])
    then have "length (edited 0 ?s ?es) < 2 ^ 64" using D(7) assms(2) by (simp add: wf_tr_def MAX_DOCUMENT_BYTES_def)
    moreover have "max (int (length (edited 0 ?s ?es))) 0 = int (length (edited 0 ?s ?es))" by (rule max_absorb1) simp
    ultimately show ?thesis unfolding e by (simp only: as_usize_of_nat)
  qed
  show ?thesis
  proof (cases "fits 0 ?s ?es")
    case True
    then show ?thesis using fits sz [OF True] D(6,7)
      by (auto simp: validate_def tr_fits_def Let_def split: option.splits)
  next
    case False
    then show ?thesis using fits by (auto simp: validate_def tr_fits_def split: option.splits)
  qed
qed

lemma doc_apply_cases:
  assumes "doc_inv \<sigma> d" and "wf_tr tr"
  obtains (refused) err where "doc_apply tr d = (Inl err, d)" "d_read_only d \<or> \<not> tr_fits tr (d_str d)"
  | (applied) d' ap where "doc_apply tr d = (Inr ap, d')" "\<not> d_read_only d" "tr_fits tr (d_str d)"
      "apply_validated tr True d = (d', ap)"
  using validate_iff [OF assms] by (cases "d_read_only d"; cases "validate tr d"; cases "apply_validated tr True d")
    (auto simp: doc_apply_def)

text \<open>Everything an applied transaction leaves, in one place.\<close>

lemma applied_inv:
  assumes "doc_inv \<sigma> d" "tr_fits tr (d_str d)" "apply_validated tr True d = (d', ap)"
  shows "doc_inv (\<sigma>(d_next_state d := edited 0 (d_str d) (tr_edits tr))) d'"
    and "d_str d' = edited 0 (d_str d) (tr_edits tr)" and "d_saved_state d' = d_saved_state d"
    and "d_version d' = d_version d + 1" and "d_read_only d' = d_read_only d"
    and "d_state d' = d_next_state d" and "d_next_state d' = d_next_state d + 1"
    and "ap_version ap = d_version d'"
    and "ap_line_delta ap = int (line_count (d_text d')) - int (line_count (d_text d))"
proof -
  show "doc_inv (\<sigma>(d_next_state d := edited 0 (d_str d) (tr_edits tr))) d'"
    and "d_str d' = edited 0 (d_str d) (tr_edits tr)" by (fact doc_inv_record [OF assms])+
  note F = apply_validated_fields [OF doc_invD(1) [OF assms(1)] assms(2), of True]
  show "d_saved_state d' = d_saved_state d" "d_version d' = d_version d + 1" "d_read_only d' = d_read_only d"
    "d_state d' = d_next_state d" "d_next_state d' = d_next_state d + 1" "ap_version ap = d_version d'"
    "ap_line_delta ap = int (line_count (d_text d')) - int (line_count (d_text d))"
    using assms(3) by - (rule F; simp)+
qed

section \<open>The cut of a reload\<close>

lemma common_prefix_take: "take (common_prefix a b) a = take (common_prefix a b) b"
  by (induction a b rule: common_prefix.induct) auto

lemma common_prefix_le: "common_prefix a b \<le> length a" "common_prefix a b \<le> length b"
  by (induction a b rule: common_prefix.induct) auto

lemma floor_both_props:
  "floor_both a b i \<le> i" "is_char_boundary a (floor_both a b i)" "is_char_boundary b (floor_both a b i)"
  by (induction i) (auto intro: le_SucI)

lemma ceil_both_props:
  "i \<le> length a \<Longrightarrow> length a - i = length b - j \<Longrightarrow> j \<le> length b \<Longrightarrow>
    \<exists>k. ceil_both a b i j = (i + k, j + k) \<and> i + k \<le> length a \<and> j + k \<le> length b
      \<and> is_char_boundary a (i + k) \<and> is_char_boundary b (j + k)"
proof (induction a b i j rule: ceil_both.induct)
  case (1 a b i j)
  show ?case
  proof (cases "(is_char_boundary a i \<and> is_char_boundary b j) \<or> length a \<le> i")
    case True
    have "is_char_boundary a i \<and> is_char_boundary b j"
    proof (cases "length a \<le> i")
      case True
      then have "i = length a" "j = length b" using 1(2,3,4) by simp_all
      then show ?thesis by simp
    qed (use True in blast)
    moreover have "ceil_both a b i j = (i, j)" using True by (subst ceil_both.simps) (simp only: if_True)
    ultimately show ?thesis using 1(2,4) by (intro exI [of _ 0]) simp
  next
    case False
    then have e: "ceil_both a b i j = ceil_both a b (Suc i) (Suc j)" by (subst ceil_both.simps) (simp only: if_False)
    have "\<exists>k. ceil_both a b (Suc i) (Suc j) = (Suc i + k, Suc j + k) \<and> Suc i + k \<le> length a \<and> Suc j + k \<le> length b
      \<and> is_char_boundary a (Suc i + k) \<and> is_char_boundary b (Suc j + k)"
    proof (rule 1(1) [OF False])
      have "i < length a" using False by simp
      then show "Suc i \<le> length a" "length a - Suc i = length b - Suc j" "Suc j \<le> length b" using 1(2,3,4) by linarith+
    qed
    then obtain k where "ceil_both a b (Suc i) (Suc j) = (Suc i + k, Suc j + k)" "Suc i + k \<le> length a"
      "Suc j + k \<le> length b" "is_char_boundary a (Suc i + k)" "is_char_boundary b (Suc j + k)" by blast
    then show ?thesis unfolding e by (intro exI [of _ "Suc k"]) simp
  qed
qed

lemma diff_cut_props:
  obtains s oe ne where "diff_cut old new = (s, oe, ne)" "s \<le> oe" "oe \<le> length old" "s \<le> ne" "ne \<le> length new"
    "is_char_boundary old s" "is_char_boundary new s" "is_char_boundary old oe" "is_char_boundary new ne"
    "take s old = take s new" "drop oe old = drop ne new"
proof -
  let ?p = "common_prefix old new"
  define s where "s = floor_both old new ?p"
  define k where "k = common_prefix (rev (drop s old)) (rev (drop s new))"
  have s: "s \<le> ?p" "is_char_boundary old s" "is_char_boundary new s" by (simp_all add: s_def floor_both_props)
  then have "take s (take ?p old) = take s (take ?p new)" by (simp only: common_prefix_take)
  then have t: "take s old = take s new" using s(1) by (simp add: min_def)
  have sl: "s \<le> length old" "s \<le> length new"
    using s(1) common_prefix_le [of old new] by (simp_all add: order_trans)
  have k: "k \<le> length old - s" "k \<le> length new - s"
    using common_prefix_le [of "rev (drop s old)" "rev (drop s new)"] by (simp_all add: k_def)
  have "take k (rev (drop s old)) = take k (rev (drop s new))" unfolding k_def by (rule common_prefix_take)
  then have "drop (length old - s - k) (drop s old) = drop (length new - s - k) (drop s new)"
    by (simp add: take_rev)
  then have d: "drop (length old - k) old = drop (length new - k) new" using k sl by simp
  obtain j where j: "ceil_both old new (length old - k) (length new - k) = (length old - k + j, length new - k + j)"
      "length old - k + j \<le> length old" "length new - k + j \<le> length new"
      "is_char_boundary old (length old - k + j)" "is_char_boundary new (length new - k + j)"
    using ceil_both_props [of "length old - k" old new "length new - k"] k by auto
  have "drop j (drop (length old - k) old) = drop j (drop (length new - k) new)" using d by simp
  then have "drop (length old - k + j) old = drop (length new - k + j) new" by (simp add: add.commute)
  moreover have "diff_cut old new = (s, length old - k + j, length new - k + j)"
    by (simp only: diff_cut_def Let_def s_def [symmetric] k_def [symmetric] j(1) prod.case)
  ultimately show thesis using that s t j k sl by auto
qed

lemma wf_tr_new:
  assumes "transaction_new es o' sel = Inr tr" "\<And>e. e \<in> set es \<Longrightarrow> e_start e \<le> e_end e \<and> utf8_valid (e_insert e)"
    "sum_list (map (\<lambda>e. length (e_insert e)) es) < 2 ^ 62"
  shows "wf_tr (with_selection_after tr s)" and "wf_tr tr"
proof -
  have n: "\<forall>e \<in> set es. e_start e \<le> e_end e" using assms(2) by blast
  note p = transaction_new_props [OF assms(1) n]
  have "set (tr_edits tr) = set es" using p(1) by (metis set_mset_mset)
  moreover have "sum_list (map (\<lambda>e. length (e_insert e)) (tr_edits tr)) = sum_list (map (\<lambda>e. length (e_insert e)) es)"
    using arg_cong [OF p(1), of "\<lambda>m. sum_mset (image_mset (\<lambda>e. length (e_insert e)) m)"] by (simp add: sum_mset_sum_list flip: mset_map)
  ultimately show "wf_tr tr" using assms(2,3) p(2) by (simp add: wf_tr_def)
  then show "wf_tr (with_selection_after tr s)" by (simp add: wf_tr_def with_selection_after_def)
qed

lemma transaction_new_single:
  "e_start e \<le> e_end e \<Longrightarrow> transaction_new [e] o' sel =
    Inr \<lparr>tr_edits = [e], tr_origin = o', tr_selection_before = sel, tr_selection_after = None\<rparr>"
  by (simp add: transaction_new_def)

lemma doc_inv_break: "doc_inv \<sigma> (break_undo_group d) = doc_inv \<sigma> d"
  by (simp add: doc_inv_def break_undo_group_def) (simp add: history_seal_def hist_ok_def)

lemma break_fields [simp]:
  "d_text (break_undo_group d) = d_text d" "d_next_state (break_undo_group d) = d_next_state d"
  "d_state (break_undo_group d) = d_state d" "d_saved_state (break_undo_group d) = d_saved_state d"
  "d_read_only (break_undo_group d) = d_read_only d" "d_version (break_undo_group d) = d_version d"
  "d_selection (break_undo_group d) = d_selection d"
  by (simp_all add: break_undo_group_def)

text \<open>Fields the invariant does not look at.\<close>

lemma doc_inv_cong:
  assumes "doc_inv \<sigma> d" "d_text d' = d_text d" "sel_ok (d_selection d')" "d_history d' = d_history d"
    "d_state d' = d_state d" "d_next_state d' = d_next_state d"
    "\<And>k. d_saved_state d' = Some k \<Longrightarrow> k < d_next_state d"
  shows "doc_inv \<sigma> d'"
  using assms unfolding doc_inv_def by simp

text \<open>A reload of a clean buffer succeeds, whatever changed on disk, and leaves the disk's text.\<close>

lemma reload_clean_cases:
  assumes "doc_inv \<sigma> d" "utf8_valid txt"
  obtains (dirty) "is_dirty d" "reload_clean txt rv d = (Inl UnsavedChanges, d)"
  | (large) "\<not> is_dirty d" "length txt > MAX_DOCUMENT_BYTES"
      "reload_clean txt rv d = (Inl (TooLarge (length txt) MAX_DOCUMENT_BYTES), d)"
  | (same) "\<not> is_dirty d" "d_str d = txt" "reload_clean txt rv d = (Inr None, set_disk_revision rv d)"
  | (changed) d' ap d1 where "\<not> is_dirty d" "d_str d \<noteq> txt" "reload_clean txt rv d = (Inr (Some ap), d')"
      "d' = set_disk_revision rv (d1\<lparr>d_saved_state := Some (d_state d1)\<rparr>)" "d_str d1 = txt"
      "doc_inv (\<sigma>(d_next_state d := txt)) d1" "d_state d1 = d_next_state d" "d_next_state d1 = d_next_state d + 1"
      "d_version d1 = d_version d + 1" "d_read_only d1 = d_read_only d"
proof (cases "is_dirty d \<or> length txt > MAX_DOCUMENT_BYTES \<or> d_str d = txt")
  case True
  then consider "is_dirty d" | "\<not> is_dirty d" "length txt > MAX_DOCUMENT_BYTES"
    | "\<not> is_dirty d" "\<not> length txt > MAX_DOCUMENT_BYTES" "d_str d = txt" by blast
  then show thesis
  proof cases
    case 1
    then show thesis using dirty by (simp add: reload_clean_def)
  next
    case 2
    then show thesis using large by (simp add: reload_clean_def)
  next
    case 3
    then have "reload_clean txt rv d = (Inr None, set_disk_revision rv d)" by (simp only: reload_clean_def if_False if_True simp_thms)
    then show thesis using same 3 by blast
  qed
next
  case False
  note D = doc_invD [OF assms(1)]
  show thesis
  proof (rule diff_cut_props [of "d_str d" "txt"])
    fix s oe ne
    assume c: "diff_cut (d_str d) txt = (s, oe, ne)" "s \<le> oe" "oe \<le> length (d_str d)" "s \<le> ne" "ne \<le> length txt"
      "is_char_boundary (d_str d) s" "is_char_boundary txt s" "is_char_boundary (d_str d) oe" "is_char_boundary txt ne"
      "take s (d_str d) = take s txt" "drop oe (d_str d) = drop ne txt"
    let ?e = "edit_replace (range_new s oe) (substr txt s ne)"
    define sel where "sel = selection_mapped (d_selection d) (\<lambda>x. cursor_new
      ((\<lambda>off. if off < s then off else if off \<ge> oe then ne + off - oe else s + min (off - s) (ne - s)) (c_anchor x))
      ((\<lambda>off. if off < s then off else if off \<ge> oe then ne + off - oe else s + min (off - s) (ne - s)) (c_head x)))"
    let ?tr = "\<lparr>tr_edits = [?e], tr_origin = Or_Reload, tr_selection_before = d_selection d, tr_selection_after = Some sel\<rparr>"
    have e: "e_start ?e = s" "e_end ?e = oe" "e_insert ?e = substr txt s ne"
      using c(2) by (simp_all add: edit_replace_def)
    have "edited 0 (d_str d) [?e] = take s txt @ substr txt s ne @ drop ne txt"
      using e c(10,11) by (simp only: edited_single)
    also have "\<dots> = txt" using c(4) by (metis append_take_drop_id drop_drop le_add_diff_inverse2 substr_def)
    finally have ed: "edited 0 (d_str d) [?e] = txt" .
    have fit: "tr_fits ?tr (d_str d)"
      using ed e c D(6,7) False assms(2) by (simp add: tr_fits_def utf8_substr)
    have "length txt \<le> MAX_DOCUMENT_BYTES" using False by simp
    then have "ne - s < 2 ^ 62" using c(5) by (simp add: MAX_DOCUMENT_BYTES_def)
    then have "wf_tr ?tr" using e c(2) assms(2) c by (simp add: wf_tr_def utf8_substr length_substr)
    then have v: "validate ?tr d = None" using validate_iff [OF assms(1)] fit by blast
    obtain d1 ap where a: "apply_validated ?tr True (break_undo_group d) = (d1, ap)" by fastforce
    note A = applied_inv [OF doc_inv_break [THEN iffD2, OF assms(1)] _ a]
    have "reload_clean txt rv d = (Inr (Some ap), set_disk_revision rv (d1\<lparr>d_saved_state := Some (d_state d1)\<rparr>))"
      using False v a c(1,2) e
      by (simp add: reload_clean_def transaction_new_single with_selection_after_def sel_def Let_def)
    then show thesis using changed [of ap _ d1] A fit ed False by simp
  qed
qed

end
