(* ===== verification/Editor_Editing.thy ===== *)
theory Editor_Editing
  imports Editor_Document "HOL-Library.Code_Target_Nat"
begin

text \<open>
  Editing sessions over the document of theory \<open>Editor_Document\<close>: every interleaving of its
  operations, with the snapshots that were handed out and the text the disk holds. Here are the
  document's main results: the dirty flag tells the truth, undo and redo are exact, a transaction
  is applied completely or not at all, carets stay on characters.
\<close>

section \<open>Editing sessions\<close>

text \<open>
  Any interleaving of edits, undo and redo, saves that are confirmed late, and reloads. Beside the
  document the session keeps the snapshots handed out for writing and, as the specification's own
  variable, the text the disk is known to hold: what was loaded, then what the last confirmed
  snapshot or reload held.
\<close>

datatype doc_op =
    Op_Apply transaction
  | Op_Around string string origin
  | Op_Delete "text_buf \<Rightarrow> nat \<Rightarrow> nat" origin
  | Op_Undo
  | Op_Redo
  | Op_ReplaceAll "nat + byte_range list" string
  | Op_SetSelection selection
  | Op_GotoLine nat
  | Op_ReadOnly bool
  | Op_Break
  | Op_Snapshot
  | Op_Confirm nat string
  | Op_Reload string string
  | Op_ReloadClean string string
  | Op_ContinueFrom nat

type_synonym 'st editing = "'st document \<times> snapshot list \<times> string"

fun doc_step :: "'st editing \<Rightarrow> doc_op \<Rightarrow> 'st editing" where
  "doc_step (d, sns, disk) (Op_Apply tr) = (snd (doc_apply tr d), sns, disk)"
| "doc_step (d, sns, disk) (Op_Around before after org) = (snd (insert_around before after org d), sns, disk)"
| "doc_step (d, sns, disk) (Op_Delete into org) = (snd (doc_delete into org d), sns, disk)"
| "doc_step (d, sns, disk) Op_Undo = ((case doc_undo d of None \<Rightarrow> d | Some (d', _) \<Rightarrow> d'), sns, disk)"
| "doc_step (d, sns, disk) Op_Redo = ((case doc_redo d of None \<Rightarrow> d | Some (d', _) \<Rightarrow> d'), sns, disk)"
| "doc_step (d, sns, disk) (Op_ReplaceAll rs txt) = (snd (replace_all rs txt d), sns, disk)"
| "doc_step (d, sns, disk) (Op_SetSelection s) = (set_selection s d, sns, disk)"
| "doc_step (d, sns, disk) (Op_GotoLine n) = (goto_line n d, sns, disk)"
| "doc_step (d, sns, disk) (Op_ReadOnly b) = (set_read_only b d, sns, disk)"
| "doc_step (d, sns, disk) Op_Break = (break_undo_group d, sns, disk)"
| "doc_step (d, sns, disk) Op_Snapshot = (d, sns @ [doc_snapshot d], disk)"
| "doc_step (d, sns, disk) (Op_Confirm i rv) =
    (if i < length sns then (confirm_save (sns ! i) rv d, sns, sn_text (sns ! i)) else (d, sns, disk))"
| "doc_step (d, sns, disk) (Op_Reload body rv) =
    (case doc_reload body rv d of (Inl _, d') \<Rightarrow> (d', sns, disk) | (Inr _, d') \<Rightarrow> (d', sns, body))"
| "doc_step (d, sns, disk) (Op_ReloadClean body rv) =
    (case reload_clean body rv d of (Inl _, d') \<Rightarrow> (d', sns, disk) | (Inr _, d') \<Rightarrow> (d', sns, body))"
| "doc_step (d, sns, disk) (Op_ContinueFrom v) = (continue_from v d, sns, disk)"

text \<open>What a Rust caller cannot violate: strings are UTF-8 and in memory, ranges are normalized.\<close>

fun op_wf :: "doc_op \<Rightarrow> bool" where
  "op_wf (Op_Apply tr) = wf_tr tr"
| "op_wf (Op_Around before after _) =
    (utf8_valid before \<and> utf8_valid after \<and> length before + length after < 2 ^ 50)"
| "op_wf (Op_ReplaceAll (Inr rs) txt) = (utf8_valid txt \<and> list_all (\<lambda>r. r_start r \<le> r_end r) rs)"
| "op_wf (Op_Reload body _) = (utf8_valid body \<and> length body < 2 ^ 50)"
| "op_wf (Op_ReloadClean body _) = utf8_valid body"
| "op_wf _ = True"

definition editing_ok :: "'st editing \<Rightarrow> bool" where
  "editing_ok ed \<longleftrightarrow> (case ed of (d, sns, disk) \<Rightarrow>
    \<exists>\<sigma>. doc_inv \<sigma> d \<and> (\<forall>sn \<in> set sns. sn_state sn < d_next_state d \<and> \<sigma> (sn_state sn) = sn_text sn)
      \<and> (\<exists>k. d_saved_state d = Some k \<and> \<sigma> k = disk))"

text \<open>The two shapes a step has: nothing but unlooked-at fields changes, or one new content state.\<close>

lemma editing_ok_same:
  assumes "editing_ok (d, sns, disk)" "d_text d' = d_text d" "sel_ok (d_selection d')"
    "d_history d' = d_history d \<or> d_history d' = history_seal (d_history d)"
    "d_state d' = d_state d" "d_next_state d' = d_next_state d" "d_saved_state d' = d_saved_state d"
  shows "editing_ok (d', sns, disk)"
proof -
  obtain \<sigma> where s: "doc_inv \<sigma> d" "\<forall>sn \<in> set sns. sn_state sn < d_next_state d \<and> \<sigma> (sn_state sn) = sn_text sn"
      "\<exists>k. d_saved_state d = Some k \<and> \<sigma> k = disk"
    using assms(1) by (auto simp: editing_ok_def)
  have sv: "\<And>k. d_saved_state d' = Some k \<Longrightarrow> k < d_next_state d" using s(1) assms(7) by (auto simp: doc_inv_def)
  have "doc_inv \<sigma> d'"
  proof (cases "d_history d' = d_history d")
    case True
    then show ?thesis by (intro doc_inv_cong [OF s(1)]) (use assms sv in auto)
  next
    case False
    have "doc_inv \<sigma> (break_undo_group d)" using s(1) by (simp add: doc_inv_break)
    then show ?thesis
      by (rule doc_inv_cong) (use assms sv False in \<open>auto simp: break_undo_group_def\<close>)
  qed
  then show ?thesis using s assms unfolding editing_ok_def by auto
qed

lemma editing_ok_new:
  assumes inv: "doc_inv \<sigma> d" "\<forall>sn \<in> set sns. sn_state sn < d_next_state d \<and> \<sigma> (sn_state sn) = sn_text sn"
    "\<exists>k. d_saved_state d = Some k \<and> \<sigma> k = disk"
    and d': "doc_inv (\<sigma>(d_next_state d := N)) d'" "d_next_state d' = d_next_state d + 1" "d_saved_state d' = d_saved_state d"
  shows "editing_ok (d', sns, disk)"
proof -
  obtain k where k: "d_saved_state d = Some k" "\<sigma> k = disk" using inv(3) by blast
  then have "k < d_next_state d" using inv(1) by (auto simp: doc_inv_def)
  then show ?thesis using inv(2) d' k unfolding editing_ok_def by (auto intro!: exI [of _ "\<sigma>(d_next_state d := N)"])
qed

lemma editing_okE:
  assumes "editing_ok (d, sns, disk)"
  obtains \<sigma> where "doc_inv \<sigma> d" "\<forall>sn \<in> set sns. sn_state sn < d_next_state d \<and> \<sigma> (sn_state sn) = sn_text sn"
    "\<exists>k. d_saved_state d = Some k \<and> \<sigma> k = disk"
  using assms by (auto simp: editing_ok_def)

lemma editing_ok_apply:
  assumes "editing_ok (d, sns, disk)" "wf_tr tr"
  shows "editing_ok (snd (doc_apply tr d), sns, disk)"
proof (rule editing_okE [OF assms(1)])
  fix \<sigma>
  assume s: "doc_inv \<sigma> d" "\<forall>sn \<in> set sns. sn_state sn < d_next_state d \<and> \<sigma> (sn_state sn) = sn_text sn"
    "\<exists>k. d_saved_state d = Some k \<and> \<sigma> k = disk"
  show ?thesis
  proof (cases rule: doc_apply_cases [OF s(1) assms(2)])
    case (1 err)
    then show ?thesis using assms(1) by simp
  next
    case (2 d' ap)
    note A = applied_inv [OF s(1) 2(3,4)]
    show ?thesis using editing_ok_new [OF s A(1) A(7) A(3)] 2(1) by simp
  qed
qed

lemma around_loop_edits:
  "around_loop ins n sh xs = (es, ks) \<Longrightarrow> es = map (\<lambda>c. edit_replace (cursor_range c) ins) xs"
  by (induction xs arbitrary: sh es ks) (auto simp: Let_def split: prod.splits)

lemma editing_ok_around:
  assumes "editing_ok (d, sns, disk)" "utf8_valid before" "utf8_valid after" "length before + length after < 2 ^ 50"
  shows "editing_ok (snd (insert_around before after o' d), sns, disk)"
proof -
  let ?xs = "sel_cursors (d_selection d)"
  obtain es carets where l: "around_loop (before @ after) (length before) 0 ?xs = (es, carets)" by fastforce
  then have es: "es = map (\<lambda>c. edit_replace (cursor_range c) (before @ after)) ?xs"
    by (rule around_loop_edits)
  have "sel_ok (d_selection d)" using assms(1) by (auto simp: editing_ok_def doc_inv_def)
  then have "length ?xs \<le> 64" by (simp add: sel_ok_def MAX_CURSORS_def)
  then have "length ?xs * (length before + length after) \<le> 64 * 2 ^ 50"
    using assms(4) by (intro mult_le_mono) simp_all
  then have sum: "sum_list (map (\<lambda>e. length (e_insert e)) es) < 2 ^ 62"
    by (simp add: es edit_replace_def comp_def sum_list_triv)
  have ok: "e_start e \<le> e_end e \<and> utf8_valid (e_insert e)" if "e \<in> set es" for e
    using that assms(2,3) by (auto simp: es edit_replace_def utf8_valid_append)
  show ?thesis
  proof (cases "transaction_new es o' (d_selection d)")
    case (Inl err)
    then show ?thesis using assms(1) by (simp add: insert_around_def l Let_def)
  next
    case (Inr tr)
    then show ?thesis using editing_ok_apply [OF assms(1) wf_tr_new(1) [OF Inr ok sum]]
      by (simp add: insert_around_def l Let_def)
  qed
qed

lemma delete_loop_edits:
  "delete_loop into t sh xs = (es, ks) \<Longrightarrow> e \<in> set es \<Longrightarrow> e_start e \<le> e_end e \<and> e_insert e = []"
proof (induction xs arbitrary: sh es ks)
  case (Cons c xs)
  let ?r = "if cursor_is_empty c then range_new (c_head c) (into t (c_head c)) else cursor_range c"
  let ?sh = "if range_is_empty ?r then sh else sh - int (range_len ?r)"
  obtain es' ks' where l: "delete_loop into t ?sh xs = (es', ks')" by fastforce
  have "es = (if range_is_empty ?r then es' else edit_delete ?r # es')"
    using Cons.prems(1) l by (simp add: Let_def)
  then have "e \<in> set es' \<or> e = edit_delete ?r" using Cons.prems(2) by (auto split: if_splits)
  then show ?case using Cons.IH [OF l] by (auto simp: edit_delete_def)
qed simp

lemma editing_ok_delete:
  assumes "editing_ok (d, sns, disk)"
  shows "editing_ok (snd (doc_delete into o' d), sns, disk)"
proof -
  obtain es carets where l: "delete_loop into (d_text d) 0 (sel_cursors (d_selection d)) = (es, carets)" by fastforce
  have del: "e_start e \<le> e_end e \<and> e_insert e = []" if "e \<in> set es" for e
    using delete_loop_edits [OF l that] .
  then have ok: "e_start e \<le> e_end e \<and> utf8_valid (e_insert e)" if "e \<in> set es" for e using that by simp
  have z: "sum_list (map (\<lambda>e. length (e_insert e)) es) = 0" using del by (simp add: sum_list_eq_0_iff)
  have sum: "sum_list (map (\<lambda>e. length (e_insert e)) es) < 2 ^ 62" unfolding z by simp
  show ?thesis
  proof (cases "d_read_only d \<or> es = []")
    case True
    then show ?thesis using assms by (auto simp: doc_delete_def l)
  next
    case False
    show ?thesis
    proof (cases "transaction_new es o' (d_selection d)")
      case (Inl err)
      then show ?thesis using assms False by (simp add: doc_delete_def l Let_def)
    next
      case (Inr tr)
      let ?tr = "with_selection_after tr (selection_many carets (sel_primary (d_selection d)))"
      have "snd (doc_delete into o' d) = snd (doc_apply ?tr d)"
        using False Inr by (simp add: doc_delete_def l Let_def split: prod.splits sum.splits)
      then show ?thesis using editing_ok_apply [OF assms wf_tr_new(1) [OF Inr ok sum]] by simp
    qed
  qed
qed

lemma editing_ok_break: "editing_ok (d, sns, disk) \<Longrightarrow> editing_ok (break_undo_group d, sns, disk)"
proof -
  assume a: "editing_ok (d, sns, disk)"
  then have "sel_ok (d_selection d)" by (auto simp: editing_ok_def doc_inv_def)
  then show ?thesis by (intro editing_ok_same [OF a]) (simp_all add: break_undo_group_def)
qed

lemma editing_ok_replace_all:
  assumes "editing_ok (d, sns, disk)" "utf8_valid rep" "list_all (\<lambda>r. r_start r \<le> r_end r) rs"
  shows "editing_ok (snd (replace_all (Inr rs) rep d), sns, disk)"
proof (cases "d_read_only d \<or> rs = []")
  case True
  then show ?thesis using assms(1) by (auto simp: replace_all_def)
next
  case False
  let ?ins = "length rep * length rs"
  let ?s0 = "text_len (d_text d) - sum_list (map (\<lambda>r. r_end r - r_start r) rs) + ?ins"
  let ?size = "if ?ins > usize_max \<or> ?s0 > usize_max then usize_max else ?s0"
  let ?es = "map (\<lambda>r. edit_replace r rep) rs"
  show ?thesis
  proof (cases "?size > MAX_DOCUMENT_BYTES")
    case True
    then show ?thesis using assms(1) False by (simp add: replace_all_def Let_def)
  next
    case small: False
    have ok: "e_start e \<le> e_end e \<and> utf8_valid (e_insert e)" if "e \<in> set ?es" for e
      using that assms(2,3) by (auto simp: edit_replace_def list_all_iff)
    have "usize_max > MAX_DOCUMENT_BYTES" by (simp add: usize_max_def MAX_DOCUMENT_BYTES_def)
    then have "?s0 \<le> MAX_DOCUMENT_BYTES" using small by (auto split: if_splits)
    then have sum: "sum_list (map (\<lambda>e. length (e_insert e)) ?es) < 2 ^ 62"
      by (simp add: edit_replace_def comp_def sum_list_triv MAX_DOCUMENT_BYTES_def mult.commute)
    show ?thesis
    proof (cases "transaction_new ?es Or_ReplaceAll (d_selection d)")
      case (Inl err)
      then show ?thesis using assms(1) False small by (simp add: replace_all_def Let_def)
    next
      case (Inr tr)
      have a: "editing_ok (snd (doc_apply tr (break_undo_group d)), sns, disk)"
        by (rule editing_ok_apply [OF editing_ok_break [OF assms(1)] wf_tr_new(2) [OF Inr ok sum]])
      have "snd (replace_all (Inr rs) rep d) \<in> {snd (doc_apply tr (break_undo_group d)),
          break_undo_group (snd (doc_apply tr (break_undo_group d)))}"
        using False small Inr by (auto simp: replace_all_def Let_def split: prod.splits sum.splits)
      then show ?thesis using a editing_ok_break [OF a] by auto
    qed
  qed
qed

lemma editing_ok_undo:
  assumes "editing_ok (d, sns, disk)" "doc_undo d = Some (d', ap)"
  shows "editing_ok (d', sns, disk)"
proof (rule editing_okE [OF assms(1)])
  fix \<sigma>
  assume s: "doc_inv \<sigma> d" "\<forall>sn \<in> set sns. sn_state sn < d_next_state d \<and> \<sigma> (sn_state sn) = sn_text sn"
    "\<exists>k. d_saved_state d = Some k \<and> \<sigma> k = disk"
  show ?thesis by (rule doc_undo_inv [OF s(1) assms(2)]) (rule editing_ok_new [OF s])
qed

lemma editing_ok_redo:
  assumes "editing_ok (d, sns, disk)" "doc_redo d = Some (d', ap)"
  shows "editing_ok (d', sns, disk)"
proof (rule editing_okE [OF assms(1)])
  fix \<sigma>
  assume s: "doc_inv \<sigma> d" "\<forall>sn \<in> set sns. sn_state sn < d_next_state d \<and> \<sigma> (sn_state sn) = sn_text sn"
    "\<exists>k. d_saved_state d = Some k \<and> \<sigma> k = disk"
  show ?thesis by (rule doc_redo_inv [OF s(1) assms(2)]) (rule editing_ok_new [OF s])
qed

lemma editing_ok_sel: "editing_ok (d, sns, disk) \<Longrightarrow> sel_ok (d_selection d)"
  by (auto simp: editing_ok_def doc_inv_def)

lemma editing_ok_set_selection: "editing_ok (d, sns, disk) \<Longrightarrow> editing_ok (set_selection s d, sns, disk)"
  by (erule editing_ok_same) (auto simp: set_selection_def Let_def selection_mapped_def sel_ok_many)

lemma editing_ok_snapshot:
  assumes "editing_ok (d, sns, disk)"
  shows "editing_ok (d, sns @ [doc_snapshot d], disk)"
proof (rule editing_okE [OF assms])
  fix \<sigma>
  assume s: "doc_inv \<sigma> d" "\<forall>sn \<in> set sns. sn_state sn < d_next_state d \<and> \<sigma> (sn_state sn) = sn_text sn"
    "\<exists>k. d_saved_state d = Some k \<and> \<sigma> k = disk"
  show ?thesis unfolding editing_ok_def prod.case
    by (rule exI [of _ \<sigma>]) (use s doc_invD [OF s(1)] in \<open>simp add: doc_snapshot_def\<close>)
qed

lemma editing_ok_confirm:
  assumes "editing_ok (d, sns, disk)" "sn \<in> set sns"
  shows "editing_ok (confirm_save sn rv d, sns, sn_text sn)"
proof (rule editing_okE [OF assms(1)])
  fix \<sigma>
  assume s: "doc_inv \<sigma> d" "\<forall>sn \<in> set sns. sn_state sn < d_next_state d \<and> \<sigma> (sn_state sn) = sn_text sn"
    "\<exists>k. d_saved_state d = Some k \<and> \<sigma> k = disk"
  have "doc_inv \<sigma> (confirm_save sn rv d)"
    by (rule doc_inv_cong [OF s(1)]) (use s(2) assms(2) doc_invD [OF s(1)] in \<open>auto simp: confirm_save_def\<close>)
  then show ?thesis using s(2) assms(2) unfolding editing_ok_def prod.case
    by (intro exI [of _ \<sigma>]) (simp add: confirm_save_def)
qed

text \<open>A text that became the disk's text.\<close>

lemma editing_ok_saved:
  assumes "editing_ok (d, sns, disk)" "d_text d' = d_text d" "d_selection d' = d_selection d"
    "d_history d' = d_history d" "d_state d' = d_state d" "d_next_state d' = d_next_state d"
    "d_saved_state d' = Some (d_state d)"
  shows "editing_ok (d', sns, d_str d)"
proof (rule editing_okE [OF assms(1)])
  fix \<sigma>
  assume s: "doc_inv \<sigma> d" "\<forall>sn \<in> set sns. sn_state sn < d_next_state d \<and> \<sigma> (sn_state sn) = sn_text sn"
    "\<exists>k. d_saved_state d = Some k \<and> \<sigma> k = disk"
  note D = doc_invD [OF s(1)]
  have "doc_inv \<sigma> d'" by (rule doc_inv_cong [OF s(1)]) (use assms D in auto)
  then show ?thesis using s(2) D(5) assms unfolding editing_ok_def prod.case
    by (intro exI [of _ \<sigma>]) simp
qed

lemma editing_ok_reload_clean:
  assumes "editing_ok (d, sns, disk)" "utf8_valid body"
  shows "editing_ok (doc_step (d, sns, disk) (Op_ReloadClean body rv))"
proof (rule editing_okE [OF assms(1)])
  fix \<sigma>
  assume s: "doc_inv \<sigma> d" "\<forall>sn \<in> set sns. sn_state sn < d_next_state d \<and> \<sigma> (sn_state sn) = sn_text sn"
    "\<exists>k. d_saved_state d = Some k \<and> \<sigma> k = disk"
  show ?thesis
  proof (cases rule: reload_clean_cases [OF s(1) assms(2), of rv])
    case 1
    then show ?thesis using assms(1) by simp
  next
    case 2
    then show ?thesis using assms(1) by simp
  next
    case 3
    have "editing_ok (set_disk_revision rv d, sns, d_str d)"
      using 3(1) by (intro editing_ok_saved [OF assms(1)]) (simp_all add: set_disk_revision_def is_dirty_def)
    then show ?thesis using 3 by simp
  next
    case (4 d' ap d1)
    have "editing_ok (d1\<lparr>d_saved_state := d_saved_state d\<rparr>, sns, disk)"
    proof (rule editing_ok_new [OF s])
      show "doc_inv (\<sigma>(d_next_state d := body)) (d1\<lparr>d_saved_state := d_saved_state d\<rparr>)"
        by (rule doc_inv_cong [OF 4(6)]) (use 4 s(1) doc_invD [OF 4(6)] in \<open>auto simp: doc_inv_def\<close>)
    qed (use 4 in simp_all)
    from editing_ok_saved [OF this, of d'] show ?thesis using 4 by (simp add: set_disk_revision_def)
  qed
qed

lemma editing_ok_reload:
  assumes "editing_ok (d, sns, disk)" "utf8_valid body" "length body < 2 ^ 50"
  shows "editing_ok (doc_step (d, sns, disk) (Op_Reload body rv))"
proof -
  let ?d1 = "d\<lparr>d_read_only := False\<rparr>"
  let ?e = "edit_replace (range_new 0 (text_len (d_text d))) body"
  let ?base = "\<lparr>tr_edits = [?e], tr_origin = Or_Reload, tr_selection_before = d_selection d, tr_selection_after = None\<rparr>"
  let ?tr = "with_selection_after ?base (selection_caret (min (selection_head (d_selection d)) (length body)))"
  have n: "transaction_new [?e] Or_Reload (d_selection d) = Inr ?base"
    by (rule transaction_new_single) (simp add: edit_replace_def)
  have w: "wf_tr ?tr" by (rule wf_tr_new(1) [OF n]) (use assms(2,3) in \<open>auto simp: edit_replace_def\<close>)
  have "editing_ok (?d1, sns, disk)" by (rule editing_ok_same [OF assms(1)]) (use editing_ok_sel [OF assms(1)] in simp_all)
  then have b: "editing_ok (break_undo_group ?d1, sns, disk)" by (rule editing_ok_break)
  obtain r d2 where a: "doc_apply ?tr (break_undo_group ?d1) = (r, d2)" by fastforce
  have ok: "editing_ok (d2, sns, disk)" using editing_ok_apply [OF b w] a by simp
  show ?thesis
  proof (cases r)
    case (Inl err)
    have "editing_ok (d2\<lparr>d_read_only := d_read_only d\<rparr>, sns, disk)"
      by (rule editing_ok_same [OF ok]) (use editing_ok_sel [OF ok] in simp_all)
    then show ?thesis using a Inl by (simp add: doc_reload_def n Let_def)
  next
    case (Inr ap)
    obtain \<sigma> where s: "doc_inv \<sigma> (break_undo_group ?d1)" using b by (auto elim: editing_okE)
    have "d_str d2 = body"
    proof (cases rule: doc_apply_cases [OF s w])
      case (2 d' ap')
      have "d_str d' = edited 0 (d_str d) [?e]" using applied_inv(2) [OF s 2(3,4)] by (simp add: with_selection_after_def)
      then show ?thesis using a 2(1) Inr unfolding edited_single by (simp add: edit_replace_def text_len_def)
    qed (use a Inr in simp)
    moreover have "editing_ok (d2\<lparr>d_read_only := d_read_only d, d_saved_state := Some (d_state d2),
        d_disk_revision := Some rv\<rparr>, sns, d_str d2)"
      by (rule editing_ok_saved [OF ok]) simp_all
    ultimately show ?thesis using a Inr by (simp add: doc_reload_def n Let_def)
  qed
qed

lemma editing_ok_step: "editing_ok ed \<Longrightarrow> op_wf op \<Longrightarrow> editing_ok (doc_step ed op)"
proof (cases ed)
  case (fields d sns disk)
  assume "editing_ok ed" and w: "op_wf op"
  then have ok: "editing_ok (d, sns, disk)" using fields by simp
  note sel = editing_ok_sel [OF ok]
  show ?thesis
  proof (cases op)
    case (Op_ReplaceAll rs rep)
    then show ?thesis using ok w fields editing_ok_replace_all [OF ok]
      by (cases rs) (auto simp: replace_all_def)
  next
    case Op_Undo
    then show ?thesis using ok fields editing_ok_undo [OF ok] by (auto split: option.splits)
  next
    case Op_Redo
    then show ?thesis using ok fields editing_ok_redo [OF ok] by (auto split: option.splits)
  next
    case (Op_ReadOnly b)
    have "editing_ok (set_read_only b d, sns, disk)"
      by (rule editing_ok_same [OF ok]) (use sel in \<open>simp_all add: set_read_only_def\<close>)
    then show ?thesis using Op_ReadOnly fields by simp
  next
    case (Op_ContinueFrom v)
    have "editing_ok (continue_from v d, sns, disk)"
      by (rule editing_ok_same [OF ok]) (use sel in \<open>simp_all add: continue_from_def\<close>)
    then show ?thesis using Op_ContinueFrom fields by simp
  next
    case (Op_Reload body rv)
    then show ?thesis using editing_ok_reload [OF ok] w fields by simp
  next
    case (Op_ReloadClean body rv)
    then show ?thesis using editing_ok_reload_clean [OF ok] w fields by simp
  next
    case (Op_Confirm i rv)
    then show ?thesis using ok fields editing_ok_confirm [OF ok] by simp
  qed (use ok w fields in \<open>simp_all add: editing_ok_apply editing_ok_around editing_ok_delete
      editing_ok_set_selection goto_line_def editing_ok_break editing_ok_snapshot Let_def\<close>)
qed

lemma editing_ok_steps: "editing_ok ed \<Longrightarrow> list_all op_wf ops \<Longrightarrow> editing_ok (foldl doc_step ed ops)"
  by (induction ops arbitrary: ed) (auto simp: editing_ok_step)

lemma editing_ok_start:
  "utf8_valid body \<Longrightarrow> length body \<le> MAX_DOCUMENT_BYTES \<Longrightarrow> editing_ok (from_string st body ro, [], body)"
  unfolding editing_ok_def prod.case
  by (rule exI [of _ "\<lambda>_. body"]) (auto simp: doc_inv_from_string, simp add: from_string_def)

section \<open>Carets\<close>

definition carets_at :: "(nat \<Rightarrow> bool) \<Rightarrow> cursor list \<Rightarrow> bool" where
  "carets_at P xs \<longleftrightarrow> (\<forall>c \<in> set xs. P (c_anchor c) \<and> P (c_head c))"

lemma carets_at_bounds: "P (c_anchor c) \<Longrightarrow> P (c_head c) \<Longrightarrow> P (c_lo c) \<and> P (c_hi c)"
  by (auto simp: cursor_range_def min_def max_def)

lemma merge_into_carets:
  assumes "P (c_anchor a)" "P (c_head a)" "P (c_anchor b)" "P (c_head b)"
  shows "P (c_anchor (merge_into a b)) \<and> P (c_head (merge_into a b))"
proof -
  have "P (c_lo a)" "P (c_hi a)" "P (c_lo b)" "P (c_hi b)" using carets_at_bounds [of P] assms by auto
  then show ?thesis by (auto simp: merge_into_def Let_def cursor_new_def min_def max_def)
qed

lemma carets_at_simps [simp]:
  "carets_at P []" "carets_at P (c # xs) = (P (c_anchor c) \<and> P (c_head c) \<and> carets_at P xs)"
  "carets_at P (xs @ ys) = (carets_at P xs \<and> carets_at P ys)"
  by (auto simp: carets_at_def)

lemma merge_step_carets: "carets_at P xs \<Longrightarrow> P (c_anchor c) \<Longrightarrow> P (c_head c) \<Longrightarrow> carets_at P (merge_step xs c)"
  by (cases xs rule: rev_cases) (simp_all add: merge_step_def merge_into_carets)

lemma foldl_merge_carets: "carets_at P xs \<Longrightarrow> carets_at P ys \<Longrightarrow> carets_at P (foldl merge_step xs ys)"
  by (induction ys arbitrary: xs) (simp_all add: merge_step_carets)

lemma cap_cursors_subset: "set (cap_cursors k xs) \<subseteq> set xs"
  by (auto simp: cap_cursors_def Let_def dest: in_set_takeD in_set_dropD)

lemma selection_many_carets:
  assumes "carets_at P xs" and "P 0"
  shows "carets_at P (sel_cursors (selection_many xs p))"
proof (cases "xs = []")
  case True
  then show ?thesis using assms(2)
    by (simp add: selection_many_def selection_default_def selection_one_def carets_at_def)
next
  case False
  show ?thesis
  proof (rule selection_many_unfold [OF False, of p])
    fix keep merged
    assume m: "merged = foldl merge_step [] (sort_key (\<lambda>c. (c_lo c, c_hi c)) xs)"
      and s: "sel_cursors (selection_many xs p) = cap_cursors keep merged"
    have "carets_at P merged" unfolding m
      by (rule foldl_merge_carets) (use assms(1) in \<open>simp_all add: carets_at_def\<close>)
    then show ?thesis using cap_cursors_subset [of keep merged] s by (auto simp: carets_at_def)
  qed
qed

definition carets_ok :: "'st document \<Rightarrow> bool" where
  "carets_ok d \<longleftrightarrow> carets_at (is_char_boundary (d_str d)) (sel_cursors (d_selection d))"

lemma carets_ok_mapped:
  assumes "\<And>c. is_char_boundary s (c_anchor (f c)) \<and> is_char_boundary s (c_head (f c))"
  shows "carets_at (is_char_boundary s) (sel_cursors (selection_mapped sel f))"
  unfolding selection_mapped_def
  by (rule selection_many_carets) (use assms in \<open>auto simp: carets_at_def\<close>)

lemma carets_ok_clamped:
  "carets_at (is_char_boundary (tx_bytes t)) (sel_cursors (selection_mapped sel (\<lambda>c. cursor_new (clamp_offset t (c_anchor c)) (clamp_offset t (c_head c)))))"
  "carets_at (is_char_boundary (tx_bytes t)) (sel_cursors (selection_mapped sel (clamp_cursor t)))"
  by (rule carets_ok_mapped, simp add: cursor_new_def clamp_cursor_def clamp_offset_boundary)+

lemma carets_ok_applied:
  assumes "apply_validated tr r d = (d', ap)" shows "carets_ok d'"
proof -
  obtain t resume ld where l: "apply_loop text_slice text_replace (tr_edits tr) 0 (selection_head (d_selection d)) 0 (d_text d) = (t, resume, ld)"
    by (cases "apply_loop text_slice text_replace (tr_edits tr) 0 (selection_head (d_selection d)) 0 (d_text d)") auto
  then have "d_text d' = t \<and> (\<exists>sel. d_selection d' = selection_mapped sel (\<lambda>c. cursor_new (clamp_offset t (c_anchor c)) (clamp_offset t (c_head c))))"
    using assms by (auto simp: apply_validated_def Let_def)
  then show ?thesis unfolding carets_ok_def using carets_ok_clamped(1) by auto
qed

lemma carets_ok_set_selection: "carets_ok (set_selection s d)"
  using carets_ok_clamped(2) [of "d_text d"] by (simp add: set_selection_def Let_def carets_ok_def)

lemma carets_ok_fields:
  "d_text d' = d_text d \<Longrightarrow> d_selection d' = d_selection d \<Longrightarrow> carets_ok d \<Longrightarrow> carets_ok d'"
  by (simp add: carets_ok_def)

lemma carets_ok_break [simp]: "carets_ok (break_undo_group d) = carets_ok d"
  by (simp add: carets_ok_def)

lemma carets_ok_doc_apply: "carets_ok d \<Longrightarrow> carets_ok (snd (doc_apply tr d))"
  by (auto simp: doc_apply_def carets_ok_applied split: option.splits prod.splits)

lemma carets_ok_undo: "doc_undo d = Some (d', ap) \<Longrightarrow> carets_ok d'"
  by (auto simp: doc_undo_def split: if_splits option.splits prod.splits dest: carets_ok_applied intro: carets_ok_fields [rotated 2])

lemma carets_ok_redo: "doc_redo d = Some (d', ap) \<Longrightarrow> carets_ok d'"
  by (auto simp: doc_redo_def split: if_splits option.splits prod.splits dest: carets_ok_applied intro: carets_ok_fields [rotated 2])

lemma carets_ok_delete: "carets_ok d \<Longrightarrow> carets_ok (snd (doc_delete into o' d))"
  using carets_ok_doc_apply [of d]
  by (auto simp: doc_delete_def Let_def split: prod.splits sum.splits, (metis snd_conv)+)

lemma carets_ok_around: "carets_ok d \<Longrightarrow> carets_ok (snd (insert_around before after o' d))"
  by (simp add: insert_around_def Let_def carets_ok_doc_apply split: prod.splits sum.splits)

lemma carets_ok_replace_all: "carets_ok d \<Longrightarrow> carets_ok (snd (replace_all rs rep d))"
proof -
  assume ok: "carets_ok d"
  have a: "carets_ok (snd (doc_apply tr (break_undo_group d)))" for tr
    by (rule carets_ok_doc_apply) (simp add: ok)
  then have "carets_ok d'" if "doc_apply tr (break_undo_group d) = (r, d')" for tr r d'
    using that by (metis snd_conv)
  then show ?thesis using ok by (auto simp: replace_all_def Let_def split: sum.splits prod.splits)
qed

lemma carets_ok_reload: "carets_ok d \<Longrightarrow> carets_ok (snd (doc_reload body rv d))"
proof -
  assume ok: "carets_ok d"
  then have ro: "carets_ok (d\<lparr>d_read_only := False\<rparr>)" by (rule carets_ok_fields [rotated 2]) simp_all
  have "carets_ok (snd (doc_apply tr (break_undo_group (d\<lparr>d_read_only := False\<rparr>))))" for tr
    by (rule carets_ok_doc_apply) (simp add: ro)
  then have "carets_ok d'" if "doc_apply tr (break_undo_group (d\<lparr>d_read_only := False\<rparr>)) = (r, d')" for tr r d'
    using that by (metis snd_conv)
  then show ?thesis using ro
    by (auto simp: doc_reload_def Let_def carets_ok_def split: sum.splits prod.splits)
qed

lemma carets_ok_reload_clean:
  assumes "carets_ok d" shows "carets_ok (snd (reload_clean body rv d))"
proof -
  have disk: "carets_ok (set_disk_revision rv d') = carets_ok d'" for d' :: "'a document"
    by (simp add: carets_ok_def set_disk_revision_def)
  have "carets_ok (d'\<lparr>d_saved_state := x\<rparr>)" if "apply_validated tr True (break_undo_group d) = (d', ap)" for tr d' ap x
    using carets_ok_applied [OF that] by (rule carets_ok_fields [rotated 2]) simp_all
  then show ?thesis using assms
    by (auto simp: reload_clean_def Let_def disk split: prod.splits sum.splits option.splits)
qed

lemma carets_ok_step: "carets_ok (fst ed) \<Longrightarrow> carets_ok (fst (doc_step ed op))"
proof (cases ed)
  case (fields d sns disk)
  assume "carets_ok (fst ed)"
  then have ok: "carets_ok d" using fields by simp
  show ?thesis
  proof (cases op)
    case Op_Undo
    then show ?thesis using ok fields by (auto split: option.splits dest: carets_ok_undo)
  next
    case Op_Redo
    then show ?thesis using ok fields by (auto split: option.splits dest: carets_ok_redo)
  next
    case (Op_Reload body rv)
    then show ?thesis using fields carets_ok_reload [OF ok, of body rv]
      by (auto split: prod.splits sum.splits)
  next
    case (Op_ReloadClean body rv)
    then show ?thesis using fields carets_ok_reload_clean [OF ok, of body rv]
      by (auto split: prod.splits sum.splits)
  next
    case (Op_ReadOnly b)
    show ?thesis using carets_ok_fields [OF _ _ ok, of "set_read_only b d"] fields Op_ReadOnly
      by (simp add: set_read_only_def)
  next
    case (Op_ContinueFrom v)
    show ?thesis using carets_ok_fields [OF _ _ ok, of "continue_from v d"] fields Op_ContinueFrom
      by (simp add: continue_from_def)
  next
    case (Op_Confirm i rv)
    show ?thesis using carets_ok_fields [OF _ _ ok, of "confirm_save (sns ! i) rv d"] ok fields Op_Confirm
      by (simp add: confirm_save_def)
  qed (use ok fields in \<open>simp_all add: carets_ok_doc_apply carets_ok_around carets_ok_delete
      carets_ok_replace_all carets_ok_set_selection goto_line_def Let_def\<close>)
qed

lemma carets_ok_steps: "carets_ok (fst ed) \<Longrightarrow> carets_ok (fst (foldl doc_step ed ops))"
  by (induction ops arbitrary: ed) (simp_all add: carets_ok_step)

section \<open>The editor's promises\<close>

text \<open>A document loaded from \<open>body\<close>, after any operations.\<close>

definition editing_run :: "'st \<Rightarrow> string \<Rightarrow> bool \<Rightarrow> doc_op list \<Rightarrow> 'st editing" where
  "editing_run st body ro ops = foldl doc_step (from_string st body ro, [], body) ops"

lemma editing_run_ok:
  assumes "from_bytes st body ro = Inr d0" "list_all op_wf ops" "editing_run st body ro ops = (d, sns, disk)"
  shows "editing_ok (d, sns, disk)" "carets_ok d"
proof -
  have b: "utf8_valid body" "length body \<le> MAX_DOCUMENT_BYTES"
    using assms(1) by (auto simp: from_bytes_def split: if_splits)
  show "editing_ok (d, sns, disk)"
    using editing_ok_steps [OF editing_ok_start [OF b, of st ro] assms(2)] assms(3) by (simp add: editing_run_def)
  have "carets_ok (from_string st body ro)"
    by (simp add: carets_ok_def from_string_def selection_caret_def selection_one_def cursor_caret_def carets_at_def)
  then show "carets_ok d"
    using carets_ok_steps [of "(from_string st body ro, [], body)" ops] assms(3) by (simp add: editing_run_def)
qed

text \<open>
  C2: After loading a file and any interleaving of edits, undo, redo, snapshots, late save
  confirmations and reloads, a buffer that is not marked dirty holds exactly the text the disk holds.
\<close>

theorem clean_buffer_is_disk:
  assumes "from_bytes st body ro = Inr d0" and "list_all op_wf ops"
    and "editing_run st body ro ops = (d, sns, disk)" and "\<not> is_dirty d"
  shows "d_str d = disk"
proof (rule editing_okE [OF editing_run_ok(1) [OF assms(1-3)]])
  fix \<sigma>
  assume s: "doc_inv \<sigma> d" "\<exists>k. d_saved_state d = Some k \<and> \<sigma> k = disk"
  then show ?thesis using doc_invD(5) [OF s(1)] assms(4) by (auto simp: is_dirty_def)
qed

text \<open>
  C12: In every such session the document stays well formed: its text is valid UTF-8 within the size
  limit and its line index is that of the text, the cursors are sorted, apart and capped and stand on
  character boundaries, and the undo history is within its budget.
\<close>

theorem editing_well_formed:
  assumes "from_bytes st body ro = Inr d0" and "list_all op_wf ops"
    and "editing_run st body ro ops = (d, sns, disk)"
  shows "utf8_valid (d_str d) \<and> length (d_str d) \<le> MAX_DOCUMENT_BYTES
    \<and> d_text d = text_new (d_str d) \<and> sel_ok (d_selection d) \<and> hist_ok (d_history d)
    \<and> list_all (\<lambda>c. is_char_boundary (d_str d) (c_anchor c) \<and> is_char_boundary (d_str d) (c_head c))
           (sel_cursors (d_selection d))"
proof (rule editing_okE [OF editing_run_ok(1) [OF assms]])
  fix \<sigma> assume "doc_inv \<sigma> d"
  note D = doc_invD [OF this]
  have "d_text d = text_new (d_str d)" using D(1) by (simp add: text_new_def text_ok_def)
  then show ?thesis
    using D editing_run_ok(2) [OF assms] by (simp add: carets_ok_def carets_at_def list_all_iff)
qed

lemma doc_undo_Some_iff: "(\<exists>r. doc_undo d = Some r) \<longleftrightarrow> \<not> d_read_only d \<and> hi_undo (d_history d) \<noteq> []"
  by (auto simp: doc_undo_def pop_undo_def Let_def split: option.splits prod.splits list.splits)

lemma doc_redo_Some_iff: "(\<exists>r. doc_redo d = Some r) \<longleftrightarrow> \<not> d_read_only d \<and> hi_redo (d_history d) \<noteq> []"
  by (auto simp: doc_redo_def pop_redo_def Let_def split: option.splits prod.splits list.splits)

text \<open>
  C9: In every editing session an undo can always be redone, and the redo restores the text, the
  content state and with it the dirty flag; only the version keeps growing.
\<close>

theorem undo_redo_exact:
  assumes "from_bytes st body ro = Inr d0" and "list_all op_wf ops"
    and "editing_run st body ro ops = (d, sns, disk)" and "doc_undo d = Some (d1, ap)"
  shows "\<exists>d2 ap'. doc_redo d1 = Some (d2, ap') \<and> d_text d2 = d_text d \<and> d_state d2 = d_state d
    \<and> is_dirty d2 = is_dirty d \<and> d_version d2 = d_version d + 2"
proof (rule editing_okE [OF editing_run_ok(1) [OF assms(1-3)]])
  fix \<sigma> assume inv: "doc_inv \<sigma> d"
  note D = doc_invD [OF inv]
  show ?thesis
  proof (rule doc_undo_inv [OF inv assms(4)])
    fix us and e :: hentry
    let ?\<tau> = "\<sigma>(d_next_state d := \<sigma> (h_state_before e))"
    assume u: "h_state_after e = d_state d" "d_version d1 = d_version d + 1" "d_saved_state d1 = d_saved_state d"
      "d_history d1 = (d_history d)\<lparr>hi_undo := us, hi_redo := hi_redo (d_history d) @ [e], hi_sealed := True\<rparr>"
      "d_read_only d1 = d_read_only d" and inv1: "doc_inv ?\<tau> d1"
    have "\<not> d_read_only d1" using assms(4) doc_undo_Some_iff [of d] u(5) by auto
    then obtain d2 ap' where r: "doc_redo d1 = Some (d2, ap')" using doc_redo_Some_iff [of d1] u(4) by auto
    show ?thesis
    proof (rule doc_redo_inv [OF inv1 r])
      fix rs e'
      assume v: "hi_redo (d_history d1) = rs @ [e']" "d_state d2 = h_state_after e'" "d_str d2 = ?\<tau> (h_state_after e')"
        "d_version d2 = d_version d1 + 1" "d_saved_state d2 = d_saved_state d1"
        and inv2: "doc_inv (?\<tau>(d_next_state d1 := ?\<tau> (h_state_after e'))) d2"
      have e: "e' = e" using v(1) u(4) by simp
      then have "d_str d2 = d_str d" using v(3) u(1) D(4,5) by simp
      then have "d_text d2 = d_text d" using doc_invD(1) [OF inv2] D(1) by (simp add: text_ok_def)
      then show ?thesis using r v e u by (simp add: is_dirty_def)
    qed
  qed
qed

text \<open>
  C10: In every editing session, a transaction applied as an undo step of its own (the group before it
  was closed) can be undone, and the undo restores the text and the content state from before it. (One
  that joins an open group of typing is undone with the group.)
\<close>

theorem apply_undo_exact:
  assumes "from_bytes st body ro = Inr d0" and "list_all op_wf ops" and "wf_tr tr"
    and "editing_run st body ro ops = (d, sns, disk)" and "doc_apply tr (break_undo_group d) = (Inr ap, d1)"
  shows "\<exists>d2 ap'. doc_undo d1 = Some (d2, ap') \<and> d_text d2 = d_text d \<and> d_state d2 = d_state d
    \<and> is_dirty d2 = is_dirty d \<and> d_version d2 = d_version d + 2"
proof (rule editing_okE [OF editing_run_ok(1) [OF assms(1,2,4)]])
  fix \<sigma> assume inv: "doc_inv \<sigma> d"
  note D = doc_invD [OF inv]
  let ?b = "break_undo_group d"
  have invb: "doc_inv \<sigma> ?b" using inv by (simp add: doc_inv_break)
  note B = doc_invD [OF invb]
  have a: "tr_fits tr (d_str ?b)" "apply_validated tr True ?b = (d1, ap)" "\<not> d_read_only d"
    by (cases rule: doc_apply_cases [OF invb assms(3)]; use assms(5) in simp)+
  note A = applied_inv [OF invb a(1,2)]
  have h: "d_history d1 = history_record (inverse_of tr ?b) tr (d_state d) (d_next_state d)
      (resume_of 0 0 (tr_edits tr) (selection_head (d_selection d))) (d_history ?b)"
    by (rule apply_validated_fields [OF B(1) a(1), of True]) (use a(2) in simp)
  obtain us e where e: "hi_undo (d_history d1) = us @ [e]" "h_state_before e = d_state d"
    by (rule history_record_undo [OF B(3), of "inverse_of tr ?b" tr "d_state d" "d_next_state d"
          "resume_of 0 0 (tr_edits tr) (selection_head (d_selection d))"])
      (simp_all add: h, simp add: break_undo_group_def history_seal_def)
  obtain d2 ap' where u: "doc_undo d1 = Some (d2, ap')"
    using doc_undo_Some_iff [of d1] e a(3) A(5) by auto
  show ?thesis
  proof (rule doc_undo_inv [OF A(1) u])
    fix us' e'
    assume v: "hi_undo (d_history d1) = us' @ [e']" "d_state d2 = h_state_before e'"
      "d_str d2 = (\<sigma>(d_next_state ?b := edited 0 (d_str ?b) (tr_edits tr))) (h_state_before e')"
      "d_version d2 = d_version d1 + 1" "d_saved_state d2 = d_saved_state d1"
      and inv2: "doc_inv ((\<sigma>(d_next_state ?b := edited 0 (d_str ?b) (tr_edits tr)))(d_next_state d1 :=
        (\<sigma>(d_next_state ?b := edited 0 (d_str ?b) (tr_edits tr))) (h_state_before e'))) d2"
    have "d_str d2 = d_str d" using v e D(4,5) by simp
    then have "d_text d2 = d_text d" using doc_invD(1) [OF inv2] D(1) by (simp add: text_ok_def)
    then show ?thesis using u v e A(3,4) by (simp add: is_dirty_def)
  qed
qed

text \<open>
  C11: In every editing session a transaction is applied completely or not at all: exactly when the
  buffer is writable, every edit lies on character boundaries of the text and the result is within
  the size limit, the text becomes the edited text, the version advances by one, the reported line
  delta is the change of the line count and the buffer is dirty; otherwise the document is unchanged.
\<close>

theorem apply_all_or_nothing:
  assumes "from_bytes st body ro = Inr d0" and "list_all op_wf ops" and "wf_tr tr"
    and "editing_run st body ro ops = (d, sns, disk)"
  shows "if \<not> d_read_only d \<and> tr_fits tr (d_str d)
    then \<exists>ap d'. doc_apply tr d = (Inr ap, d') \<and> d_str d' = edited 0 (d_str d) (tr_edits tr)
      \<and> d_version d' = d_version d + 1 \<and> ap_version ap = d_version d' \<and> is_dirty d'
      \<and> ap_line_delta ap = int (line_count (d_text d')) - int (line_count (d_text d))
    else \<exists>err. doc_apply tr d = (Inl err, d)"
proof (rule editing_okE [OF editing_run_ok(1) [OF assms(1,2,4)]])
  fix \<sigma> assume inv: "doc_inv \<sigma> d"
  show ?thesis
  proof (cases rule: doc_apply_cases [OF inv assms(3)])
    case (1 err)
    then show ?thesis by auto
  next
    case (2 d' ap)
    note A = applied_inv [OF inv 2(3,4)]
    have "is_dirty d'" using A(3,6) inv by (auto simp: is_dirty_def doc_inv_def)
    then show ?thesis using 2 A by simp
  qed
qed

text \<open>
  In every editing session, reloading a buffer that is not dirty from a file within the size
  limit succeeds whatever changed on disk: the buffer then holds the file's text, is clean and knows
  the file's revision. A dirty buffer is left as it is.
\<close>

theorem reload_clean_takes_disk:
  assumes "from_bytes st body ro = Inr d0" and "list_all op_wf ops"
    and "editing_run st body ro ops = (d, sns, disk)"
    and "utf8_valid file" and "length file \<le> MAX_DOCUMENT_BYTES"
  shows "if is_dirty d then reload_clean file rv d = (Inl UnsavedChanges, d)
    else \<exists>ap d'. reload_clean file rv d = (Inr ap, d') \<and> d_str d' = file \<and> \<not> is_dirty d'
      \<and> d_disk_revision d' = Some rv \<and> d_version d' = (if file = d_str d then d_version d else d_version d + 1)"
proof (rule editing_okE [OF editing_run_ok(1) [OF assms(1-3)]])
  fix \<sigma> assume inv: "doc_inv \<sigma> d"
  show ?thesis
  proof (cases rule: reload_clean_cases [OF inv assms(4), of rv])
    case 2
    then show ?thesis using assms(5) by simp
  next
    case 3
    then show ?thesis by (simp add: set_disk_revision_def is_dirty_def)
  next
    case (4 d' ap d1)
    then show ?thesis by (auto simp: set_disk_revision_def is_dirty_def)
  qed simp
qed

lemma around_edits_fit:
  assumes "sel_ok (d_selection d)" "carets_ok d" "utf8_valid ins"
  shows "fits 0 (d_str d) (map (\<lambda>c. edit_replace (cursor_range c) ins) (sel_cursors (d_selection d)))"
proof (rule sorted_fits)
  let ?xs = "sel_cursors (d_selection d)" and ?f = "\<lambda>c. edit_replace (cursor_range c) ins"
  have "sorted_wrt (\<lambda>a b. c_hi a < c_lo b) ?xs" using assms(1) by (simp add: sel_ok_def apart_def)
  then show "sorted_wrt (\<lambda>a b. e_end a \<le> e_start b) (map ?f ?xs)"
    unfolding sorted_wrt_map edit_replace_def by (rule sorted_wrt_mono_rel [rotated]) simp
  show "0 \<le> e_start e \<and> e_start e \<le> e_end e \<and> e_end e \<le> length (d_str d)
      \<and> is_char_boundary (d_str d) (e_start e) \<and> is_char_boundary (d_str d) (e_end e) \<and> utf8_valid (e_insert e)"
    if mem: "e \<in> set (map ?f ?xs)" for e
  proof -
    obtain c where c: "c \<in> set ?xs" "e = ?f c" using mem by auto
    then have "is_char_boundary (d_str d) (c_lo c) \<and> is_char_boundary (d_str d) (c_hi c)"
      using assms(2) by (intro carets_at_bounds) (auto simp: carets_ok_def carets_at_def)
    then show ?thesis using c(2) assms(3) char_boundary_le c_lo_le_hi by (simp add: edit_replace_def)
  qed
qed simp

text \<open>
  In every editing session, typing at the cursors never fails for another reason than a
  read-only buffer or the size limit: the string goes in place of every selection at once.
\<close>

theorem typing_reaches_every_cursor:
  assumes "from_bytes st body ro = Inr d0" and "list_all op_wf ops"
    and "editing_run st body ro ops = (d, sns, disk)" and "op_wf (Op_Around before after org)"
  defines "es \<equiv> map (\<lambda>c. edit_replace (cursor_range c) (before @ after)) (sel_cursors (d_selection d))"
  shows "if d_read_only d \<or> length (edited 0 (d_str d) es) > MAX_DOCUMENT_BYTES
    then \<exists>err. insert_around before after org d = (Inl err, d)
    else \<exists>ap d'. insert_around before after org d = (Inr ap, d') \<and> d_str d' = edited 0 (d_str d) es"
proof (rule editing_okE [OF editing_run_ok(1) [OF assms(1-3)]])
  fix \<sigma> assume inv: "doc_inv \<sigma> d"
  note D = doc_invD [OF inv]
  have v: "utf8_valid (before @ after)" using assms(4) by (simp add: utf8_valid_append)
  note f = around_edits_fit [OF D(2) editing_run_ok(2) [OF assms(1-3)] v, folded es_def]
  obtain ks where l: "around_loop (before @ after) (length before) 0 (sel_cursors (d_selection d)) = (es, ks)"
    using around_loop_edits [of "before @ after" "length before" 0 "sel_cursors (d_selection d)"] unfolding es_def by (metis surj_pair)
  note n = transaction_new_fits [OF f, of org "d_selection d"]
  define tr where "tr = \<lparr>tr_edits = es, tr_origin = org, tr_selection_before = d_selection d,
    tr_selection_after = Some (selection_many ks (sel_primary (d_selection d)))\<rparr>"
  have i: "insert_around before after org d = doc_apply tr d"
    by (simp add: insert_around_def l n tr_def with_selection_after_def Let_def)
  have "length es \<le> 64" using D(2) by (simp add: es_def sel_ok_def MAX_CURSORS_def)
  then have "length es * (length before + length after) \<le> 64 * 2 ^ 50"
    using assms(4) by (intro mult_le_mono) simp_all
  then have sum: "sum_list (map (\<lambda>e. length (e_insert e)) es) < 2 ^ 62"
    by (simp add: es_def edit_replace_def comp_def sum_list_triv)
  have ok: "e_start e \<le> e_end e \<and> utf8_valid (e_insert e)" if "e \<in> set es" for e
    using that v by (auto simp: es_def edit_replace_def c_lo_le_hi)
  have w: "wf_tr tr" using wf_tr_new(2) [OF n ok sum] by (simp add: wf_tr_def tr_def)
  have t: "tr_fits tr (d_str d) \<longleftrightarrow> length (edited 0 (d_str d) es) \<le> MAX_DOCUMENT_BYTES"
    using D(6,7) f by (simp add: tr_fits_def tr_def)
  show ?thesis
  proof (cases rule: doc_apply_cases [OF inv w])
    case (1 err)
    then show ?thesis using t i by auto
  next
    case (2 d' ap)
    then show ?thesis using t i applied_inv(2) [OF inv 2(3,4)] by (simp add: tr_def)
  qed
qed

section \<open>A concrete session\<close>

text \<open>
  Two lines; the second is typed into, that text is handed out for writing, typing goes on, the write
  is confirmed late and the last typing is undone.
\<close>

abbreviation demo_body :: string where "demo_body \<equiv> [CHR ''a'', CHR 0x0A, CHR ''b'']"

abbreviation demo_ops :: "doc_op list" where
  "demo_ops \<equiv> [Op_GotoLine 2, Op_Around ''x'' [] Or_Input, Op_Snapshot, Op_Break, Op_Around ''y'' [] Or_Input,
    Op_Confirm 0 ''r1'', Op_Undo]"

abbreviation demo :: "unit editing" where "demo \<equiv> editing_run () demo_body False demo_ops"

lemma demo_load: "from_bytes () demo_body False = Inr (from_string () demo_body False)"
  by code_simp

lemma demo_wf: "list_all op_wf demo_ops"
  by code_simp

lemma demo_split: "demo = (fst demo, fst (snd demo), snd (snd demo))"
  by simp

theorem clean_buffer_is_disk_witness: "d_str (fst demo) = snd (snd demo)"
proof -
  have "\<not> is_dirty (fst demo)" by code_simp
  then show ?thesis by (rule clean_buffer_is_disk [OF demo_load demo_wf demo_split])
qed

theorem editing_well_formed_witness:
  "list_all (\<lambda>c. is_char_boundary (d_str (fst demo)) (c_head c)) (sel_cursors (d_selection (fst demo)))"
  using editing_well_formed [OF demo_load demo_wf demo_split] by (simp add: list_all_iff)

theorem undo_redo_exact_witness:
  "\<exists>d1 ap d2 ap'. doc_undo (fst demo) = Some (d1, ap) \<and> doc_redo d1 = Some (d2, ap') \<and> d_text d2 = d_text (fst demo)"
proof -
  have "\<not> d_read_only (fst demo)" "hi_undo (d_history (fst demo)) \<noteq> []" by code_simp+
  then obtain d1 ap where u: "doc_undo (fst demo) = Some (d1, ap)" using doc_undo_Some_iff [of "fst demo"] by auto
  then show ?thesis using undo_redo_exact [OF demo_load demo_wf demo_split u] by auto
qed

abbreviation demo_tr :: transaction where
  "demo_tr \<equiv> \<lparr>tr_edits = [\<lparr>e_range = \<lparr>r_start = 0, r_end = 1\<rparr>, e_insert = ''zz''\<rparr>], tr_origin = Or_Input,
    tr_selection_before = selection_default, tr_selection_after = None\<rparr>"

lemma demo_tr_wf: "wf_tr demo_tr"
  by code_simp

theorem apply_undo_exact_witness:
  "\<exists>ap d1 d2 ap'. doc_apply demo_tr (break_undo_group (fst demo)) = (Inr ap, d1)
    \<and> doc_undo d1 = Some (d2, ap') \<and> d_text d2 = d_text (fst demo)"
proof -
  have "isl (fst (doc_apply demo_tr (break_undo_group (fst demo)))) = False" by code_simp
  then obtain ap d1 where a: "doc_apply demo_tr (break_undo_group (fst demo)) = (Inr ap, d1)"
    by (cases "doc_apply demo_tr (break_undo_group (fst demo))"; cases "fst (doc_apply demo_tr (break_undo_group (fst demo)))") auto
  then show ?thesis using apply_undo_exact [OF demo_load demo_wf demo_tr_wf demo_split a] by blast
qed

theorem apply_all_or_nothing_witness:
  "\<exists>ap d'. doc_apply demo_tr (fst demo) = (Inr ap, d') \<and> is_dirty d'
     \<and> d_str d' = edited 0 (d_str (fst demo)) (tr_edits demo_tr)"
proof -
  have c: "\<not> d_read_only (fst demo) \<and> tr_fits demo_tr (d_str (fst demo))" by code_simp
  show ?thesis
    using apply_all_or_nothing [OF demo_load demo_wf demo_tr_wf demo_split] unfolding if_P [OF c] by blast
qed

theorem reload_clean_takes_disk_witness:
  "\<exists>ap d'. reload_clean ''new'' ''r2'' (fst demo) = (Inr ap, d') \<and> d_str d' = ''new'' \<and> \<not> is_dirty d'"
proof -
  have v: "utf8_valid ''new''" "length ''new'' \<le> MAX_DOCUMENT_BYTES" "\<not> is_dirty (fst demo)" by code_simp+
  show ?thesis
    using reload_clean_takes_disk [OF demo_load demo_wf demo_split v(1,2), of "''r2''"] unfolding if_not_P [OF v(3)] by blast
qed

theorem typing_reaches_every_cursor_witness:
  "\<exists>ap d'. insert_around ''('' '')'' Or_Input (fst demo) = (Inr ap, d')
    \<and> d_str d' = [CHR ''a'', CHR 0x0A, CHR ''x'', CHR ''('', CHR '')'', CHR ''b'']"
proof -
  let ?es = "map (\<lambda>c. edit_replace (cursor_range c) (''('' @ '')'')) (sel_cursors (d_selection (fst demo)))"
  have w: "op_wf (Op_Around ''('' '')'' Or_Input)" by code_simp
  have c: "\<not> (d_read_only (fst demo) \<or> length (edited 0 (d_str (fst demo)) ?es) > MAX_DOCUMENT_BYTES)"
    "edited 0 (d_str (fst demo)) ?es = [CHR ''a'', CHR 0x0A, CHR ''x'', CHR ''('', CHR '')'', CHR ''b'']" by code_simp+
  note t = typing_reaches_every_cursor [OF demo_load demo_wf demo_split w, unfolded if_not_P [OF c(1)]]
  show ?thesis using t unfolding c(2) by blast
qed

end
