(* ===== verification/Term_Wire.thy ===== *)
theory Term_Wire
  imports Domain_Session
begin

unbundle bit_operations_syntax

text \<open>
  The terminal's wire types (\<open>domain/src/terminal.rs\<close>): colours and their packed form, cell flags,
  cells, rows, cursor, modes, damage, snapshots and deltas, and the viewport size of
  \<open>domain/src/agent.rs\<close>. Sequence numbers and lengths (\<open>u64\<close>) and indices (\<open>u16\<close>) are naturals;
  colours and flags are words of the code's width.
\<close>

section \<open>Colours\<close>

datatype color = ColorDefault | Indexed "8 word" | Rgb "8 word" "8 word" "8 word"

definition PACKED_RGB :: "32 word" where "PACKED_RGB = 0x01000000"

fun packed :: "color \<Rightarrow> 32 word" where
  "packed ColorDefault = 0"
| "packed (Indexed i) = ucast i + 1"
| "packed (Rgb r g b) = PACKED_RGB OR push_bit 16 (ucast r) OR push_bit 8 (ucast g) OR ucast b"

definition unpacked :: "32 word \<Rightarrow> color option" where
  "unpacked v =
    (if v = 0 then Some ColorDefault
     else if 1 \<le> v \<and> v \<le> 256 then Some (Indexed (ucast (v - 1)))
     else if v AND 0xFF000000 = PACKED_RGB
       then Some (Rgb (ucast (drop_bit 16 v)) (ucast (drop_bit 8 v)) (ucast v))
     else None)"

section \<open>Cell flags\<close>

type_synonym cell_flags = "16 word"

definition BOLD :: cell_flags where "BOLD = push_bit 0 1"
definition ITALIC :: cell_flags where "ITALIC = push_bit 1 1"
definition UNDERLINE :: cell_flags where "UNDERLINE = push_bit 2 1"
definition INVERSE :: cell_flags where "INVERSE = push_bit 3 1"
definition DIM :: cell_flags where "DIM = push_bit 4 1"
definition STRIKEOUT :: cell_flags where "STRIKEOUT = push_bit 5 1"
definition HIDDEN :: cell_flags where "HIDDEN = push_bit 6 1"
definition WIDE_CHAR :: cell_flags where "WIDE_CHAR = push_bit 7 1"
definition WIDE_SPACER :: cell_flags where "WIDE_SPACER = push_bit 8 1"

definition flags_contains :: "cell_flags \<Rightarrow> cell_flags \<Rightarrow> bool" where
  "flags_contains fl other \<longleftrightarrow> fl AND other = other"

definition flags_insert :: "cell_flags \<Rightarrow> cell_flags \<Rightarrow> cell_flags" where
  "flags_insert fl other = fl OR other"

definition flags_remove :: "cell_flags \<Rightarrow> cell_flags \<Rightarrow> cell_flags" where
  "flags_remove fl other = fl AND NOT other"

section \<open>Rows, cursor, modes\<close>

record cell =
  ce_text :: string
  ce_fg :: color
  ce_bg :: color
  ce_flags :: cell_flags

definition cell_default :: cell where
  "cell_default = \<lparr>ce_text = '' '', ce_fg = ColorDefault, ce_bg = ColorDefault, ce_flags = 0\<rparr>"

record row =
  rw_cells :: "cell list"
  rw_wrapped :: bool

definition row_blank :: "nat \<Rightarrow> row" where
  "row_blank cols = \<lparr>rw_cells = replicate cols cell_default, rw_wrapped = False\<rparr>"

datatype cursor_shape = ShapeBlock | ShapeUnderline | ShapeBeam | ShapeHidden

record term_cursor =
  tc_line :: nat
  tc_col :: nat
  tc_shape :: cursor_shape
  tc_visible :: bool

datatype mouse_mode = MouseOff | MouseNormal | MouseButtonEvent | MouseAnyEvent

record term_modes =
  tm_alt_screen :: bool
  tm_bracketed_paste :: bool
  tm_app_cursor_keys :: bool
  tm_app_keypad :: bool
  tm_mouse_mode :: mouse_mode
  tm_mouse_sgr :: bool
  tm_focus_events :: bool

definition term_cursor_default :: term_cursor where
  "term_cursor_default = \<lparr>tc_line = 0, tc_col = 0, tc_shape = ShapeBlock, tc_visible = False\<rparr>"

definition term_modes_default :: term_modes where
  "term_modes_default = \<lparr>tm_alt_screen = False, tm_bracketed_paste = False, tm_app_cursor_keys = False,
    tm_app_keypad = False, tm_mouse_mode = MouseOff, tm_mouse_sgr = False, tm_focus_events = False\<rparr>"

text \<open>Which visible rows changed since the damage was last read; \<open>Columns\<close> has inclusive bounds.\<close>

datatype damage = Full | Partial "nat list" | Columns "(nat \<times> nat \<times> nat) list"

record cell_patch =
  cp_line :: nat
  cp_first :: nat
  cp_row :: row

record pty_size =
  ps_cols :: nat
  ps_rows :: nat
  ps_pixel_width :: nat
  ps_pixel_height :: nat

definition pty_size_default :: pty_size where
  "pty_size_default = \<lparr>ps_cols = 80, ps_rows = 24, ps_pixel_width = 0, ps_pixel_height = 0\<rparr>"

definition MAX_COLS :: nat where "MAX_COLS = 1000"
definition MAX_ROWS :: nat where "MAX_ROWS = 500"

definition sanitized :: "pty_size \<Rightarrow> pty_size" where
  "sanitized s = s\<lparr>ps_cols := max 1 (min (ps_cols s) MAX_COLS), ps_rows := max 1 (min (ps_rows s) MAX_ROWS)\<rparr>"

record terminal_snapshot =
  sn_seq :: nat
  sn_size :: pty_size
  sn_visible :: "row list"
  sn_scrollback_tail :: "row list"
  sn_scrollback_len :: nat
  sn_scrollback_generation :: nat
  sn_cursor :: term_cursor
  sn_modes :: term_modes
  sn_title :: "string option"

record terminal_delta =
  dl_seq :: nat
  dl_rows :: "(nat \<times> row) list"
  dl_patches :: "cell_patch list"
  dl_scrollback_len :: nat
  dl_scrollback_generation :: nat
  dl_scrolled_lines :: nat
  dl_cursor :: term_cursor
  dl_modes :: term_modes

definition changed_rows :: "terminal_delta \<Rightarrow> (nat \<times> row) list" where
  "changed_rows d = dl_rows d @ map (\<lambda>p. (cp_line p, cp_row p)) (dl_patches d)"

record scrollback_rows =
  sb_generation :: nat
  sb_snapshot :: "terminal_snapshot option"
  sb_from_line :: int
  sb_rows :: "row list"

definition DEFAULT_SCROLLBACK_TAIL :: nat where "DEFAULT_SCROLLBACK_TAIL = 200"

section \<open>The packed colour is a code\<close>

lemma packed_indexed: "unpacked (packed (Indexed i)) = Some (Indexed i)"
proof -
  let ?v = "ucast i :: 32 word"
  have "unat i < 2 ^ LENGTH(8)" by (rule unsigned_less)
  then have b: "unat ?v < 256" by (simp add: unsigned_ucast_eq unsigned_take_bit_eq take_bit_nat_eq_self)
  then have u: "unat (?v + 1) = unat ?v + 1" by (simp add: unat_word_ariths)
  have "packed (Indexed i) \<noteq> 0" using u by (metis add_is_0 one_neq_zero packed.simps(2) unat_0)
  moreover have "1 \<le> packed (Indexed i)" "packed (Indexed i) \<le> 256"
    using b u by (simp_all add: word_le_nat_alt)
  ultimately show ?thesis by (simp add: unpacked_def unsigned_ucast_eq take_bit_word_eq_self)
qed

lemma packed_rgb_const_bit: "bit PACKED_RGB n \<longleftrightarrow> n = 24"
proof -
  have "PACKED_RGB = push_bit 24 1" by (simp add: PACKED_RGB_def)
  then have "bit PACKED_RGB n \<longleftrightarrow> bit (push_bit 24 1 :: 32 word) n" by (rule arg_cong)
  also have "\<dots> \<longleftrightarrow> n = 24" by (subst bit_push_bit_iff) (auto simp: bit_1_iff)
  finally show ?thesis .
qed

lemma packed_rgb_bit:
  "bit (packed (Rgb r g b)) n \<longleftrightarrow> n = 24 \<or> (16 \<le> n \<and> n < 24 \<and> bit r (n - 16))
     \<or> (8 \<le> n \<and> n < 16 \<and> bit g (n - 8)) \<or> (n < 8 \<and> bit b n)"
proof -
  have "bit x m \<Longrightarrow> m < 8" for x :: "8 word" and m by (drule bit_imp_le_length) simp
  from this [of r "n - 16"] this [of g "n - 8"] this [of b n] show ?thesis
    by (auto simp: packed_rgb_const_bit bit_simps)
qed

lemma mask_high_bit: "bit (0xFF000000 :: 32 word) n \<longleftrightarrow> 24 \<le> n \<and> n < 32"
proof -
  have "(0xFF000000 :: 32 word) = push_bit 24 (mask 8)" by (simp add: mask_eq_exp_minus_1)
  then have "bit (0xFF000000 :: 32 word) n \<longleftrightarrow> bit (push_bit 24 (mask 8) :: 32 word) n" by (rule arg_cong)
  also have "\<dots> \<longleftrightarrow> 24 \<le> n \<and> n < 32" by (subst bit_push_bit_iff) (auto simp: bit_mask_iff)
  finally show ?thesis .
qed

lemma packed_rgb: "unpacked (packed (Rgb r g b)) = Some (Rgb r g b)"
proof -
  let ?v = "packed (Rgb r g b)"
  have "bit (unat ?v) 24" by (simp add: bit_unsigned_iff packed_rgb_bit del: packed.simps)
  then have "unat ?v div 2 ^ 24 \<noteq> 0" unfolding bit_iff_odd by (metis even_zero)
  then have "?v \<noteq> 0" "\<not> ?v \<le> 256" by (auto simp: word_le_nat_alt div_eq_0_iff simp del: packed.simps)
  moreover have "?v AND 0xFF000000 = PACKED_RGB"
    by (rule bit_eqI) (simp only: bit_and_iff packed_rgb_bit mask_high_bit packed_rgb_const_bit, auto)
  moreover have "ucast (drop_bit 16 ?v) = r" "ucast (drop_bit 8 ?v) = g" "ucast ?v = b"
    by (rule bit_eqI; auto simp: bit_simps packed_rgb_bit simp del: packed.simps)+
  ultimately show ?thesis by (simp add: unpacked_def del: packed.simps)
qed

text \<open>
  The packed colour of the wire is a faithful code: every colour unpacks from its packed form, and
  every integer that unpacks at all is the packed form of what it unpacks to, so no two integers mean
  one colour and no other integer is accepted.
\<close>

theorem color_wire_round_trip:
  "unpacked (packed c) = Some c \<and> (unpacked v = Some c \<longleftrightarrow> v = packed c)"
proof
  show p: "unpacked (packed c) = Some c"
    by (cases c) (simp_all only: packed_indexed packed_rgb, simp add: unpacked_def)
  show "unpacked v = Some c \<longleftrightarrow> v = packed c"
  proof
    assume u: "unpacked v = Some c"
    show "v = packed c"
    proof (cases c)
      case ColorDefault
      then show ?thesis using u by (auto simp: unpacked_def split: if_splits)
    next
      case (Indexed i)
      then have v: "1 \<le> v" "v \<le> 256" "i = ucast (v - 1)" using u by (auto simp: unpacked_def split: if_splits)
      have "unat (v - 1) < 256" using v(1,2) by (simp add: word_le_nat_alt unat_sub_if_size)
      then have "ucast (ucast (v - 1) :: 8 word) = v - 1"
        by (intro word_unat_eq_iff [THEN iffD2]) (simp add: unsigned_ucast_eq unsigned_take_bit_eq take_bit_nat_eq_self)
      then show ?thesis using v(3) Indexed by simp
    next
      case (Rgb r g b)
      then have m: "v AND 0xFF000000 = PACKED_RGB"
        and c: "r = ucast (drop_bit 16 v)" "g = ucast (drop_bit 8 v)" "b = ucast v"
        using u by (auto simp: unpacked_def split: if_splits)
      have hi: "24 \<le> n \<Longrightarrow> n < 32 \<Longrightarrow> bit v n \<longleftrightarrow> n = 24" for n
        using arg_cong [OF m, of "\<lambda>w. bit w n"] by (simp only: bit_and_iff mask_high_bit packed_rgb_const_bit) auto
      have "bit v n \<longleftrightarrow> bit (packed (Rgb r g b)) n" if n: "n < 32" for n
      proof -
        consider "n < 8" | "8 \<le> n \<and> n < 16" | "16 \<le> n \<and> n < 24" | "24 \<le> n" by linarith
        then show ?thesis using hi [of n] n unfolding packed_rgb_bit c by cases (simp_all add: bit_simps less_diff_conv2)
      qed
      then show ?thesis using Rgb by (intro bit_word_eqI) (simp del: packed.simps)
    qed
  qed (use p in simp)
qed

end
