(* ===== verification/Term_Delta.thy ===== *)
theory Term_Delta
  imports Term_Wire
begin

text \<open>
  Snapshots and deltas of one terminal (\<open>terminal-core/src/snapshot.rs\<close>) over the engine contract of
  \<open>terminal-core/src/engine.rs\<close>. The emulator behind the contract is third-party code: an engine is
  what its accessors return, and what a chunk of output or a resize does to it is left open up to
  the contract's promise about damage, \<open>damage_covers\<close>.
\<close>

section \<open>The engine contract\<close>

record engine =
  en_seq :: nat
  en_size :: pty_size
  en_visible :: "row list"
  en_scrollback :: "row list"
  en_generation :: nat
  en_cursor :: term_cursor
  en_modes :: term_modes
  en_title :: "string option"
  en_damage :: damage

text \<open>\<open>rows\<close>: visible rows from 0, history below it, blank rows outside both.\<close>

definition engine_row :: "engine \<Rightarrow> int \<Rightarrow> row" where
  "engine_row e i =
    (if 0 \<le> i \<and> i < int (length (en_visible e)) then en_visible e ! nat i
     else if - int (length (en_scrollback e)) \<le> i \<and> i < 0
       then en_scrollback e ! nat (int (length (en_scrollback e)) + i)
     else row_blank (ps_cols (en_size e)))"

definition engine_rows :: "engine \<Rightarrow> int \<Rightarrow> int \<Rightarrow> row list" where
  "engine_rows e start stop = map (engine_row e) [start..stop - 1]"

definition row_slice :: "engine \<Rightarrow> nat \<Rightarrow> nat \<Rightarrow> nat \<Rightarrow> row" where
  "row_slice e line first upper =
    (case engine_rows e (int line) (int line + 1) of
       [] \<Rightarrow> row_blank 0
     | r # _ \<Rightarrow>
         let start = min first (length (rw_cells r));
             stop = max (min (upper + 1) (length (rw_cells r))) start
         in r\<lparr>rw_cells := take (stop - start) (drop start (rw_cells r))\<rparr>)"

definition engine_snapshot :: "engine \<Rightarrow> nat \<Rightarrow> terminal_snapshot" where
  "engine_snapshot e tail =
    \<lparr>sn_seq = en_seq e, sn_size = en_size e, sn_visible = en_visible e,
     sn_scrollback_tail = drop (length (en_scrollback e) - tail) (en_scrollback e),
     sn_scrollback_len = length (en_scrollback e), sn_scrollback_generation = en_generation e,
     sn_cursor = en_cursor e, sn_modes = en_modes e, sn_title = en_title e\<rparr>"

definition take_damage :: "engine \<Rightarrow> damage \<times> engine" where
  "take_damage e = (en_damage e, e\<lparr>en_damage := Columns []\<rparr>)"

section \<open>Building deltas\<close>

record delta_builder =
  db_last_scrollback_len :: nat

definition delta_builder_new :: delta_builder where
  "delta_builder_new = \<lparr>db_last_scrollback_len = 0\<rparr>"

definition builder_snapshot :: "engine \<Rightarrow> nat \<Rightarrow> delta_builder \<Rightarrow> terminal_snapshot \<times> delta_builder" where
  "builder_snapshot e tail b =
    (let snap = engine_snapshot e tail in (snap, b\<lparr>db_last_scrollback_len := sn_scrollback_len snap\<rparr>))"

definition u32_max :: nat where "u32_max = 2 ^ 32 - 1"

definition damaged_rows :: "engine \<Rightarrow> damage \<Rightarrow> (nat \<times> row) list" where
  "damaged_rows e d =
    (case d of
       Columns _ \<Rightarrow> []
     | Partial is \<Rightarrow> concat (map (\<lambda>i. map (\<lambda>r. (i, r)) (take 1 (engine_rows e (int i) (int i + 1)))) is)
     | Full \<Rightarrow> enumerate 0 (engine_rows e 0 (int (length (en_visible e)))))"

definition damaged_patches :: "engine \<Rightarrow> damage \<Rightarrow> cell_patch list" where
  "damaged_patches e d =
    (case d of
       Columns bounds \<Rightarrow>
         map (\<lambda>(line, first, upper). \<lparr>cp_line = line, cp_first = first, cp_row = row_slice e line first upper\<rparr>) bounds
     | _ \<Rightarrow> [])"

definition builder_delta :: "engine \<Rightarrow> delta_builder \<Rightarrow> terminal_delta \<times> engine \<times> delta_builder" where
  "builder_delta e b =
    (let scrollback_len = length (en_scrollback e);
         (damage, e') = take_damage e;
         scrolled_lines = scrollback_len - db_last_scrollback_len b
     in (\<lparr>dl_seq = en_seq e, dl_rows = damaged_rows e' damage, dl_patches = damaged_patches e' damage,
          dl_scrollback_len = scrollback_len, dl_scrollback_generation = en_generation e',
          dl_scrolled_lines = min scrolled_lines u32_max, dl_cursor = en_cursor e, dl_modes = en_modes e\<rparr>,
         e', b\<lparr>db_last_scrollback_len := scrollback_len\<rparr>))"

section \<open>What damage promises\<close>

text \<open>
  Rows a damage replaces whole, rows it names at all, and cells it names. A grid agrees with the
  engine up to the damage when everything not named is equal; rows below the shorter of the two
  screens are not compared.
\<close>

fun dirty_whole :: "damage \<Rightarrow> nat \<Rightarrow> bool" where
  "dirty_whole Full i = True"
| "dirty_whole (Partial is) i = (i \<in> set is)"
| "dirty_whole (Columns bs) i = False"

fun dirty_line :: "damage \<Rightarrow> nat \<Rightarrow> bool" where
  "dirty_line (Columns bs) i = list_ex (\<lambda>(line, _, _). line = i) bs"
| "dirty_line d i = dirty_whole d i"

fun dirty_cell :: "damage \<Rightarrow> nat \<Rightarrow> nat \<Rightarrow> bool" where
  "dirty_cell (Columns bs) i j = list_ex (\<lambda>(line, first, upper). line = i \<and> first \<le> j \<and> j \<le> upper) bs"
| "dirty_cell d i j = dirty_whole d i"

definition row_agrees :: "damage \<Rightarrow> nat \<Rightarrow> row \<Rightarrow> row \<Rightarrow> bool" where
  "row_agrees d i r s \<longleftrightarrow> dirty_whole d i \<or>
    (length (rw_cells r) = length (rw_cells s) \<and> (dirty_line d i \<or> rw_wrapped r = rw_wrapped s)
     \<and> list_all (\<lambda>j. dirty_cell d i j \<or> rw_cells r ! j = rw_cells s ! j) [0..<length (rw_cells s)])"

definition grid_agrees :: "damage \<Rightarrow> row list \<Rightarrow> row list \<Rightarrow> bool" where
  "grid_agrees d g v \<longleftrightarrow> list_all (\<lambda>i. row_agrees d i (g ! i) (v ! i)) [0..<min (length g) (length v)]"

text \<open>
  The contract of \<open>take_damage\<close>: until the damage is read it only grows, and it names everything
  that changed on a screen of the same height; anything else (a resize, a repaint) is full damage.
\<close>

definition damage_covers :: "damage \<Rightarrow> row list \<Rightarrow> damage \<Rightarrow> row list \<Rightarrow> bool" where
  "damage_covers d v d' v' \<longleftrightarrow> d' = Full \<or>
    (length v' = length v
     \<and> (\<forall>i. (dirty_whole d i \<longrightarrow> dirty_whole d' i) \<and> (dirty_line d i \<longrightarrow> dirty_line d' i)
            \<and> (\<forall>j. dirty_cell d i j \<longrightarrow> dirty_cell d' i j))
     \<and> grid_agrees d' v v')"

lemma grid_agreesD: "grid_agrees d g v \<Longrightarrow> i < length g \<Longrightarrow> i < length v \<Longrightarrow> row_agrees d i (g ! i) (v ! i)"
  by (simp add: grid_agrees_def list_all_iff)

lemma grid_agreesI:
  "(\<And>i. i < length g \<Longrightarrow> i < length v \<Longrightarrow> row_agrees d i (g ! i) (v ! i)) \<Longrightarrow> grid_agrees d g v"
  by (simp add: grid_agrees_def list_all_iff)

lemma row_agrees_refl [simp]: "row_agrees d i r r"
  by (simp add: row_agrees_def list_all_iff)

lemma grid_agrees_refl [simp]: "grid_agrees d v v"
  by (rule grid_agreesI) simp

lemma grid_agrees_full [simp]: "grid_agrees Full g v"
  by (rule grid_agreesI) (simp add: row_agrees_def)

lemma row_agrees_iff:
  "row_agrees d i r s \<longleftrightarrow> dirty_whole d i \<or> (length (rw_cells r) = length (rw_cells s)
     \<and> (dirty_line d i \<or> rw_wrapped r = rw_wrapped s)
     \<and> (\<forall>j < length (rw_cells s). dirty_cell d i j \<or> rw_cells r ! j = rw_cells s ! j))"
  by (auto simp: row_agrees_def list_all_iff)

lemma row_agrees_trans:
  assumes "row_agrees d i r s" "row_agrees d' i s t"
    and m: "dirty_whole d i \<longrightarrow> dirty_whole d' i" "dirty_line d i \<longrightarrow> dirty_line d' i" "\<forall>j. dirty_cell d i j \<longrightarrow> dirty_cell d' i j"
  shows "row_agrees d' i r t"
proof (cases "dirty_whole d' i")
  case False
  then have r: "length (rw_cells r) = length (rw_cells s)" "dirty_line d i \<or> rw_wrapped r = rw_wrapped s"
      "\<forall>j < length (rw_cells s). dirty_cell d i j \<or> rw_cells r ! j = rw_cells s ! j"
    and s: "length (rw_cells s) = length (rw_cells t)" "dirty_line d' i \<or> rw_wrapped s = rw_wrapped t"
      "\<forall>j < length (rw_cells t). dirty_cell d' i j \<or> rw_cells s ! j = rw_cells t ! j"
    using assms(1,2) m(1) by (simp_all add: row_agrees_iff)
  have "dirty_cell d' i j \<or> rw_cells r ! j = rw_cells t ! j" if "j < length (rw_cells t)" for j
    using r(3) s(1,3) m(3) that by metis
  moreover have "dirty_line d' i \<or> rw_wrapped r = rw_wrapped t" using r(2) s(2) m(2) by auto
  ultimately show ?thesis using r(1) s(1) by (simp add: row_agrees_iff)
qed (simp add: row_agrees_iff)

lemma grid_agrees_covers:
  assumes "grid_agrees d g v" "damage_covers d v d' v'"
  shows "grid_agrees d' g v'"
proof (cases "d' = Full")
  case False
  then have c: "length v' = length v" "grid_agrees d' v v'"
    "\<And>i. (dirty_whole d i \<longrightarrow> dirty_whole d' i) \<and> (dirty_line d i \<longrightarrow> dirty_line d' i) \<and> (\<forall>j. dirty_cell d i j \<longrightarrow> dirty_cell d' i j)"
    using assms(2) by (auto simp: damage_covers_def)
  show ?thesis
  proof (rule grid_agreesI)
    fix i assume i: "i < length g" "i < length v'"
    show "row_agrees d' i (g ! i) (v' ! i)"
      by (rule row_agrees_trans [OF grid_agreesD [OF assms(1)] grid_agreesD [OF c(2)]]) (use i c in auto)
  qed
qed simp

end
