(* ===== verification/Client_Grid.thy ===== *)
theory Client_Grid
  imports Term_Delta
begin

text \<open>
  The client's passive replica of one terminal, \<open>CellGrid\<close> of \<open>client/src/store.rs\<close>: the visible rows
  kept by deltas and resynchronizations, and the bounded cache of history rows. The cache is a
  \<open>BTreeMap\<close>, here its entries in key order.
\<close>

section \<open>The replica\<close>

type_synonym scrollback_cache = "(int \<times> row) list"

record cell_grid =
  gr_visible :: "row list"
  gr_cache :: scrollback_cache
  gr_scrollback_len :: nat
  gr_generation :: nat
  gr_cursor :: term_cursor
  gr_modes :: term_modes
  gr_last_seq :: nat
  gr_size :: pty_size
  gr_title :: "string option"
  gr_bell :: bool
  gr_activity :: bool

datatype delta_outcome = Applied | Stale | NeedsResync

definition MAX_SCROLLBACK_CACHE_ROWS :: nat where "MAX_SCROLLBACK_CACHE_ROWS = 5000"

fun cache_insert :: "int \<Rightarrow> row \<Rightarrow> scrollback_cache \<Rightarrow> scrollback_cache" where
  "cache_insert k r [] = [(k, r)]"
| "cache_insert k r ((k', r') # xs) =
    (if k < k' then (k, r) # (k', r') # xs
     else if k = k' then (k, r) # xs
     else (k', r') # cache_insert k r xs)"

definition seed_scrollback_tail :: "terminal_snapshot \<Rightarrow> cell_grid \<Rightarrow> cell_grid" where
  "seed_scrollback_tail snap g =
    (let tail = sn_scrollback_tail snap;
         base = int (gr_scrollback_len g) - int (length tail);
         skip = length tail - MAX_SCROLLBACK_CACHE_ROWS
     in g\<lparr>gr_cache := foldl (\<lambda>c (i, r). cache_insert (base + int i) r c) (gr_cache g)
            (drop skip (enumerate 0 tail))\<rparr>)"

definition from_snapshot :: "terminal_snapshot \<Rightarrow> cell_grid" where
  "from_snapshot snap = seed_scrollback_tail snap
    \<lparr>gr_visible = sn_visible snap, gr_cache = [], gr_scrollback_len = sn_scrollback_len snap,
     gr_generation = sn_scrollback_generation snap, gr_cursor = sn_cursor snap, gr_modes = sn_modes snap,
     gr_last_seq = sn_seq snap, gr_size = sn_size snap, gr_title = sn_title snap, gr_bell = False,
     gr_activity = False\<rparr>"

definition patch_row :: "cell_patch \<Rightarrow> row \<Rightarrow> row" where
  "patch_row p r =
    (let cells = rw_cells (cp_row p)
     in r\<lparr>rw_cells := take (cp_first p) (rw_cells r) @ cells @ drop (cp_first p + length cells) (rw_cells r),
         rw_wrapped := rw_wrapped (cp_row p)\<rparr>)"

definition patch_misfits :: "row list \<Rightarrow> cell_patch \<Rightarrow> bool" where
  "patch_misfits visible p \<longleftrightarrow>
    \<not> cp_line p < length visible \<or>
    cp_first p + length (rw_cells (cp_row p)) > length (rw_cells (visible ! cp_line p))"

definition apply_delta :: "terminal_delta \<Rightarrow> cell_grid \<Rightarrow> delta_outcome \<times> cell_grid" where
  "apply_delta delta g =
    (if dl_seq delta \<le> gr_last_seq g then (Stale, g)
     else if dl_seq delta > gr_last_seq g + 1 then (NeedsResync, g)
     else if list_ex (\<lambda>(index, _). index \<ge> length (gr_visible g)) (dl_rows delta) then (NeedsResync, g)
     else if list_ex (patch_misfits (gr_visible g)) (dl_patches delta) then (NeedsResync, g)
     else
       let cache = (if dl_scrollback_generation delta \<noteq> gr_generation g then [] else gr_cache g);
           v1 = foldl (\<lambda>v (index, r). v[index := r]) (gr_visible g) (dl_rows delta);
           v2 = foldl (\<lambda>v p. v[cp_line p := patch_row p (v ! cp_line p)]) v1 (dl_patches delta)
       in (Applied, g\<lparr>gr_cache := cache, gr_visible := v2, gr_scrollback_len := dl_scrollback_len delta,
             gr_generation := dl_scrollback_generation delta, gr_cursor := dl_cursor delta,
             gr_modes := dl_modes delta, gr_last_seq := dl_seq delta\<rparr>))"

definition apply_resync :: "terminal_snapshot \<Rightarrow> cell_grid \<Rightarrow> cell_grid" where
  "apply_resync snap g = seed_scrollback_tail snap
    (g\<lparr>gr_visible := sn_visible snap, gr_cache := [], gr_scrollback_len := sn_scrollback_len snap,
       gr_generation := sn_scrollback_generation snap, gr_cursor := sn_cursor snap, gr_modes := sn_modes snap,
       gr_last_seq := sn_seq snap, gr_size := sn_size snap, gr_title := sn_title snap, gr_bell := False,
       gr_activity := False\<rparr>)"

definition abs_diff :: "int \<Rightarrow> int \<Rightarrow> int" where "abs_diff a b = \<bar>a - b\<bar>"

text \<open>The eviction loop: while the cache is too large, the entry at the further end goes.\<close>

function evict :: "int \<Rightarrow> scrollback_cache \<Rightarrow> scrollback_cache" where
  "evict absolute cache =
    (if length cache > MAX_SCROLLBACK_CACHE_ROWS then
       (if abs_diff absolute (fst (hd cache)) > abs_diff absolute (fst (last cache))
        then evict absolute (tl cache) else evict absolute (butlast cache))
     else cache)"
  by pat_completeness auto
termination evict
  by (relation "measure (\<lambda>(_, cache). length cache)") auto

declare evict.simps [simp del]

fun merge_rows :: "int \<Rightarrow> (nat \<times> row) list \<Rightarrow> scrollback_cache \<Rightarrow> scrollback_cache" where
  "merge_rows from_line [] cache = cache"
| "merge_rows from_line ((i, r) # rest) cache =
    (case i64_checked_add from_line (int i) of
       None \<Rightarrow> cache
     | Some absolute \<Rightarrow> merge_rows from_line rest (evict absolute (cache_insert absolute r cache)))"

definition merge_scrollback :: "scrollback_rows \<Rightarrow> cell_grid \<Rightarrow> cell_grid" where
  "merge_scrollback block g =
    (let stale = (case sb_snapshot block of None \<Rightarrow> False
           | Some snap \<Rightarrow> sn_seq snap < gr_last_seq g \<or> sn_scrollback_generation snap \<noteq> sb_generation block);
         g1 = (case sb_snapshot block of None \<Rightarrow> g
           | Some snap \<Rightarrow> if gr_generation g \<noteq> sb_generation block then apply_resync snap g else g)
     in if stale then g
        else if sb_generation block \<noteq> gr_generation g1 then g1
        else g1\<lparr>gr_cache := merge_rows (sb_from_line block)
               (drop (length (sb_rows block) - MAX_SCROLLBACK_CACHE_ROWS) (enumerate 0 (sb_rows block)))
               (gr_cache g1)\<rparr>)"

definition scrollback_row :: "int \<Rightarrow> cell_grid \<Rightarrow> row option" where
  "scrollback_row offset g =
    (if offset \<ge> 0 then None
     else if int (gr_scrollback_len g) > i64_max then None
     else case i64_checked_add (int (gr_scrollback_len g)) offset of
       None \<Rightarrow> None | Some k \<Rightarrow> map_of (gr_cache g) k)"

definition is_scrollback_cached :: "int \<Rightarrow> cell_grid \<Rightarrow> bool" where
  "is_scrollback_cached offset g \<longleftrightarrow> scrollback_row offset g \<noteq> None"

definition scrollback_cached_extent :: "cell_grid \<Rightarrow> (int \<times> int) option" where
  "scrollback_cached_extent g =
    (if gr_cache g = [] \<or> int (gr_scrollback_len g) > i64_max then None
     else case i64_checked_sub (fst (hd (gr_cache g))) (int (gr_scrollback_len g)) of
       None \<Rightarrow> None
     | Some lo \<Rightarrow> (case i64_checked_sub (fst (last (gr_cache g))) (int (gr_scrollback_len g)) of
          None \<Rightarrow> None | Some hi \<Rightarrow> Some (lo, hi)))"

definition take_bell :: "cell_grid \<Rightarrow> bool \<times> cell_grid" where
  "take_bell g = (gr_bell g, g\<lparr>gr_bell := False\<rparr>)"

definition take_activity :: "cell_grid \<Rightarrow> bool \<times> cell_grid" where
  "take_activity g = (gr_activity g, g\<lparr>gr_activity := False\<rparr>)"

section \<open>The history cache\<close>

definition cache_ok :: "scrollback_cache \<Rightarrow> bool" where
  "cache_ok c \<longleftrightarrow> sorted_wrt (<) (map fst c)"

lemma cache_insert_keys: "fst ` set (cache_insert k r c) = insert k (fst ` set c)"
  by (induction k r c rule: cache_insert.induct) auto

lemma cache_insert_mem: "x \<in> set (cache_insert k r c) \<Longrightarrow> x = (k, r) \<or> x \<in> set c"
  by (induction k r c rule: cache_insert.induct) (auto split: if_splits)

lemma cache_insert_ok: "cache_ok c \<Longrightarrow> cache_ok (cache_insert k r c)"
proof (induction k r c rule: cache_insert.induct)
  case (2 k r k' r' xs)
  have "k' < fst x" if "x \<in> set (cache_insert k r xs)" "k' < k" for x
    using cache_insert_mem [OF that(1)] that(2) 2(2) by (auto simp: cache_ok_def)
  then show ?case using 2 by (auto simp: cache_ok_def)
qed (simp add: cache_ok_def)

lemma cache_insert_length: "length (cache_insert k r c) \<le> Suc (length c)"
  by (induction k r c rule: cache_insert.induct) auto

lemma cache_insert_map_of: "cache_ok c \<Longrightarrow> map_of (cache_insert k r c) = (map_of c)(k \<mapsto> r)"
proof (induction k r c rule: cache_insert.induct)
  case (2 k r k' r' xs)
  have "map_of xs k = None" if "k < k'"
    using 2(2) that by (auto simp: cache_ok_def map_of_eq_None_iff)
  then show ?case using 2 by (auto simp: cache_ok_def fun_eq_iff map_of_eq_None_iff)
qed simp

lemma cache_ok_distinct: "cache_ok c \<Longrightarrow> distinct (map fst c)"
  by (simp add: cache_ok_def strict_sorted_iff)

lemma cache_ok_tl: "cache_ok c \<Longrightarrow> cache_ok (tl c)"
  by (cases c) (auto simp: cache_ok_def)

lemma cache_ok_butlast: "cache_ok c \<Longrightarrow> cache_ok (butlast c)"
  by (cases c rule: rev_cases) (auto simp: cache_ok_def sorted_wrt_append)

lemma evict_ok: "cache_ok c \<Longrightarrow> cache_ok (evict a c)"
proof (induction a c rule: evict.induct)
  case (1 a c)
  show ?case
    using 1 cache_ok_tl [of c] cache_ok_butlast [of c] by (subst evict.simps) simp
qed

lemma evict_bound: "length (evict a c) \<le> MAX_SCROLLBACK_CACHE_ROWS"
proof (induction a c rule: evict.induct)
  case (1 a c)
  show ?case using 1 by (subst evict.simps) simp
qed

lemma merge_rows_ok:
  "cache_ok c \<Longrightarrow> length c \<le> MAX_SCROLLBACK_CACHE_ROWS \<Longrightarrow>
    cache_ok (merge_rows f rs c) \<and> length (merge_rows f rs c) \<le> MAX_SCROLLBACK_CACHE_ROWS"
  by (induction f rs c rule: merge_rows.induct)
    (auto simp: evict_bound evict_ok cache_insert_ok split: option.splits)

lemma seed_fold_ok:
  "cache_ok c \<Longrightarrow> cache_ok (foldl (\<lambda>c (i, r). cache_insert (base + int i) r c) c rs)
    \<and> length (foldl (\<lambda>c (i, r). cache_insert (base + int i) r c) c rs) \<le> length c + length rs"
proof (induction rs arbitrary: c)
  case (Cons x rs)
  obtain i r where x: "x = (i, r)" by fastforce
  show ?case using Cons.IH [OF cache_insert_ok [OF Cons.prems, of "base + int i" r]]
      cache_insert_length [of "base + int i" r c] x by simp
qed simp

definition grid_ok :: "cell_grid \<Rightarrow> bool" where
  "grid_ok g \<longleftrightarrow> cache_ok (gr_cache g) \<and> length (gr_cache g) \<le> MAX_SCROLLBACK_CACHE_ROWS"

lemma seed_grid_ok: "gr_cache g = [] \<Longrightarrow> grid_ok (seed_scrollback_tail snap g)"
  using seed_fold_ok [of "[]"] by (fastforce simp: grid_ok_def seed_scrollback_tail_def Let_def cache_ok_def)

text \<open>Every operation of a replica, in any order.\<close>

datatype grid_op = GDelta terminal_delta | GResync terminal_snapshot | GMerge scrollback_rows
  | GTakeBell | GTakeActivity

fun grid_step :: "cell_grid \<Rightarrow> grid_op \<Rightarrow> cell_grid" where
  "grid_step g (GDelta d) = snd (apply_delta d g)"
| "grid_step g (GResync s) = apply_resync s g"
| "grid_step g (GMerge b) = merge_scrollback b g"
| "grid_step g GTakeBell = snd (take_bell g)"
| "grid_step g GTakeActivity = snd (take_activity g)"

lemma apply_resync_ok: "grid_ok (apply_resync s g)"
  by (simp add: apply_resync_def seed_grid_ok)

lemma grid_step_ok: "grid_ok g \<Longrightarrow> grid_ok (grid_step g op)"
proof (cases op)
  case (GDelta d)
  assume "grid_ok g"
  then show ?thesis using GDelta by (auto simp: apply_delta_def Let_def grid_ok_def cache_ok_def)
next
  case (GMerge b)
  assume g: "grid_ok g"
  then show ?thesis using GMerge apply_resync_ok merge_rows_ok
    by (auto simp: merge_scrollback_def Let_def grid_ok_def split: option.splits)
qed (simp_all add: apply_resync_ok, auto simp: take_bell_def take_activity_def grid_ok_def)

text \<open>
  Whatever deltas, resynchronizations and history pages a replica is given, its history cache
  holds at most 5000 rows, in order and without duplicates.
\<close>

theorem cache_bounded:
  "cache_ok (gr_cache (foldl grid_step (from_snapshot s) ops))
   \<and> length (gr_cache (foldl grid_step (from_snapshot s) ops)) \<le> 5000"
proof -
  have "grid_ok g \<Longrightarrow> grid_ok (foldl grid_step g ops)" for g
    by (induction ops arbitrary: g) (auto simp: grid_step_ok)
  moreover have "grid_ok (from_snapshot s)" by (simp add: from_snapshot_def seed_grid_ok)
  ultimately show ?thesis by (simp add: grid_ok_def MAX_SCROLLBACK_CACHE_ROWS_def)
qed

lemma sorted_int_span: "sorted_wrt (<) (x # xs) \<Longrightarrow> x + int (length xs) \<le> last (x # xs)"
proof (induction xs arbitrary: x)
  case (Cons y ys)
  then have "x < y" "y + int (length ys) \<le> last (y # ys)" by auto
  then show ?case by simp
qed simp

lemma cache_span:
  assumes "cache_ok c" "c \<noteq> []"
  shows "fst (hd c) + int (length c) - 1 \<le> fst (last c)"
proof -
  obtain x xs where c: "c = x # xs" using assms(2) by (cases c) auto
  have "fst x + int (length (map fst xs)) \<le> last (fst x # map fst xs)"
    using assms(1) c by (intro sorted_int_span) (simp add: cache_ok_def)
  then show ?thesis using c by (auto simp: last_map)
qed

lemma cache_ends:
  assumes "cache_ok c" "k \<in> fst ` set c" shows "fst (hd c) \<le> k \<and> k \<le> fst (last c)"
proof
  show "fst (hd c) \<le> k" using assms by (cases c) (auto simp: cache_ok_def)
  show "k \<le> fst (last c)" using assms by (cases c rule: rev_cases) (auto simp: cache_ok_def sorted_wrt_append)
qed

lemma map_of_tl: "k \<noteq> fst (hd c) \<Longrightarrow> map_of (tl c) k = map_of c k"
  by (cases c) auto

lemma map_of_butlast: "k \<noteq> fst (last c) \<Longrightarrow> map_of (butlast c) k = map_of c k"
  by (cases c rule: rev_cases) (auto simp: map_add_def split: option.splits)

text \<open>Eviction spares what lies within half the cache's size behind the row just merged.\<close>

lemma evict_keeps:
  assumes "cache_ok c" "length c \<le> Suc MAX_SCROLLBACK_CACHE_ROWS" "a \<in> fst ` set c" "k \<le> a" "a - k < 2500"
  shows "map_of (evict a c) k = map_of c k"
proof (cases "length c > MAX_SCROLLBACK_CACHE_ROWS")
  case True
  have ne: "c \<noteq> []" using True by auto
  have stop: "evict a xs = xs" if "length xs \<le> MAX_SCROLLBACK_CACHE_ROWS" for xs
    using that by (subst evict.simps) simp
  have span: "fst (hd c) + 5000 \<le> fst (last c)"
    using cache_span [OF assms(1) ne] True by (simp add: MAX_SCROLLBACK_CACHE_ROWS_def)
  have ends: "fst (hd c) \<le> a" "a \<le> fst (last c)" using cache_ends [OF assms(1,3)] by auto
  have "evict a c = (if abs_diff a (fst (hd c)) > abs_diff a (fst (last c)) then tl c else butlast c)"
    using True assms(2) stop [of "tl c"] stop [of "butlast c"] by (subst evict.simps) simp
  moreover have "k \<noteq> fst (hd c)" if "abs_diff a (fst (hd c)) > abs_diff a (fst (last c))"
    using that span ends assms(4,5) by (auto simp: abs_diff_def)
  moreover have "k \<noteq> fst (last c)" if "\<not> abs_diff a (fst (hd c)) > abs_diff a (fst (last c))"
    using that span ends assms(4,5) by (auto simp: abs_diff_def)
  ultimately show ?thesis using map_of_tl [of k c] map_of_butlast [of k c] by auto
next
  case False
  then show ?thesis by (subst evict.simps) simp
qed

lemma merge_rows_keeps:
  assumes "cache_ok c" "length c \<le> MAX_SCROLLBACK_CACHE_ROWS" "n + length rs \<le> 2500" "in_i64 f"
    "f + int n + int (length rs) \<le> i64_max" "i < n" "map_of c (f + int i) = Some r"
  shows "map_of (merge_rows f (enumerate n rs) c) (f + int i) = Some r"
  using assms
proof (induction rs arbitrary: c n)
  case (Cons x rs)
  let ?a = "f + int n"
  let ?c = "evict ?a (cache_insert ?a x c)"
  have ins: "cache_ok (cache_insert ?a x c)" "length (cache_insert ?a x c) \<le> Suc MAX_SCROLLBACK_CACHE_ROWS"
    using Cons.prems(1,2) cache_insert_ok cache_insert_length [of ?a x c] by auto
  have "map_of ?c (f + int i) = map_of (cache_insert ?a x c) (f + int i)"
    by (rule evict_keeps [OF ins]) (use Cons.prems in \<open>auto simp: cache_insert_keys\<close>)
  also have "\<dots> = Some r" using Cons.prems by (simp add: cache_insert_map_of)
  finally have k: "map_of ?c (f + int i) = Some r" .
  have "i64_checked_add f (int n) = Some ?a"
    using Cons.prems(4,5) by (simp add: i64_checked_add_def in_i64_def)
  then show ?case
    using Cons.IH [of ?c "Suc n"] Cons.prems evict_ok [OF ins(1)] evict_bound k by simp
qed simp

lemma merge_rows_page:
  assumes "cache_ok c" "length c \<le> MAX_SCROLLBACK_CACHE_ROWS" "n + length rs \<le> 2500" "in_i64 f"
    "f + int n + int (length rs) \<le> i64_max" "j < length rs"
  shows "map_of (merge_rows f (enumerate n rs) c) (f + int (n + j)) = Some (rs ! j)"
  using assms
proof (induction rs arbitrary: c n j)
  case (Cons x rs)
  let ?a = "f + int n"
  let ?c = "evict ?a (cache_insert ?a x c)"
  have ins: "cache_ok (cache_insert ?a x c)" "length (cache_insert ?a x c) \<le> Suc MAX_SCROLLBACK_CACHE_ROWS"
    using Cons.prems(1,2) cache_insert_ok cache_insert_length [of ?a x c] by auto
  have c: "cache_ok ?c" "length ?c \<le> MAX_SCROLLBACK_CACHE_ROWS" using evict_ok [OF ins(1)] evict_bound by auto
  have m: "merge_rows f (enumerate n (x # rs)) c = merge_rows f (enumerate (Suc n) rs) ?c"
    using Cons.prems(4,5) by (simp add: i64_checked_add_def in_i64_def)
  show ?case
  proof (cases j)
    case 0
    have "map_of ?c ?a = Some x"
      using evict_keeps [OF ins, of ?a] Cons.prems(1) by (simp add: cache_insert_keys cache_insert_map_of)
    then show ?thesis unfolding m using merge_rows_keeps [OF c, of "Suc n" rs f n x] Cons.prems 0 by simp
  next
    case (Suc j')
    then show ?thesis unfolding m using Cons.IH [OF c, of "Suc n" j'] Cons.prems by simp
  qed
qed simp

text \<open>
  A history page of at most 2500 rows that belongs to the replica's generation is in the cache
  completely after it was merged, whatever the cache held, so every row of it can be shown.
\<close>

theorem merge_keeps_page:
  assumes "grid_ok g" and "sb_snapshot b = None" and "sb_generation b = gr_generation g"
    and "length (sb_rows b) \<le> 2500" and "0 \<le> sb_from_line b" and "sb_from_line b + 2500 \<le> i64_max"
    and "j < length (sb_rows b)"
  shows "map_of (gr_cache (merge_scrollback b g)) (sb_from_line b + int j) = Some (sb_rows b ! j)"
proof -
  have "gr_cache (merge_scrollback b g) = merge_rows (sb_from_line b) (enumerate 0 (sb_rows b)) (gr_cache g)"
    using assms(2-4) by (simp add: merge_scrollback_def MAX_SCROLLBACK_CACHE_ROWS_def)
  then show ?thesis
    using merge_rows_page [of "gr_cache g" 0 "sb_rows b" "sb_from_line b" j] assms
    by (simp add: grid_ok_def in_i64_def i64_min_def)
qed

theorem merge_keeps_page_witness:
  "\<exists>g. map_of (gr_cache (merge_scrollback
      \<lparr>sb_generation = 0, sb_snapshot = None, sb_from_line = 7, sb_rows = [row_blank 1, row_blank 2]\<rparr> g)) 8
    = Some (row_blank 2)"
proof -
  let ?g = "from_snapshot \<lparr>sn_seq = 0, sn_size = pty_size_default, sn_visible = [row_blank 1],
    sn_scrollback_tail = [row_blank 3], sn_scrollback_len = 9, sn_scrollback_generation = 0,
    sn_cursor = term_cursor_default, sn_modes = term_modes_default, sn_title = None\<rparr>"
  have "grid_ok ?g" "gr_generation ?g = 0"
    by (simp_all add: from_snapshot_def seed_grid_ok) (simp add: seed_scrollback_tail_def Let_def)
  then show ?thesis
    using merge_keeps_page [of ?g "\<lparr>sb_generation = 0, sb_snapshot = None, sb_from_line = 7,
      sb_rows = [row_blank 1, row_blank 2]\<rparr>" 1] by (intro exI [of _ ?g]) (simp add: i64_max_def)
qed

section \<open>Deltas are exact\<close>

lemma foldl_rows_length: "length (foldl (\<lambda>v (index, r). v[index := r]) v rs) = length v"
  by (induction rs arbitrary: v) (auto split: prod.splits)

lemma foldl_patches_length: "length (foldl (\<lambda>v p. v[cp_line p := patch_row p (v ! cp_line p)]) v ps) = length v"
  by (induction ps arbitrary: v) auto

lemma engine_row_visible: "i < length (en_visible e) \<Longrightarrow> engine_row e (int i) = en_visible e ! i"
  by (simp add: engine_row_def)

lemma engine_rows_one: "engine_rows e (int i) (int i + 1) = [engine_row e (int i)]"
  by (simp add: engine_rows_def)

lemma engine_rows_all: "engine_rows e 0 (int (length (en_visible e))) = en_visible e"
  by (rule nth_equalityI) (auto simp: engine_rows_def engine_row_visible nth_upto)

text \<open>The three shapes of damage: the whole screen, rows, column ranges.\<close>

lemma full_rows_exact:
  assumes "i < length g" "i < length v" "length g \<ge> length v"
  shows "foldl (\<lambda>v (index, r). v[index := r]) g (enumerate 0 v) ! i = v ! i"
proof -
  have "n + length v \<le> length g \<Longrightarrow> i < length g \<Longrightarrow>
      foldl (\<lambda>v (index, r). v[index := r]) g (enumerate n v) ! i = (if n \<le> i \<and> i < n + length v then v ! (i - n) else g ! i)" for n
  proof (induction v arbitrary: g n)
    case (Cons x v)
    then show ?case by (auto simp: nth_Cons' nth_list_update)
  qed auto
  from this [of 0] show ?thesis using assms by simp
qed

lemma partial_rows_exact:
  assumes "grid_agrees (Partial is) g (en_visible e)"
  shows "grid_agrees (Columns []) (foldl (\<lambda>v (index, r). v[index := r]) g (map (\<lambda>i. (i, engine_row e (int i))) is)) (en_visible e)"
  using assms
proof (induction "is" arbitrary: g)
  case Nil
  then show ?case by (simp add: grid_agrees_def row_agrees_def)
next
  case (Cons i "is")
  have "grid_agrees (Partial is) (g[i := engine_row e (int i)]) (en_visible e)"
  proof (rule grid_agreesI)
    fix k assume k: "k < length (g[i := engine_row e (int i)])" "k < length (en_visible e)"
    then show "row_agrees (Partial is) k (g[i := engine_row e (int i)] ! k) (en_visible e ! k)"
      using grid_agreesD [OF Cons.prems, of k] by (cases "k = i") (auto simp: engine_row_visible row_agrees_def)
  qed
  then show ?case using Cons.IH by simp
qed

lemma row_slice_visible:
  fixes e :: engine and l f u :: nat
  assumes "l < length (en_visible e)"
  defines "w \<equiv> length (rw_cells (en_visible e ! l))"
  defines "stop \<equiv> max (min (u + 1) w) (min f w)"
  shows "rw_cells (row_slice e l f u) = take (stop - min f w) (drop (min f w) (rw_cells (en_visible e ! l)))"
    and "rw_wrapped (row_slice e l f u) = rw_wrapped (en_visible e ! l)"
  using assms by (simp_all add: row_slice_def engine_rows_one engine_row_visible Let_def)

lemma patch_row_cells:
  assumes "f + length (rw_cells q) \<le> length (rw_cells r)" "j < length (rw_cells r)"
  shows "rw_cells (patch_row \<lparr>cp_line = l, cp_first = f, cp_row = q\<rparr> r) ! j =
    (if f \<le> j \<and> j < f + length (rw_cells q) then rw_cells q ! (j - f) else rw_cells r ! j)"
  using assms by (auto simp: patch_row_def Let_def nth_append)

lemma patch_row_length:
  "cp_first p + length (rw_cells (cp_row p)) \<le> length (rw_cells r) \<Longrightarrow> length (rw_cells (patch_row p r)) = length (rw_cells r)"
  by (simp add: patch_row_def Let_def)

lemma patch_row_agrees:
  assumes "row_agrees (Columns ((l, f, u) # bs)) l r (en_visible e ! l)" "l < length (en_visible e)"
    and fit: "f + length (rw_cells (row_slice e l f u)) \<le> length (rw_cells r)"
  shows "row_agrees (Columns bs) l (patch_row \<lparr>cp_line = l, cp_first = f, cp_row = row_slice e l f u\<rparr> r) (en_visible e ! l)"
proof -
  let ?v = "en_visible e ! l" and ?q = "row_slice e l f u"
  let ?p = "\<lparr>cp_line = l, cp_first = f, cp_row = ?q\<rparr>"
  have len: "length (rw_cells r) = length (rw_cells ?v)"
    and cells: "\<And>j. j < length (rw_cells ?v) \<Longrightarrow> dirty_cell (Columns ((l, f, u) # bs)) l j \<or> rw_cells r ! j = rw_cells ?v ! j"
    using assms(1) by (auto simp: row_agrees_iff)
  have fw: "f \<le> length (rw_cells ?v)" using fit len by simp
  note s = row_slice_visible [OF assms(2), where f = f and u = u]
  let ?stop = "max (min (u + 1) (length (rw_cells ?v))) f"
  have q: "rw_cells ?q = take (?stop - f) (drop f (rw_cells ?v))" using s(1) fw by (simp add: min_def)
  have "dirty_cell (Columns bs) l j \<or> rw_cells (patch_row ?p r) ! j = rw_cells ?v ! j" if j: "j < length (rw_cells ?v)" for j
  proof (cases "f \<le> j \<and> j < f + length (rw_cells ?q)")
    case True
    then have "rw_cells (patch_row ?p r) ! j = rw_cells ?q ! (j - f)" using patch_row_cells [OF fit] j len by simp
    also have "\<dots> = rw_cells ?v ! j"
    proof -
      have "length (rw_cells ?q) = ?stop - f" using q fw by simp
      then have "j - f < ?stop - f" using True by linarith
      then show ?thesis unfolding q using True fw by (simp add: nth_take)
    qed
    finally show ?thesis by simp
  next
    case False
    then have e: "rw_cells (patch_row ?p r) ! j = rw_cells r ! j" using patch_row_cells [OF fit] j len by auto
    have "length (rw_cells ?q) = ?stop - f" using q fw by simp
    then have "\<not> (f \<le> j \<and> j \<le> u)" using False j by auto
    then show ?thesis using cells [OF j] e by auto
  qed
  moreover have "rw_wrapped (patch_row ?p r) = rw_wrapped ?v" using s(2) by (simp add: patch_row_def Let_def)
  ultimately show ?thesis using len patch_row_length [of ?p r] fit by (simp add: row_agrees_iff)
qed

lemma column_patches_exact:
  assumes "grid_agrees (Columns bs) g (en_visible e)"
    and "\<not> list_ex (patch_misfits g) (damaged_patches e (Columns bs))"
  shows "grid_agrees (Columns []) (foldl (\<lambda>v p. v[cp_line p := patch_row p (v ! cp_line p)]) g
    (damaged_patches e (Columns bs))) (en_visible e)"
  using assms
proof (induction bs arbitrary: g)
  case (Cons b bs)
  obtain l f u where b: "b = (l, f, u)" by (cases b)
  let ?q = "row_slice e l f u"
  let ?p = "\<lparr>cp_line = l, cp_first = f, cp_row = ?q\<rparr>"
  let ?g = "g[l := patch_row ?p (g ! l)]"
  have fit: "l < length g" "f + length (rw_cells ?q) \<le> length (rw_cells (g ! l))"
    using Cons.prems(2) b by (auto simp: damaged_patches_def patch_misfits_def)
  have "grid_agrees (Columns bs) ?g (en_visible e)"
  proof (rule grid_agreesI)
    fix k assume k: "k < length ?g" "k < length (en_visible e)"
    show "row_agrees (Columns bs) k (?g ! k) (en_visible e ! k)"
    proof (cases "k = l")
      case True
      then show ?thesis using patch_row_agrees [OF _ _ fit(2)] grid_agreesD [OF Cons.prems(1), of l] k b by simp
    next
      case False
      then show ?thesis using grid_agreesD [OF Cons.prems(1), of k] k b by (simp add: row_agrees_iff)
    qed
  qed
  moreover have "patch_misfits ?g x = patch_misfits g x" for x
    using fit patch_row_length [of ?p "g ! l"] by (auto simp: patch_misfits_def nth_list_update)
  moreover have "\<not> list_ex (patch_misfits g) (damaged_patches e (Columns bs))"
    using Cons.prems(2) b by (auto simp: damaged_patches_def)
  ultimately have "grid_agrees (Columns []) (foldl (\<lambda>v p. v[cp_line p := patch_row p (v ! cp_line p)]) ?g
      (damaged_patches e (Columns bs))) (en_visible e)" by (intro Cons.IH) simp_all
  then show ?case using b by (simp add: damaged_patches_def)
qed (simp add: damaged_patches_def)

text \<open>
  A delta built from the engine's damage, applied to a replica that agrees with the engine up to
  that damage, leaves no difference on the rows both have, or is refused without a change.
\<close>

lemma apply_delta_exact:
  assumes "builder_delta e b = (d, e', b')" and "grid_agrees (en_damage e) (gr_visible g) (en_visible e)"
    and "apply_delta (d\<lparr>dl_seq := n\<rparr>) g = (Applied, g')"
  shows "grid_agrees (Columns []) (gr_visible g') (en_visible e)" and "gr_last_seq g' = n"
    and "length (gr_visible g') = length (gr_visible g)"
proof -
  have d: "dl_rows d = damaged_rows (e\<lparr>en_damage := Columns []\<rparr>) (en_damage e)"
      "dl_patches d = damaged_patches (e\<lparr>en_damage := Columns []\<rparr>) (en_damage e)"
    using assms(1) by (auto simp: builder_delta_def take_damage_def Let_def)
  let ?e = "e\<lparr>en_damage := Columns []\<rparr>"
  have er: "engine_row ?e = engine_row e" by (simp add: fun_eq_iff engine_row_def)
  have fit: "\<not> list_ex (\<lambda>(index, _). index \<ge> length (gr_visible g)) (dl_rows d)"
      "\<not> list_ex (patch_misfits (gr_visible g)) (dl_patches d)"
    and v: "gr_visible g' = foldl (\<lambda>v p. v[cp_line p := patch_row p (v ! cp_line p)])
        (foldl (\<lambda>v (index, r). v[index := r]) (gr_visible g) (dl_rows d)) (dl_patches d)"
    and s: "gr_last_seq g' = n"
    using assms(3) by (auto simp: apply_delta_def Let_def split: if_splits)
  show "gr_last_seq g' = n" by (rule s)
  show "length (gr_visible g') = length (gr_visible g)" by (simp add: v foldl_rows_length foldl_patches_length)
  show "grid_agrees (Columns []) (gr_visible g') (en_visible e)"
  proof (cases "en_damage e")
    case Full
    have r: "dl_rows d = enumerate 0 (en_visible e)" "dl_patches d = []"
      using d Full engine_rows_all [of ?e] by (simp_all add: damaged_rows_def damaged_patches_def)
    have "length (en_visible e) \<le> length (gr_visible g)"
    proof (rule ccontr)
      assume "\<not> ?thesis"
      then have "(length (gr_visible g), en_visible e ! length (gr_visible g)) \<in> set (dl_rows d)"
        unfolding r(1) by (auto simp: in_set_enumerate_eq)
      then show False using fit(1) by (force simp: list_ex_iff)
    qed
    then have "gr_visible g' ! i = en_visible e ! i" if "i < length (en_visible e)" for i
      using full_rows_exact [of i "gr_visible g" "en_visible e"] that v r by simp
    then show ?thesis by (intro grid_agreesI) simp
  next
    case (Partial "is")
    have r: "dl_rows d = map (\<lambda>i. (i, engine_row e (int i))) is" "dl_patches d = []"
      using d Partial by (simp_all add: damaged_rows_def damaged_patches_def engine_rows_one er)
    show ?thesis using partial_rows_exact [of "is" "gr_visible g" e] assms(2) Partial v r by simp
  next
    case (Columns bs)
    have r: "dl_rows d = []" "dl_patches d = damaged_patches ?e (Columns bs)"
      using d Columns by (simp_all add: damaged_rows_def)
    show ?thesis using column_patches_exact [of bs "gr_visible g" ?e] assms(2) Columns v r fit(2) by simp
  qed
qed

lemma apply_delta_refused: "apply_delta d g = (r, g') \<Longrightarrow> r \<noteq> Applied \<Longrightarrow> g' = g"
  by (auto simp: apply_delta_def Let_def split: if_splits)

lemma from_snapshot_fields [simp]:
  "gr_visible (from_snapshot s) = sn_visible s" "gr_last_seq (from_snapshot s) = sn_seq s"
  by (simp_all add: from_snapshot_def seed_scrollback_tail_def Let_def)

lemma apply_resync_fields [simp]:
  "gr_visible (apply_resync s g) = sn_visible s" "gr_last_seq (apply_resync s g) = sn_seq s"
  by (simp_all add: apply_resync_def seed_scrollback_tail_def Let_def)

text \<open>
  A replica does not notice that the screen became shorter: the full repaint after a resize to
  fewer rows is accepted, and the rows below the new screen keep their old contents.
\<close>

theorem shrink_keeps_stale_rows:
  assumes "builder_delta e b = (d, e', b')" and "en_damage e = Full"
    and "length (en_visible e) < length (gr_visible g)"
  shows "\<exists>g'. apply_delta (d\<lparr>dl_seq := gr_last_seq g + 1\<rparr>) g = (Applied, g')
    \<and> gr_visible g' = en_visible e @ drop (length (en_visible e)) (gr_visible g)"
proof -
  have r: "dl_rows d = enumerate 0 (en_visible e)" "dl_patches d = []"
    using assms(1,2) engine_rows_all [of "e\<lparr>en_damage := Columns []\<rparr>"]
    by (auto simp: builder_delta_def take_damage_def Let_def damaged_rows_def damaged_patches_def)
  have "\<not> list_ex (\<lambda>(index, _). index \<ge> length (gr_visible g)) (dl_rows d)"
    using assms(3) by (auto simp: r list_ex_iff in_set_enumerate_eq)
  then obtain g' where g': "apply_delta (d\<lparr>dl_seq := gr_last_seq g + 1\<rparr>) g = (Applied, g')"
      "gr_visible g' = foldl (\<lambda>v (index, r). v[index := r]) (gr_visible g) (enumerate 0 (en_visible e))"
    by (auto simp: apply_delta_def Let_def r)
  have rest: "n + length v \<le> i \<Longrightarrow> foldl (\<lambda>v (index, r). v[index := r]) w (enumerate n v) ! i = w ! i" for n i v and w :: "row list"
    by (induction v arbitrary: w n) auto
  have "gr_visible g' = en_visible e @ drop (length (en_visible e)) (gr_visible g)"
    unfolding g'(2)
  proof (rule nth_equalityI)
    fix i assume i: "i < length (foldl (\<lambda>v (index, r). v[index := r]) (gr_visible g) (enumerate 0 (en_visible e)))"
    then show "foldl (\<lambda>v (index, r). v[index := r]) (gr_visible g) (enumerate 0 (en_visible e)) ! i =
        (en_visible e @ drop (length (en_visible e)) (gr_visible g)) ! i"
      using full_rows_exact [of i "gr_visible g" "en_visible e"] rest [of 0 "en_visible e" i "gr_visible g"] assms(3)
      by (cases "i < length (en_visible e)") (simp_all add: nth_append foldl_rows_length)
  qed (use assms(3) in \<open>simp add: foldl_rows_length\<close>)
  then show ?thesis using g'(1) by blast
qed

abbreviation demo_engine :: "row list \<Rightarrow> damage \<Rightarrow> engine" where
  "demo_engine v d \<equiv> \<lparr>en_seq = 0, en_size = pty_size_default, en_visible = v, en_scrollback = [], en_generation = 0,
    en_cursor = term_cursor_default, en_modes = term_modes_default, en_title = None, en_damage = d\<rparr>"

theorem shrink_keeps_stale_rows_witness:
  "\<exists>d g'. apply_delta d (from_snapshot (engine_snapshot (demo_engine [row_blank 1, row_blank 2] Full) 0)) = (Applied, g')
     \<and> gr_visible g' = [row_blank 3, row_blank 2]"
proof -
  let ?e = "demo_engine [row_blank 3] Full"
  let ?g = "from_snapshot (engine_snapshot (demo_engine [row_blank 1, row_blank 2] Full) 0)"
  obtain d e' b' where b: "builder_delta ?e delta_builder_new = (d, e', b')" by (cases "builder_delta ?e delta_builder_new")
  have "length (en_visible ?e) < length (gr_visible ?g)" by (simp add: engine_snapshot_def)
  then show ?thesis using shrink_keeps_stale_rows [OF b] by (fastforce simp: engine_snapshot_def)
qed

end
