(* ===== verification/Protocol_Event.thy ===== *)
theory Protocol_Event
  imports Client_Grid Orch_Types
begin

text \<open>
  The daemon's messages to its clients (\<open>protocol/src/event.rs\<close>, \<open>protocol/src/lib.rs\<close>). Payloads whose
  fields no modelled operation reads are of an open type \<open>'x\<close>; of the others the fields that are read
  are there and the remaining ones are \<open>'x\<close> together.
\<close>

record project_group =
  pg_id :: project_group_id
  pg_name :: string
  pg_created_at :: timestamp

record project =
  pj_id :: project_id
  pj_project_group_id :: "project_group_id option"
  pj_name :: string
  pj_icon :: "string option"
  pj_root_path :: string
  pj_git_root :: "string option"
  pj_created_at :: timestamp
  pj_last_opened_at :: timestamp

record 'x client_workspace =
  cw_id :: workspace_id
  cw_project_id :: project_id
  cw_rest :: 'x

record 'x share_rule =
  sr_id :: share_rule_id
  sr_project_id :: project_id
  sr_rest :: 'x

record 'x worktree_ignore =
  wi_project_id :: project_id
  wi_rest :: 'x

record 'x project_action =
  pa_id :: project_action_id
  pa_project_id :: project_id
  pa_rest :: 'x

record 'x external_agent =
  xa_session_id :: string
  xa_project_id :: project_id
  xa_rest :: 'x

record 'x detection_result =
  dr_provider_id :: agent_provider_id
  dr_rest :: 'x

record 'x provider_info =
  pi_descriptor_id :: agent_provider_id
  pi_descriptor_rest :: 'x
  pi_detection :: "'x detection_result"

datatype (plugins only: code) 'x daemon_event =
    FactoryReset
  | ProjectGroupCreated project_group
  | ProjectGroupUpdated project_group
  | ProjectGroupRemoved project_group_id
  | ProjectAdded project
  | ProjectUpdated project
  | ProjectRemoved project_id
  | WorkspaceCreated "'x client_workspace"
  | WorkspaceUpdated "'x client_workspace"
  | WorkspaceRemoved workspace_id
  | SessionCreated session
  | SessionUpdated session
  | SessionRemoved session_id
  | ClipboardStore terminal_id string
  | EditorFrame session_id 'x
  | EditorFocusRequested session_id workspace_id string
  | TerminalDelta terminal_id terminal_delta
  | TerminalResync terminal_id terminal_snapshot
  | TerminalActivity terminal_id
  | TerminalBell terminal_id
  | ProviderUsageChanged "'x list"
  | AgentProfilesChanged "'x list"
  | ProjectSharesChanged project_id "'x share_rule list"
  | ProjectActionsChanged project_id "'x project_action list"
  | ProjectWorktreeIgnoresChanged project_id "'x worktree_ignore list"
  | SharesApplied workspace_id 'x
  | AgentDetectionChanged "'x detection_result list"
  | RemoteRefsUpdated project_id string nat "string option"
  | PullRequestOpened workspace_id "string option" "string option"
  | PullRequestDraftReady workspace_id session_id 'x
  | ReviewUpdated 'x
  | JuvaDraftReady workspace_id 'x bool
  | PullRequestsUpdated 'x
  | FileChanged workspace_id string
  | DaemonNotice 'x string
  | DaemonShuttingDown string
  | RunUpdated run
  | TaskUpdated task
  | AttemptUpdated attempt
  | RunRemoved run_id
  | MailboxChanged "session_id option" "run_id option" nat
  | RunStateChanged run_id string nat

text \<open>
  Of the responses only the attach acknowledgement matters here; every other message is \<open>'x\<close>.
\<close>

datatype 'x daemon_message =
    AttachAck nat terminal_snapshot
  | OtherMessage 'x
  | Event "'x daemon_event"

datatype client_kind = Gui | Cli | UnknownKind

end
