(* ===== verification/Daemon_Registry.thy ===== *)
theory Daemon_Registry
  imports Protocol_Event "HOL-Library.AList"
begin

text \<open>
  The registry of connected clients (\<open>daemon/src/registry.rs\<close>): per client a bounded outbound queue and
  its terminal subscriptions, domain broadcasts, and the routing of terminal deltas under
  backpressure. The table of clients is an association list; every loop over it treats the clients
  independently, so the order in which a \<open>HashMap\<close> yields them does not matter. The order in which
  \<open>recover\<close> meets the terminals of a \<open>HashSet\<close> is an argument.
\<close>

definition CLIENT_QUEUE_CAPACITY :: nat where "CLIENT_QUEUE_CAPACITY = 256"
definition DELTA_HIGH_WATER :: nat where "DELTA_HIGH_WATER = 64"
definition DELTA_LOW_WATER :: nat where "DELTA_LOW_WATER = 8"

record 'x client_handle =
  ch_tx :: "'x daemon_message list"
  ch_kind :: client_kind
  ch_inbox_session :: "session_id option"
  ch_subscriptions :: "terminal_id set"
  ch_behind :: "terminal_id set"
  ch_attaching :: "terminal_id \<rightharpoonup> bool"
  ch_finished :: "terminal_id \<rightharpoonup> 'x daemon_event"

type_synonym 'x registry = "(client_id \<times> 'x client_handle) list"

text \<open>\<open>try_send\<close> of the bounded channel: \<open>None\<close> when it is full.\<close>

definition try_send :: "'x daemon_message \<Rightarrow> 'x client_handle \<Rightarrow> 'x client_handle option" where
  "try_send msg c = (if length (ch_tx c) < CLIENT_QUEUE_CAPACITY then Some (c\<lparr>ch_tx := ch_tx c @ [msg]\<rparr>) else None)"

definition send_or_drop :: "'x daemon_message \<Rightarrow> 'x client_handle \<Rightarrow> 'x client_handle" where
  "send_or_drop msg c = (case try_send msg c of Some c' \<Rightarrow> c' | None \<Rightarrow> c)"

definition handle_new :: "client_kind \<Rightarrow> 'x client_handle" where
  "handle_new kind = \<lparr>ch_tx = [], ch_kind = kind, ch_inbox_session = None, ch_subscriptions = {}, ch_behind = {},
     ch_attaching = Map.empty, ch_finished = Map.empty\<rparr>"

definition modify_client :: "client_id \<Rightarrow> ('x client_handle \<Rightarrow> 'x client_handle) \<Rightarrow> 'x registry \<Rightarrow> 'x registry" where
  "modify_client cid f reg = map (\<lambda>(k, c). if k = cid then (k, f c) else (k, c)) reg"

definition for_clients :: "('x client_handle \<Rightarrow> 'x client_handle) \<Rightarrow> 'x registry \<Rightarrow> 'x registry" where
  "for_clients f reg = map (\<lambda>(k, c). (k, f c)) reg"

section \<open>Registration\<close>

definition register_kind :: "client_id \<Rightarrow> client_kind \<Rightarrow> 'x registry \<Rightarrow> 'x registry" where
  "register_kind cid kind reg = AList.update cid (handle_new kind) reg"

definition register :: "client_id \<Rightarrow> 'x registry \<Rightarrow> 'x registry" where
  "register cid reg = register_kind cid Gui reg"

definition set_inbox_watch :: "client_id \<Rightarrow> session_id option \<Rightarrow> 'x registry \<Rightarrow> 'x registry" where
  "set_inbox_watch cid sid reg = modify_client cid (\<lambda>c. c\<lparr>ch_inbox_session := sid\<rparr>) reg"

definition session_inbox_watched :: "session_id \<Rightarrow> 'x registry \<Rightarrow> bool" where
  "session_inbox_watched sid reg \<longleftrightarrow> list_ex (\<lambda>(_, c). ch_inbox_session c = Some sid) reg"

definition unregister :: "client_id \<Rightarrow> 'x registry \<Rightarrow> 'x registry" where
  "unregister cid reg = AList.delete cid reg"

definition client_count :: "'x registry \<Rightarrow> nat" where
  "client_count reg = length reg"

definition send_to :: "client_id \<Rightarrow> 'x daemon_message \<Rightarrow> 'x registry \<Rightarrow> bool \<times> 'x registry" where
  "send_to cid msg reg =
    (case map_of reg cid of
       None \<Rightarrow> (False, reg)
     | Some c \<Rightarrow> (case try_send msg c of
          None \<Rightarrow> (False, reg)
        | Some c' \<Rightarrow> (True, modify_client cid (\<lambda>_. c') reg)))"

fun cli_skips :: "client_kind \<Rightarrow> 'x daemon_event \<Rightarrow> bool" where
  "cli_skips kind ev \<longleftrightarrow> kind = Cli \<and>
    (case ev of
       TerminalActivity _ \<Rightarrow> True | TerminalBell _ \<Rightarrow> True | ClipboardStore _ _ \<Rightarrow> True
     | EditorFrame _ _ \<Rightarrow> True | EditorFocusRequested _ _ _ \<Rightarrow> True | ProviderUsageChanged _ \<Rightarrow> True
     | _ \<Rightarrow> False)"

definition broadcast_domain :: "'x daemon_event \<Rightarrow> 'x registry \<Rightarrow> 'x registry" where
  "broadcast_domain ev reg =
    for_clients (\<lambda>c. if cli_skips (ch_kind c) ev then c else send_or_drop (Event ev) c) reg"

section \<open>Subscriptions\<close>

definition subscribe :: "client_id \<Rightarrow> terminal_id \<Rightarrow> 'x registry \<Rightarrow> 'x registry" where
  "subscribe cid t reg = modify_client cid (\<lambda>c. c\<lparr>ch_subscriptions := insert t (ch_subscriptions c),
     ch_behind := ch_behind c - {t}\<rparr>) reg"

definition begin_attach :: "client_id \<Rightarrow> terminal_id \<Rightarrow> 'x registry \<Rightarrow> 'x registry" where
  "begin_attach cid t reg = modify_client cid (\<lambda>c. c\<lparr>ch_subscriptions := insert t (ch_subscriptions c),
     ch_behind := ch_behind c - {t}, ch_attaching := (ch_attaching c)(t \<mapsto> False)\<rparr>) reg"

definition finish_client :: "terminal_id \<Rightarrow> 'x client_handle \<Rightarrow> bool \<times> 'x client_handle" where
  "finish_client t c =
    (let missed = (case ch_attaching c t of Some m \<Rightarrow> m | None \<Rightarrow> False);
         c1 = c\<lparr>ch_attaching := (ch_attaching c)(t := None)\<rparr>
     in (missed, if missed \<and> t \<in> ch_subscriptions c1 then c1\<lparr>ch_behind := insert t (ch_behind c1)\<rparr> else c1))"

definition finish_attach :: "client_id \<Rightarrow> terminal_id \<Rightarrow> 'x registry \<Rightarrow> bool \<times> 'x registry" where
  "finish_attach cid t reg =
    (case map_of reg cid of
       None \<Rightarrow> (False, reg)
     | Some c \<Rightarrow> (fst (finish_client t c), modify_client cid (\<lambda>c. snd (finish_client t c)) reg))"

definition unsubscribe :: "client_id \<Rightarrow> terminal_id \<Rightarrow> 'x registry \<Rightarrow> 'x registry" where
  "unsubscribe cid t reg = modify_client cid (\<lambda>c. c\<lparr>ch_subscriptions := ch_subscriptions c - {t},
     ch_behind := ch_behind c - {t}, ch_attaching := (ch_attaching c)(t := None),
     ch_finished := (ch_finished c)(t := None)\<rparr>) reg"

definition subscriber_count :: "terminal_id \<Rightarrow> 'x registry \<Rightarrow> nat" where
  "subscriber_count t reg = length (filter (\<lambda>(_, c). t \<in> ch_subscriptions c) reg)"

definition has_subscribers :: "terminal_id \<Rightarrow> 'x registry \<Rightarrow> bool" where
  "has_subscribers t reg \<longleftrightarrow> list_ex (\<lambda>(_, c). t \<in> ch_subscriptions c) reg"

definition subscribed_terminals :: "'x registry \<Rightarrow> terminal_id set" where
  "subscribed_terminals reg = \<Union> (set (map (\<lambda>(_, c). ch_subscriptions c) reg))"

section \<open>Deltas under backpressure\<close>

definition route_client ::
  "terminal_id \<Rightarrow> 'x daemon_event \<Rightarrow> 'x daemon_event \<Rightarrow> 'x client_handle \<Rightarrow> 'x client_handle" where
  "route_client t delta resync c =
    (if t \<notin> ch_subscriptions c then c
     else if ch_attaching c t \<noteq> None then c\<lparr>ch_attaching := (ch_attaching c)(t \<mapsto> True)\<rparr>
     else if t \<in> ch_behind c then
       (if length (ch_tx c) > DELTA_LOW_WATER then c
        else case try_send (Event resync) c of
          Some c' \<Rightarrow> c'\<lparr>ch_behind := ch_behind c' - {t}\<rparr>
        | None \<Rightarrow> c)
     else if length (ch_tx c) \<ge> DELTA_HIGH_WATER then c\<lparr>ch_behind := insert t (ch_behind c)\<rparr>
     else case try_send (Event delta) c of
       Some c' \<Rightarrow> c'
     | None \<Rightarrow> c\<lparr>ch_behind := insert t (ch_behind c)\<rparr>)"

definition route_terminal_delta ::
  "terminal_id \<Rightarrow> 'x daemon_event \<Rightarrow> 'x daemon_event \<Rightarrow> 'x registry \<Rightarrow> 'x registry" where
  "route_terminal_delta t delta resync reg = for_clients (route_client t delta resync) reg"

definition needs_resync :: "client_id \<Rightarrow> 'x registry \<Rightarrow> bool" where
  "needs_resync cid reg \<longleftrightarrow> (case map_of reg cid of None \<Rightarrow> False | Some c \<Rightarrow> ch_behind c \<noteq> {})"

fun recover_client_loop ::
  "(terminal_id \<Rightarrow> 'x daemon_event option) \<Rightarrow> terminal_id list \<Rightarrow> 'x client_handle \<Rightarrow> 'x client_handle" where
  "recover_client_loop snapshot [] c = c"
| "recover_client_loop snapshot (t # ts) c =
    (if length (ch_tx c) > DELTA_LOW_WATER then c
     else
       let c1 = c\<lparr>ch_finished := (ch_finished c)(t := None)\<rparr>
       in case (case ch_finished c t of Some ev \<Rightarrow> Some ev | None \<Rightarrow> snapshot t) of
            None \<Rightarrow> recover_client_loop snapshot ts (c1\<lparr>ch_behind := ch_behind c1 - {t}\<rparr>)
          | Some ev \<Rightarrow> (case try_send (Event ev) c1 of
               None \<Rightarrow> c1\<lparr>ch_finished := (ch_finished c1)(t \<mapsto> ev)\<rparr>
             | Some c2 \<Rightarrow> recover_client_loop snapshot ts (c2\<lparr>ch_behind := ch_behind c2 - {t}\<rparr>)))"

text \<open>\<open>terminals\<close> is what iterating the client's \<open>behind\<close> set yielded.\<close>

definition recover ::
  "client_id \<Rightarrow> terminal_id list \<Rightarrow> (terminal_id \<Rightarrow> 'x daemon_event option) \<Rightarrow> 'x registry \<Rightarrow> 'x registry" where
  "recover cid terminals snapshot reg = modify_client cid (recover_client_loop snapshot terminals) reg"

definition finish_terminal :: "terminal_id \<Rightarrow> 'x daemon_event \<Rightarrow> 'x registry \<Rightarrow> 'x registry" where
  "finish_terminal t ev reg = for_clients (\<lambda>c.
     if t \<in> ch_behind c \<or> ch_attaching c t = Some True
     then c\<lparr>ch_finished := (ch_finished c)(t \<mapsto> ev)\<rparr> else c) reg"

definition notify_non_subscribers :: "terminal_id \<Rightarrow> 'x daemon_event \<Rightarrow> 'x registry \<Rightarrow> 'x registry" where
  "notify_non_subscribers t ev reg = for_clients (\<lambda>c.
     if cli_skips (ch_kind c) ev then c
     else if t \<notin> ch_subscriptions c then send_or_drop (Event ev) c else c) reg"

section \<open>Lookups\<close>

lemma map_of_modify [simp]:
  "map_of (modify_client c f reg) k = (if k = c then map_option f (map_of reg k) else map_of reg k)"
  by (induction reg) (auto simp: modify_client_def)

lemma map_of_for_clients [simp]: "map_of (for_clients f reg) k = map_option f (map_of reg k)"
  by (induction reg) (auto simp: for_clients_def)

lemma map_of_register: "map_of (register_kind c kind reg) k = (if k = c then Some (handle_new kind) else map_of reg k)"
  by (simp add: register_kind_def update_conv')

lemma map_of_unregister: "map_of (unregister c reg) k = (if k = c then None else map_of reg k)"
  by (simp add: unregister_def delete_conv')

section \<open>Any sequence of operations\<close>

text \<open>The registry's operations, and the queue's reader taking the next message.\<close>

datatype 'x registry_op =
    OpRegister client_id client_kind
  | OpInbox client_id "session_id option"
  | OpUnregister client_id
  | OpSend client_id "'x daemon_message"
  | OpBroadcast "'x daemon_event"
  | OpSubscribe client_id terminal_id
  | OpBegin client_id terminal_id
  | OpFinish client_id terminal_id
  | OpUnsubscribe client_id terminal_id
  | OpRoute terminal_id "'x daemon_event" "'x daemon_event"
  | OpRecover client_id "terminal_id list" "terminal_id \<Rightarrow> 'x daemon_event option"
  | OpEnd terminal_id "'x daemon_event"
  | OpNotify terminal_id "'x daemon_event"
  | OpTake client_id

primrec registry_step :: "'x registry_op \<Rightarrow> 'x registry \<Rightarrow> 'x registry" where
  "registry_step (OpRegister c k) reg = register_kind c k reg"
| "registry_step (OpInbox c s) reg = set_inbox_watch c s reg"
| "registry_step (OpUnregister c) reg = unregister c reg"
| "registry_step (OpSend c m) reg = snd (send_to c m reg)"
| "registry_step (OpBroadcast ev) reg = broadcast_domain ev reg"
| "registry_step (OpSubscribe c t) reg = subscribe c t reg"
| "registry_step (OpBegin c t) reg = begin_attach c t reg"
| "registry_step (OpFinish c t) reg = snd (finish_attach c t reg)"
| "registry_step (OpUnsubscribe c t) reg = unsubscribe c t reg"
| "registry_step (OpRoute t d r) reg = route_terminal_delta t d r reg"
| "registry_step (OpRecover c ts f) reg = recover c ts f reg"
| "registry_step (OpEnd t ev) reg = finish_terminal t ev reg"
| "registry_step (OpNotify t ev) reg = notify_non_subscribers t ev reg"
| "registry_step (OpTake c) reg = modify_client c (\<lambda>h. h\<lparr>ch_tx := tl (ch_tx h)\<rparr>) reg"

text \<open>
  A handle is well formed when its queue is within capacity, only subscribed terminals are behind or
  being attached, and none is both.
\<close>

definition handle_ok :: "'x client_handle \<Rightarrow> bool" where
  "handle_ok h \<longleftrightarrow> length (ch_tx h) \<le> CLIENT_QUEUE_CAPACITY
    \<and> (\<forall>t. (t \<in> ch_behind h \<longrightarrow> t \<in> ch_subscriptions h)
           \<and> (ch_attaching h t \<noteq> None \<longrightarrow> t \<in> ch_subscriptions h \<and> t \<notin> ch_behind h))"

definition registry_ok :: "'x registry \<Rightarrow> bool" where
  "registry_ok reg \<longleftrightarrow> distinct (map fst reg) \<and> list_all (\<lambda>(_, h). handle_ok h) reg"

lemma try_send_ok: "handle_ok h \<Longrightarrow> try_send m h = Some h' \<Longrightarrow> handle_ok h'"
  by (auto simp: try_send_def handle_ok_def split: if_splits)

lemma send_or_drop_ok: "handle_ok h \<Longrightarrow> handle_ok (send_or_drop m h)"
  by (auto simp: send_or_drop_def try_send_ok split: option.splits)

lemma route_client_ok: "handle_ok h \<Longrightarrow> handle_ok (route_client t d r h)"
  by (auto simp: route_client_def try_send_def handle_ok_def split: option.splits)

lemma recover_loop_ok: "handle_ok h \<Longrightarrow> handle_ok (recover_client_loop f ts h)"
proof (induction ts arbitrary: h)
  case (Cons t ts)
  have "handle_ok (h\<lparr>ch_finished := x, ch_behind := ch_behind h - {t}\<rparr>)"
      "length (ch_tx h) < CLIENT_QUEUE_CAPACITY \<Longrightarrow> handle_ok (h\<lparr>ch_finished := x, ch_tx := ch_tx h @ [m], ch_behind := ch_behind h - {t}\<rparr>)"
      "handle_ok (h\<lparr>ch_finished := x\<rparr>)" for x m
    using Cons.prems by (auto simp: handle_ok_def)
  then show ?case using Cons.IH Cons.prems by (auto simp: Let_def try_send_def split: option.splits)
qed simp

lemma map_fst_clients [simp]: "map fst (modify_client c f reg) = map fst reg" "map fst (for_clients f reg) = map fst reg"
  by (auto simp: modify_client_def for_clients_def)

lemma registry_ok_modify: "registry_ok reg \<Longrightarrow> (\<And>h. handle_ok h \<Longrightarrow> handle_ok (f h)) \<Longrightarrow> registry_ok (modify_client c f reg)"
  by (auto simp: registry_ok_def list_all_iff) (auto simp: modify_client_def split: if_splits)

lemma registry_ok_for: "registry_ok reg \<Longrightarrow> (\<And>h. handle_ok h \<Longrightarrow> handle_ok (f h)) \<Longrightarrow> registry_ok (for_clients f reg)"
  by (auto simp: registry_ok_def list_all_iff) (auto simp: for_clients_def)

lemma registry_ok_update: "registry_ok reg \<Longrightarrow> handle_ok h \<Longrightarrow> registry_ok (AList.update c h reg)"
  by (induction reg) (auto simp: registry_ok_def dom_update)

lemma registry_ok_delete: "registry_ok reg \<Longrightarrow> registry_ok (AList.delete c reg)"
  by (auto simp: registry_ok_def list_all_iff distinct_map_filter AList.delete_eq)

lemma registry_ok_lookup: "registry_ok reg \<Longrightarrow> map_of reg c = Some h \<Longrightarrow> handle_ok h"
  by (auto simp: registry_ok_def list_all_iff dest: map_of_SomeD)

lemma registry_step_ok:
  assumes "registry_ok reg"
  shows "registry_ok (registry_step op reg)"
proof (cases op)
  case (OpSend c m)
  then show ?thesis using assms
    by (auto simp: send_to_def split: option.splits intro!: registry_ok_modify dest: registry_ok_lookup try_send_ok)
next
  case (OpFinish c t)
  have "handle_ok h \<Longrightarrow> handle_ok (snd (finish_client t h))" for h :: "'a client_handle"
    by (auto simp: finish_client_def handle_ok_def Let_def split: if_splits)
  then show ?thesis using assms OpFinish by (auto simp: finish_attach_def split: option.splits intro!: registry_ok_modify)
next
  case (OpRecover c ts f)
  then show ?thesis using assms by (simp add: recover_def registry_ok_modify recover_loop_ok)
qed (use assms in \<open>auto simp: register_kind_def set_inbox_watch_def unregister_def broadcast_domain_def subscribe_def
      begin_attach_def unsubscribe_def route_terminal_delta_def finish_terminal_def notify_non_subscribers_def
      send_or_drop_ok route_client_ok registry_ok_update registry_ok_delete handle_new_def
      intro!: registry_ok_modify registry_ok_for registry_ok_update,
    auto simp: handle_ok_def\<close>)

text \<open>
  C31: After any sequence of the registry's operations every client is listed once, its outbound queue
  holds at most 256 messages, only terminals it is subscribed to are marked behind or being attached,
  and no terminal is both.
\<close>

theorem registry_invariant: "registry_ok (foldl (\<lambda>reg op. registry_step op reg) [] ops)"
proof -
  have "registry_ok reg \<Longrightarrow> registry_ok (foldl (\<lambda>reg op. registry_step op reg) reg ops)" for reg :: "'a registry"
    by (induction ops arbitrary: reg) (simp_all add: registry_step_ok)
  then show ?thesis by (simp add: registry_ok_def)
qed

section \<open>Headroom and recovery\<close>

lemma route_client_length: "length (ch_tx (route_client t d r h)) \<le> max (length (ch_tx h)) DELTA_HIGH_WATER"
  by (auto simp: route_client_def try_send_def DELTA_LOW_WATER_def DELTA_HIGH_WATER_def split: option.splits)

lemma route_all_length:
  assumes "map_of reg c = Some h"
  shows "\<exists>h'. map_of (foldl (\<lambda>reg (t, d, r). route_terminal_delta t d r reg) reg frames) c = Some h'
    \<and> length (ch_tx h') \<le> max (length (ch_tx h)) DELTA_HIGH_WATER"
  using assms
proof (induction frames arbitrary: reg h)
  case (Cons fr frames)
  obtain t d r where fr: "fr = (t, d, r)" by (metis prod_cases3)
  have "map_of (route_terminal_delta t d r reg) c = Some (route_client t d r h)"
    using Cons.prems by (simp add: route_terminal_delta_def)
  from Cons.IH [OF this] show ?case
    using route_client_length [of t d r h] by (fastforce simp: fr)
qed simp

text \<open>
  Terminal output never costs a client a response: however many frames of whatever terminals are
  routed while a client reads nothing, a response can still be queued for it if it could be before.
\<close>

theorem deltas_leave_room_for_responses:
  assumes "map_of reg c = Some h" "length (ch_tx h) < CLIENT_QUEUE_CAPACITY"
  shows "fst (send_to c m (foldl (\<lambda>reg (t, d, r). route_terminal_delta t d r reg) reg frames))"
proof -
  obtain h' where "map_of (foldl (\<lambda>reg (t, d, r). route_terminal_delta t d r reg) reg frames) c = Some h'"
      "length (ch_tx h') \<le> max (length (ch_tx h)) DELTA_HIGH_WATER"
    using route_all_length [OF assms(1)] by blast
  then show ?thesis
    using assms(2) by (simp add: send_to_def try_send_def DELTA_HIGH_WATER_def CLIENT_QUEUE_CAPACITY_def)
qed

theorem deltas_leave_room_for_responses_witness:
  "fst (send_to (ClientId 1) (OtherMessage ()) (foldl (\<lambda>reg (t, d, r). route_terminal_delta t d r reg)
     [(ClientId 1, handle_new Gui)] (replicate 300 (TerminalId 7, TerminalBell (TerminalId 7), TerminalBell (TerminalId 7)))))"
  by (rule deltas_leave_room_for_responses [where h = "handle_new Gui"]) (simp_all add: handle_new_def CLIENT_QUEUE_CAPACITY_def)

text \<open>What recovery owes a terminal: the kept last screen, or else a snapshot if it still runs.\<close>

definition owed :: "(terminal_id \<Rightarrow> 'x daemon_event option) \<Rightarrow> 'x client_handle \<Rightarrow> terminal_id \<Rightarrow> 'x daemon_event option" where
  "owed f h t = (case ch_finished h t of Some ev \<Rightarrow> Some ev | None \<Rightarrow> f t)"

lemma recover_one:
  assumes "length (ch_tx h) \<le> DELTA_LOW_WATER"
  shows "recover_client_loop f (t # ts) h =
    (case (case ch_finished h t of Some ev \<Rightarrow> Some ev | None \<Rightarrow> f t) of
       None \<Rightarrow> recover_client_loop f ts (h\<lparr>ch_finished := (ch_finished h)(t := None), ch_behind := ch_behind h - {t}\<rparr>)
     | Some ev \<Rightarrow> recover_client_loop f ts (h\<lparr>ch_finished := (ch_finished h)(t := None), ch_tx := ch_tx h @ [Event ev],
         ch_behind := ch_behind h - {t}\<rparr>))"
  using assms
  by (simp add: Let_def try_send_def DELTA_LOW_WATER_def CLIENT_QUEUE_CAPACITY_def split: option.splits)

lemma recover_loop_settles:
  "distinct ts \<Longrightarrow> length (ch_tx h) + length ts \<le> Suc DELTA_LOW_WATER \<Longrightarrow>
    ch_behind (recover_client_loop f ts h) = ch_behind h - set ts
    \<and> ch_tx (recover_client_loop f ts h) = ch_tx h @ map Event (List.map_filter (owed f h) ts)"
proof (induction ts arbitrary: h)
  case (Cons t ts)
  have mf: "List.map_filter (owed f h') ts = List.map_filter (owed f h) ts"
    if "ch_finished h' = (ch_finished h)(t := None)" for h'
  proof -
    have "owed f h' u = owed f h u" if "u \<in> set ts" for u
      using Cons.prems(1) that \<open>ch_finished h' = _\<close> by (auto simp: owed_def)
    then show ?thesis by (auto simp: List.map_filter_def intro!: map_cong filter_cong)
  qed
  have short: "length (ch_tx h) \<le> DELTA_LOW_WATER" using Cons.prems(2) by simp
  show ?case
  proof (cases "owed f h t")
    case None
    let ?h = "h\<lparr>ch_finished := (ch_finished h)(t := None), ch_behind := ch_behind h - {t}\<rparr>"
    have "recover_client_loop f (t # ts) h = recover_client_loop f ts ?h"
      unfolding recover_one [OF short] using None by (simp add: owed_def split: option.splits)
    then show ?thesis using Cons.IH [of ?h] Cons.prems None mf [of ?h] by (auto simp: map_filter_simps)
  next
    case (Some ev)
    let ?h = "h\<lparr>ch_finished := (ch_finished h)(t := None), ch_tx := ch_tx h @ [Event ev], ch_behind := ch_behind h - {t}\<rparr>"
    have "recover_client_loop f (t # ts) h = recover_client_loop f ts ?h"
      unfolding recover_one [OF short] using Some by (simp add: owed_def split: option.splits)
    then show ?thesis using Cons.IH [of ?h] Cons.prems Some mf [of ?h] by (auto simp: map_filter_simps)
  qed
qed (simp add: map_filter_simps)

text \<open>
  C32: Recovery settles a client: when its queue has room for every terminal that is behind, each gets
  one event, the screen kept at its end or else the fresh snapshot, in the order they are met, nothing
  else is queued, and no terminal is behind afterwards.
\<close>

theorem recover_settles:
  assumes "map_of reg c = Some h" "set ts = ch_behind h" "distinct ts" "length (ch_tx h) + length ts \<le> 9"
  shows "\<not> needs_resync c (recover c ts f reg)
    \<and> map_option ch_tx (map_of (recover c ts f reg) c) = Some (ch_tx h @ map Event (List.map_filter (owed f h) ts))"
  using assms recover_loop_settles [of ts h f] by (simp add: needs_resync_def recover_def DELTA_LOW_WATER_def)

theorem recover_settles_witness:
  "\<not> needs_resync (ClientId 1) (recover (ClientId 1) [TerminalId 7, TerminalId 8] (\<lambda>t. Some (TerminalBell t))
      [(ClientId 1, (handle_new Gui)\<lparr>ch_behind := {TerminalId 7, TerminalId 8}\<rparr> :: unit client_handle)])"
  using recover_settles [of "[(ClientId 1, (handle_new Gui)\<lparr>ch_behind := {TerminalId 7, TerminalId 8}\<rparr> :: unit client_handle)]"
      "ClientId 1" "(handle_new Gui)\<lparr>ch_behind := {TerminalId 7, TerminalId 8}\<rparr>" "[TerminalId 7, TerminalId 8]"]
  by (simp add: handle_new_def)

end
