(* ===== verification/Client_Store.thy ===== *)
theory Client_Store
  imports Protocol_Event
begin

text \<open>
  The client's passive replica of the daemon's state, \<open>Store\<close> of \<open>client/src/store.rs\<close>: snapshots, the
  events that keep it current, and the marks for terminals that ask for the user. Lists keep the
  code's order; the maps and sets of terminals are HOL maps and sets.
\<close>

datatype event_outcome = EvApplied | EvUnchanged | EvNeedsResync terminal_id | EvIgnored

record 'x store =
  sto_project_groups :: "project_group list"
  sto_projects :: "project list"
  sto_workspaces :: "'x client_workspace list"
  sto_sessions :: "session list"
  sto_external_agents :: "'x external_agent list"
  sto_providers :: "'x provider_info list"
  sto_agent_profiles :: "'x list"
  sto_worktree_shares :: "'x share_rule list"
  sto_worktree_ignores :: "'x worktree_ignore list"
  sto_project_actions :: "'x project_action list"
  sto_app_state :: "(string \<times> string) list"
  sto_usage :: "'x list"
  sto_pull_requests :: 'x
  sto_runs :: "run_view list"
  sto_terminals :: "terminal_id \<rightharpoonup> cell_grid"
  sto_pending_bell :: "terminal_id set"
  sto_pending_activity :: "terminal_id set"

text \<open>\<open>Store::new\<close>; \<open>no_prs\<close> is \<open>PullRequestState::default()\<close>.\<close>

definition store_new :: "'x \<Rightarrow> 'x store" where
  "store_new no_prs = \<lparr>sto_project_groups = [], sto_projects = [], sto_workspaces = [], sto_sessions = [],
     sto_external_agents = [], sto_providers = [], sto_agent_profiles = [], sto_worktree_shares = [],
     sto_worktree_ignores = [], sto_project_actions = [], sto_app_state = [], sto_usage = [],
     sto_pull_requests = no_prs, sto_runs = [], sto_terminals = Map.empty, sto_pending_bell = {},
     sto_pending_activity = {}\<rparr>"

record 'x snapshot_response =
  sr_project_groups :: "project_group list"
  sr_projects :: "project list"
  sr_workspaces :: "'x client_workspace list"
  sr_sessions :: "session list"
  sr_providers :: "'x provider_info list"
  sr_agent_profiles :: "'x list"
  sr_worktree_shares :: "'x share_rule list"
  sr_worktree_ignores :: "'x worktree_ignore list"
  sr_project_actions :: "'x project_action list"
  sr_app_state :: "(string \<times> string) list"
  sr_external_agents :: "'x external_agent list"
  sr_pull_requests :: 'x
  sr_runs :: "run_view list"
  sr_usage :: "'x list"

definition live_terminals :: "session list \<Rightarrow> terminal_id set" where
  "live_terminals ss = set (concat (map (\<lambda>s. case s_terminal_id s of None \<Rightarrow> [] | Some t \<Rightarrow> [t]) ss))"

definition prune_pending :: "'x store \<Rightarrow> 'x store" where
  "prune_pending st =
    (let live = live_terminals (sto_sessions st)
     in st\<lparr>sto_pending_bell := sto_pending_bell st \<inter> live, sto_pending_activity := sto_pending_activity st \<inter> live\<rparr>)"

definition apply_snapshot :: "'x snapshot_response \<Rightarrow> 'x store \<Rightarrow> 'x store" where
  "apply_snapshot r st = prune_pending (st\<lparr>sto_project_groups := sr_project_groups r, sto_projects := sr_projects r,
     sto_workspaces := sr_workspaces r, sto_sessions := sr_sessions r, sto_providers := sr_providers r,
     sto_agent_profiles := sr_agent_profiles r, sto_worktree_shares := sr_worktree_shares r,
     sto_worktree_ignores := sr_worktree_ignores r, sto_project_actions := sr_project_actions r,
     sto_app_state := sr_app_state r, sto_external_agents := sr_external_agents r,
     sto_pull_requests := sr_pull_requests r, sto_runs := sr_runs r, sto_usage := sr_usage r\<rparr>)"

fun upsert_by :: "'a \<Rightarrow> ('a \<Rightarrow> bool) \<Rightarrow> 'a list \<Rightarrow> 'a list" where
  "upsert_by v is_match [] = [v]"
| "upsert_by v is_match (x # xs) = (if is_match x then v # xs else x # upsert_by v is_match xs)"

definition detect_one :: "'x detection_result \<Rightarrow> 'x provider_info list \<Rightarrow> 'x provider_info list" where
  "detect_one res ps =
    (case List.extract (\<lambda>p. pi_descriptor_id p = dr_provider_id res) ps of
       None \<Rightarrow> ps
     | Some (before, p, after) \<Rightarrow> before @ p\<lparr>pi_detection := res\<rparr> # after)"

definition remove_session :: "session_id \<Rightarrow> 'x store \<Rightarrow> 'x store" where
  "remove_session sid st =
    (let st1 = (case find (\<lambda>s. s_id s = sid) (sto_sessions st) of
           Some s \<Rightarrow> (case s_terminal_id s of
               Some t \<Rightarrow> st\<lparr>sto_terminals := (sto_terminals st)(t := None),
                    sto_pending_bell := sto_pending_bell st - {t},
                    sto_pending_activity := sto_pending_activity st - {t}\<rparr>
             | None \<Rightarrow> st)
         | None \<Rightarrow> st)
     in prune_pending (st1\<lparr>sto_sessions := filter (\<lambda>s. s_id s \<noteq> sid) (sto_sessions st1)\<rparr>))"

fun apply_event :: "'x \<Rightarrow> 'x daemon_event \<Rightarrow> 'x store \<Rightarrow> event_outcome \<times> 'x store" where
  "apply_event no_prs FactoryReset st = (EvApplied, (store_new no_prs)\<lparr>sto_providers := sto_providers st\<rparr>)"
| "apply_event no_prs (ProjectGroupCreated g) st =
    (EvApplied, st\<lparr>sto_project_groups := upsert_by g (\<lambda>x. pg_id x = pg_id g) (sto_project_groups st)\<rparr>)"
| "apply_event no_prs (ProjectGroupUpdated g) st =
    (EvApplied, st\<lparr>sto_project_groups := upsert_by g (\<lambda>x. pg_id x = pg_id g) (sto_project_groups st)\<rparr>)"
| "apply_event no_prs (ProjectGroupRemoved gid) st =
    (EvApplied, st\<lparr>sto_project_groups := filter (\<lambda>x. pg_id x \<noteq> gid) (sto_project_groups st),
       sto_projects := map (\<lambda>p. if pj_project_group_id p = Some gid then p\<lparr>pj_project_group_id := None\<rparr> else p)
         (sto_projects st)\<rparr>)"
| "apply_event no_prs (ProjectAdded p) st =
    (EvApplied, st\<lparr>sto_projects := upsert_by p (\<lambda>x. pj_id x = pj_id p) (sto_projects st)\<rparr>)"
| "apply_event no_prs (ProjectUpdated p) st =
    (EvApplied, st\<lparr>sto_projects := upsert_by p (\<lambda>x. pj_id x = pj_id p) (sto_projects st)\<rparr>)"
| "apply_event no_prs (ProjectRemoved pid) st =
    (EvApplied, st\<lparr>sto_projects := filter (\<lambda>x. pj_id x \<noteq> pid) (sto_projects st),
       sto_worktree_shares := filter (\<lambda>x. sr_project_id x \<noteq> pid) (sto_worktree_shares st),
       sto_worktree_ignores := filter (\<lambda>x. wi_project_id x \<noteq> pid) (sto_worktree_ignores st),
       sto_project_actions := filter (\<lambda>x. pa_project_id x \<noteq> pid) (sto_project_actions st),
       sto_external_agents := filter (\<lambda>x. xa_project_id x \<noteq> pid) (sto_external_agents st)\<rparr>)"
| "apply_event no_prs (WorkspaceCreated w) st =
    (EvApplied, st\<lparr>sto_workspaces := upsert_by w (\<lambda>x. cw_id x = cw_id w) (sto_workspaces st)\<rparr>)"
| "apply_event no_prs (WorkspaceUpdated w) st =
    (EvApplied, st\<lparr>sto_workspaces := upsert_by w (\<lambda>x. cw_id x = cw_id w) (sto_workspaces st)\<rparr>)"
| "apply_event no_prs (WorkspaceRemoved wid) st =
    (EvApplied, st\<lparr>sto_workspaces := filter (\<lambda>x. cw_id x \<noteq> wid) (sto_workspaces st)\<rparr>)"
| "apply_event no_prs (SessionCreated s) st =
    (EvApplied, st\<lparr>sto_sessions := upsert_by s (\<lambda>x. s_id x = s_id s) (sto_sessions st)\<rparr>)"
| "apply_event no_prs (SessionUpdated s) st =
    (EvApplied, st\<lparr>sto_sessions := upsert_by s (\<lambda>x. s_id x = s_id s) (sto_sessions st)\<rparr>)"
| "apply_event no_prs (SessionRemoved sid) st = (EvApplied, remove_session sid st)"
| "apply_event no_prs (TerminalDelta t delta) st =
    (case sto_terminals st t of
       None \<Rightarrow> (EvIgnored, st)
     | Some g \<Rightarrow> (case apply_delta delta g of
          (NeedsResync, g') \<Rightarrow> (EvNeedsResync t, st\<lparr>sto_terminals := (sto_terminals st)(t \<mapsto> g')\<rparr>)
        | (_, g') \<Rightarrow> (EvApplied, st\<lparr>sto_terminals := (sto_terminals st)(t \<mapsto> g')\<rparr>)))"
| "apply_event no_prs (TerminalResync t snap) st =
    (case sto_terminals st t of
       None \<Rightarrow> (EvIgnored, st)
     | Some g \<Rightarrow> if sn_seq snap < gr_last_seq g then (EvIgnored, st)
         else (EvApplied, st\<lparr>sto_terminals := (sto_terminals st)(t \<mapsto> apply_resync snap g)\<rparr>))"
| "apply_event no_prs (TerminalActivity t) st =
    (EvApplied, case sto_terminals st t of
       Some g \<Rightarrow> st\<lparr>sto_terminals := (sto_terminals st)(t \<mapsto> g\<lparr>gr_activity := True\<rparr>)\<rparr>
     | None \<Rightarrow> st\<lparr>sto_pending_activity := insert t (sto_pending_activity st)\<rparr>)"
| "apply_event no_prs (TerminalBell t) st =
    (EvApplied, let st1 = st\<lparr>sto_pending_bell := insert t (sto_pending_bell st)\<rparr> in
       case sto_terminals st1 t of
         Some g \<Rightarrow> st1\<lparr>sto_terminals := (sto_terminals st1)(t \<mapsto> g\<lparr>gr_bell := True\<rparr>)\<rparr>
       | None \<Rightarrow> st1)"
| "apply_event no_prs (ProviderUsageChanged u) st = (EvApplied, st\<lparr>sto_usage := u\<rparr>)"
| "apply_event no_prs (AgentProfilesChanged ps) st = (EvApplied, st\<lparr>sto_agent_profiles := ps\<rparr>)"
| "apply_event no_prs (ProjectSharesChanged pid rules) st =
    (EvApplied, st\<lparr>sto_worktree_shares := filter (\<lambda>x. sr_project_id x \<noteq> pid) (sto_worktree_shares st) @ rules\<rparr>)"
| "apply_event no_prs (ProjectActionsChanged pid actions) st =
    (EvApplied, st\<lparr>sto_project_actions := filter (\<lambda>x. pa_project_id x \<noteq> pid) (sto_project_actions st) @ actions\<rparr>)"
| "apply_event no_prs (ProjectWorktreeIgnoresChanged pid rules) st =
    (EvApplied, st\<lparr>sto_worktree_ignores := filter (\<lambda>x. wi_project_id x \<noteq> pid) (sto_worktree_ignores st) @ rules\<rparr>)"
| "apply_event no_prs (PullRequestsUpdated s) st = (EvApplied, st\<lparr>sto_pull_requests := s\<rparr>)"
| "apply_event no_prs (AgentDetectionChanged results) st =
    (EvApplied, st\<lparr>sto_providers := foldl (\<lambda>ps res. detect_one res ps) (sto_providers st) results\<rparr>)"
| "apply_event no_prs _ st = (EvUnchanged, st)"

definition attach_terminal :: "terminal_id \<Rightarrow> terminal_snapshot \<Rightarrow> 'x store \<Rightarrow> 'x store" where
  "attach_terminal t snap st = st\<lparr>sto_pending_activity := sto_pending_activity st - {t},
     sto_terminals := (sto_terminals st)(t \<mapsto> from_snapshot snap)\<rparr>"

definition wants_attention :: "terminal_id \<Rightarrow> 'x store \<Rightarrow> bool" where
  "wants_attention t st \<longleftrightarrow> t \<in> sto_pending_bell st"

definition answer_attention :: "terminal_id \<Rightarrow> 'x store \<Rightarrow> bool \<times> 'x store" where
  "answer_attention t st =
    (t \<in> sto_pending_bell st,
     st\<lparr>sto_terminals := (case sto_terminals st t of Some g \<Rightarrow> (sto_terminals st)(t \<mapsto> g\<lparr>gr_bell := False\<rparr>)
            | None \<Rightarrow> sto_terminals st),
        sto_pending_bell := sto_pending_bell st - {t}\<rparr>)"

definition has_unread :: "terminal_id \<Rightarrow> 'x store \<Rightarrow> bool" where
  "has_unread t st \<longleftrightarrow> t \<in> sto_pending_activity st"

definition detach_terminal :: "terminal_id \<Rightarrow> 'x store \<Rightarrow> 'x store" where
  "detach_terminal t st = st\<lparr>sto_terminals := (sto_terminals st)(t := None)\<rparr>"

definition store_merge_scrollback :: "terminal_id \<Rightarrow> scrollback_rows \<Rightarrow> 'x store \<Rightarrow> 'x store" where
  "store_merge_scrollback t block st =
    (case sto_terminals st t of
       None \<Rightarrow> st
     | Some g \<Rightarrow> st\<lparr>sto_terminals := (sto_terminals st)(t \<mapsto> merge_scrollback block g)\<rparr>)"

definition app_state_value :: "string \<Rightarrow> 'x store \<Rightarrow> string option" where
  "app_state_value k st = map_option snd (find (\<lambda>(k', _). k' = k) (sto_app_state st))"

section \<open>Lookups survive updates\<close>

lemma upsert_keys: "key ` set (upsert_by v (\<lambda>x. key x = key v) xs) = insert (key v) (key ` set xs)"
  by (induction xs) auto

lemma upsert_distinct: "distinct (map key xs) \<Longrightarrow> distinct (map key (upsert_by v (\<lambda>x. key x = key v) xs))"
  by (induction xs) (auto simp: upsert_keys [of key v])

lemma find_upsert:
  "find (\<lambda>x. key x = k) (upsert_by v (\<lambda>x. key x = key v) xs) = (if k = key v then Some v else find (\<lambda>x. key x = k) xs)"
  by (induction xs) auto

lemma find_filter_key:
  "find (\<lambda>x. key x = k) (filter (\<lambda>x. key x \<noteq> k') xs) = (if k = k' then None else find (\<lambda>x. key x = k) xs)"
  by (induction xs) auto

lemma distinct_map_filter_key: "distinct (map f xs) \<Longrightarrow> distinct (map f (filter P xs))"
  by (rule distinct_map_filter)

text \<open>Every list that is keyed by an id has each id once.\<close>

definition store_ok :: "'x store \<Rightarrow> bool" where
  "store_ok st \<longleftrightarrow> distinct (map pg_id (sto_project_groups st)) \<and> distinct (map pj_id (sto_projects st))
    \<and> distinct (map cw_id (sto_workspaces st)) \<and> distinct (map s_id (sto_sessions st))"

lemma remove_session_fields [simp]:
  "sto_project_groups (remove_session sid st) = sto_project_groups st" "sto_projects (remove_session sid st) = sto_projects st"
  "sto_workspaces (remove_session sid st) = sto_workspaces st"
  "sto_sessions (remove_session sid st) = filter (\<lambda>s. s_id s \<noteq> sid) (sto_sessions st)"
  by (simp_all add: remove_session_def prune_pending_def Let_def split: option.splits)

lemma regroup_ids: "map pj_id (map (\<lambda>p. if c p then p\<lparr>pj_project_group_id := g\<rparr> else p) ps) = map pj_id ps"
  by simp

lemma store_ok_event: "store_ok st \<Longrightarrow> store_ok (snd (apply_event np ev st))"
  by (cases ev)
    (auto simp: store_ok_def store_new_def upsert_distinct distinct_map_filter_key Let_def comp_def if_distrib cong: if_cong
       split: option.splits prod.splits if_splits delta_outcome.splits)

text \<open>
  C34: A replica that only follows events never lists a project group, project, workspace or session
  twice, whatever events arrive in whatever order, repeated or out of turn.
\<close>

theorem events_keep_ids_distinct: "store_ok (foldl (\<lambda>st ev. snd (apply_event np ev st)) (store_new np) evs)"
proof -
  have "store_ok st \<Longrightarrow> store_ok (foldl (\<lambda>st ev. snd (apply_event np ev st)) st evs)" for st :: "'a store"
    by (induction evs arbitrary: st) (simp_all add: store_ok_event)
  then show ?thesis by (simp add: store_ok_def store_new_def)
qed

section \<open>The session list follows the daemon's table\<close>

definition session_lookup :: "'x store \<Rightarrow> session_id \<rightharpoonup> session" where
  "session_lookup st sid = find (\<lambda>s. s_id s = sid) (sto_sessions st)"

lemma lookup_event:
  "session_lookup (snd (apply_event np ev st)) = (case ev of
     SessionCreated s \<Rightarrow> (session_lookup st)(s_id s \<mapsto> s)
   | SessionUpdated s \<Rightarrow> (session_lookup st)(s_id s \<mapsto> s)
   | SessionRemoved sid \<Rightarrow> (session_lookup st)(sid := None)
   | FactoryReset \<Rightarrow> Map.empty
   | _ \<Rightarrow> session_lookup st)"
  by (cases ev) (auto simp: session_lookup_def fun_eq_iff find_upsert find_filter_key store_new_def Let_def
      split: option.splits prod.splits if_splits delta_outcome.splits)

section \<open>Marks for the user\<close>

text \<open>
  The mark that a terminal rang is lost to an event only by a factory reset, or by the removal of a
  session when it is that terminal's session or no session the client still knows has the terminal.
\<close>

theorem attention_spent_only_by_removal:
  assumes "wants_attention t st" "\<not> wants_attention t (snd (apply_event np ev st))"
  shows "ev = FactoryReset \<or> (\<exists>sid. ev = SessionRemoved sid
    \<and> (t \<notin> live_terminals (filter (\<lambda>s. s_id s \<noteq> sid) (sto_sessions st))
       \<or> (\<exists>s. find (\<lambda>s. s_id s = sid) (sto_sessions st) = Some s \<and> s_terminal_id s = Some t)))"
  using assms
  by (cases ev) (auto simp: wants_attention_def remove_session_def prune_pending_def Let_def
      split: option.splits prod.splits if_splits delta_outcome.splits)

theorem attention_spent_only_by_removal_witness:
  "\<exists>ev. \<not> wants_attention (TerminalId 7) (snd (apply_event () ev ((store_new ())\<lparr>sto_pending_bell := {TerminalId 7}\<rparr>))) \<and> ev = FactoryReset"
  using attention_spent_only_by_removal [of "TerminalId 7" "(store_new ())\<lparr>sto_pending_bell := {TerminalId 7}\<rparr>" "()" FactoryReset]
  by (simp add: wants_attention_def store_new_def)

end
