(* ===== verification/Term_Stream.thy ===== *)
theory Term_Stream
  imports Daemon_Sessions Daemon_Registry Client_Store
begin

text \<open>
  One terminal streamed to its clients: the daemon's runtime of the terminal and the operations of
  \<open>daemon/src/core.rs\<close> that attach, pump, recover and finish it, the request handling of
  \<open>daemon/src/server.rs\<close> around an attach, and the clients' stores at the other end of the socket. The
  theorem is that a client that is subscribed and not marked behind shows the engine's screen once
  it has read what was sent to it.
\<close>

section \<open>The daemon's side\<close>

record runtime =
  rt_engine :: engine
  rt_builder :: delta_builder
  rt_emit_seq :: nat
  rt_pending_damage :: bool
  rt_size :: pty_size

definition stamped_snapshot :: "runtime \<Rightarrow> terminal_snapshot" where
  "stamped_snapshot rt = (engine_snapshot (rt_engine rt) DEFAULT_SCROLLBACK_TAIL)\<lparr>sn_seq := rt_emit_seq rt\<rparr>"

text \<open>
  \<open>resized\<close> is what the engine's \<open>resize\<close> yields for a size, \<open>update\<close> the session whose activity is due
  to be broadcast, if any.
\<close>

definition daemon_attach_terminal ::
  "terminal_id \<Rightarrow> pty_size \<Rightarrow> client_id option \<Rightarrow> (pty_size \<Rightarrow> engine) \<Rightarrow> session option
    \<Rightarrow> runtime option \<Rightarrow> 'x registry \<Rightarrow> (protocol_error + terminal_snapshot) \<times> runtime option \<times> 'x registry" where
  "daemon_attach_terminal t size0 client resized update rto reg =
    (let size = sanitized size0; shared = subscriber_count t reg > 0
     in case rto of
          None \<Rightarrow> (Inl (not_found ''terminal''), None, reg)
        | Some rt0 \<Rightarrow>
            let rt = (if rt_size rt0 \<noteq> size \<and> \<not> shared
                      then rt0\<lparr>rt_engine := resized size, rt_size := size\<rparr> else rt0);
                (snap0, builder) = builder_snapshot (rt_engine rt) DEFAULT_SCROLLBACK_TAIL (rt_builder rt);
                snap = snap0\<lparr>sn_seq := rt_emit_seq rt\<rparr>;
                reg1 = (case client of Some cid \<Rightarrow> begin_attach cid t reg | None \<Rightarrow> reg);
                reg2 = (case update of Some s \<Rightarrow> broadcast_domain (SessionUpdated s) reg1 | None \<Rightarrow> reg1)
            in (Inr snap, Some (rt\<lparr>rt_builder := builder\<rparr>), reg2))"

text \<open>
  \<open>subscribed\<close> was read before the core lock was taken. \<open>fed\<close> is the engine after the bytes (and, at
  the end of the stream, after the synchronized frame was released) with whether there is damage to
  publish; \<open>due\<close> whether a frame is forced or its time has come.
\<close>

record pump_input =
  pu_subscribed :: bool
  pu_engine :: engine
  pu_publish :: bool
  pu_due :: bool
  pu_bell :: bool
  pu_clipboard :: "string option"
  pu_session_update :: "session option"
  pu_note :: bool

definition pump_terminal_batch ::
  "terminal_id \<Rightarrow> pump_input \<Rightarrow> runtime option \<Rightarrow> 'x registry \<Rightarrow> runtime option \<times> 'x registry" where
  "pump_terminal_batch t p rto reg =
    (case rto of
       None \<Rightarrow> (None, reg)
     | Some rt0 \<Rightarrow>
         let rt = rt0\<lparr>rt_engine := pu_engine p, rt_pending_damage := rt_pending_damage rt0 \<or> pu_publish p\<rparr>;
             emit = (pu_subscribed p \<and> rt_pending_damage rt \<and> pu_due p);
             (rt1, reg1) =
               (if emit then
                  let sq = rt_emit_seq rt + 1;
                      (delta, e, b) = builder_delta (rt_engine rt) (rt_builder rt);
                      rt' = rt\<lparr>rt_pending_damage := False, rt_emit_seq := sq, rt_engine := e, rt_builder := b\<rparr>
                  in (rt', route_terminal_delta t (TerminalDelta t (delta\<lparr>dl_seq := sq\<rparr>))
                             (TerminalResync t (stamped_snapshot rt')) reg)
                else (rt, reg));
             reg2 = (case pu_session_update p of Some s \<Rightarrow> broadcast_domain (SessionUpdated s) reg1 | None \<Rightarrow> reg1);
             reg3 = (if pu_bell p then broadcast_domain (TerminalBell t) reg2 else reg2);
             reg4 = (case pu_clipboard p of Some txt \<Rightarrow> broadcast_domain (ClipboardStore t txt) reg3 | None \<Rightarrow> reg3);
             reg5 = (if pu_note p \<and> \<not> pu_subscribed p then notify_non_subscribers t (TerminalActivity t) reg4 else reg4)
         in (Some rt1, reg5))"

definition resize_terminal ::
  "pty_size \<Rightarrow> string option \<Rightarrow> (pty_size \<Rightarrow> engine) \<Rightarrow> session option \<Rightarrow> runtime option \<Rightarrow> 'x registry
    \<Rightarrow> (protocol_error + unit) \<times> runtime option \<times> 'x registry" where
  "resize_terminal size0 pty_error resized update rto reg =
    (let size = sanitized size0
     in case rto of
          None \<Rightarrow> (Inl (not_found ''terminal''), None, reg)
        | Some rt \<Rightarrow>
            case pty_error of
              Some e \<Rightarrow> (Inl (protocol_error_new IoError e), rto, reg)
            | None \<Rightarrow> (Inr (), Some (rt\<lparr>rt_engine := resized size, rt_size := size\<rparr>),
                  case update of Some s \<Rightarrow> broadcast_domain (SessionUpdated s) reg | None \<Rightarrow> reg))"

text \<open>\<open>recover_client\<close>: every terminal that still runs is snapshot afresh.\<close>

definition recover_client ::
  "client_id \<Rightarrow> terminal_id list \<Rightarrow> (terminal_id \<Rightarrow> runtime option) \<Rightarrow> 'x registry \<Rightarrow> 'x registry" where
  "recover_client cid terminals rts reg =
    recover cid terminals (\<lambda>t. map_option (\<lambda>rt. TerminalResync t (stamped_snapshot rt)) (rts t)) reg"

text \<open>The part of \<open>on_terminal_exited\<close> under the first lock: keep the last screen, drop the runtime.\<close>

definition terminal_exited :: "terminal_id \<Rightarrow> runtime option \<Rightarrow> 'x registry \<Rightarrow> runtime option \<times> 'x registry" where
  "terminal_exited t rto reg =
    (case rto of
       None \<Rightarrow> (None, reg)
     | Some rt \<Rightarrow> (None, finish_terminal t (TerminalResync t (stamped_snapshot rt)) reg))"

section \<open>The client's side and the system\<close>

text \<open>
  A client keeps its store and whether it was told to reattach the terminal. Events go through a
  channel; the answer to an attach reaches the waiting request directly, ahead of queued events.
\<close>

definition client_event :: "'x \<Rightarrow> terminal_id \<Rightarrow> 'x store \<times> bool \<Rightarrow> 'x daemon_event \<Rightarrow> 'x store \<times> bool" where
  "client_event np t sl ev =
    (case apply_event np ev (fst sl) of
       (out, st) \<Rightarrow> (st, case ev of
           TerminalResync t' _ \<Rightarrow> if t' = t \<and> out = EvApplied then False else snd sl
         | _ \<Rightarrow> out = EvNeedsResync t \<or> snd sl))"

datatype attach_task = NoTask | Answering terminal_snapshot | Answered

record 'x stream =
  sy_reg :: "'x registry"
  sy_rt :: runtime
  sy_alive :: bool
  sy_sock :: "client_id \<Rightarrow> 'x daemon_message list"
  sy_chan :: "client_id \<Rightarrow> 'x daemon_event list"
  sy_client :: "client_id \<Rightarrow> 'x store \<times> bool"
  sy_task :: "client_id \<Rightarrow> attach_task"
  sy_waiting :: "client_id \<Rightarrow> bool"

abbreviation sy_rto :: "'x stream \<Rightarrow> runtime option" where
  "sy_rto s \<equiv> if sy_alive s then Some (sy_rt s) else None"

text \<open>Messages and table updates that do not concern the terminal.\<close>

fun unrelated_event :: "terminal_id \<Rightarrow> 'x daemon_event \<Rightarrow> bool" where
  "unrelated_event t (TerminalDelta t' _) = (t' \<noteq> t)"
| "unrelated_event t (TerminalResync t' _) = (t' \<noteq> t)"
| "unrelated_event t _ = True"

fun unrelated :: "terminal_id \<Rightarrow> 'x daemon_message \<Rightarrow> bool" where
  "unrelated t (Event ev) = unrelated_event t ev"
| "unrelated t (AttachAck _ _) = False"
| "unrelated t (OtherMessage _) = True"

definition bystander :: "terminal_id \<Rightarrow> 'x client_handle \<Rightarrow> 'x client_handle \<Rightarrow> bool" where
  "bystander t h h' \<longleftrightarrow> (\<exists>ms. ch_tx h' = ch_tx h @ ms \<and> list_all (unrelated t) ms)
    \<and> (t \<in> ch_subscriptions h' \<longleftrightarrow> t \<in> ch_subscriptions h) \<and> (t \<in> ch_behind h' \<longleftrightarrow> t \<in> ch_behind h)
    \<and> ch_attaching h' t = ch_attaching h t \<and> ch_finished h' t = ch_finished h t
    \<and> (\<forall>t' ev. t' \<noteq> t \<longrightarrow> ch_finished h' t' = Some ev \<longrightarrow> ch_finished h t' = Some ev \<or> unrelated_event t ev)"

definition bystanders :: "terminal_id \<Rightarrow> 'x registry \<Rightarrow> 'x registry \<Rightarrow> bool" where
  "bystanders t reg reg' \<longleftrightarrow>
    (\<forall>c h'. map_of reg' c = Some h' \<longrightarrow> (\<exists>h. map_of reg c = Some h \<and> bystander t h h'))"

inductive stream_step :: "terminal_id \<Rightarrow> 'x \<Rightarrow> 'x stream \<Rightarrow> 'x stream \<Rightarrow> bool" for t np where
  Pump: "damage_covers (en_damage (rt_engine (sy_rt s))) (en_visible (rt_engine (sy_rt s)))
      (en_damage (pu_engine p)) (en_visible (pu_engine p)) \<Longrightarrow>
    pump_terminal_batch t p (Some (sy_rt s)) (sy_reg s) = (Some rt', reg') \<Longrightarrow> sy_alive s \<Longrightarrow>
    stream_step t np s (s\<lparr>sy_rt := rt', sy_reg := reg'\<rparr>)"
| Resize: "(\<And>z. en_damage (resized z) = Full) \<Longrightarrow>
    resize_terminal sz err resized upd (Some (sy_rt s)) (sy_reg s) = (r, Some rt', reg') \<Longrightarrow> sy_alive s \<Longrightarrow>
    stream_step t np s (s\<lparr>sy_rt := rt', sy_reg := reg'\<rparr>)"
| AttachBegin: "(\<And>z. en_damage (resized z) = Full) \<Longrightarrow>
    daemon_attach_terminal t sz (Some c) resized upd (Some (sy_rt s)) (sy_reg s) = (Inr snap, Some rt', reg') \<Longrightarrow>
    sy_alive s \<Longrightarrow> \<not> sy_waiting s c \<Longrightarrow> sy_task s c = NoTask \<Longrightarrow>
    stream_step t np s (s\<lparr>sy_rt := rt', sy_reg := reg', sy_task := (sy_task s)(c := Answering snap),
      sy_waiting := (sy_waiting s)(c := True)\<rparr>)"
| AttachSend: "sy_task s c = Answering snap \<Longrightarrow> send_to c (AttachAck rid snap) (sy_reg s) = (True, reg') \<Longrightarrow>
    stream_step t np s (s\<lparr>sy_reg := reg', sy_task := (sy_task s)(c := Answered)\<rparr>)"
| AttachLost: "sy_task s c = Answering snap \<Longrightarrow> send_to c (AttachAck rid snap) (sy_reg s) = (False, reg') \<Longrightarrow>
    stream_step t np s (s\<lparr>sy_reg := unregister c reg', sy_task := (sy_task s)(c := NoTask)\<rparr>)"
| AttachFinish: "sy_task s c = Answered \<Longrightarrow> finish_attach c t (sy_reg s) = (missed, reg') \<Longrightarrow>
    stream_step t np s (s\<lparr>sy_reg := reg', sy_task := (sy_task s)(c := NoTask)\<rparr>)"
| Recover: "map_of (sy_reg s) c = Some h \<Longrightarrow> set ts = ch_behind h \<Longrightarrow> distinct ts \<Longrightarrow> rts t = sy_rto s \<Longrightarrow>
    stream_step t np s (s\<lparr>sy_reg := recover_client c ts rts (sy_reg s)\<rparr>)"
| Exit: "terminal_exited t (sy_rto s) (sy_reg s) = (r, reg') \<Longrightarrow>
    stream_step t np s (s\<lparr>sy_reg := reg', sy_alive := False\<rparr>)"
| Detach: "\<not> sy_waiting s c \<Longrightarrow> sy_task s c = NoTask \<Longrightarrow>
    stream_step t np s (s\<lparr>sy_reg := unsubscribe c t (sy_reg s)\<rparr>)"
| Write: "map_of (sy_reg s) c = Some h \<Longrightarrow> ch_tx h = m # rest \<Longrightarrow>
    stream_step t np s (s\<lparr>sy_reg := modify_client c (\<lambda>h. h\<lparr>ch_tx := rest\<rparr>) (sy_reg s),
      sy_sock := (sy_sock s)(c := sy_sock s c @ [m])\<rparr>)"
| DeliverAck: "sy_sock s c = AttachAck rid snap # rest \<Longrightarrow>
    stream_step t np s (s\<lparr>sy_sock := (sy_sock s)(c := rest), sy_waiting := (sy_waiting s)(c := False),
      sy_client := (sy_client s)(c := (attach_terminal t snap (fst (sy_client s c)), False))\<rparr>)"
| DeliverEvent: "sy_sock s c = Event ev # rest \<Longrightarrow>
    stream_step t np s (s\<lparr>sy_sock := (sy_sock s)(c := rest), sy_chan := (sy_chan s)(c := sy_chan s c @ [ev])\<rparr>)"
| DeliverOther: "sy_sock s c = OtherMessage x # rest \<Longrightarrow>
    stream_step t np s (s\<lparr>sy_sock := (sy_sock s)(c := rest)\<rparr>)"
| Process: "sy_chan s c = ev # rest \<Longrightarrow> \<not> sy_waiting s c \<Longrightarrow>
    stream_step t np s (s\<lparr>sy_chan := (sy_chan s)(c := rest),
      sy_client := (sy_client s)(c := client_event np t (sy_client s c) ev)\<rparr>)"
| ClientDetach: "\<not> sy_waiting s c \<Longrightarrow>
    stream_step t np s (s\<lparr>sy_client := (sy_client s)(c := (detach_terminal t (fst (sy_client s c)), snd (sy_client s c)))\<rparr>)"
| Register: "map_of (sy_reg s) c = None \<Longrightarrow> sy_sock s c = [] \<Longrightarrow> sy_chan s c = [] \<Longrightarrow> \<not> sy_waiting s c \<Longrightarrow>
    sy_task s c = NoTask \<Longrightarrow> sto_terminals (fst (sy_client s c)) t = None \<Longrightarrow>
    stream_step t np s (s\<lparr>sy_reg := register_kind c kind (sy_reg s)\<rparr>)"
| Bystander: "bystanders t (sy_reg s) reg' \<Longrightarrow> stream_step t np s (s\<lparr>sy_reg := reg'\<rparr>)"

inductive stream_run :: "terminal_id \<Rightarrow> 'x \<Rightarrow> 'x stream \<Rightarrow> 'x stream \<Rightarrow> bool" for t np where
  Idle: "stream_run t np s s"
| Step: "stream_run t np s s' \<Longrightarrow> stream_step t np s' s'' \<Longrightarrow> stream_run t np s s''"

text \<open>The daemon with a fresh terminal and no clients.\<close>

definition stream_start :: "engine \<Rightarrow> 'x \<Rightarrow> 'x stream" where
  "stream_start e np = \<lparr>sy_reg = [], sy_rt = \<lparr>rt_engine = e, rt_builder = delta_builder_new, rt_emit_seq = 0,
     rt_pending_damage = False, rt_size = en_size e\<rparr>, sy_alive = True, sy_sock = (\<lambda>_. []), sy_chan = (\<lambda>_. []),
     sy_client = (\<lambda>_. (store_new np, False)), sy_task = (\<lambda>_. NoTask), sy_waiting = (\<lambda>_. False)\<rparr>"

section \<open>One event at the client\<close>

abbreviation grid_of :: "terminal_id \<Rightarrow> 'x store \<times> bool \<Rightarrow> cell_grid option" where
  "grid_of t sl \<equiv> sto_terminals (fst sl) t"

text \<open>An event about something else leaves rows and sequence number, or removes the replica.\<close>

lemma unrelated_event_grid:
  assumes "unrelated_event t ev" "grid_of t (client_event np t sl ev) = Some g'"
  shows "\<exists>g. grid_of t sl = Some g \<and> gr_visible g' = gr_visible g \<and> gr_last_seq g' = gr_last_seq g"
    and "snd (client_event np t sl ev) = snd sl"
proof -
  obtain st lost where sl: "sl = (st, lost)" by fastforce
  show "\<exists>g. grid_of t sl = Some g \<and> gr_visible g' = gr_visible g \<and> gr_last_seq g' = gr_last_seq g"
    using assms sl
    by (cases ev) (auto simp: client_event_def store_new_def remove_session_def prune_pending_def Let_def
        split: option.splits prod.splits if_splits delta_outcome.splits)
  show "snd (client_event np t sl ev) = snd sl"
    using assms(1) sl
    by (cases ev) (auto simp: client_event_def Let_def split: option.splits prod.splits if_splits delta_outcome.splits)
qed

section \<open>What is in flight\<close>

text \<open>
  A screen that is current up to the engine's unread damage; a snapshot or delta on its way is never
  newer than the last emission, and a snapshot of that very emission is current.
\<close>

definition current :: "runtime \<Rightarrow> row list \<Rightarrow> bool" where
  "current rt v \<longleftrightarrow> grid_agrees (en_damage (rt_engine rt)) v (en_visible (rt_engine rt))"

definition fresh_snapshot :: "runtime \<Rightarrow> terminal_snapshot \<Rightarrow> bool" where
  "fresh_snapshot rt s \<longleftrightarrow> sn_seq s \<le> rt_emit_seq rt \<and> (sn_seq s = rt_emit_seq rt \<longrightarrow> current rt (sn_visible s))"

fun fresh :: "terminal_id \<Rightarrow> runtime \<Rightarrow> 'x daemon_event \<Rightarrow> bool" where
  "fresh t rt (TerminalDelta t' d) = (t' = t \<longrightarrow> dl_seq d \<le> rt_emit_seq rt)"
| "fresh t rt (TerminalResync t' s) = (t' = t \<longrightarrow> fresh_snapshot rt s)"
| "fresh t rt _ = True"

definition caught_up :: "terminal_id \<Rightarrow> runtime \<Rightarrow> 'x store \<times> bool \<Rightarrow> bool" where
  "caught_up t rt sl \<longleftrightarrow> (\<forall>g. grid_of t sl = Some g \<longrightarrow>
     snd sl \<or> (gr_last_seq g = rt_emit_seq rt \<and> current rt (gr_visible g)))"

definition not_ahead :: "terminal_id \<Rightarrow> runtime \<Rightarrow> 'x store \<times> bool \<Rightarrow> bool" where
  "not_ahead t rt sl \<longleftrightarrow> (\<forall>g. grid_of t sl = Some g \<longrightarrow> gr_last_seq g \<le> rt_emit_seq rt)"

lemma unrelated_fresh [simp]: "unrelated_event t ev \<Longrightarrow> fresh t rt ev"
  by (cases ev) auto

lemma client_event_delta:
  "client_event np t sl (TerminalDelta t d) = (case grid_of t sl of
     None \<Rightarrow> sl
   | Some g \<Rightarrow> (case apply_delta d g of
       (r, g') \<Rightarrow> ((fst sl)\<lparr>sto_terminals := (sto_terminals (fst sl))(t \<mapsto> g')\<rparr>, r = NeedsResync \<or> snd sl)))"
  by (cases sl) (auto simp: client_event_def split: option.splits prod.splits delta_outcome.splits)

lemma client_event_resync:
  "client_event np t sl (TerminalResync t s) = (case grid_of t sl of
     None \<Rightarrow> sl
   | Some g \<Rightarrow> if sn_seq s < gr_last_seq g then sl
       else ((fst sl)\<lparr>sto_terminals := (sto_terminals (fst sl))(t \<mapsto> apply_resync s g)\<rparr>, False))"
  by (cases sl) (auto simp: client_event_def split: option.splits)

lemma event_cases:
  obtains (delta) d where "ev = TerminalDelta t d" | (resync) s where "ev = TerminalResync t s"
  | (other) "unrelated_event t ev"
  by (cases ev) auto

lemma unrelated_caught_up:
  assumes "caught_up t rt sl" "unrelated_event t ev"
  shows "caught_up t rt (client_event np t sl ev)"
  unfolding caught_up_def
proof (intro allI impI)
  fix g assume g: "grid_of t (client_event np t sl ev) = Some g"
  note u = unrelated_event_grid [OF assms(2) g]
  obtain g0 where "grid_of t sl = Some g0" "gr_visible g = gr_visible g0" "gr_last_seq g = gr_last_seq g0" using u(1) by blast
  then show "snd (client_event np t sl ev) \<or> (gr_last_seq g = rt_emit_seq rt \<and> current rt (gr_visible g))"
    using assms(1) u(2) by (simp add: caught_up_def)
qed

text \<open>A replica that holds the last emission is not disturbed by what is still in flight.\<close>

definition exact :: "terminal_id \<Rightarrow> runtime \<Rightarrow> 'x store \<times> bool \<Rightarrow> bool" where
  "exact t rt sl \<longleftrightarrow> (\<forall>g. grid_of t sl = Some g \<longrightarrow> gr_last_seq g = rt_emit_seq rt \<and> current rt (gr_visible g))"

lemma exact_caught_up: "exact t rt sl \<Longrightarrow> caught_up t rt sl"
  by (simp add: exact_def caught_up_def)

lemma client_event_exact:
  assumes "exact t rt sl" "fresh t rt ev"
  shows "exact t rt (client_event np t sl ev)"
proof (cases ev rule: event_cases [where t = t])
  case (delta d)
  then show ?thesis using assms
    by (auto simp: client_event_delta exact_def apply_delta_def split: option.splits)
next
  case (resync s)
  then show ?thesis using assms
    by (auto simp: client_event_resync exact_def fresh_snapshot_def not_less split: option.splits)
next
  case other
  then show ?thesis using assms(1) unrelated_event_grid(1) [OF other]
    unfolding exact_def by (metis (no_types))
qed

lemma client_event_not_ahead:
  assumes "not_ahead t rt sl" "fresh t rt ev"
  shows "not_ahead t rt (client_event np t sl ev)"
proof (cases ev rule: event_cases [where t = t])
  case (delta d)
  then show ?thesis using assms
    by (auto simp: client_event_delta not_ahead_def apply_delta_def Let_def split: option.splits if_splits)
next
  case (resync s)
  then show ?thesis using assms
    by (auto simp: client_event_resync not_ahead_def fresh_snapshot_def split: option.splits)
next
  case other
  then show ?thesis using assms(1) unrelated_event_grid(1) [OF other]
    unfolding not_ahead_def by (metis (no_types))
qed

lemma client_events_exact:
  "exact t rt sl \<Longrightarrow> list_all (fresh t rt) evs \<Longrightarrow> exact t rt (foldl (client_event np t) sl evs)"
  by (induction evs arbitrary: sl) (auto simp: client_event_exact)

lemma client_events_not_ahead:
  "not_ahead t rt sl \<Longrightarrow> list_all (fresh t rt) evs \<Longrightarrow> not_ahead t rt (foldl (client_event np t) sl evs)"
  by (induction evs arbitrary: sl) (auto simp: client_event_not_ahead)

lemma client_event_resync_now:
  assumes "not_ahead t rt sl" "sn_seq s = rt_emit_seq rt" "current rt (sn_visible s)"
  shows "caught_up t rt (client_event np t sl (TerminalResync t s))"
  using assms by (auto simp: client_event_resync caught_up_def not_ahead_def split: option.splits)

text \<open>The engine moved on: its damage covers the difference, or it was emitted.\<close>

definition advanced :: "runtime \<Rightarrow> runtime \<Rightarrow> bool" where
  "advanced rt rt' \<longleftrightarrow> rt_emit_seq rt' = rt_emit_seq rt
    \<and> damage_covers (en_damage (rt_engine rt)) (en_visible (rt_engine rt)) (en_damage (rt_engine rt')) (en_visible (rt_engine rt'))"

lemma advanced_current: "advanced rt rt' \<Longrightarrow> current rt v \<Longrightarrow> current rt' v"
  by (auto simp: advanced_def current_def intro: grid_agrees_covers)

lemma advanced_fresh_snapshot: "advanced rt rt' \<Longrightarrow> fresh_snapshot rt s \<Longrightarrow> fresh_snapshot rt' s"
  using advanced_current by (auto simp: fresh_snapshot_def advanced_def)

lemma advanced_fresh: "advanced rt rt' \<Longrightarrow> fresh t rt ev \<Longrightarrow> fresh t rt' ev"
  using advanced_fresh_snapshot by (cases ev) (auto simp: advanced_def)

lemma advanced_caught_up: "advanced rt rt' \<Longrightarrow> caught_up t rt sl \<Longrightarrow> caught_up t rt' sl"
  using advanced_current by (fastforce simp: caught_up_def advanced_def)

lemma advanced_not_ahead: "advanced rt rt' \<Longrightarrow> not_ahead t rt sl \<Longrightarrow> not_ahead t rt' sl"
  by (simp add: not_ahead_def advanced_def)

section \<open>The state of one connection\<close>

definition events_of :: "'x daemon_message list \<Rightarrow> 'x daemon_event list" where
  "events_of ms = concat (map (\<lambda>m. case m of Event ev \<Rightarrow> [ev] | _ \<Rightarrow> []) ms)"

definition acks_of :: "'x daemon_message list \<Rightarrow> terminal_snapshot list" where
  "acks_of ms = concat (map (\<lambda>m. case m of AttachAck _ s \<Rightarrow> [s] | _ \<Rightarrow> []) ms)"

lemma events_of_simps [simp]:
  "events_of [] = []" "events_of (xs @ ys) = events_of xs @ events_of ys" "events_of (Event ev # ms) = ev # events_of ms"
  "events_of (AttachAck i s # ms) = events_of ms" "events_of (OtherMessage x # ms) = events_of ms"
  by (simp_all add: events_of_def)

lemma acks_of_simps [simp]:
  "acks_of [] = []" "acks_of (xs @ ys) = acks_of xs @ acks_of ys" "acks_of (Event ev # ms) = acks_of ms"
  "acks_of (AttachAck i s # ms) = s # acks_of ms" "acks_of (OtherMessage x # ms) = acks_of ms"
  by (simp_all add: acks_of_def)

text \<open>The client once it has read everything: the pending answer first, then the events in order.\<close>

definition base_of :: "terminal_id \<Rightarrow> terminal_snapshot list \<Rightarrow> 'x store \<times> bool \<Rightarrow> 'x store \<times> bool" where
  "base_of t acks sl = (case acks of [] \<Rightarrow> sl | s # _ \<Rightarrow> (attach_terminal t s (fst sl), False))"

definition drained ::
  "terminal_id \<Rightarrow> 'x \<Rightarrow> 'x daemon_message list \<Rightarrow> 'x daemon_event list \<Rightarrow> 'x store \<times> bool \<Rightarrow> 'x store \<times> bool" where
  "drained t np ms chan sl = foldl (client_event np t) (base_of t (acks_of ms) sl) (chan @ events_of ms)"

definition inflight_ok ::
  "terminal_id \<Rightarrow> runtime \<Rightarrow> 'x daemon_message list \<Rightarrow> 'x daemon_event list \<Rightarrow> 'x store \<times> bool \<Rightarrow> bool" where
  "inflight_ok t rt ms chan sl \<longleftrightarrow> list_all (fresh t rt) (chan @ events_of ms)
     \<and> list_all (fresh_snapshot rt) (acks_of ms) \<and> not_ahead t rt sl"

lemma attach_grid [simp]: "sto_terminals (attach_terminal t s st) t = Some (from_snapshot s)"
  by (simp add: attach_terminal_def)

lemma base_not_ahead: "inflight_ok t rt ms chan sl \<Longrightarrow> not_ahead t rt (base_of t (acks_of ms) sl)"
  by (auto simp: inflight_ok_def base_of_def not_ahead_def fresh_snapshot_def split: list.splits)

lemma drained_not_ahead: "inflight_ok t rt ms chan sl \<Longrightarrow> not_ahead t rt (drained t np ms chan sl)"
  unfolding drained_def using base_not_ahead [of t rt ms chan sl]
  by (intro client_events_not_ahead) (simp_all add: inflight_ok_def)

lemma drained_event: "drained t np (ms @ [Event ev]) chan sl = client_event np t (drained t np ms chan sl) ev"
  by (simp add: drained_def)

lemma drained_unrelated:
  assumes "caught_up t rt (drained t np ms chan sl)" "list_all (unrelated t) ms'"
  shows "caught_up t rt (drained t np (ms @ ms') chan sl)"
  using assms(2)
proof (induction ms' rule: rev_induct)
  case (snoc m ms')
  then have IH: "caught_up t rt (drained t np (ms @ ms') chan sl)" and u: "unrelated t m" by auto
  show ?case
  proof (cases m)
    case (Event ev)
    then show ?thesis using unrelated_caught_up [OF IH, of ev] u drained_event [of t np "ms @ ms'" ev] by simp
  next
    case (OtherMessage x)
    then show ?thesis using IH by (simp add: drained_def)
  qed (use u in simp)
qed (use assms(1) in simp)

lemma inflight_unrelated:
  assumes "inflight_ok t rt ms chan sl" "list_all (unrelated t) ms'"
  shows "inflight_ok t rt (ms @ ms') chan sl" "acks_of (ms @ ms') = acks_of ms"
proof -
  have "list_all (fresh t rt) (events_of ms') \<and> acks_of ms' = []"
    using assms(2)
  proof (induction ms')
    case (Cons m ms')
    then show ?case by (cases m) auto
  qed simp
  then show "inflight_ok t rt (ms @ ms') chan sl" "acks_of (ms @ ms') = acks_of ms"
    using assms(1) by (simp_all add: inflight_ok_def)
qed

text \<open>The last screen of a terminal that ended is kept for every client that still owes it.\<close>

definition finish_ok :: "terminal_id \<Rightarrow> bool \<Rightarrow> runtime \<Rightarrow> 'x client_handle \<Rightarrow> bool" where
  "finish_ok t alive rt h \<longleftrightarrow> (\<forall>t' ev. t' \<noteq> t \<longrightarrow> ch_finished h t' = Some ev \<longrightarrow> unrelated_event t ev)
   \<and> (\<forall>ev. ch_finished h t = Some ev \<longrightarrow> \<not> alive
        \<and> (\<exists>s. ev = TerminalResync t s \<and> sn_seq s = rt_emit_seq rt \<and> current rt (sn_visible s)))
   \<and> (\<not> alive \<and> (t \<in> ch_behind h \<or> ch_attaching h t = Some True) \<longrightarrow> ch_finished h t \<noteq> None)
   \<and> (ch_attaching h t \<noteq> None \<longrightarrow> t \<in> ch_subscriptions h \<and> t \<notin> ch_behind h)"

text \<open>At most one attach of a client is under way, and until it is finished its marks are right.\<close>

definition task_ok ::
  "terminal_id \<Rightarrow> runtime \<Rightarrow> 'x client_handle \<Rightarrow> terminal_snapshot list \<Rightarrow> bool \<Rightarrow> attach_task \<Rightarrow> bool \<Rightarrow> bool" where
  "task_ok t rt h acks synced task waiting \<longleftrightarrow>
    (waiting \<longleftrightarrow> acks \<noteq> [] \<or> (\<exists>s. task = Answering s)) \<and> length acks \<le> 1
   \<and> (case task of
        NoTask \<Rightarrow> ch_attaching h t = None
      | Answering s \<Rightarrow> acks = [] \<and> fresh_snapshot rt s
          \<and> (\<exists>m. ch_attaching h t = Some m \<and> (\<not> m \<longrightarrow> sn_seq s = rt_emit_seq rt))
      | Answered \<Rightarrow> (\<exists>m. ch_attaching h t = Some m \<and> (\<not> m \<longrightarrow> synced)))"

definition sync_ok :: "terminal_id \<Rightarrow> 'x client_handle \<Rightarrow> bool \<Rightarrow> bool" where
  "sync_ok t h synced \<longleftrightarrow> (ch_attaching h t = None \<and> t \<in> ch_subscriptions h \<and> t \<notin> ch_behind h \<longrightarrow> synced)"

definition link_ok ::
  "terminal_id \<Rightarrow> 'x \<Rightarrow> bool \<Rightarrow> runtime \<Rightarrow> 'x client_handle \<Rightarrow> 'x daemon_message list \<Rightarrow> 'x daemon_event list
    \<Rightarrow> 'x store \<times> bool \<Rightarrow> attach_task \<Rightarrow> bool \<Rightarrow> bool" where
  "link_ok t np alive rt h sock chan sl task waiting \<longleftrightarrow>
    (let ms = sock @ ch_tx h; synced = caught_up t rt (drained t np ms chan sl)
     in inflight_ok t rt ms chan sl \<and> finish_ok t alive rt h
        \<and> task_ok t rt h (acks_of ms) synced task waiting \<and> sync_ok t h synced)"

lemma link_okI:
  assumes "inflight_ok t rt (sock @ ch_tx h) chan sl" "finish_ok t alive rt h"
    "task_ok t rt h (acks_of (sock @ ch_tx h)) (caught_up t rt (drained t np (sock @ ch_tx h) chan sl)) task w"
    "sync_ok t h (caught_up t rt (drained t np (sock @ ch_tx h) chan sl))"
  shows "link_ok t np alive rt h sock chan sl task w"
  using assms by (simp add: link_ok_def Let_def)

lemma link_okD:
  assumes "link_ok t np alive rt h sock chan sl task w"
  shows "inflight_ok t rt (sock @ ch_tx h) chan sl" "finish_ok t alive rt h"
    "task_ok t rt h (acks_of (sock @ ch_tx h)) (caught_up t rt (drained t np (sock @ ch_tx h) chan sl)) task w"
    "sync_ok t h (caught_up t rt (drained t np (sock @ ch_tx h) chan sl))"
  using assms by (simp_all add: link_ok_def Let_def)

text \<open>Being in sync is only ever used positively.\<close>

lemma task_ok_mono:
  "task_ok t rt h acks p task w \<Longrightarrow> (p \<longrightarrow> q) \<Longrightarrow> ch_attaching h' t = ch_attaching h t \<Longrightarrow>
    (\<And>s. fresh_snapshot rt s \<Longrightarrow> fresh_snapshot rt' s) \<Longrightarrow> rt_emit_seq rt' = rt_emit_seq rt \<Longrightarrow>
    task_ok t rt' h' acks q task w"
  by (cases task) (auto simp: task_ok_def)

lemma sync_ok_mono:
  "sync_ok t h p \<Longrightarrow> (p \<longrightarrow> q) \<Longrightarrow> ch_attaching h' t = ch_attaching h t \<Longrightarrow>
    (t \<in> ch_subscriptions h' \<longleftrightarrow> t \<in> ch_subscriptions h) \<Longrightarrow> (t \<in> ch_behind h' \<longleftrightarrow> t \<in> ch_behind h) \<Longrightarrow> sync_ok t h' q"
  by (auto simp: sync_ok_def)

lemma link_advanced:
  assumes "link_ok t np True rt h sock chan sl task w" "advanced rt rt'"
  shows "link_ok t np True rt' h sock chan sl task w"
proof (rule link_okI)
  note L = link_okD [OF assms(1)]
  have n: "rt_emit_seq rt' = rt_emit_seq rt" using assms(2) by (simp add: advanced_def)
  have c: "caught_up t rt (drained t np (sock @ ch_tx h) chan sl) \<longrightarrow> caught_up t rt' (drained t np (sock @ ch_tx h) chan sl)"
    by (blast intro: advanced_caught_up [OF assms(2)])
  show "inflight_ok t rt' (sock @ ch_tx h) chan sl"
    using L(1) advanced_fresh [OF assms(2)] advanced_fresh_snapshot [OF assms(2)] advanced_not_ahead [OF assms(2)]
    unfolding inflight_ok_def by (blast intro: list.pred_mono_strong)
  show "finish_ok t True rt' h" using L(2) by (auto simp: finish_ok_def)
  show "task_ok t rt' h (acks_of (sock @ ch_tx h)) (caught_up t rt' (drained t np (sock @ ch_tx h) chan sl)) task w"
    by (rule task_ok_mono [OF L(3) c]) (use advanced_fresh_snapshot [OF assms(2)] n in auto)
  show "sync_ok t h (caught_up t rt' (drained t np (sock @ ch_tx h) chan sl))"
    by (rule sync_ok_mono [OF L(4) c]) simp_all
qed

lemma link_bystander:
  assumes "link_ok t np alive rt h sock chan sl task w" "bystander t h h'"
  shows "link_ok t np alive rt h' sock chan sl task w"
proof -
  obtain ms where ms: "ch_tx h' = ch_tx h @ ms" "list_all (unrelated t) ms" using assms(2) by (auto simp: bystander_def)
  have b: "t \<in> ch_subscriptions h' \<longleftrightarrow> t \<in> ch_subscriptions h" "t \<in> ch_behind h' \<longleftrightarrow> t \<in> ch_behind h"
      "ch_attaching h' t = ch_attaching h t" "ch_finished h' t = ch_finished h t"
      "\<forall>t' ev. t' \<noteq> t \<longrightarrow> ch_finished h' t' = Some ev \<longrightarrow> ch_finished h t' = Some ev \<or> unrelated_event t ev"
    using assms(2) by (auto simp: bystander_def)
  note L = link_okD [OF assms(1)]
  have eq: "sock @ ch_tx h' = (sock @ ch_tx h) @ ms" by (simp add: ms)
  note u = inflight_unrelated [OF L(1) ms(2)]
  have c: "caught_up t rt (drained t np (sock @ ch_tx h) chan sl) \<longrightarrow> caught_up t rt (drained t np ((sock @ ch_tx h) @ ms) chan sl)"
    using drained_unrelated [OF _ ms(2)] by blast
  show ?thesis
  proof (rule link_okI)
    show "inflight_ok t rt (sock @ ch_tx h') chan sl" unfolding eq by (rule u(1))
    show "finish_ok t alive rt h'" using L(2) b by (auto simp: finish_ok_def)
    show "task_ok t rt h' (acks_of (sock @ ch_tx h')) (caught_up t rt (drained t np (sock @ ch_tx h') chan sl)) task w"
      unfolding eq u(2) by (rule task_ok_mono [OF L(3) c]) (simp_all add: b)
    show "sync_ok t h' (caught_up t rt (drained t np (sock @ ch_tx h') chan sl))"
      unfolding eq by (rule sync_ok_mono [OF L(4) c]) (simp_all add: b)
  qed
qed

section \<open>The operations on one connection\<close>

text \<open>Sending an event of the terminal that is not an answer.\<close>

lemma inflight_snoc:
  assumes "inflight_ok t rt ms chan sl" "fresh t rt ev"
  shows "inflight_ok t rt (ms @ [Event ev]) chan sl" "acks_of (ms @ [Event ev]) = acks_of ms"
  using assms by (simp_all add: inflight_ok_def)

definition emitted :: "runtime \<Rightarrow> runtime \<Rightarrow> terminal_delta \<Rightarrow> bool" where
  "emitted rt rt' d \<longleftrightarrow> rt_emit_seq rt' = Suc (rt_emit_seq rt) \<and> dl_seq d = rt_emit_seq rt'
    \<and> en_damage (rt_engine rt') = Columns [] \<and> en_visible (rt_engine rt') = en_visible (rt_engine rt)
    \<and> (\<exists>b' d0. builder_delta (rt_engine rt) (rt_builder rt) = (d0, rt_engine rt', b') \<and> d = d0\<lparr>dl_seq := rt_emit_seq rt'\<rparr>)"

lemma emitted_fresh: "emitted rt rt' d \<Longrightarrow> fresh t rt ev \<Longrightarrow> fresh t rt' ev"
  by (cases ev) (auto simp: emitted_def fresh_snapshot_def)

lemma emitted_fresh_snapshot: "emitted rt rt' d \<Longrightarrow> fresh_snapshot rt s \<Longrightarrow> fresh_snapshot rt' s"
  by (auto simp: emitted_def fresh_snapshot_def)

lemma emitted_not_ahead: "emitted rt rt' d \<Longrightarrow> not_ahead t rt sl \<Longrightarrow> not_ahead t rt' sl"
  by (auto simp: emitted_def not_ahead_def le_SucI)

lemma emitted_inflight: "emitted rt rt' d \<Longrightarrow> inflight_ok t rt ms chan sl \<Longrightarrow> inflight_ok t rt' ms chan sl"
  using emitted_fresh [of rt rt' d t] emitted_fresh_snapshot [of rt rt' d] emitted_not_ahead [of rt rt' d t sl]
  unfolding inflight_ok_def by (blast intro: list.pred_mono_strong)

lemma emitted_delta_fresh: "emitted rt rt' d \<Longrightarrow> fresh t rt' (TerminalDelta t d)"
  by (simp add: emitted_def)

text \<open>The delta of the last emission brings a replica of the one before to the new screen.\<close>

lemma client_event_emitted:
  assumes "caught_up t rt sl" "emitted rt rt' d"
  shows "caught_up t rt' (client_event np t sl (TerminalDelta t d))"
proof (cases "grid_of t sl")
  case (Some g)
  obtain b' d0 where b: "builder_delta (rt_engine rt) (rt_builder rt) = (d0, rt_engine rt', b')" "d = d0\<lparr>dl_seq := rt_emit_seq rt'\<rparr>"
    and e: "en_damage (rt_engine rt') = Columns []" "en_visible (rt_engine rt') = en_visible (rt_engine rt)"
    using assms(2) unfolding emitted_def by blast
  obtain r g' where a: "apply_delta d g = (r, g')" by fastforce
  have o: "r = NeedsResync \<or> snd sl \<or> (gr_last_seq g' = rt_emit_seq rt' \<and> current rt' (gr_visible g'))"
  proof (cases "snd sl \<or> r = NeedsResync")
    case False
    then have s: "gr_last_seq g = rt_emit_seq rt" "current rt (gr_visible g)"
      using assms(1) Some by (simp_all add: caught_up_def)
    have "r = Applied"
      using False a s(1) assms(2) by (auto simp: apply_delta_def emitted_def Let_def split: if_splits)
    then have "gr_last_seq g' = rt_emit_seq rt'" "grid_agrees (Columns []) (gr_visible g') (en_visible (rt_engine rt))"
      using apply_delta_exact [OF b(1), of g "rt_emit_seq rt'" g'] s(2) a b(2) by (simp_all add: current_def)
    then show ?thesis by (simp add: current_def e)
  qed auto
  then show ?thesis using Some a by (auto simp: client_event_delta caught_up_def)
qed (simp add: client_event_delta caught_up_def)

lemma stamped_now: "sn_seq (stamped_snapshot rt) = rt_emit_seq rt" "current rt (sn_visible (stamped_snapshot rt))"
  by (simp_all add: stamped_snapshot_def engine_snapshot_def current_def engine_rows_all Let_def)

lemma stamped_fresh: "fresh t rt (TerminalResync t (stamped_snapshot rt))"
  using stamped_now [of rt] by (simp add: fresh_snapshot_def)

text \<open>An operation that appends an event after which the drained client is in sync.\<close>

lemma link_event:
  assumes "inflight_ok t rt (sock @ ch_tx h) chan sl" "fresh t rt ev" "finish_ok t alive rt h'"
    and T: "task_ok t rt h' (acks_of (sock @ ch_tx h)) True task w"
    and c: "caught_up t rt (client_event np t (drained t np (sock @ ch_tx h) chan sl) ev)"
    and h': "ch_tx h' = ch_tx h @ [Event ev]"
  shows "link_ok t np alive rt h' sock chan sl task w"
proof (rule link_okI)
  have eq: "sock @ ch_tx h' = (sock @ ch_tx h) @ [Event ev]" by (simp add: h')
  note sn = inflight_snoc [OF assms(1,2)]
  have c': "caught_up t rt (drained t np (sock @ ch_tx h') chan sl) = True" unfolding eq drained_event using c by simp
  show "inflight_ok t rt (sock @ ch_tx h') chan sl" unfolding eq by (rule sn(1))
  show "task_ok t rt h' (acks_of (sock @ ch_tx h')) (caught_up t rt (drained t np (sock @ ch_tx h') chan sl)) task w"
    unfolding c' unfolding eq sn(2) by (rule T)
  show "sync_ok t h' (caught_up t rt (drained t np (sock @ ch_tx h') chan sl))" unfolding c' by (simp add: sync_ok_def)
qed (rule assms)

lemma link_resync:
  assumes L: "link_ok t np alive rt h sock chan sl task w"
    and s: "sn_seq s = rt_emit_seq rt" "current rt (sn_visible s)"
    and h': "ch_tx h' = ch_tx h @ [Event (TerminalResync t s)]" "ch_attaching h' t = ch_attaching h t"
    and f: "finish_ok t alive rt h'"
  shows "link_ok t np alive rt h' sock chan sl task w"
proof (rule link_event [OF _ _ f _ _ h'(1)])
  note D = link_okD [OF L]
  show "inflight_ok t rt (sock @ ch_tx h) chan sl" by (rule D(1))
  show "fresh t rt (TerminalResync t s)" using s by (simp add: fresh_snapshot_def)
  show "task_ok t rt h' (acks_of (sock @ ch_tx h)) True task w" by (rule task_ok_mono [OF D(3)]) (use h' in auto)
  show "caught_up t rt (client_event np t (drained t np (sock @ ch_tx h) chan sl) (TerminalResync t s))"
    by (rule client_event_resync_now [OF drained_not_ahead [OF D(1)] s])
qed

lemma task_ok_emitted:
  assumes "task_ok t rt h acks p task w" "emitted rt rt' d"
    and "ch_attaching h' t = map_option (\<lambda>_. True) (ch_attaching h t)"
  shows "task_ok t rt' h' acks q task w"
  using assms emitted_fresh_snapshot [OF assms(2)] by (cases task) (auto simp: task_ok_def)

lemma link_emitted:
  assumes L: "link_ok t np True rt h sock chan sl task w" and E: "emitted rt rt' d"
  shows "link_ok t np True rt' (route_client t (TerminalDelta t d) (TerminalResync t (stamped_snapshot rt')) h) sock chan sl task w"
    (is "link_ok t np True rt' ?h sock chan sl task w")
proof -
  note D = link_okD [OF L]
  note I = emitted_inflight [OF E D(1)]
  have F: "finish_ok t True rt' h" using D(2) by (auto simp: finish_ok_def)
  note T = task_ok_emitted [OF D(3) E]
  have quiet: "link_ok t np True rt' h' sock chan sl task w"
    if "ch_tx h' = ch_tx h" "finish_ok t True rt' h'" "ch_attaching h' t = map_option (\<lambda>_. True) (ch_attaching h t)"
      "ch_attaching h' t \<noteq> None \<or> t \<notin> ch_subscriptions h' \<or> t \<in> ch_behind h'" for h'
    by (rule link_okI) (use that I T in \<open>auto simp: sync_ok_def\<close>)
  have sub: "ch_attaching h t \<noteq> None \<Longrightarrow> t \<in> ch_subscriptions h" using D(2) by (simp add: finish_ok_def)
  consider (off) "t \<notin> ch_subscriptions h" | (att) "t \<in> ch_subscriptions h" "ch_attaching h t \<noteq> None"
    | (behind) "t \<in> ch_subscriptions h" "ch_attaching h t = None" "t \<in> ch_behind h"
    | (live) "t \<in> ch_subscriptions h" "ch_attaching h t = None" "t \<notin> ch_behind h" by blast
  then show ?thesis
  proof cases
    case off
    then have "ch_attaching h t = None" using sub by blast
    then show ?thesis using quiet [of h] off F by (auto simp: route_client_def)
  next
    case att
    then show ?thesis
      using quiet [of "h\<lparr>ch_attaching := (ch_attaching h)(t \<mapsto> True)\<rparr>"] F by (auto simp: route_client_def finish_ok_def)
  next
    case behind
    have "link_ok t np True rt' h sock chan sl task w" by (rule quiet) (use behind F in auto)
    then show ?thesis
      using behind link_resync [of t np True rt' h sock chan sl task w "stamped_snapshot rt'"] stamped_now [of rt'] F
      by (auto simp: route_client_def try_send_def finish_ok_def)
  next
    case live
    show ?thesis
    proof (cases "length (ch_tx h) < DELTA_HIGH_WATER")
      case True
      then have h: "?h = h\<lparr>ch_tx := ch_tx h @ [Event (TerminalDelta t d)]\<rparr>"
        using live by (simp add: route_client_def try_send_def DELTA_HIGH_WATER_def CLIENT_QUEUE_CAPACITY_def)
      show ?thesis
      proof (rule link_event [OF I emitted_delta_fresh [OF E]])
        have "caught_up t rt (drained t np (sock @ ch_tx h) chan sl)" using D(4) live by (simp add: sync_ok_def)
        then show "caught_up t rt' (client_event np t (drained t np (sock @ ch_tx h) chan sl) (TerminalDelta t d))"
          by (rule client_event_emitted [OF _ E])
      qed (use F T [of ?h] live h in \<open>auto simp: finish_ok_def\<close>)
    next
      case False
      then have "?h = h\<lparr>ch_behind := insert t (ch_behind h)\<rparr>" using live by (simp add: route_client_def)
      then show ?thesis using quiet [of "h\<lparr>ch_behind := insert t (ch_behind h)\<rparr>"] live F by (simp add: finish_ok_def)
    qed
  qed
qed

text \<open>An attach: its marks, the answer entering the queue, and the end of the request.\<close>

lemma link_begin:
  assumes L: "link_ok t np True rt h sock chan sl NoTask False" and s: "sn_seq s = rt_emit_seq rt" "current rt (sn_visible s)"
  shows "link_ok t np True rt (h\<lparr>ch_subscriptions := insert t (ch_subscriptions h), ch_behind := ch_behind h - {t},
      ch_attaching := (ch_attaching h)(t \<mapsto> False)\<rparr>) sock chan sl (Answering s) True"
proof (rule link_okI)
qed (use link_okD [OF L] s in \<open>auto simp: finish_ok_def task_ok_def sync_ok_def fresh_snapshot_def\<close>)

lemma link_answer:
  assumes L: "link_ok t np alive rt h sock chan sl (Answering s) w" and h': "h' = h\<lparr>ch_tx := ch_tx h @ [AttachAck rid s]\<rparr>"
  shows "link_ok t np alive rt h' sock chan sl Answered w"
proof (rule link_okI)
  note D = link_okD [OF L]
  have a: "acks_of (sock @ ch_tx h) = []" and fs: "fresh_snapshot rt s"
    and m: "\<exists>m. ch_attaching h t = Some m \<and> (\<not> m \<longrightarrow> sn_seq s = rt_emit_seq rt)" and w: "w"
    using D(3) by (auto simp: task_ok_def)
  have eq: "sock @ ch_tx h' = (sock @ ch_tx h) @ [AttachAck rid s]" by (simp add: h')
  have acks: "acks_of (sock @ ch_tx h') = [s]" using a unfolding eq by simp
  have c: "caught_up t rt (drained t np (sock @ ch_tx h') chan sl)" if "sn_seq s = rt_emit_seq rt"
    unfolding drained_def acks
    by (rule exact_caught_up [OF client_events_exact])
      (use that fs D(1) in \<open>auto simp: base_of_def exact_def fresh_snapshot_def inflight_ok_def eq\<close>)
  show "inflight_ok t rt (sock @ ch_tx h') chan sl" using D(1) a fs unfolding eq by (simp add: inflight_ok_def)
  show "finish_ok t alive rt h'" using D(2) by (simp add: finish_ok_def h')
  show "task_ok t rt h' (acks_of (sock @ ch_tx h')) (caught_up t rt (drained t np (sock @ ch_tx h') chan sl)) Answered w"
    unfolding acks using m w c by (auto simp: task_ok_def h')
  show "sync_ok t h' (caught_up t rt (drained t np (sock @ ch_tx h') chan sl))" using m by (auto simp: sync_ok_def h')
qed

lemma link_finish:
  assumes L: "link_ok t np alive rt h sock chan sl Answered w"
  shows "link_ok t np alive rt (snd (finish_client t h)) sock chan sl NoTask w"
proof -
  note D = link_okD [OF L]
  obtain m where m: "ch_attaching h t = Some m" "\<not> m \<longrightarrow> caught_up t rt (drained t np (sock @ ch_tx h) chan sl)"
    using D(3) by (auto simp: task_ok_def)
  then have "t \<in> ch_subscriptions h" using D(2) by (simp add: finish_ok_def)
  then have h': "snd (finish_client t h) = h\<lparr>ch_attaching := (ch_attaching h)(t := None),
      ch_behind := (if m then insert t (ch_behind h) else ch_behind h)\<rparr>"
    using m by (simp add: finish_client_def)
  show ?thesis unfolding h' by (rule link_okI) (use D m in \<open>auto simp: finish_ok_def task_ok_def sync_ok_def\<close>)
qed

lemma link_unsubscribe:
  assumes "link_ok t np alive rt h sock chan sl NoTask False"
  shows "link_ok t np alive rt (h\<lparr>ch_subscriptions := ch_subscriptions h - {t}, ch_behind := ch_behind h - {t},
     ch_attaching := (ch_attaching h)(t := None), ch_finished := (ch_finished h)(t := None)\<rparr>) sock chan sl NoTask False"
  by (rule link_okI) (use link_okD [OF assms] in \<open>auto simp: finish_ok_def task_ok_def sync_ok_def\<close>)

lemma link_write:
  assumes "link_ok t np alive rt h sock chan sl task w" "ch_tx h = m # rest"
  shows "link_ok t np alive rt (h\<lparr>ch_tx := rest\<rparr>) (sock @ [m]) chan sl task w"
  by (rule link_okI) (use link_okD [OF assms(1)] assms(2) in \<open>auto simp: finish_ok_def task_ok_def sync_ok_def split: attach_task.splits\<close>)

text \<open>The client's side.\<close>

lemma link_deliver_ack:
  assumes L: "link_ok t np alive rt h (AttachAck rid s # sock) chan sl task w"
  shows "link_ok t np alive rt h sock chan (attach_terminal t s (fst sl), False) task False"
proof -
  note D = link_okD [OF L]
  have a: "acks_of (sock @ ch_tx h) = []" and fs: "fresh_snapshot rt s" and task: "\<forall>s. task \<noteq> Answering s"
    using D(1,3) by (auto simp: task_ok_def inflight_ok_def split: attach_task.splits)
  have d: "drained t np (sock @ ch_tx h) chan (attach_terminal t s (fst sl), False)
      = drained t np ((AttachAck rid s # sock) @ ch_tx h) chan sl"
    using a by (simp add: drained_def base_of_def)
  show ?thesis
    by (rule link_okI; (unfold d)?)
      (use D a fs task in \<open>auto simp: inflight_ok_def not_ahead_def fresh_snapshot_def task_ok_def split: attach_task.splits\<close>)
qed

lemma link_deliver_event:
  assumes "link_ok t np alive rt h (Event ev # sock) chan sl task w"
  shows "link_ok t np alive rt h sock (chan @ [ev]) sl task w"
  using assms by (simp add: link_ok_def Let_def drained_def inflight_ok_def)

lemma link_deliver_other:
  assumes "link_ok t np alive rt h (OtherMessage x # sock) chan sl task w"
  shows "link_ok t np alive rt h sock chan sl task w"
  using assms by (simp add: link_ok_def Let_def drained_def inflight_ok_def)

lemma link_no_acks: "link_ok t np alive rt h sock chan sl task False \<Longrightarrow> acks_of (sock @ ch_tx h) = []"
  by (simp add: link_ok_def task_ok_def Let_def)

lemma link_process:
  assumes L: "link_ok t np alive rt h sock (ev # chan) sl task False"
  shows "link_ok t np alive rt h sock chan (client_event np t sl ev) task False"
proof -
  note D = link_okD [OF L] and a = link_no_acks [OF L]
  have d: "drained t np (sock @ ch_tx h) chan (client_event np t sl ev) = drained t np (sock @ ch_tx h) (ev # chan) sl"
    using a by (simp add: drained_def base_of_def)
  have "not_ahead t rt (client_event np t sl ev)"
    using D(1) by (intro client_event_not_ahead) (simp_all add: inflight_ok_def)
  then show ?thesis using D by (intro link_okI) (simp_all only: d, simp_all add: inflight_ok_def)
qed

lemma no_grid_caught_up:
  assumes "grid_of t sl = None" "acks_of ms = []"
  shows "caught_up t rt (drained t np ms chan sl)"
proof -
  have "grid_of t (foldl (client_event np t) sl' evs) = None" if "grid_of t sl' = None" for sl' :: "'a store \<times> bool" and evs
    using that
  proof (induction evs arbitrary: sl')
    case (Cons ev evs)
    have "grid_of t (client_event np t sl' ev) = None"
    proof (cases ev rule: event_cases [where t = t])
      case other
      then show ?thesis using unrelated_event_grid(1) [OF other] Cons.prems by (metis option.exhaust option.simps(3))
    qed (use Cons.prems in \<open>simp_all add: client_event_delta client_event_resync\<close>)
    then show ?case using Cons.IH by simp
  qed simp
  then show ?thesis using assms by (simp add: drained_def base_of_def caught_up_def)
qed

lemma link_detach:
  assumes L: "link_ok t np alive rt h sock chan sl task False"
  shows "link_ok t np alive rt h sock chan (detach_terminal t (fst sl), lost) task False"
proof -
  note D = link_okD [OF L]
  have "caught_up t rt (drained t np (sock @ ch_tx h) chan (detach_terminal t (fst sl), lost))"
    by (rule no_grid_caught_up) (simp_all add: detach_terminal_def link_no_acks [OF L, simplified])
  then show ?thesis using D
    by (intro link_okI) (auto simp: inflight_ok_def not_ahead_def detach_terminal_def sync_ok_def task_ok_def split: attach_task.splits)
qed

lemma link_register:
  "grid_of t sl = None \<Longrightarrow> link_ok t np alive rt (handle_new kind) [] [] sl NoTask False"
  by (rule link_okI) (auto simp: handle_new_def inflight_ok_def not_ahead_def finish_ok_def task_ok_def sync_ok_def)

lemma link_exit:
  assumes L: "link_ok t np True rt h sock chan sl task w"
  shows "link_ok t np False rt (if t \<in> ch_behind h \<or> ch_attaching h t = Some True
     then h\<lparr>ch_finished := (ch_finished h)(t \<mapsto> TerminalResync t (stamped_snapshot rt))\<rparr> else h) sock chan sl task w"
  by (rule link_okI)
    (use link_okD [OF L] stamped_now [of rt] in \<open>auto simp: finish_ok_def task_ok_def sync_ok_def split: attach_task.splits\<close>)

text \<open>Recovery sends the missed screen of every terminal while the queue is short.\<close>

lemma link_recover_own:
  assumes L: "link_ok t np alive rt h sock chan sl task w" and "t \<in> ch_behind h"
    and f: "f t = (if alive then Some (TerminalResync t (stamped_snapshot rt)) else None)"
  shows "\<exists>ev. (case ch_finished h t of Some ev \<Rightarrow> Some ev | None \<Rightarrow> f t) = Some ev
    \<and> link_ok t np alive rt (h\<lparr>ch_finished := (ch_finished h)(t := None), ch_tx := ch_tx h @ [Event ev],
         ch_behind := ch_behind h - {t}\<rparr>) sock chan sl task w"
proof -
  note D = link_okD [OF L]
  obtain s where s: "(case ch_finished h t of Some ev \<Rightarrow> Some ev | None \<Rightarrow> f t) = Some (TerminalResync t s)"
      "sn_seq s = rt_emit_seq rt" "current rt (sn_visible s)"
    using D(2) assms(2) f stamped_now [of rt] by (auto simp: finish_ok_def split: option.splits if_splits)
  have "link_ok t np alive rt (h\<lparr>ch_finished := (ch_finished h)(t := None), ch_tx := ch_tx h @ [Event (TerminalResync t s)],
         ch_behind := ch_behind h - {t}\<rparr>) sock chan sl task w"
    by (rule link_resync [OF L s(2,3)]) (use D(2) assms(2) in \<open>auto simp: finish_ok_def\<close>)
  then show ?thesis using s(1) by blast
qed

lemma link_recover:
  assumes "link_ok t np alive rt h sock chan sl task w" "distinct ts" "set ts \<subseteq> ch_behind h"
    and f: "f t = (if alive then Some (TerminalResync t (stamped_snapshot rt)) else None)"
      "\<And>t' ev. t' \<noteq> t \<Longrightarrow> f t' = Some ev \<Longrightarrow> unrelated_event t ev"
  shows "link_ok t np alive rt (recover_client_loop f ts h) sock chan sl task w"
  using assms(1-3)
proof (induction ts arbitrary: h)
  case (Cons t' ts)
  note D = link_okD [OF Cons.prems(1)]
  show ?case
  proof (cases "length (ch_tx h) \<le> DELTA_LOW_WATER")
    case True
    show ?thesis
    proof (cases "t' = t")
      case t: True
      then obtain ev where ev: "(case ch_finished h t of Some ev \<Rightarrow> Some ev | None \<Rightarrow> f t) = Some ev"
        and own: "link_ok t np alive rt (h\<lparr>ch_finished := (ch_finished h)(t := None), ch_tx := ch_tx h @ [Event ev],
          ch_behind := ch_behind h - {t}\<rparr>) sock chan sl task w"
        using link_recover_own [OF Cons.prems(1), of f] f(1) Cons.prems(3) by auto
      have "set ts \<subseteq> ch_behind h - {t}" using Cons.prems(2,3) t by auto
      then show ?thesis
        unfolding recover_one [OF True] t ev option.case using Cons.prems(2) by (intro Cons.IH [OF own]) simp_all
    next
      case False
      have by1: "bystander t h (h\<lparr>ch_finished := (ch_finished h)(t' := None), ch_behind := ch_behind h - {t'}\<rparr>)"
        using False by (simp add: bystander_def)
      have by2: "bystander t h (h\<lparr>ch_finished := (ch_finished h)(t' := None), ch_tx := ch_tx h @ [Event ev],
         ch_behind := ch_behind h - {t'}\<rparr>)"
        if "(case ch_finished h t' of Some ev \<Rightarrow> Some ev | None \<Rightarrow> f t') = Some ev" for ev
        using False that D(2) f(2) by (auto simp: bystander_def finish_ok_def split: option.splits)
      have sub: "distinct ts" "set ts \<subseteq> ch_behind h - {t'}" using Cons.prems by auto
      show ?thesis unfolding recover_one [OF True]
        using Cons.IH [OF link_bystander [OF Cons.prems(1) by1]] Cons.IH [OF link_bystander [OF Cons.prems(1) by2]] sub
        by (auto split: option.splits)
    qed
  qed (use Cons.prems in simp)
qed simp

section \<open>The table of clients\<close>

text \<open>Broadcasts touch nothing of a terminal's stream.\<close>

lemma bystander_refl [simp]: "bystander t h h"
  by (simp add: bystander_def)

lemma bystander_trans: "bystander t h h' \<Longrightarrow> bystander t h' h'' \<Longrightarrow> bystander t h h''"
  unfolding bystander_def by (elim conjE exE, intro conjI) (auto, blast?)

lemma bystander_send: "unrelated_event t ev \<Longrightarrow> bystander t h (send_or_drop (Event ev) h)"
  by (simp add: send_or_drop_def try_send_def bystander_def)

lemma bystanders_refl [simp]: "bystanders t reg reg"
  by (auto simp: bystanders_def)

lemma bystanders_trans: "bystanders t reg reg' \<Longrightarrow> bystanders t reg' reg'' \<Longrightarrow> bystanders t reg reg''"
  unfolding bystanders_def by (meson bystander_trans)

lemma bystanders_for: "(\<And>h. bystander t h (f h)) \<Longrightarrow> bystanders t reg (for_clients f reg)"
  by (auto simp: bystanders_def)

lemma bystanders_broadcast: "unrelated_event t ev \<Longrightarrow> bystanders t reg (broadcast_domain ev reg)"
  unfolding broadcast_domain_def by (rule bystanders_for) (simp add: bystander_send)

lemma bystanders_notify: "unrelated_event t ev \<Longrightarrow> bystanders t reg (notify_non_subscribers t' ev reg)"
  unfolding notify_non_subscribers_def by (rule bystanders_for) (simp add: bystander_send)

section \<open>Every connection stays right\<close>

definition linked :: "terminal_id \<Rightarrow> 'x \<Rightarrow> 'x stream \<Rightarrow> bool" where
  "linked t np s \<longleftrightarrow> (\<forall>c h. map_of (sy_reg s) c = Some h \<longrightarrow>
     link_ok t np (sy_alive s) (sy_rt s) h (sy_sock s c) (sy_chan s c) (sy_client s c) (sy_task s c) (sy_waiting s c))"

lemma linkedD:
  "linked t np s \<Longrightarrow> map_of (sy_reg s) c = Some h \<Longrightarrow>
    link_ok t np (sy_alive s) (sy_rt s) h (sy_sock s c) (sy_chan s c) (sy_client s c) (sy_task s c) (sy_waiting s c)"
  by (simp add: linked_def)

lemma linkedI:
  "(\<And>c h. map_of (sy_reg s) c = Some h \<Longrightarrow>
    link_ok t np (sy_alive s) (sy_rt s) h (sy_sock s c) (sy_chan s c) (sy_client s c) (sy_task s c) (sy_waiting s c)) \<Longrightarrow> linked t np s"
  by (simp add: linked_def)

lemma linked_bystanders:
  assumes "linked t np (s\<lparr>sy_reg := reg\<rparr>)" "bystanders t reg reg'"
  shows "linked t np (s\<lparr>sy_reg := reg'\<rparr>)"
proof (rule linkedI)
  fix c h' assume "map_of (sy_reg (s\<lparr>sy_reg := reg'\<rparr>)) c = Some h'"
  then obtain h where "map_of reg c = Some h" "bystander t h h'" using assms(2) by (auto simp: bystanders_def)
  then show "link_ok t np (sy_alive (s\<lparr>sy_reg := reg'\<rparr>)) (sy_rt (s\<lparr>sy_reg := reg'\<rparr>)) h' (sy_sock (s\<lparr>sy_reg := reg'\<rparr>) c)
      (sy_chan (s\<lparr>sy_reg := reg'\<rparr>) c) (sy_client (s\<lparr>sy_reg := reg'\<rparr>) c) (sy_task (s\<lparr>sy_reg := reg'\<rparr>) c) (sy_waiting (s\<lparr>sy_reg := reg'\<rparr>) c)"
    using link_bystander linkedD [OF assms(1), of c h] by simp
qed

lemma linked_advanced:
  assumes "linked t np s" "sy_alive s" "advanced (sy_rt s) rt'"
  shows "linked t np (s\<lparr>sy_rt := rt'\<rparr>)"
proof (rule linkedI, goal_cases)
  case (1 c h)
  then show ?case using link_advanced [OF _ assms(3)] linkedD [OF assms(1), of c h] assms(2) by simp
qed

lemma linked_emitted:
  assumes "linked t np s" "sy_alive s" "emitted (sy_rt s) rt' d"
  shows "linked t np (s\<lparr>sy_rt := rt', sy_reg := route_terminal_delta t (TerminalDelta t d)
    (TerminalResync t (stamped_snapshot rt')) (sy_reg s)\<rparr>)"
proof -
  have "link_ok t np True rt' (route_client t (TerminalDelta t d) (TerminalResync t (stamped_snapshot rt')) h)
      (sy_sock s c) (sy_chan s c) (sy_client s c) (sy_task s c) (sy_waiting s c)" if "map_of (sy_reg s) c = Some h" for c h
    by (rule link_emitted [OF _ assms(3)]) (use linkedD [OF assms(1) that] assms(2) in simp)
  then show ?thesis using assms(2) by (auto simp: linked_def route_terminal_delta_def)
qed

lemma pump_cases:
  assumes "pump_terminal_batch t p (Some rt) reg = (Some rt', reg')"
  obtains (quiet) "rt_emit_seq rt' = rt_emit_seq rt" "rt_engine rt' = pu_engine p" "bystanders t reg reg'"
  | (emit) rt1 d where "rt_emit_seq rt1 = rt_emit_seq rt" "rt_engine rt1 = pu_engine p" "emitted rt1 rt' d"
    "bystanders t (route_terminal_delta t (TerminalDelta t d) (TerminalResync t (stamped_snapshot rt')) reg) reg'"
proof -
  define rt1 where "rt1 = rt\<lparr>rt_engine := pu_engine p, rt_pending_damage := rt_pending_damage rt \<or> pu_publish p\<rparr>"
  obtain d0 e b where d: "builder_delta (rt_engine rt1) (rt_builder rt1) = (d0, e, b)" by (metis prod_cases3)
  define rt2 where "rt2 = rt1\<lparr>rt_pending_damage := False, rt_emit_seq := rt_emit_seq rt1 + 1, rt_engine := e, rt_builder := b\<rparr>"
  define d1 where "d1 = d0\<lparr>dl_seq := rt_emit_seq rt1 + 1\<rparr>"
  define route where "route = route_terminal_delta t (TerminalDelta t d1) (TerminalResync t (stamped_snapshot rt2)) reg"
  define emit where "emit = (pu_subscribed p \<and> rt_pending_damage rt1 \<and> pu_due p)"
  define reg1 where "reg1 = (if emit then route else reg)"
  define reg2 where "reg2 = (case pu_session_update p of Some s \<Rightarrow> broadcast_domain (SessionUpdated s) reg1 | None \<Rightarrow> reg1)"
  define reg3 where "reg3 = (if pu_bell p then broadcast_domain (TerminalBell t) reg2 else reg2)"
  define reg4 where "reg4 = (case pu_clipboard p of Some c \<Rightarrow> broadcast_domain (ClipboardStore t c) reg3 | None \<Rightarrow> reg3)"
  have "pump_terminal_batch t p (Some rt) reg = (Some (if emit then rt2 else rt1),
      if pu_note p \<and> \<not> pu_subscribed p then notify_non_subscribers t (TerminalActivity t) reg4 else reg4)"
  proof (cases emit)
    case True
    then have e: "emit = True" by simp
    show ?thesis
      unfolding pump_terminal_batch_def option.case Let_def rt1_def [symmetric] emit_def [symmetric] d prod.case
        reg4_def reg3_def reg2_def reg1_def route_def rt2_def d1_def e if_True ..
  next
    case False
    then have e: "emit = False" by simp
    show ?thesis
      unfolding pump_terminal_batch_def option.case Let_def rt1_def [symmetric] emit_def [symmetric]
        reg4_def reg3_def reg2_def reg1_def e if_False prod.case ..
  qed
  then have r: "rt' = (if emit then rt2 else rt1)"
      "reg' = (if pu_note p \<and> \<not> pu_subscribed p then notify_non_subscribers t (TerminalActivity t) reg4 else reg4)"
    using assms by simp_all
  have "bystanders t reg1 reg2" by (simp add: reg2_def bystanders_broadcast split: option.split)
  moreover have "bystanders t reg2 reg3" by (simp add: reg3_def bystanders_broadcast)
  moreover have "bystanders t reg3 reg4" by (simp add: reg4_def bystanders_broadcast split: option.split)
  moreover have "bystanders t reg4 reg'" by (simp add: r bystanders_notify)
  ultimately have b: "bystanders t reg1 reg'" by (blast intro: bystanders_trans)
  have e1: "rt_emit_seq rt1 = rt_emit_seq rt" "rt_engine rt1 = pu_engine p" by (simp_all add: rt1_def)
  have em: "emitted rt1 rt2 d1"
    using d by (auto simp: emitted_def rt2_def d1_def builder_delta_def take_damage_def Let_def)
  show thesis
  proof (cases emit)
    case True
    then show thesis using emit [OF e1] em b r by (simp add: reg1_def route_def)
  next
    case False
    then show thesis using quiet e1 b r by (simp add: reg1_def)
  qed
qed

lemma linked_pump:
  assumes L: "linked t np s" and "sy_alive s" "pump_terminal_batch t p (Some (sy_rt s)) (sy_reg s) = (Some rt', reg')"
    and d: "damage_covers (en_damage (rt_engine (sy_rt s))) (en_visible (rt_engine (sy_rt s))) (en_damage (pu_engine p)) (en_visible (pu_engine p))"
  shows "linked t np (s\<lparr>sy_rt := rt', sy_reg := reg'\<rparr>)"
  using assms(3)
proof (cases rule: pump_cases)
  case quiet
  have "linked t np (s\<lparr>sy_rt := rt'\<rparr>)"
    by (rule linked_advanced [OF L assms(2)]) (use d quiet in \<open>simp add: advanced_def\<close>)
  then show ?thesis using linked_bystanders [OF _ quiet(3), where np = np and s = "s\<lparr>sy_rt := rt'\<rparr>"] by simp
next
  case (emit rt1 dl)
  have "linked t np (s\<lparr>sy_rt := rt1\<rparr>)"
    by (rule linked_advanced [OF L assms(2)]) (use d emit in \<open>simp add: advanced_def\<close>)
  from linked_emitted [OF this, of rt' dl] assms(2) emit(3) show ?thesis
    using linked_bystanders [OF _ emit(4), where np = np and s = "s\<lparr>sy_rt := rt'\<rparr>"] by simp
qed

lemma linked_resize:
  assumes L: "linked t np s" and "sy_alive s" and f: "\<And>z. en_damage (resized z) = Full"
    and r: "resize_terminal sz err resized upd (Some (sy_rt s)) (sy_reg s) = (r, Some rt', reg')"
  shows "linked t np (s\<lparr>sy_rt := rt', sy_reg := reg'\<rparr>)"
proof -
  have a: "advanced (sy_rt s) rt'"
    using r f by (auto simp: resize_terminal_def Let_def advanced_def damage_covers_def split: option.splits)
  have b: "bystanders t (sy_reg s) reg'"
    using r by (auto simp: resize_terminal_def Let_def bystanders_broadcast split: option.splits)
  from linked_advanced [OF L assms(2) a] show ?thesis
    using linked_bystanders [OF _ b, where np = np and s = "s\<lparr>sy_rt := rt'\<rparr>"] by simp
qed

lemma linked_attach:
  assumes L: "linked t np s" and "sy_alive s" "\<not> sy_waiting s c" "sy_task s c = NoTask" and f: "\<And>z. en_damage (resized z) = Full"
    and r: "daemon_attach_terminal t sz (Some c) resized upd (Some (sy_rt s)) (sy_reg s) = (Inr snap, Some rt', reg')"
  shows "linked t np (s\<lparr>sy_rt := rt', sy_reg := reg', sy_task := (sy_task s)(c := Answering snap),
    sy_waiting := (sy_waiting s)(c := True)\<rparr>)"
proof -
  have a: "advanced (sy_rt s) rt'"
    using r f by (auto simp: daemon_attach_terminal_def Let_def builder_snapshot_def
        advanced_def damage_covers_def split: if_splits)
  have b: "bystanders t (begin_attach c t (sy_reg s)) reg'"
    using r by (auto simp: daemon_attach_terminal_def Let_def bystanders_broadcast split: prod.splits option.splits if_splits)
  have sn: "sn_seq snap = rt_emit_seq rt'" "current rt' (sn_visible snap)"
    using r by (auto simp: daemon_attach_terminal_def Let_def builder_snapshot_def engine_snapshot_def current_def)
  let ?s = "s\<lparr>sy_rt := rt', sy_task := (sy_task s)(c := Answering snap), sy_waiting := (sy_waiting s)(c := True)\<rparr>"
  have "linked t np (?s\<lparr>sy_reg := begin_attach c t (sy_reg s)\<rparr>)"
  proof (rule linkedI, goal_cases)
    case (1 k h)
    then show ?case
      using linkedD [OF linked_advanced [OF L assms(2) a], of k] assms(2-4)
      by (cases "k = c") (auto simp: begin_attach_def elim!: link_begin [OF _ sn])
  qed
  from linked_bystanders [OF this b] show ?thesis by (simp add: linked_def)
qed

lemma linked_one:
  assumes "linked t np s" "\<And>k. k \<noteq> c \<Longrightarrow> map_of (sy_reg s') k = map_of (sy_reg s) k \<and> sy_sock s' k = sy_sock s k
      \<and> sy_chan s' k = sy_chan s k \<and> sy_client s' k = sy_client s k \<and> sy_task s' k = sy_task s k \<and> sy_waiting s' k = sy_waiting s k"
    and "sy_alive s' = sy_alive s" "sy_rt s' = sy_rt s"
    and "\<And>h'. map_of (sy_reg s') c = Some h' \<Longrightarrow>
      link_ok t np (sy_alive s) (sy_rt s) h' (sy_sock s' c) (sy_chan s' c) (sy_client s' c) (sy_task s' c) (sy_waiting s' c)"
  shows "linked t np s'"
proof (rule linkedI, goal_cases)
  case (1 k h)
  show ?case
  proof (cases "k = c")
    case True
    then show ?thesis using assms(3-5) 1 by simp
  next
    case False
    then show ?thesis using assms(2) [OF False] assms(3,4) linkedD [OF assms(1), of k h] 1 by simp
  qed
qed

lemma linked_exit:
  assumes L: "linked t np s" and "terminal_exited t (sy_rto s) (sy_reg s) = (r, reg')"
  shows "linked t np (s\<lparr>sy_reg := reg', sy_alive := False\<rparr>)"
proof (cases "sy_alive s")
  case True
  show ?thesis
  proof (rule linkedI, goal_cases)
    case (1 c h')
    then obtain h where h: "map_of (sy_reg s) c = Some h" "h' = (if t \<in> ch_behind h \<or> ch_attaching h t = Some True
        then h\<lparr>ch_finished := (ch_finished h)(t \<mapsto> TerminalResync t (stamped_snapshot (sy_rt s)))\<rparr> else h)"
      using assms(2) True by (auto simp: terminal_exited_def finish_terminal_def)
    have "link_ok t np True (sy_rt s) h (sy_sock s c) (sy_chan s c) (sy_client s c) (sy_task s c) (sy_waiting s c)"
      using linkedD [OF L h(1)] True by simp
    from link_exit [OF this] show ?case unfolding h(2) by simp
  qed
next
  case False
  then show ?thesis using L assms(2) by (simp add: terminal_exited_def linked_def)
qed

lemma linked_recover:
  assumes L: "linked t np s" and h: "map_of (sy_reg s) c = Some h" "set ts = ch_behind h" "distinct ts" "rts t = sy_rto s"
  shows "linked t np (s\<lparr>sy_reg := recover_client c ts rts (sy_reg s)\<rparr>)"
proof (rule linked_one [OF L, where c = c], goal_cases)
  case (4 h')
  let ?f = "\<lambda>t. map_option (\<lambda>rt. TerminalResync t (stamped_snapshot rt)) (rts t)"
  have "link_ok t np (sy_alive s) (sy_rt s) (recover_client_loop ?f ts h) (sy_sock s c) (sy_chan s c) (sy_client s c) (sy_task s c) (sy_waiting s c)"
    by (rule link_recover [OF linkedD [OF L h(1)] h(3)]) (use h(2,4) in auto)
  then show ?case using 4 h(1) by (auto simp: recover_client_def recover_def)
qed (simp_all add: recover_client_def recover_def)

lemma linked_answered:
  assumes L: "linked t np s" and t: "sy_task s c = Answering snap" "send_to c (AttachAck rid snap) (sy_reg s) = (True, reg')"
  shows "linked t np (s\<lparr>sy_reg := reg', sy_task := (sy_task s)(c := Answered)\<rparr>)"
proof -
  obtain h where h: "map_of (sy_reg s) c = Some h" "reg' = modify_client c (\<lambda>_. h\<lparr>ch_tx := ch_tx h @ [AttachAck rid snap]\<rparr>) (sy_reg s)"
    using t(2) by (auto simp: send_to_def try_send_def split: option.splits if_splits)
  show ?thesis
  proof (rule linked_one [OF L, where c = c], goal_cases)
    case (4 h')
    then have "h' = h\<lparr>ch_tx := ch_tx h @ [AttachAck rid snap]\<rparr>" using h by simp
    then show ?case using link_answer [OF linkedD [OF L h(1), unfolded t(1)]] by simp
  qed (simp_all add: h)
qed

lemma linked_finish:
  assumes L: "linked t np s" and t: "sy_task s c = Answered" "finish_attach c t (sy_reg s) = (missed, reg')"
  shows "linked t np (s\<lparr>sy_reg := reg', sy_task := (sy_task s)(c := NoTask)\<rparr>)"
proof (rule linked_one [OF L, where c = c], goal_cases)
  case (1 k)
  then show ?case using t by (auto simp: finish_attach_def split: option.splits)
next
  case (4 h')
  then obtain h where "map_of (sy_reg s) c = Some h" "h' = snd (finish_client t h)"
    using t(2) by (auto simp: finish_attach_def split: option.splits)
  then show ?case using link_finish [OF linkedD [OF L, of c, unfolded t(1)]] by simp
qed simp_all

lemma linked_step:
  assumes "stream_step t np s s'" "linked t np s"
  shows "linked t np s'"
  using assms
proof (induction rule: stream_step.induct)
  case (AttachLost s c snap rid reg')
  then have "reg' = sy_reg s" by (auto simp: send_to_def split: option.splits)
  then show ?case by (intro linked_one [OF AttachLost.prems, of c]) (simp_all add: map_of_unregister)
next
  case (Detach s c)
  show ?case
    by (rule linked_one [OF Detach.prems, of c])
      (use Detach.hyps linkedD [OF Detach.prems, of c] in \<open>auto simp: unsubscribe_def intro: link_unsubscribe\<close>)
next
  case (Write s c h m rest)
  show ?case
    by (rule linked_one [OF Write.prems, of c])
      (use Write.hyps linkedD [OF Write.prems, of c] in \<open>auto intro: link_write\<close>)
next
  case (DeliverAck s c rid snap rest)
  show ?case
    by (rule linked_one [OF DeliverAck.prems, of c])
      (use DeliverAck.hyps linkedD [OF DeliverAck.prems, of c] in \<open>auto dest: link_deliver_ack\<close>)
next
  case (DeliverEvent s c ev rest)
  show ?case
    by (rule linked_one [OF DeliverEvent.prems, of c])
      (use DeliverEvent.hyps linkedD [OF DeliverEvent.prems, of c] in \<open>auto dest: link_deliver_event\<close>)
next
  case (DeliverOther s c x rest)
  show ?case
    by (rule linked_one [OF DeliverOther.prems, of c])
      (use DeliverOther.hyps linkedD [OF DeliverOther.prems, of c] in \<open>auto dest: link_deliver_other\<close>)
next
  case (Process s c ev rest)
  show ?case
    by (rule linked_one [OF Process.prems, of c])
      (use Process.hyps linkedD [OF Process.prems, of c] in \<open>auto dest: link_process\<close>)
next
  case (ClientDetach s c)
  show ?case
    by (rule linked_one [OF ClientDetach.prems, of c])
      (use ClientDetach.hyps linkedD [OF ClientDetach.prems, of c] in \<open>auto dest: link_detach\<close>)
next
  case (Register s c kind)
  show ?case
    by (rule linked_one [OF Register.prems, of c])
      (use Register.hyps in \<open>auto simp: map_of_register intro: link_register\<close>)
next
  case (Bystander s reg')
  then show ?case using linked_bystanders [of t np _ s] by (metis (no_types) stream.surjective stream.update_convs(1))
qed (blast intro: linked_pump linked_resize linked_attach linked_answered linked_finish linked_recover linked_exit)+

lemma linked_start: "linked t np (stream_start e np)"
  by (simp add: linked_def stream_start_def)

lemma linked_run: "stream_run t np s s' \<Longrightarrow> linked t np s \<Longrightarrow> linked t np s'"
  by (induction rule: stream_run.induct) (auto intro: linked_step)

lemma row_agrees_none: "row_agrees (Columns []) i r r' \<Longrightarrow> r = r'"
  by (auto simp: row_agrees_iff intro!: row.equality nth_equalityI)

lemma grid_agrees_none:
  assumes "grid_agrees (Columns []) g v" "n \<le> length g" "n \<le> length v"
  shows "take n g = take n v"
  by (rule nth_equalityI) (use assms row_agrees_none [OF grid_agreesD [OF assms(1)]] in auto)

text \<open>
  C30: Whatever the order in which output is pumped, clients attach, detach, fall behind, are recovered
  and read their sockets, and the terminal is resized or exits: a client that is subscribed, not marked
  behind and not being attached, that was not told to reattach and has read everything sent to it, is
  at the daemon's last emission, and shows the engine's rows (of the part both screens have) in every
  cell the engine has not marked as damaged since; with no damage left, exactly the engine's rows. The
  engine is only assumed to report its damage, and full damage after a resize, and a client to have at
  most one attach of the terminal under way and to merge no history page that replaces its screen.
\<close>

theorem settled_client_shows_screen:
  assumes "stream_run t np (stream_start e np) s" and "map_of (sy_reg s) c = Some h"
    and "t \<in> ch_subscriptions h" "t \<notin> ch_behind h" "ch_attaching h t = None"
    and "ch_tx h = []" "sy_sock s c = []" "sy_chan s c = []"
    and "sto_terminals (fst (sy_client s c)) t = Some g" "\<not> snd (sy_client s c)"
  shows "gr_last_seq g = rt_emit_seq (sy_rt s)
    \<and> (\<forall>i < min (length (gr_visible g)) (length (en_visible (rt_engine (sy_rt s)))).
         row_agrees (en_damage (rt_engine (sy_rt s))) i (gr_visible g ! i) (en_visible (rt_engine (sy_rt s)) ! i))
    \<and> (en_damage (rt_engine (sy_rt s)) = Columns [] \<longrightarrow> length (gr_visible g) = length (en_visible (rt_engine (sy_rt s)))
        \<longrightarrow> gr_visible g = en_visible (rt_engine (sy_rt s)))"
proof -
  note L = linkedD [OF linked_run [OF assms(1) linked_start] assms(2)]
  have "caught_up t (sy_rt s) (drained t np [] [] (sy_client s c))"
    using link_okD(4) [OF L] assms(3-8) by (simp add: sync_ok_def)
  then have c: "gr_last_seq g = rt_emit_seq (sy_rt s)"
      "grid_agrees (en_damage (rt_engine (sy_rt s))) (gr_visible g) (en_visible (rt_engine (sy_rt s)))"
    using assms(9,10) by (auto simp: drained_def base_of_def caught_up_def current_def)
  show ?thesis
    using c grid_agreesD [OF c(2)] grid_agrees_none [of "gr_visible g" "en_visible (rt_engine (sy_rt s))" "length (gr_visible g)"]
    by auto
qed

text \<open>A run: one client registers, attaches, and one emitted change of a one-cell screen reaches it.\<close>

definition demo_row :: "string \<Rightarrow> row" where
  "demo_row x = \<lparr>rw_cells = [cell_default\<lparr>ce_text := x\<rparr>], rw_wrapped = False\<rparr>"

definition demo_engine :: "string \<Rightarrow> damage \<Rightarrow> engine" where
  "demo_engine x d = \<lparr>en_seq = 0, en_size = \<lparr>ps_cols = 1, ps_rows = 1, ps_pixel_width = 0, ps_pixel_height = 0\<rparr>,
     en_visible = [demo_row x], en_scrollback = [], en_generation = 0, en_cursor = term_cursor_default,
     en_modes = term_modes_default, en_title = None, en_damage = d\<rparr>"

definition demo_runtime :: "nat \<Rightarrow> engine \<Rightarrow> runtime" where
  "demo_runtime n e = \<lparr>rt_engine = e, rt_builder = delta_builder_new, rt_emit_seq = n, rt_pending_damage = False, rt_size = en_size e\<rparr>"

definition demo_handle :: "unit daemon_message list \<Rightarrow> unit client_handle" where
  "demo_handle tx = (handle_new Gui)\<lparr>ch_tx := tx, ch_subscriptions := {TerminalId 7}\<rparr>"

definition demo_snapshot :: terminal_snapshot where
  "demo_snapshot = stamped_snapshot (demo_runtime 0 (demo_engine ''a'' (Columns [])))"

definition demo_delta :: terminal_delta where
  "demo_delta = (fst (builder_delta (demo_engine ''b'' (Partial [0])) delta_builder_new))\<lparr>dl_seq := 1\<rparr>"

text \<open>The demo's state, given what differs along the run.\<close>

definition demo_state ::
  "runtime \<Rightarrow> unit client_handle \<Rightarrow> unit daemon_message list \<Rightarrow> unit daemon_event list \<Rightarrow> unit store \<Rightarrow> attach_task \<Rightarrow> bool \<Rightarrow> unit stream" where
  "demo_state rt h sock chan st task w = \<lparr>sy_reg = [(ClientId 1, h)], sy_rt = rt, sy_alive = True,
     sy_sock = (\<lambda>_. [])(ClientId 1 := sock), sy_chan = (\<lambda>_. [])(ClientId 1 := chan), sy_client = (\<lambda>_. (store_new (), False))(ClientId 1 := (st, False)),
     sy_task = (\<lambda>_. NoTask)(ClientId 1 := task), sy_waiting = (\<lambda>_. False)(ClientId 1 := w)\<rparr>"

lemmas demo_defs = demo_state_def demo_handle_def demo_runtime_def demo_engine_def demo_row_def demo_snapshot_def demo_delta_def
  handle_new_def delta_builder_new_def

lemma demo_registered:
  "stream_step (TerminalId 7) () (stream_start (demo_engine ''a'' (Columns [])) ())
    (demo_state (demo_runtime 0 (demo_engine ''a'' (Columns []))) (handle_new Gui) [] [] (store_new ()) NoTask False)"
proof -
  let ?s = "stream_start (demo_engine ''a'' (Columns [])) ()"
  have "stream_step (TerminalId 7) () ?s (?s\<lparr>sy_reg := register_kind (ClientId 1) Gui (sy_reg ?s)\<rparr>)"
    by (rule stream_step.Register) (simp_all add: stream_start_def store_new_def)
  moreover have "?s\<lparr>sy_reg := register_kind (ClientId 1) Gui (sy_reg ?s)\<rparr>
      = demo_state (demo_runtime 0 (demo_engine ''a'' (Columns []))) (handle_new Gui) [] [] (store_new ()) NoTask False"
    by (simp add: stream_start_def register_kind_def demo_state_def demo_runtime_def fun_eq_iff)
  ultimately show ?thesis by simp
qed

lemma demo_attaching:
  "stream_step (TerminalId 7) () (demo_state (demo_runtime 0 (demo_engine ''a'' (Columns []))) (handle_new Gui) [] [] (store_new ()) NoTask False)
    (demo_state (demo_runtime 0 (demo_engine ''a'' (Columns []))) ((demo_handle [])\<lparr>ch_attaching := [TerminalId 7 \<mapsto> False]\<rparr>) [] []
       (store_new ()) (Answering demo_snapshot) True)"
  (is "stream_step _ _ ?s ?s'")
proof -
  have "daemon_attach_terminal (TerminalId 7) (en_size (demo_engine ''a'' Full)) (Some (ClientId 1)) (\<lambda>_. demo_engine ''a'' Full) None
      (Some (sy_rt ?s)) (sy_reg ?s) = (Inr demo_snapshot, Some (sy_rt ?s'), sy_reg ?s')"
    by (simp add: daemon_attach_terminal_def builder_snapshot_def begin_attach_def modify_client_def stamped_snapshot_def
        engine_snapshot_def sanitized_def MAX_COLS_def MAX_ROWS_def Let_def demo_defs)
  from stream_step.AttachBegin [OF _ this, where np = "()"] show ?thesis
    by (simp add: demo_state_def demo_engine_def)
qed

lemma demo_answered:
  "stream_step (TerminalId 7) () (demo_state rt ((demo_handle [])\<lparr>ch_attaching := [TerminalId 7 \<mapsto> False]\<rparr>) [] [] st (Answering demo_snapshot) True)
    (demo_state rt ((demo_handle [AttachAck 0 demo_snapshot])\<lparr>ch_attaching := [TerminalId 7 \<mapsto> False]\<rparr>) [] [] st Answered True)"
  (is "stream_step _ _ ?s ?s'")
proof -
  have "send_to (ClientId 1) (AttachAck 0 demo_snapshot) (sy_reg ?s) = (True, sy_reg ?s')"
    by (simp add: send_to_def try_send_def modify_client_def CLIENT_QUEUE_CAPACITY_def demo_state_def demo_handle_def)
  from stream_step.AttachSend [OF _ this, where np = "()"] show ?thesis by (simp add: demo_state_def)
qed

lemma demo_finished:
  "stream_step (TerminalId 7) () (demo_state rt ((demo_handle tx)\<lparr>ch_attaching := [TerminalId 7 \<mapsto> False]\<rparr>) [] [] st Answered True)
    (demo_state rt (demo_handle tx) [] [] st NoTask True)"
  (is "stream_step _ _ ?s ?s'")
proof -
  have "finish_attach (ClientId 1) (TerminalId 7) (sy_reg ?s) = (False, sy_reg ?s')"
    by (simp add: finish_attach_def finish_client_def modify_client_def Let_def demo_state_def demo_handle_def handle_new_def)
  from stream_step.AttachFinish [OF _ this, where np = "()"] show ?thesis by (simp add: demo_state_def)
qed

lemma demo_written:
  "stream_step (TerminalId 7) () (demo_state rt (demo_handle [m]) [] chan st NoTask w) (demo_state rt (demo_handle []) [m] chan st NoTask w)"
  (is "stream_step _ _ ?s ?s'")
proof -
  have "map_of (sy_reg ?s) (ClientId 1) = Some (demo_handle [m])" "ch_tx (demo_handle [m]) = [m]"
    by (simp_all add: demo_state_def demo_handle_def)
  from stream_step.Write [OF this, where np = "()" and t = "TerminalId 7"] show ?thesis
    by (simp add: demo_state_def demo_handle_def handle_new_def modify_client_def)
qed

lemma demo_ack_read:
  "stream_step (TerminalId 7) () (demo_state rt h [AttachAck 0 demo_snapshot] [] st NoTask True)
    (demo_state rt h [] [] (attach_terminal (TerminalId 7) demo_snapshot st) NoTask False)"
  using stream_step.DeliverAck [of "demo_state rt h [AttachAck 0 demo_snapshot] [] st NoTask True" "ClientId 1" 0 demo_snapshot "[]" "TerminalId 7" "()"]
  by (simp add: demo_state_def)

definition demo_pump :: pump_input where
  "demo_pump = \<lparr>pu_subscribed = True, pu_engine = demo_engine ''b'' (Partial [0]), pu_publish = True, pu_due = True, pu_bell = False,
     pu_clipboard = None, pu_session_update = None, pu_note = False\<rparr>"

lemma demo_pumped:
  "stream_step (TerminalId 7) () (demo_state (demo_runtime 0 (demo_engine ''a'' (Columns []))) (demo_handle []) [] [] st NoTask False)
    (demo_state (demo_runtime 1 (demo_engine ''b'' (Columns []))) (demo_handle [Event (TerminalDelta (TerminalId 7) demo_delta)]) [] [] st NoTask False)"
  (is "stream_step _ _ ?s ?s'")
proof -
  have "pump_terminal_batch (TerminalId 7) demo_pump (Some (sy_rt ?s)) (sy_reg ?s) = (Some (sy_rt ?s'), sy_reg ?s')"
    by (simp add: pump_terminal_batch_def demo_pump_def builder_delta_def take_damage_def route_terminal_delta_def for_clients_def
        route_client_def try_send_def CLIENT_QUEUE_CAPACITY_def DELTA_HIGH_WATER_def Let_def demo_defs)
  moreover have "damage_covers (Columns []) [demo_row ''a''] (Partial [0]) [demo_row ''b'']"
    by (simp add: damage_covers_def grid_agrees_def row_agrees_def)
  ultimately show ?thesis
    using stream_step.Pump [where np = "()" and s = ?s and p = demo_pump and t = "TerminalId 7"]
    by (simp add: demo_state_def demo_pump_def demo_runtime_def demo_engine_def)
qed

lemma demo_delivered:
  "stream_step (TerminalId 7) () (demo_state rt h [Event ev] [] st NoTask False) (demo_state rt h [] [ev] st NoTask False)"
  using stream_step.DeliverEvent [of "demo_state rt h [Event ev] [] st NoTask False" "ClientId 1" ev "[]" "TerminalId 7" "()"]
  by (simp add: demo_state_def)

lemma demo_processed:
  "client_event () (TerminalId 7) (st, False) ev = (st', False) \<Longrightarrow>
    stream_step (TerminalId 7) () (demo_state rt h [] [ev] st NoTask False) (demo_state rt h [] [] st' NoTask False)"
  using stream_step.Process [of "demo_state rt h [] [ev] st NoTask False" "ClientId 1" ev "[]" "TerminalId 7" "()"]
  by (simp add: demo_state_def)

definition demo_grid :: cell_grid where
  "demo_grid = snd (apply_delta demo_delta (from_snapshot demo_snapshot))"

definition demo_store :: "unit store" where
  "demo_store = (attach_terminal (TerminalId 7) demo_snapshot (store_new ()))\<lparr>sto_terminals := [TerminalId 7 \<mapsto> demo_grid]\<rparr>"

definition demo_end :: "unit stream" where
  "demo_end = demo_state (demo_runtime 1 (demo_engine ''b'' (Columns []))) (demo_handle []) [] [] demo_store NoTask False"

lemma demo_grid_value: "apply_delta demo_delta (from_snapshot demo_snapshot) = (Applied, demo_grid)" "gr_visible demo_grid = [demo_row ''b'']"
  by (simp_all add: demo_grid_def apply_delta_def from_snapshot_def seed_scrollback_tail_def builder_delta_def take_damage_def
      damaged_rows_def damaged_patches_def engine_rows_def engine_row_def stamped_snapshot_def engine_snapshot_def Let_def demo_defs)

lemma demo_event:
  "client_event () (TerminalId 7) (attach_terminal (TerminalId 7) demo_snapshot (store_new ()), False)
    (TerminalDelta (TerminalId 7) demo_delta) = (demo_store, False)"
  unfolding client_event_delta by (simp add: demo_grid_value(1) demo_store_def attach_terminal_def store_new_def)

lemma demo_run: "stream_run (TerminalId 7) () (stream_start (demo_engine ''a'' (Columns [])) ()) demo_end"
  unfolding demo_end_def
  by (rule stream_run.intros demo_processed [OF demo_event] demo_delivered demo_written demo_pumped demo_ack_read
      demo_finished demo_answered demo_attaching demo_registered)+

theorem settled_client_shows_screen_witness:
  "stream_run (TerminalId 7) () (stream_start (demo_engine ''a'' (Columns [])) ()) demo_end
   \<and> gr_last_seq demo_grid = 1 \<and> gr_visible demo_grid = [demo_row ''b'']"
  using settled_client_shows_screen [OF demo_run, of "ClientId 1" "demo_handle []" demo_grid] demo_run demo_grid_value(2)
  by (simp add: demo_end_def demo_state_def demo_handle_def demo_runtime_def demo_store_def handle_new_def)

end
