(* ===== verification/Protocol_Framing.thy ===== *)
theory Protocol_Framing
  imports Forge_Prelude
begin

text \<open>
  The length-prefixed frames of the wire: \<open>protocol/src/framing.rs\<close>, the reader thread's drain loop of
  \<open>client/src/ipc.rs\<close> and the daemon's \<open>read_frame\<close> of \<open>daemon/src/server.rs\<close>. MessagePack is third-party
  code: a serializer is the sequence of writes it makes for a message and the error it ends with, if
  any, a deserializer a function of the payload. Capacities are kept where the writer reads them; that
  a decoder gives memory back is not observable and not modelled.
\<close>

section \<open>Encoding\<close>

definition MAX_FRAME_SIZE :: nat where "MAX_FRAME_SIZE = 16 * 1024 * 1024"
definition LEN_PREFIX :: nat where "LEN_PREFIX = 4"

datatype 'e codec_error = EncodeError 'e | DecodeError 'e | JsonError 'e | FrameTooLarge nat nat | Incomplete nat

definition to_be_bytes :: "32 word \<Rightarrow> 8 word list" where
  "to_be_bytes w = map (\<lambda>k. ucast (drop_bit k w)) [24, 16, 8, 0]"

definition from_be_bytes :: "8 word list \<Rightarrow> nat" where
  "from_be_bytes bs = foldl (\<lambda>n b. n * 256 + unat b) 0 bs"

record frame_writer =
  fw_bytes :: "8 word list"
  fw_capacity :: nat
  fw_overflow :: "nat option"

definition grow_and_write :: "8 word list \<Rightarrow> frame_writer \<Rightarrow> bool \<times> frame_writer" where
  "grow_and_write bs w =
    (let sz = length (fw_bytes w) - LEN_PREFIX + length bs
     in if sz > MAX_FRAME_SIZE then (False, w\<lparr>fw_overflow := Some sz\<rparr>)
        else let needed = sz + LEN_PREFIX;
                 w1 = (if needed > fw_capacity w
                       then w\<lparr>fw_capacity := min (max needed (fw_capacity w * 2)) (MAX_FRAME_SIZE + LEN_PREFIX)\<rparr>
                       else w)
             in (True, w1\<lparr>fw_bytes := fw_bytes w1 @ bs\<rparr>))"

definition writer_write_all :: "8 word list \<Rightarrow> frame_writer \<Rightarrow> bool \<times> frame_writer" where
  "writer_write_all bs w =
    (let len = length (fw_bytes w)
     in if length bs \<le> fw_capacity w - len \<and> len + length bs \<le> MAX_FRAME_SIZE + LEN_PREFIX
        then (True, w\<lparr>fw_bytes := fw_bytes w @ bs\<rparr>) else grow_and_write bs w)"

text \<open>A serializer stops at the first write that fails.\<close>

fun write_chunks :: "8 word list list \<Rightarrow> frame_writer \<Rightarrow> frame_writer" where
  "write_chunks [] w = w"
| "write_chunks (c # cs) w = (case writer_write_all c w of (True, w') \<Rightarrow> write_chunks cs w' | (False, w') \<Rightarrow> w')"

definition encode_frame ::
  "('m \<Rightarrow> 8 word list list \<times> 'e option) \<Rightarrow> 'm \<Rightarrow> 'e codec_error + 8 word list" where
  "encode_frame ser m =
    (let (cs, err) = ser m;
         w = write_chunks cs \<lparr>fw_bytes = replicate LEN_PREFIX 0, fw_capacity = LEN_PREFIX, fw_overflow = None\<rparr>
     in case fw_overflow w of
          Some sz \<Rightarrow> Inl (FrameTooLarge sz MAX_FRAME_SIZE)
        | None \<Rightarrow> (case err of
             Some e \<Rightarrow> Inl (EncodeError e)
           | None \<Rightarrow> let sz = length (fw_bytes w) - LEN_PREFIX
                     in Inr (to_be_bytes (of_nat sz) @ drop LEN_PREFIX (fw_bytes w))))"

definition decode_payload :: "(8 word list \<Rightarrow> 'e + 'm) \<Rightarrow> 8 word list \<Rightarrow> 'e codec_error + 'm" where
  "decode_payload de p = (case de p of Inl e \<Rightarrow> Inl (DecodeError e) | Inr m \<Rightarrow> Inr m)"

definition decode_frame :: "(8 word list \<Rightarrow> 'e + 'm) \<Rightarrow> 8 word list \<Rightarrow> 'e codec_error + ('m \<times> nat)" where
  "decode_frame de bytes =
    (if length bytes < LEN_PREFIX then Inl (Incomplete (LEN_PREFIX - length bytes))
     else let len = from_be_bytes (take 4 bytes)
          in if len > MAX_FRAME_SIZE then Inl (FrameTooLarge len MAX_FRAME_SIZE)
             else let total = LEN_PREFIX + len
                  in if length bytes < total then Inl (Incomplete (total - length bytes))
                     else case decode_payload de (drop LEN_PREFIX (take total bytes)) of
                            Inl e \<Rightarrow> Inl e | Inr m \<Rightarrow> Inr (m, total))"

section \<open>The streaming decoder\<close>

record frame_decoder =
  fd_buf :: "8 word list"
  fd_start :: nat

definition COMPACT_THRESHOLD :: nat where "COMPACT_THRESHOLD = 64 * 1024"

definition decoder_new :: frame_decoder where
  "decoder_new = \<lparr>fd_buf = [], fd_start = 0\<rparr>"

definition decoder_compact :: "frame_decoder \<Rightarrow> frame_decoder" where
  "decoder_compact d =
    (if fd_start d = 0 then d
     else if fd_start d = length (fd_buf d) then \<lparr>fd_buf = [], fd_start = 0\<rparr>
     else if fd_start d \<ge> COMPACT_THRESHOLD then \<lparr>fd_buf = drop (fd_start d) (fd_buf d), fd_start = 0\<rparr>
     else d)"

definition decoder_push :: "8 word list \<Rightarrow> frame_decoder \<Rightarrow> frame_decoder" where
  "decoder_push bytes d = (let d1 = decoder_compact d in d1\<lparr>fd_buf := fd_buf d1 @ bytes\<rparr>)"

definition buffered :: "frame_decoder \<Rightarrow> nat" where
  "buffered d = length (fd_buf d) - fd_start d"

definition next_frame :: "frame_decoder \<Rightarrow> 'e codec_error + (8 word list option \<times> frame_decoder)" where
  "next_frame d =
    (let pending = drop (fd_start d) (fd_buf d)
     in if length pending < LEN_PREFIX then Inr (None, d)
        else let len = from_be_bytes (take 4 pending)
             in if len > MAX_FRAME_SIZE then Inl (FrameTooLarge len MAX_FRAME_SIZE)
                else let total = LEN_PREFIX + len
                     in if length pending < total then Inr (None, d)
                        else let payload = drop LEN_PREFIX (take total pending)
                             in Inr (Some payload, decoder_compact (d\<lparr>fd_start := fd_start d + total\<rparr>)))"

definition next_message ::
  "(8 word list \<Rightarrow> 'e + 'm) \<Rightarrow> frame_decoder \<Rightarrow> ('e codec_error + 'm option) \<times> frame_decoder" where
  "next_message de d =
    (case next_frame d of
       Inl e \<Rightarrow> (Inl e, d)
     | Inr (None, d') \<Rightarrow> (Inr None, d')
     | Inr (Some p, d') \<Rightarrow> (case decode_payload de p of Inl e \<Rightarrow> (Inl e, d') | Inr m \<Rightarrow> (Inr (Some m), d')))"

text \<open>
  The daemon's side reads from the stream itself; \<open>bytes\<close> is what the client sends until it closes. A
  stream that ends inside a length prefix ends quietly, one that ends inside a payload is an error.
\<close>

datatype read_error = UnexpectedEof | InvalidData

definition read_frame :: "8 word list \<Rightarrow> read_error + (8 word list option \<times> 8 word list)" where
  "read_frame bytes =
    (if length bytes < 4 then Inr (None, [])
     else let len = from_be_bytes (take 4 bytes)
          in if len > MAX_FRAME_SIZE then Inl InvalidData
             else if length (drop 4 bytes) < len then Inl UnexpectedEof
             else Inr (Some (take len (drop 4 bytes)), drop len (drop 4 bytes)))"

section \<open>Reading until nothing is left\<close>

text \<open>
  The loop both sides run: take frames until there is none or an error, at most \<open>n\<close> times. Every frame
  takes at least its prefix from what is pending, so as many rounds as there are bytes are enough.
\<close>

fun pull :: "('s \<Rightarrow> 'e + ('p option \<times> 's)) \<Rightarrow> nat \<Rightarrow> 's \<Rightarrow> 'p list \<times> 's \<times> 'e option" where
  "pull nxt 0 s = ([], s, None)"
| "pull nxt (Suc n) s =
    (case nxt s of
       Inl e \<Rightarrow> ([], s, Some e)
     | Inr (None, s') \<Rightarrow> ([], s', None)
     | Inr (Some p, s') \<Rightarrow> (case pull nxt n s' of (ps, r) \<Rightarrow> (p # ps, r)))"

definition drain_decoder :: "frame_decoder \<Rightarrow> 8 word list list \<times> frame_decoder \<times> 'e codec_error option" where
  "drain_decoder d = pull next_frame (Suc (buffered d)) d"

text \<open>\<open>reader_loop\<close>: drain, then read the next chunk; the last drain is before the end of the stream.\<close>

fun reader_loop :: "8 word list list \<Rightarrow> frame_decoder \<Rightarrow> 8 word list list \<times> frame_decoder \<times> 'e codec_error option" where
  "reader_loop [] d = drain_decoder d"
| "reader_loop (c # cs) d =
    (case drain_decoder d of
       (ps, d', Some e) \<Rightarrow> (ps, d', Some e)
     | (ps, d', None) \<Rightarrow> (case reader_loop cs (decoder_push c d') of (qs, r) \<Rightarrow> (ps @ qs, r)))"

definition server_frames :: "8 word list \<Rightarrow> 8 word list list \<times> 8 word list \<times> read_error option" where
  "server_frames bytes = pull read_frame (Suc (length bytes)) bytes"

section \<open>What a byte stream contains\<close>

text \<open>The first complete frame of a stream, if any, and all of them.\<close>

definition split_frame :: "8 word list \<Rightarrow> (8 word list \<times> 8 word list) option" where
  "split_frame bs =
    (let n = from_be_bytes (take 4 bs)
     in if length bs < 4 \<or> n > MAX_FRAME_SIZE \<or> length bs < 4 + n then None
        else Some (take n (drop 4 bs), drop (4 + n) bs))"

lemma split_frame_shorter: "split_frame bs = Some (p, rest) \<Longrightarrow> length rest < length bs"
  by (auto simp: split_frame_def Let_def split: if_splits)

function frames_of :: "8 word list \<Rightarrow> 8 word list list" where
  "frames_of bs = (case split_frame bs of None \<Rightarrow> [] | Some (p, rest) \<Rightarrow> p # frames_of rest)"
  by auto

termination frames_of
  by (relation "measure length") (auto dest: split_frame_shorter)

declare frames_of.simps [simp del]

function leftover_of :: "8 word list \<Rightarrow> 8 word list" where
  "leftover_of bs = (case split_frame bs of None \<Rightarrow> bs | Some (p, rest) \<Rightarrow> leftover_of rest)"
  by auto

termination leftover_of
  by (relation "measure length") (auto dest: split_frame_shorter)

declare leftover_of.simps [simp del]

definition oversized :: "8 word list \<Rightarrow> bool" where
  "oversized bs \<longleftrightarrow> 4 \<le> length bs \<and> from_be_bytes (take 4 bs) > MAX_FRAME_SIZE"

lemma oversized_split [simp]: "oversized bs \<Longrightarrow> split_frame bs = None"
  by (simp add: oversized_def split_frame_def)

lemma oversized_append: "oversized bs \<Longrightarrow> oversized (bs @ later)"
  by (simp add: oversized_def)

lemma frames_none [simp]: "split_frame bs = None \<Longrightarrow> frames_of bs = []" "split_frame bs = None \<Longrightarrow> leftover_of bs = bs"
  by (simp_all add: frames_of.simps leftover_of.simps)

lemma frames_some:
  "split_frame bs = Some (p, rest) \<Longrightarrow> frames_of bs = p # frames_of rest"
  "split_frame bs = Some (p, rest) \<Longrightarrow> leftover_of bs = leftover_of rest"
  by (simp_all add: frames_of.simps [of bs] leftover_of.simps [of bs])

lemma split_leftover [simp]: "split_frame (leftover_of bs) = None"
proof (induction bs rule: leftover_of.induct)
  case (1 bs)
  then show ?case by (cases "split_frame bs") (auto simp: frames_some)
qed

text \<open>
  A frame reader: what it has pending, and a next operation that yields the first complete frame of
  it, or no frame.
\<close>

locale frame_reader =
  fixes pending :: "'s \<Rightarrow> 8 word list" and nxt :: "'s \<Rightarrow> 'e + (8 word list option \<times> 's)" and valid :: "'s \<Rightarrow> bool"
  assumes takes_frame: "valid s \<Longrightarrow> split_frame (pending s) = Some (p, rest) \<Longrightarrow>
      \<exists>s'. nxt s = Inr (Some p, s') \<and> pending s' = rest \<and> valid s'"
    and stops: "valid s \<Longrightarrow> split_frame (pending s) = None \<Longrightarrow> (\<exists>e. nxt s = Inl e) \<or> (\<exists>s'. nxt s = Inr (None, s'))"
begin

lemma pull_frames:
  "valid s \<Longrightarrow> length (pending s) < n \<Longrightarrow> fst (pull nxt n s) = frames_of (pending s)"
proof (induction n arbitrary: s)
  case (Suc n)
  show ?case
  proof (cases "split_frame (pending s)")
    case None
    then show ?thesis using stops [OF Suc.prems(1)] by auto
  next
    case (Some pr)
    then obtain p rest where pr: "split_frame (pending s) = Some (p, rest)" by (cases pr) auto
    then obtain s' where s': "nxt s = Inr (Some p, s')" "pending s' = rest" "valid s'"
      using takes_frame [OF Suc.prems(1)] by blast
    have "fst (pull nxt n s') = frames_of rest"
      using Suc.IH [OF s'(3)] s'(2) split_frame_shorter [OF pr] Suc.prems(2) by simp
    then show ?thesis using s'(1) by (simp add: frames_some(1) [OF pr] case_prod_unfold)
  qed
qed simp

end

text \<open>
  A reader that buffers keeps an incomplete frame for later and refuses a prefix that declares too much.
\<close>

locale buffering_reader = frame_reader +
  assumes keeps: "valid s \<Longrightarrow> split_frame (pending s) = None \<Longrightarrow> \<not> oversized (pending s) \<Longrightarrow> nxt s = Inr (None, s)"
    and refuses: "valid s \<Longrightarrow> oversized (pending s) \<Longrightarrow> \<exists>e. nxt s = Inl e"
begin

lemma pull_rest:
  "valid s \<Longrightarrow> length (pending s) < n \<Longrightarrow> pull nxt n s = (ps, s', err) \<Longrightarrow>
    valid s' \<and> pending s' = leftover_of (pending s) \<and> (err \<noteq> None \<longleftrightarrow> oversized (leftover_of (pending s)))"
proof (induction n arbitrary: s ps)
  case (Suc n)
  show ?case
  proof (cases "split_frame (pending s)")
    case None
    then show ?thesis
      using keeps [OF Suc.prems(1) None] refuses [OF Suc.prems(1)] Suc.prems(1,3)
      by (cases "oversized (pending s)") auto
  next
    case (Some pr)
    then obtain p rest where pr: "split_frame (pending s) = Some (p, rest)" by (cases pr) auto
    then obtain s1 where s1: "nxt s = Inr (Some p, s1)" "pending s1 = rest" "valid s1"
      using takes_frame [OF Suc.prems(1)] by blast
    then obtain qs where "pull nxt n s1 = (qs, s', err)" using Suc.prems(3) by (auto split: prod.splits)
    from Suc.IH [OF s1(3) _ this] show ?thesis
      using s1(2) split_frame_shorter [OF pr] Suc.prems(2) by (simp add: frames_some(2) [OF pr])
  qed
qed simp

end

section \<open>Both readers\<close>

abbreviation decoder_pending :: "frame_decoder \<Rightarrow> 8 word list" where
  "decoder_pending d \<equiv> drop (fd_start d) (fd_buf d)"

definition decoder_ok :: "frame_decoder \<Rightarrow> bool" where
  "decoder_ok d \<longleftrightarrow> fd_start d \<le> length (fd_buf d)"

lemma compact_pending [simp]: "decoder_pending (decoder_compact d) = decoder_pending d"
  by (auto simp: decoder_compact_def)

lemma compact_ok: "decoder_ok d \<Longrightarrow> decoder_ok (decoder_compact d)"
  by (auto simp: decoder_ok_def decoder_compact_def)

lemma push_pending: "decoder_ok d \<Longrightarrow> decoder_pending (decoder_push bs d) = decoder_pending d @ bs"
  using compact_ok [of d] compact_pending [of d] by (simp add: decoder_push_def Let_def decoder_ok_def)

lemma push_ok: "decoder_ok d \<Longrightarrow> decoder_ok (decoder_push bs d)"
  using compact_ok [of d] by (simp add: decoder_push_def Let_def decoder_ok_def)

lemma next_frame_split:
  "next_frame d = (case split_frame (decoder_pending d) of
     Some (p, rest) \<Rightarrow> Inr (Some p, decoder_compact (d\<lparr>fd_start := fd_start d + 4 + length p\<rparr>))
   | None \<Rightarrow> if oversized (decoder_pending d)
       then Inl (FrameTooLarge (from_be_bytes (take 4 (decoder_pending d))) MAX_FRAME_SIZE) else Inr (None, d))"
proof -
  define pd where "pd = decoder_pending d"
  show ?thesis
    unfolding next_frame_def Let_def pd_def [symmetric]
    by (auto simp: split_frame_def oversized_def Let_def LEN_PREFIX_def drop_take min_absorb2 add.assoc)
qed

lemma split_frameD: "split_frame bs = Some (p, rest) \<Longrightarrow> rest = drop (4 + length p) bs \<and> 4 + length p \<le> length bs"
  by (auto simp: split_frame_def Let_def split: if_splits)

interpretation fd: buffering_reader decoder_pending next_frame decoder_ok
proof
  fix d :: frame_decoder and p rest assume ok: "decoder_ok d" and s: "split_frame (decoder_pending d) = Some (p, rest)"
  let ?d = "d\<lparr>fd_start := fd_start d + 4 + length p\<rparr>"
  have "decoder_ok ?d" using split_frameD [OF s] ok by (auto simp: decoder_ok_def)
  moreover have "decoder_pending ?d = rest" using split_frameD [OF s] by (simp add: add.commute add.left_commute)
  ultimately show "\<exists>d'. next_frame d = Inr (Some p, d') \<and> decoder_pending d' = rest \<and> decoder_ok d'"
    using s compact_ok [of ?d] compact_pending [of ?d] by (simp add: next_frame_split)
qed (auto simp: next_frame_split)

interpretation sv: frame_reader "\<lambda>bs. bs" read_frame "\<lambda>_. True"
  by unfold_locales (auto simp: read_frame_def split_frame_def Let_def add.commute split: if_splits)

lemma frames_append:
  "frames_of (xs @ ys) = frames_of xs @ frames_of (leftover_of xs @ ys) \<and> leftover_of (xs @ ys) = leftover_of (leftover_of xs @ ys)"
proof (induction xs rule: frames_of.induct)
  case (1 xs)
  show ?case
  proof (cases "split_frame xs")
    case (Some pr)
    then obtain p rest where pr: "split_frame xs = Some (p, rest)" by (cases pr) auto
    then have "split_frame (xs @ ys) = Some (p, rest @ ys)"
      by (auto simp: split_frame_def Let_def split: if_splits)
    then show ?thesis using 1 [OF pr refl] by (simp add: frames_some pr)
  qed simp
qed

lemma drain_frames:
  assumes "decoder_ok d" "drain_decoder d = (ps, d', err)"
  shows "ps = frames_of (decoder_pending d)" "decoder_ok d'" "decoder_pending d' = leftover_of (decoder_pending d)"
    "err \<noteq> None \<longleftrightarrow> oversized (leftover_of (decoder_pending d))"
proof -
  have n: "length (decoder_pending d) < Suc (buffered d)" by (simp add: buffered_def)
  show "ps = frames_of (decoder_pending d)"
    using fd.pull_frames [OF assms(1) n] assms(2) unfolding drain_decoder_def by (metis fst_conv)
  note r = fd.pull_rest [OF assms(1) n assms(2) [unfolded drain_decoder_def]]
  then show "decoder_ok d'" "decoder_pending d' = leftover_of (decoder_pending d)"
    "err \<noteq> None \<longleftrightarrow> oversized (leftover_of (decoder_pending d))" by simp_all
qed

lemma reader_loop_exact:
  "decoder_ok d \<Longrightarrow> reader_loop cs d = (ps, d', err) \<Longrightarrow>
    ps = frames_of (decoder_pending d @ concat cs)
    \<and> (err \<noteq> None \<longleftrightarrow> oversized (leftover_of (decoder_pending d @ concat cs)))
    \<and> (err = None \<longrightarrow> decoder_ok d' \<and> decoder_pending d' = leftover_of (decoder_pending d @ concat cs))"
proof (induction cs arbitrary: d ps)
  case Nil
  then show ?case using drain_frames [OF Nil(1), of ps d' err] by simp
next
  case (Cons c cs)
  obtain ps1 d1 and err1 :: "'a codec_error option" where r: "drain_decoder d = (ps1, d1, err1)" by (metis prod_cases3)
  note D = drain_frames [OF Cons.prems(1) r]
  note A = frames_append [of "decoder_pending d" "concat (c # cs)"]
  show ?case
  proof (cases err1)
    case None
    then obtain qs where qs: "reader_loop cs (decoder_push c d1) = (qs, d', err)" "ps = ps1 @ qs"
      using r Cons.prems(2) by (auto split: prod.splits)
    show ?thesis using Cons.IH [OF push_ok [OF D(2)] qs(1)] A D(1,3) push_pending [OF D(2), of c] qs(2) by simp
  next
    case (Some e)
    then have o: "oversized (leftover_of (decoder_pending d) @ concat (c # cs))" using D(4) oversized_append by blast
    then have "frames_of (leftover_of (decoder_pending d) @ concat (c # cs)) = []"
      "leftover_of (leftover_of (decoder_pending d) @ concat (c # cs)) = leftover_of (decoder_pending d) @ concat (c # cs)"
      by (simp_all del: concat.simps)
    then show ?thesis using Some r Cons.prems(2) D(1) A o by auto
  qed
qed

lemma small_leftover:
  assumes "\<not> oversized (leftover_of bs)"
  shows "length (leftover_of bs) < 4 + MAX_FRAME_SIZE"
proof -
  have "split_frame (leftover_of bs) = None" by simp
  then show ?thesis using assms by (auto simp: split_frame_def oversized_def Let_def split: if_splits)
qed

text \<open>
  However the socket cuts the daemon's byte stream into reads, the client's decoder yields exactly
  the stream's complete frames in order. It fails exactly when a prefix declares more than the limit,
  and otherwise holds exactly the incomplete rest, which is less than one frame of the largest size.
  The daemon's own reader takes the same frames from the same bytes.
\<close>

theorem chunking_is_invisible:
  "\<exists>d err. reader_loop cs decoder_new = (frames_of (concat cs), d, err)
    \<and> (err \<noteq> None \<longleftrightarrow> oversized (leftover_of (concat cs)))
    \<and> (case err of Some e \<Rightarrow> True
        | None \<Rightarrow> buffered d = length (leftover_of (concat cs)) \<and> buffered d < LEN_PREFIX + MAX_FRAME_SIZE)
    \<and> fst (server_frames (concat cs)) = frames_of (concat cs)"
proof -
  obtain ps d and err :: "'a codec_error option" where r: "reader_loop cs decoder_new = (ps, d, err)" by (metis prod_cases3)
  have "decoder_ok decoder_new" "decoder_pending decoder_new = []" by (simp_all add: decoder_new_def decoder_ok_def)
  note x = reader_loop_exact [OF this(1) r, unfolded this(2) append_Nil]
  have "err = None \<Longrightarrow> buffered d = length (leftover_of (concat cs))" using x by (auto simp: buffered_def dest: arg_cong [where f = length])
  moreover have "fst (server_frames (concat cs)) = frames_of (concat cs)"
    unfolding server_frames_def by (rule sv.pull_frames) simp_all
  ultimately show ?thesis using r x small_leftover [of "concat cs"] by (cases err) (auto simp: LEN_PREFIX_def)
qed

section \<open>Encoded messages come back\<close>

lemma unat_byte: "unat (ucast (drop_bit k w) :: 8 word) = unat (w :: 32 word) div 2 ^ k mod 256"
  using unsigned_less [of w, where 'a = nat]
  by (simp add: unsigned_ucast_eq unsigned_drop_bit_eq drop_bit_eq_div [where 'a = nat] take_bit_eq_mod)

lemma four_digits:
  assumes "n < (2::nat) ^ 32"
  shows "((n div 2 ^ 24 mod 256 * 256 + n div 2 ^ 16 mod 256) * 256 + n div 2 ^ 8 mod 256) * 256 + n mod 256 = n"
proof -
  have "n div 2 ^ 16 = n div 256 div 256" "n div 2 ^ 24 = n div 256 div 256 div 256" by (simp_all add: div_mult2_eq [symmetric])
  moreover have "n div 256 div 256 div 256 mod 256 = n div 256 div 256 div 256" using assms by (simp add: div_mult2_eq [symmetric])
  ultimately show ?thesis by (simp only: power_numeral Num.pow.simps Num.sqr.simps div_mult_mod_eq)
qed

lemma be_round_trip: "from_be_bytes (to_be_bytes w) = unat w"
proof -
  have "unat w < 2 ^ 32" using unsigned_less [of w] by simp
  from four_digits [OF this] show ?thesis
    by (simp only: from_be_bytes_def to_be_bytes_def list.map foldl.simps unat_byte mult_0 add_0 power_0 div_by_1)
qed

lemma be_length [simp]: "length (to_be_bytes w) = 4"
  by (simp add: to_be_bytes_def)

lemma write_all_cases:
  assumes "4 \<le> length (fw_bytes w)"
  shows "length (fw_bytes w) + length bs \<le> MAX_FRAME_SIZE + 4 \<Longrightarrow>
      \<exists>c. writer_write_all bs w = (True, w\<lparr>fw_bytes := fw_bytes w @ bs, fw_capacity := c\<rparr>)"
    and "length (fw_bytes w) + length bs > MAX_FRAME_SIZE + 4 \<Longrightarrow>
      \<exists>sz > MAX_FRAME_SIZE. writer_write_all bs w = (False, w\<lparr>fw_overflow := Some sz\<rparr>)"
  using assms by (cases w; auto simp: writer_write_all_def grow_and_write_def Let_def LEN_PREFIX_def)+

lemma write_chunks_exact:
  assumes "4 \<le> length (fw_bytes w)" "fw_overflow w = None"
  shows "length (fw_bytes w) + length (concat cs) \<le> MAX_FRAME_SIZE + 4 \<Longrightarrow>
      fw_bytes (write_chunks cs w) = fw_bytes w @ concat cs \<and> fw_overflow (write_chunks cs w) = None"
    and "length (fw_bytes w) + length (concat cs) > MAX_FRAME_SIZE + 4 \<Longrightarrow> length (fw_bytes w) \<le> MAX_FRAME_SIZE + 4 \<Longrightarrow>
      \<exists>sz > MAX_FRAME_SIZE. fw_overflow (write_chunks cs w) = Some sz"
  using assms
proof (induction cs arbitrary: w)
  case (Cons c cs)
  {
    case 1
    then obtain k where k: "writer_write_all c w = (True, w\<lparr>fw_bytes := fw_bytes w @ c, fw_capacity := k\<rparr>)"
      using write_all_cases(1) [of w c] by auto
    show ?case using Cons.IH(1) [of "w\<lparr>fw_bytes := fw_bytes w @ c, fw_capacity := k\<rparr>"] 1 k by simp
  next
    case 2
    show ?case
    proof (cases "length (fw_bytes w) + length c \<le> MAX_FRAME_SIZE + 4")
      case True
      then obtain k where k: "writer_write_all c w = (True, w\<lparr>fw_bytes := fw_bytes w @ c, fw_capacity := k\<rparr>)"
        using write_all_cases(1) [of w c] 2 by auto
      show ?thesis using Cons.IH(2) [of "w\<lparr>fw_bytes := fw_bytes w @ c, fw_capacity := k\<rparr>"] 2 k True by simp
    next
      case False
      then show ?thesis using write_all_cases(2) [of w c] 2 by auto
    qed
  }
qed simp_all

lemma encode_exact:
  assumes "ser m = (cs, err)"
  shows "length (concat cs) \<le> MAX_FRAME_SIZE \<Longrightarrow> encode_frame ser m =
      (case err of Some e \<Rightarrow> Inl (EncodeError e) | None \<Rightarrow> Inr (to_be_bytes (of_nat (length (concat cs))) @ concat cs))"
    and "length (concat cs) > MAX_FRAME_SIZE \<Longrightarrow> \<exists>sz > MAX_FRAME_SIZE. encode_frame ser m = Inl (FrameTooLarge sz MAX_FRAME_SIZE)"
  using write_chunks_exact [of "\<lparr>fw_bytes = replicate LEN_PREFIX 0, fw_capacity = LEN_PREFIX, fw_overflow = None\<rparr>" cs] assms
  by (auto simp: encode_frame_def LEN_PREFIX_def Let_def split: option.split)

lemma split_encoded:
  assumes "length p \<le> MAX_FRAME_SIZE"
  shows "split_frame (to_be_bytes (of_nat (length p)) @ p @ later) = Some (p, later)"
proof -
  have "unat (of_nat (length p) :: 32 word) = length p"
    using assms by (simp add: unat_of_nat MAX_FRAME_SIZE_def)
  then show ?thesis using assms by (simp add: split_frame_def Let_def be_round_trip)
qed

definition encoded :: "('m \<Rightarrow> 8 word list list \<times> 'e option) \<Rightarrow> 'm \<Rightarrow> 8 word list \<Rightarrow> bool" where
  "encoded ser m f \<longleftrightarrow> (encode_frame ser m :: 'e codec_error + 8 word list) = Inr f"

lemma encodedD:
  assumes "encoded ser m f"
  shows "snd (ser m) = None" "split_frame (f @ later) = Some (concat (fst (ser m)), later)"
proof -
  obtain cs err where s: "ser m = (cs, err)" by fastforce
  have l: "length (concat cs) \<le> MAX_FRAME_SIZE"
    using encode_exact(2) [of ser m, OF s] assms unfolding encoded_def by (cases "length (concat cs) \<le> MAX_FRAME_SIZE") auto
  with encode_exact(1) [of ser m, OF s] assms have e: "err = None" "f = to_be_bytes (of_nat (length (concat cs))) @ concat cs"
    unfolding encoded_def by (auto split: option.splits)
  show "snd (ser m) = None" using s e by simp
  show "split_frame (f @ later) = Some (concat (fst (ser m)), later)" using split_encoded [OF l, of later] s e by simp
qed

lemma frames_encoded:
  "list_all2 (encoded ser) ms fs \<Longrightarrow>
    frames_of (concat fs) = map (\<lambda>m. concat (fst (ser m))) ms \<and> leftover_of (concat fs) = [] \<and> list_all (\<lambda>m. snd (ser m) = None) ms"
proof (induction rule: list_all2_induct)
  case Nil
  have "split_frame [] = None" by (simp add: split_frame_def)
  then show ?case by simp
next
  case (Cons m ms f fs)
  then show ?case using encodedD(1) [OF Cons(1)] encodedD(2) [OF Cons(1), of "concat fs"] by (simp add: frames_some)
qed

text \<open>
  C35: Messages that one side encodes arrive: whatever reads the socket makes of their frames, the
  decoder's payloads deserialize to exactly those messages in order, without an error and with nothing
  left over, and so do the payloads the daemon's reader takes. MessagePack is only assumed to read
  back what it wrote.
\<close>

theorem messages_arrive:
  fixes ser :: "'m \<Rightarrow> 8 word list list \<times> 'e option"
  assumes "\<And>m. snd (ser m) = None \<Longrightarrow> de (concat (fst (ser m))) = Inr m"
    and "list_all2 (encoded ser) ms fs" and "concat cs = concat fs"
  shows "\<exists>ps d. reader_loop cs decoder_new = (ps, d, None :: 'e codec_error option) \<and> buffered d = 0
    \<and> map (decode_payload de) ps = map Inr ms
    \<and> map (decode_payload de) (fst (server_frames (concat fs))) = map Inr ms"
proof -
  note f = frames_encoded [OF assms(2)]
  have r: "map (decode_payload de) (frames_of (concat fs)) = map Inr ms"
    using f assms(1) by (auto simp: decode_payload_def list_all_iff)
  obtain ps d and err :: "'e codec_error option" where x: "reader_loop cs decoder_new = (ps, d, err)" by (metis prod_cases3)
  have "decoder_ok decoder_new" "decoder_pending decoder_new = []" by (simp_all add: decoder_new_def decoder_ok_def)
  note y = reader_loop_exact [OF this(1) x, unfolded this(2) append_Nil assms(3)]
  have "\<not> oversized []" by (simp add: oversized_def)
  then have "err = None" "decoder_pending d = []" "ps = frames_of (concat fs)" using y f by auto
  moreover have "fst (server_frames (concat fs)) = frames_of (concat fs)"
    unfolding server_frames_def by (rule sv.pull_frames) simp_all
  ultimately show ?thesis using x r by (auto simp: buffered_def)
qed

text \<open>A serializer of bytes that writes one byte at a time, and two reads that cut a prefix in half.\<close>

definition byte_ser :: "8 word list \<Rightarrow> 8 word list list \<times> unit option" where
  "byte_ser m = (map (\<lambda>b. [b]) m, None)"

theorem messages_arrive_witness:
  "\<exists>ps d. reader_loop [[0, 0], [0, 2, 7, 8, 0, 0, 0], [0]] decoder_new = (ps, d, None :: unit codec_error option) \<and> buffered d = 0
    \<and> map (decode_payload (Inr :: _ \<Rightarrow> unit + _)) ps = map Inr [[7, 8 :: 8 word], []]
    \<and> map (decode_payload (Inr :: _ \<Rightarrow> unit + _)) (fst (server_frames (concat [[0, 0, 0, 2, 7, 8], [0, 0, 0, 0]]))) = map Inr [[7, 8], []]"
proof (rule messages_arrive [where ser = byte_ser])
  have "encode_frame byte_ser [7, 8] = Inr [0, 0, 0, 2, 7, 8]" "encode_frame byte_ser [] = Inr [0, 0, 0, 0]"
    by (simp_all add: encode_exact(1) [of byte_ser, OF byte_ser_def] MAX_FRAME_SIZE_def to_be_bytes_def)
  then show "list_all2 (encoded byte_ser) [[7, 8], []] [[0, 0, 0, 2, 7, 8], [0, 0, 0, 0]]" by (simp add: encoded_def)
qed (simp_all add: byte_ser_def)

end
