(* ===== verification/Client_Ipc.thy ===== *)
theory Client_Ipc
  imports Forge_Prelude
begin

text \<open>
  The client's connection (\<open>client/src/ipc.rs\<close>): callers that send requests and block on a waiter, the
  reader thread that hands each response to its waiter, and the disconnect that wakes whoever is left.
  Callers and reader interleave at their accesses to the shared state. A response body and an event
  are opaque; request ids count up from one and are natural numbers (the code's \<open>u64\<close> counter would
  need \<open>2 ^ 64\<close> requests to wrap).
\<close>

section \<open>The handshake\<close>

datatype client_error = IoFailure | HandshakeRejected string | VersionMismatch nat nat | Disconnected | CodecFailure | Timeout

datatype ('b, 'ev) inbound = ResponseMsg nat 'b | EventMsg 'ev | HelloAckMsg nat | HelloRejectMsg nat | Unrecognized

definition PROTOCOL_VERSION :: nat where "PROTOCOL_VERSION = 36"

text \<open>What \<open>connect_as\<close> makes of the first message, if the daemon sent one before closing.\<close>

fun connect_as :: "('b, 'ev) inbound option \<Rightarrow> client_error + nat" where
  "connect_as None = Inl Disconnected"
| "connect_as (Some (HelloAckMsg v)) = (if v \<noteq> PROTOCOL_VERSION then Inl (VersionMismatch PROTOCOL_VERSION v) else Inr v)"
| "connect_as (Some (HelloRejectMsg v)) = Inl (VersionMismatch PROTOCOL_VERSION v)"
| "connect_as (Some (ResponseMsg _ _)) = Inl (HandshakeRejected ''daemon sent a non-handshake message before HelloAck'')"
| "connect_as (Some (EventMsg _)) = Inl (HandshakeRejected ''daemon sent a non-handshake message before HelloAck'')"
| "connect_as (Some Unrecognized) = Inl (HandshakeRejected ''daemon sent an unrecognized message before HelloAck'')"

section \<open>The shared state\<close>

text \<open>
  \<open>sh_pending\<close>: the ids whose sender is in the table. \<open>sh_replies\<close>: what waits in a waiter's channel. A
  receiver whose channel is empty and whose sender is gone is woken with an error.
\<close>

record ('b, 'ev) shared =
  sh_connected :: bool
  sh_next_id :: nat
  sh_pending :: "nat set"
  sh_replies :: "nat \<rightharpoonup> 'b"
  sh_events :: "'ev list"

definition EVENT_CAPACITY :: nat where "EVENT_CAPACITY = 64"

definition remove_waiter :: "nat \<Rightarrow> ('b, 'ev) shared \<Rightarrow> ('b, 'ev) shared" where
  "remove_waiter i sh = sh\<lparr>sh_pending := sh_pending sh - {i}\<rparr>"

definition waiter_recv :: "nat \<Rightarrow> ('b, 'ev) shared \<Rightarrow> (client_error + 'b) option" where
  "waiter_recv i sh = (case sh_replies sh i of Some b \<Rightarrow> Some (Inr b)
     | None \<Rightarrow> if i \<in> sh_pending sh then None else Some (Inl Disconnected))"

fun route_message :: "('b, 'ev) inbound \<Rightarrow> ('b, 'ev) shared \<Rightarrow> bool \<times> ('b, 'ev) shared" where
  "route_message (ResponseMsg i b) sh =
    (True, if i \<in> sh_pending sh then (remove_waiter i sh)\<lparr>sh_replies := (sh_replies sh)(i \<mapsto> b)\<rparr> else sh)"
| "route_message (EventMsg ev) sh =
    (if length (sh_events sh) < EVENT_CAPACITY then (True, sh\<lparr>sh_events := sh_events sh @ [ev]\<rparr>) else (False, sh))"
| "route_message _ sh = (True, sh)"

text \<open>\<open>disconnect\<close> first marks the connection, then drops the waiters.\<close>

definition disconnect_mark :: "('b, 'ev) shared \<Rightarrow> ('b, 'ev) shared" where
  "disconnect_mark sh = sh\<lparr>sh_connected := False\<rparr>"

definition disconnect_clear :: "('b, 'ev) shared \<Rightarrow> ('b, 'ev) shared" where
  "disconnect_clear sh = sh\<lparr>sh_pending := {}\<rparr>"

section \<open>Callers and reader\<close>

text \<open>Where a caller is in \<open>request_inner\<close>, with its request id once it has one.\<close>

datatype 'b caller = Idle | Allotting | Inserting nat | Rechecking nat | Sending nat | Waiting nat
  | Returned "nat option" "client_error + 'b"

text \<open>Each step of a caller, given whether its write succeeds and whether its time is up.\<close>

fun caller_step :: "bool \<Rightarrow> bool \<Rightarrow> 'b caller \<Rightarrow> ('b, 'ev) shared \<Rightarrow> ('b caller \<times> ('b, 'ev) shared) option" where
  "caller_step wr up Idle sh = Some (if \<not> sh_connected sh then Returned None (Inl Disconnected) else Allotting, sh)"
| "caller_step wr up Allotting sh = Some (Inserting (sh_next_id sh), sh\<lparr>sh_next_id := sh_next_id sh + 1\<rparr>)"
| "caller_step wr up (Inserting i) sh = Some (Rechecking i, sh\<lparr>sh_pending := insert i (sh_pending sh)\<rparr>)"
| "caller_step wr up (Rechecking i) sh =
    Some (if \<not> sh_connected sh then (Returned (Some i) (Inl Disconnected), remove_waiter i sh) else (Sending i, sh))"
| "caller_step wr up (Sending i) sh =
    Some (if wr then (Waiting i, sh) else (Returned (Some i) (Inl IoFailure), remove_waiter i sh))"
| "caller_step wr up (Waiting i) sh =
    (case waiter_recv i sh of
       Some r \<Rightarrow> Some (Returned (Some i) r, sh)
     | None \<Rightarrow> if up then Some (Returned (Some i) (Inl Timeout), remove_waiter i sh) else None)"
| "caller_step wr up (Returned i r) sh = None"

datatype reader = Reading | Marked | Gone

record ('c, 'b, 'ev) ipc =
  ip_shared :: "('b, 'ev) shared"
  ip_callers :: "'c \<Rightarrow> 'b caller"
  ip_reader :: reader
  ip_routed :: "(nat \<times> 'b) list"

text \<open>
  \<open>ip_routed\<close> records the responses the reader met, in order. The reader may stop for any reason: the
  end of the stream, a bad frame, an overflow of the event queue.
\<close>

inductive ipc_step :: "('c, 'b, 'ev) ipc \<Rightarrow> ('c, 'b, 'ev) ipc \<Rightarrow> bool" where
  Call: "caller_step wr up (ip_callers s c) (ip_shared s) = Some (k, sh) \<Longrightarrow>
    ipc_step s (s\<lparr>ip_shared := sh, ip_callers := (ip_callers s)(c := k)\<rparr>)"
| Response: "ip_reader s = Reading \<Longrightarrow> route_message (ResponseMsg i b) (ip_shared s) = (True, sh) \<Longrightarrow>
    ipc_step s (s\<lparr>ip_shared := sh, ip_routed := ip_routed s @ [(i, b)]\<rparr>)"
| Other: "ip_reader s = Reading \<Longrightarrow> (\<And>i b. m \<noteq> ResponseMsg i b) \<Longrightarrow> route_message m (ip_shared s) = (True, sh) \<Longrightarrow>
    ipc_step s (s\<lparr>ip_shared := sh\<rparr>)"
| Drained: "ipc_step s (s\<lparr>ip_shared := (ip_shared s)\<lparr>sh_events := tl (sh_events (ip_shared s))\<rparr>\<rparr>)"
| Mark: "ip_reader s = Reading \<Longrightarrow> ipc_step s (s\<lparr>ip_shared := disconnect_mark (ip_shared s), ip_reader := Marked\<rparr>)"
| Clear: "ip_reader s = Marked \<Longrightarrow> ipc_step s (s\<lparr>ip_shared := disconnect_clear (ip_shared s), ip_reader := Gone\<rparr>)"

inductive ipc_run :: "('c, 'b, 'ev) ipc \<Rightarrow> ('c, 'b, 'ev) ipc \<Rightarrow> bool" where
  Stay: "ipc_run s s"
| Step: "ipc_run s s' \<Longrightarrow> ipc_step s' s'' \<Longrightarrow> ipc_run s s''"

definition ipc_start :: "('c, 'b, 'ev) ipc" where
  "ipc_start = \<lparr>ip_shared = \<lparr>sh_connected = True, sh_next_id = 1, sh_pending = {}, sh_replies = Map.empty, sh_events = []\<rparr>,
     ip_callers = (\<lambda>_. Idle), ip_reader = Reading, ip_routed = []\<rparr>"

section \<open>Ids and waiters\<close>

fun caller_id :: "'b caller \<Rightarrow> nat option" where
  "caller_id Idle = None"
| "caller_id Allotting = None"
| "caller_id (Inserting i) = Some i"
| "caller_id (Rechecking i) = Some i"
| "caller_id (Sending i) = Some i"
| "caller_id (Waiting i) = Some i"
| "caller_id (Returned io r) = io"

text \<open>A caller between its insertion and its return.\<close>

fun holding :: "'b caller \<Rightarrow> bool" where
  "holding (Rechecking i) = True"
| "holding (Sending i) = True"
| "holding (Waiting i) = True"
| "holding k = False"

text \<open>
  Ids are below the counter and owned by one caller; a waiter in the table belongs to a caller that
  is between its insertion and its return and has no reply yet; every reply was routed; once the reader
  is gone only a caller that is about to look at the connection again can have a waiter.
\<close>

definition ids_ok :: "('c, 'b, 'ev) ipc \<Rightarrow> bool" where
  "ids_ok s \<longleftrightarrow> (\<forall>c i. caller_id (ip_callers s c) = Some i \<longrightarrow> i < sh_next_id (ip_shared s))
    \<and> (\<forall>c c' i. caller_id (ip_callers s c) = Some i \<longrightarrow> caller_id (ip_callers s c') = Some i \<longrightarrow> c = c')"

definition waiters_ok :: "('c, 'b, 'ev) ipc \<Rightarrow> bool" where
  "waiters_ok s \<longleftrightarrow> (\<forall>i. i \<in> sh_pending (ip_shared s) \<longrightarrow> sh_replies (ip_shared s) i = None
     \<and> (\<exists>c. caller_id (ip_callers s c) = Some i \<and> holding (ip_callers s c)))"

definition replies_ok :: "('c, 'b, 'ev) ipc \<Rightarrow> bool" where
  "replies_ok s \<longleftrightarrow> (\<forall>i b. sh_replies (ip_shared s) i = Some b \<longrightarrow> (i, b) \<in> set (ip_routed s)
      \<and> i < sh_next_id (ip_shared s) \<and> (\<forall>c. ip_callers s c \<noteq> Inserting i))
    \<and> (\<forall>c i b. ip_callers s c = Returned (Some i) (Inr b) \<longrightarrow> (i, b) \<in> set (ip_routed s))
    \<and> (\<forall>c b. ip_callers s c \<noteq> Returned None (Inr b))"

definition ending_ok :: "('c, 'b, 'ev) ipc \<Rightarrow> bool" where
  "ending_ok s \<longleftrightarrow> (ip_reader s \<noteq> Reading \<longleftrightarrow> \<not> sh_connected (ip_shared s))
    \<and> (ip_reader s = Gone \<longrightarrow> (\<forall>c i. caller_id (ip_callers s c) = Some i \<longrightarrow> i \<in> sh_pending (ip_shared s)
         \<longrightarrow> ip_callers s c = Rechecking i))"

lemmas ipc_ok_defs = ids_ok_def waiters_ok_def replies_ok_def ending_ok_def

definition ipc_ok :: "('c, 'b, 'ev) ipc \<Rightarrow> bool" where
  "ipc_ok s \<longleftrightarrow> ids_ok s \<and> waiters_ok s \<and> replies_ok s \<and> ending_ok s"

text \<open>What a caller's step can do to the table.\<close>

lemma caller_step_fields:
  "caller_step wr up p sh = Some (k, sh') \<Longrightarrow>
    sh_replies sh' = sh_replies sh \<and> sh_connected sh' = sh_connected sh \<and> sh_next_id sh \<le> sh_next_id sh' \<and> sh_events sh' = sh_events sh"
  by (cases p) (auto simp: remove_waiter_def split: if_splits option.splits)

lemma caller_step_id:
  "caller_step wr up p sh = Some (k, sh') \<Longrightarrow>
    caller_id k = caller_id p \<or> (p = Allotting \<and> k = Inserting (sh_next_id sh) \<and> sh_next_id sh' = Suc (sh_next_id sh))"
  by (cases p) (auto split: if_splits option.splits)

lemma caller_step_pending:
  "caller_step wr up p sh = Some (k, sh') \<Longrightarrow> (i \<in> sh_pending sh \<longrightarrow> sh_replies sh i = None) \<Longrightarrow> i \<in> sh_pending sh' \<Longrightarrow>
    (i \<in> sh_pending sh \<and> (caller_id p = Some i \<and> holding p \<longrightarrow> caller_id k = Some i \<and> holding k)) \<or> (p = Inserting i \<and> k = Rechecking i)"
  by (cases p) (auto simp: remove_waiter_def waiter_recv_def split: if_splits option.splits)

lemma caller_step_reply:
  "caller_step wr up p sh = Some (k, sh') \<Longrightarrow> k = Returned io (Inr b) \<Longrightarrow> \<exists>j. io = Some j \<and> p = Waiting j \<and> sh_replies sh j = Some b"
  by (cases p) (auto simp: waiter_recv_def split: if_splits option.splits)

lemma caller_step_inserting: "caller_step wr up p sh = Some (k, sh') \<Longrightarrow> k = Inserting i \<Longrightarrow> i = sh_next_id sh"
  by (cases p) (auto split: if_splits option.splits)

lemma caller_step_recheck: "caller_step wr up (Rechecking i) sh = Some (k, sh') \<Longrightarrow> \<not> sh_connected sh \<Longrightarrow> i \<notin> sh_pending sh'"
  by (auto simp: remove_waiter_def)

lemma ids_step:
  assumes "ids_ok s" "caller_step wr up (ip_callers s c) (ip_shared s) = Some (k, sh)"
  shows "ids_ok (s\<lparr>ip_shared := sh, ip_callers := (ip_callers s)(c := k)\<rparr>)"
proof -
  note e = caller_step_fields [OF assms(2)] and id = caller_step_id [OF assms(2)] and pend = caller_step_pending [OF assms(2)]
  have b: "caller_id (ip_callers s d) = Some i \<Longrightarrow> i < sh_next_id (ip_shared s)" for d i using assms(1) by (simp add: ids_ok_def)
  show ?thesis
  proof (cases "caller_id k = caller_id (ip_callers s c)")
    case True
    then show ?thesis using assms(1) e unfolding ids_ok_def by (auto dest: order_less_le_trans)
  next
    case False
    then have k: "caller_id k = Some (sh_next_id (ip_shared s))" "sh_next_id sh = Suc (sh_next_id (ip_shared s))"
      using id by auto
    have "caller_id (ip_callers s d) \<noteq> Some (sh_next_id (ip_shared s))" for d using b [of d] by fastforce
    then show ?thesis using assms(1) k unfolding ids_ok_def by (auto intro: less_SucI)
  qed
qed

lemma waiters_step:
  assumes "waiters_ok s" "replies_ok s" "caller_step wr up (ip_callers s c) (ip_shared s) = Some (k, sh)"
  shows "waiters_ok (s\<lparr>ip_shared := sh, ip_callers := (ip_callers s)(c := k)\<rparr>)"
proof -
  note e = caller_step_fields [OF assms(3)] and id = caller_step_id [OF assms(3)] and pend = caller_step_pending [OF assms(3)]
  have "sh_replies sh i = None \<and> (\<exists>d. caller_id (((ip_callers s)(c := k)) d) = Some i \<and> holding (((ip_callers s)(c := k)) d))"
    if i: "i \<in> sh_pending sh" for i
  proof (rule disjE [OF pend [OF _ i]])
    show "i \<in> sh_pending (ip_shared s) \<longrightarrow> sh_replies (ip_shared s) i = None" using assms(1) by (simp add: waiters_ok_def)
  next
    assume p: "i \<in> sh_pending (ip_shared s) \<and> (caller_id (ip_callers s c) = Some i \<and> holding (ip_callers s c) \<longrightarrow> caller_id k = Some i \<and> holding k)"
    then obtain d where "sh_replies (ip_shared s) i = None" "caller_id (ip_callers s d) = Some i" "holding (ip_callers s d)"
      using assms(1) by (auto simp: waiters_ok_def)
    then show ?thesis using p e by (cases "d = c") (auto intro: exI [of _ d])
  next
    assume p: "ip_callers s c = Inserting i \<and> k = Rechecking i"
    then have "sh_replies (ip_shared s) i = None" using assms(2) unfolding replies_ok_def by (metis option.exhaust)
    then show ?thesis using p e by (auto intro: exI [of _ c])
  qed
  then show ?thesis by (simp add: waiters_ok_def)
qed

lemma replies_step:
  assumes "ids_ok s" "replies_ok s" "caller_step wr up (ip_callers s c) (ip_shared s) = Some (k, sh)"
  shows "replies_ok (s\<lparr>ip_shared := sh, ip_callers := (ip_callers s)(c := k)\<rparr>)"
proof -
  note e = caller_step_fields [OF assms(3)] and id = caller_step_id [OF assms(3)] and pend = caller_step_pending [OF assms(3)]
  have r: "sh_replies (ip_shared s) i = Some b \<Longrightarrow> (i, b) \<in> set (ip_routed s) \<and> i < sh_next_id (ip_shared s) \<and> (\<forall>c. ip_callers s c \<noteq> Inserting i)" for i b
    using assms(2) by (simp add: replies_ok_def)
  have "sh_replies sh i = Some b \<Longrightarrow> i < sh_next_id sh \<and> k \<noteq> Inserting i" for i b
    using r [of i b] e caller_step_inserting [OF assms(3), of i] by auto
  moreover have "k = Returned (Some i) (Inr b) \<Longrightarrow> (i, b) \<in> set (ip_routed s)" "k \<noteq> Returned None (Inr b)" for i b
    using caller_step_reply [OF assms(3)] r by blast+
  ultimately show ?thesis using assms(2) r e by (auto simp: replies_ok_def)
qed

lemma ending_step:
  assumes "ids_ok s" "waiters_ok s" "ending_ok s" "caller_step wr up (ip_callers s c) (ip_shared s) = Some (k, sh)"
  shows "ending_ok (s\<lparr>ip_shared := sh, ip_callers := (ip_callers s)(c := k)\<rparr>)"
proof -
  note e = caller_step_fields [OF assms(4)] and id = caller_step_id [OF assms(4)] and pend = caller_step_pending [OF assms(4)]
  have g: "d = Rechecking i"
    if "ip_reader s = Gone" "d = ((ip_callers s)(c := k)) x" "caller_id d = Some i" "i \<in> sh_pending sh" for d x i
  proof -
    note T = that
    have off: "\<not> sh_connected (ip_shared s)" using assms(3) T(1) by (auto simp: ending_ok_def)
    have old: "caller_id (ip_callers s y) = Some i \<Longrightarrow> i \<in> sh_pending (ip_shared s) \<Longrightarrow> ip_callers s y = Rechecking i" for y
      using assms(3) T(1) by (simp add: ending_ok_def)
    consider (new) "ip_callers s c = Inserting i" "k = Rechecking i" | (kept) "i \<in> sh_pending (ip_shared s)"
      using pend [OF _ T(4)] assms(2) unfolding waiters_ok_def by blast
    then show ?thesis
    proof cases
      case new
      then have "x = c" using assms(1) T(2,3) by (cases "x = c") (auto simp: ids_ok_def)
      then show ?thesis using new T(2) by simp
    next
      case kept
      then obtain y where "caller_id (ip_callers s y) = Some i" using assms(2) by (auto simp: waiters_ok_def)
      then have y: "ip_callers s y = Rechecking i" using old kept by blast
      have "y \<noteq> c" using y caller_step_recheck [of wr up i "ip_shared s" k sh] assms(4) off T(4) by auto
      moreover have "x = c \<Longrightarrow> caller_id (ip_callers s c) = Some i \<or> i = sh_next_id (ip_shared s)"
        using id T(2,3) by auto
      ultimately have "x \<noteq> c"
        using assms(1) y by (auto simp: ids_ok_def) (metis caller_id.simps(4) less_irrefl)+
      then show ?thesis using old kept T(2,3) by simp
    qed
  qed
  then show ?thesis using assms(3) e by (auto simp: ending_ok_def)
qed

lemma ipc_step_ok:
  assumes "ipc_step s s'" "ipc_ok s"
  shows "ipc_ok s'"
  using assms
proof (induction rule: ipc_step.induct)
  case (Call wr up s c k sh)
  then show ?case unfolding ipc_ok_def using ids_step waiters_step replies_step ending_step by metis
next
  case (Response s i b sh)
  show ?case
  proof (cases "i \<in> sh_pending (ip_shared s)")
    case True
    then obtain c where c: "caller_id (ip_callers s c) = Some i" "holding (ip_callers s c)"
      using Response.prems by (auto simp: ipc_ok_def waiters_ok_def)
    have "i < sh_next_id (ip_shared s)" "ip_callers s d \<noteq> Inserting i" for d
    proof -
      show "i < sh_next_id (ip_shared s)" using c(1) Response.prems by (auto simp: ipc_ok_def ids_ok_def)
      show "ip_callers s d \<noteq> Inserting i"
      proof
        assume d: "ip_callers s d = Inserting i"
        then have "d = c" using c(1) Response.prems by (auto simp: ipc_ok_def ids_ok_def)
        then show False using c(2) d by simp
      qed
    qed
    then show ?thesis using Response True by (auto simp: ipc_ok_def ipc_ok_defs remove_waiter_def split: if_splits)
  next
    case False
    then show ?thesis using Response by (auto simp: ipc_ok_def ipc_ok_defs split: if_splits)
  qed
next
  case (Other s m sh)
  then have "\<exists>evs. sh = (ip_shared s)\<lparr>sh_events := evs\<rparr>"
    by (cases m) (auto split: if_splits intro: exI [of _ "sh_events (ip_shared s)"])
  then show ?case using Other.prems by (auto simp: ipc_ok_def ipc_ok_defs)
next
  case (Drained s)
  then show ?case by (auto simp: ipc_ok_def ipc_ok_defs)
next
  case (Mark s)
  then show ?case by (auto simp: ipc_ok_def ipc_ok_defs disconnect_mark_def)
next
  case (Clear s)
  then show ?case by (auto simp: ipc_ok_def ipc_ok_defs disconnect_clear_def)
qed

lemma ipc_run_ok: "ipc_run s s' \<Longrightarrow> ipc_ok s \<Longrightarrow> ipc_ok s'"
  by (induction rule: ipc_run.induct) (auto intro: ipc_step_ok)

lemma ipc_start_ok: "ipc_ok ipc_start"
  by (simp add: ipc_ok_def ipc_ok_defs ipc_start_def)

text \<open>
  C36: However callers and the reader interleave, and whenever the connection dies between a caller's
  look at it and its insertion of a waiter: once the reader's disconnect is done, every caller that has
  not returned can take its next step, without the help of a timeout, so none blocks forever.
\<close>

theorem no_caller_left_waiting:
  assumes "ipc_run ipc_start s" "ip_reader s = Gone" "\<And>io r. ip_callers s c \<noteq> Returned io r"
  shows "\<exists>k sh. caller_step wr False (ip_callers s c) (ip_shared s) = Some (k, sh)"
proof (cases "ip_callers s c")
  case (Waiting i)
  have "ipc_ok s" by (rule ipc_run_ok [OF assms(1) ipc_start_ok])
  then have "i \<notin> sh_pending (ip_shared s)"
    using assms(2) Waiting by (auto simp: ipc_ok_def ending_ok_def) (metis caller.distinct caller_id.simps(6))
  then show ?thesis using Waiting by (auto simp: waiter_recv_def split: option.split)
qed (use assms(3) in auto)

text \<open>
  C37: A caller is answered with a response to its own request: the id it returns with is no other
  caller's, and the body was routed under that id. Waiters do not leak: one in the table belongs to a
  caller that is still on its way.
\<close>

theorem replies_reach_their_caller:
  assumes "ipc_run ipc_start s" "ip_callers s c = Returned io (Inr b)"
  shows "\<exists>i. io = Some i \<and> (i, b) \<in> set (ip_routed s)
    \<and> (\<forall>d. caller_id (ip_callers s d) = Some i \<longrightarrow> d = c) \<and> i \<notin> sh_pending (ip_shared s)"
proof -
  have ok: "ipc_ok s" by (rule ipc_run_ok [OF assms(1) ipc_start_ok])
  then obtain i where i: "io = Some i" "(i, b) \<in> set (ip_routed s)"
    using assms(2) by (cases io) (auto simp: ipc_ok_def replies_ok_def)
  have own: "caller_id (ip_callers s d) = Some i \<Longrightarrow> d = c" for d
    using ok assms(2) i(1) by (auto simp: ipc_ok_def ids_ok_def)
  have "i \<notin> sh_pending (ip_shared s)"
  proof
    assume "i \<in> sh_pending (ip_shared s)"
    then obtain d where "caller_id (ip_callers s d) = Some i" "holding (ip_callers s d)"
      using ok by (auto simp: ipc_ok_def waiters_ok_def)
    then show False using own [of d] assms(2) by simp
  qed
  then show ?thesis using i own by blast
qed

text \<open>One caller whose request is written just before the daemon goes away, and one that is answered.\<close>

definition one_caller :: "nat caller \<Rightarrow> nat set \<Rightarrow> (nat \<rightharpoonup> nat) \<Rightarrow> reader \<Rightarrow> (nat \<times> nat) list \<Rightarrow> (unit, nat, unit) ipc" where
  "one_caller k pending replies r routed = \<lparr>ip_shared = \<lparr>sh_connected = (r = Reading), sh_next_id = 2, sh_pending = pending,
     sh_replies = replies, sh_events = []\<rparr>, ip_callers = (\<lambda>_. k), ip_reader = r, ip_routed = routed\<rparr>"

lemma one_caller_step:
  "caller_step wr up k (ip_shared (one_caller k p m r l)) = Some (k', ip_shared (one_caller k' p' m' r l)) \<Longrightarrow>
    ipc_run s (one_caller k p m r l) \<Longrightarrow> ipc_run s (one_caller k' p' m' r l)"
  using ipc_run.Step [OF _ ipc_step.Call [of wr up "one_caller k p m r l" "()" k' "ip_shared (one_caller k' p' m' r l)"], of s]
  by (simp add: one_caller_def fun_upd_def)

lemma one_caller_allotted: "ipc_run ipc_start (one_caller (Inserting 1) {} Map.empty Reading [])"
proof -
  let ?s = "(ipc_start :: (unit, nat, unit) ipc)\<lparr>ip_callers := (\<lambda>_. Allotting)\<rparr>"
  have "ipc_step ipc_start ?s"
    using ipc_step.Call [of True False "ipc_start :: (unit, nat, unit) ipc" "()" Allotting "ip_shared ipc_start"]
    by (simp add: ipc_start_def fun_upd_def)
  moreover have "ipc_step ?s (one_caller (Inserting 1) {} Map.empty Reading [])"
    using ipc_step.Call [of True False ?s "()" "Inserting 1" "ip_shared (one_caller (Inserting 1) {} Map.empty Reading [])"]
    by (simp add: ipc_start_def one_caller_def fun_upd_def)
  ultimately show ?thesis by (blast intro: ipc_run.intros)
qed

lemma one_caller_waiting: "ipc_run ipc_start (one_caller (Waiting 1) {1} Map.empty Reading [])"
  by (rule one_caller_step [of True False "Sending 1" "{1}"],
      simp add: one_caller_def,
      rule one_caller_step [of True False "Rechecking 1" "{1}"],
      simp add: one_caller_def,
      rule one_caller_step [of True False "Inserting 1" "{}"],
      simp add: one_caller_def,
      rule one_caller_allotted)

theorem no_caller_left_waiting_witness:
  "\<exists>s :: (unit, nat, unit) ipc. ipc_run ipc_start s \<and> ip_callers s () = Waiting 1
    \<and> (\<exists>k sh. caller_step True False (ip_callers s ()) (ip_shared s) = Some (k, sh))"
proof -
  let ?s = "one_caller (Waiting 1) {} Map.empty Gone []"
  have "ipc_step (one_caller (Waiting 1) {1} Map.empty Reading []) (one_caller (Waiting 1) {1} Map.empty Marked [])"
    using ipc_step.Mark [of "one_caller (Waiting 1) {1} Map.empty Reading []"] by (simp add: one_caller_def disconnect_mark_def)
  moreover have "ipc_step (one_caller (Waiting 1) {1} Map.empty Marked []) ?s"
    using ipc_step.Clear [of "one_caller (Waiting 1) {1} Map.empty Marked []"] by (simp add: one_caller_def disconnect_clear_def)
  ultimately have r: "ipc_run ipc_start ?s" using one_caller_waiting by (blast intro: ipc_run.intros)
  show ?thesis
    using no_caller_left_waiting [OF r, of "()" True] r by (intro exI [of _ ?s]) (simp add: one_caller_def)
qed

theorem replies_reach_their_caller_witness:
  "\<exists>s :: (unit, nat, unit) ipc. ipc_run ipc_start s \<and> ip_callers s () = Returned (Some 1) (Inr 9) \<and> (1, 9) \<in> set (ip_routed s)"
proof -
  let ?s = "one_caller (Returned (Some 1) (Inr 9)) {} [1 \<mapsto> 9] Reading [(1, 9)]"
  have "ipc_step (one_caller (Waiting 1) {1} Map.empty Reading []) (one_caller (Waiting 1) {} [1 \<mapsto> 9] Reading [(1, 9)])"
    using ipc_step.Response [of "one_caller (Waiting 1) {1} Map.empty Reading []" 1 9 "ip_shared (one_caller (Waiting 1) {} [1 \<mapsto> 9] Reading [])"]
    by (simp add: one_caller_def remove_waiter_def)
  then have "ipc_run ipc_start (one_caller (Waiting 1) {} [1 \<mapsto> 9] Reading [(1, 9)])"
    using one_caller_waiting by (blast intro: ipc_run.intros)
  then have r: "ipc_run ipc_start ?s"
    by (rule one_caller_step [of True False "Waiting 1" "{}", rotated]) (simp add: one_caller_def waiter_recv_def)
  show ?thesis
    using replies_reach_their_caller [OF r, of "()"] r by (intro exI [of _ ?s]) (simp add: one_caller_def)
qed

end
