(* ===== verification/Orch_Rows.thy ===== *)
theory Orch_Rows
  imports Orch_Types "HOL-Library.List_Lexorder" "HOL-Library.Char_ord"
begin

text \<open>
  How the orchestration ledger is stored: the tags, the rows and the statements of
  \<^verbatim>\<open>crates/persistence/src/repositories/orchestration.rs\<close>. A table is the list of its rows in the
  order of insertion. The text of an identifier (\<open>uuid\<close>), of a timestamp (RFC 3339, the \<open>time\<close>
  crate) and of a list of files (\<open>serde_json\<close>) are the fields of a \<open>codec\<close>; what the code relies on,
  that each reads back as what was written and that identifiers have different texts, is
  \<open>codec_ok\<close>. A statement can fail for a reason of SQLite's: the failures are an argument, by the
  number of the statement. Only the uniqueness of a primary key is decided by the model.
\<close>

section \<open>Texts and errors\<close>

record codec =
  co_id :: "uuid \<Rightarrow> string"
  co_parse_id :: "string \<Rightarrow> string + uuid"
  co_ts :: "timestamp \<Rightarrow> string"
  co_parse_ts :: "string \<Rightarrow> string + timestamp"
  co_files :: "string list \<Rightarrow> string"
  co_parse_files :: "string \<Rightarrow> string + string list"

definition codec_ok :: "codec \<Rightarrow> bool" where
  "codec_ok c \<longleftrightarrow> (\<forall>u. co_parse_id c (co_id c u) = Inr u) \<and> (\<forall>t. co_parse_ts c (co_ts c t) = Inr t)
    \<and> (\<forall>fs. co_parse_files c (co_files c fs) = Inr fs)"

text \<open>The text of an error, which formats the value with \<open>Debug\<close>, is kept as its parts.\<close>

datatype db_error =
    DbSqlite string
  | DbJson string
  | DbDecode string string string
  | DbEncode string

definition try_bind :: "'e + 'a \<Rightarrow> ('a \<Rightarrow> 'e + 'b) \<Rightarrow> 'e + 'b" where
  "try_bind m f = (case m of Inl e \<Rightarrow> Inl e | Inr x \<Rightarrow> f x)"

lemma try_bind_simps [simp]: "try_bind (Inl e) f = Inl e" "try_bind (Inr x) f = f x"
  by (simp_all add: try_bind_def)

lemma try_bind_Inr: "try_bind m f = Inr y \<longleftrightarrow> (\<exists>x. m = Inr x \<and> f x = Inr y)"
  by (cases m) auto

text \<open>\<open>Option::transpose\<close> after a map.\<close>

definition try_opt :: "('a \<Rightarrow> 'e + 'b) \<Rightarrow> 'a option \<Rightarrow> 'e + 'b option" where
  "try_opt f x = (case x of None \<Rightarrow> Inr None | Some v \<Rightarrow> try_bind (f v) (\<lambda>y. Inr (Some y)))"

lemma try_opt_simps [simp]: "try_opt f None = Inr None" "try_opt f (Some v) = try_bind (f v) (\<lambda>y. Inr (Some y))"
  by (simp_all add: try_opt_def)

definition id_from_str :: "codec \<Rightarrow> string \<Rightarrow> string \<Rightarrow> db_error + uuid" where
  "id_from_str c what s = (case co_parse_id c s of Inl e \<Rightarrow> Inl (DbDecode what s e) | Inr u \<Rightarrow> Inr u)"

definition id_from_opt :: "codec \<Rightarrow> string \<Rightarrow> string option \<Rightarrow> db_error + uuid option" where
  "id_from_opt c what s = try_opt (id_from_str c what) s"

definition ts_from_str :: "codec \<Rightarrow> string \<Rightarrow> db_error + timestamp" where
  "ts_from_str c s = (case co_parse_ts c s of Inl e \<Rightarrow> Inl (DbDecode ''Timestamp'' s e) | Inr t \<Rightarrow> Inr t)"

definition ts_from_opt :: "codec \<Rightarrow> string option \<Rightarrow> db_error + timestamp option" where
  "ts_from_opt c s = try_opt (ts_from_str c) s"

definition files_from_str :: "codec \<Rightarrow> string \<Rightarrow> db_error + string list" where
  "files_from_str c s = (case co_parse_files c s of Inl e \<Rightarrow> Inl (DbJson e) | Inr fs \<Rightarrow> Inr fs)"

lemma codec_round_trip [simp]:
  assumes "codec_ok c"
  shows "id_from_str c w (co_id c u) = Inr u" "ts_from_str c (co_ts c t) = Inr t"
    "files_from_str c (co_files c fs) = Inr fs" "co_id c u = co_id c v \<longleftrightarrow> u = v"
proof -
  have "co_parse_id c (co_id c u) = Inr u" "co_parse_id c (co_id c v) = Inr v"
    using assms by (auto simp: codec_ok_def)
  then show "co_id c u = co_id c v \<longleftrightarrow> u = v" by (metis sum.inject(2))
qed (use assms in \<open>simp_all add: codec_ok_def id_from_str_def ts_from_str_def files_from_str_def\<close>)

lemma codec_round_trip_opt [simp]:
  assumes "codec_ok c"
  shows "id_from_opt c w (map_option (\<lambda>x. co_id c (f x)) o1) = Inr (map_option f o1)"
    "ts_from_opt c (map_option (co_ts c) o2) = Inr o2"
  using assms by (cases o1; cases o2; simp add: id_from_opt_def ts_from_opt_def)+

section \<open>Tags\<close>

fun run_status_to_str :: "run_status \<Rightarrow> db_error + string" where
  "run_status_to_str RS_Active = Inr ''active''"
| "run_status_to_str RS_Completed = Inr ''completed''"
| "run_status_to_str RS_Cancelled = Inr ''cancelled''"
| "run_status_to_str RS_Interrupted = Inr ''interrupted''"
| "run_status_to_str RS_Unrecognized = Inl (DbEncode ''unhandled RunStatus: Unrecognized'')"

definition run_status_from_str :: "string \<Rightarrow> db_error + run_status" where
  "run_status_from_str v =
    (if v = ''active'' then Inr RS_Active
     else if v = ''completed'' then Inr RS_Completed
     else if v = ''cancelled'' then Inr RS_Cancelled
     else if v = ''interrupted'' then Inr RS_Interrupted
     else Inl (DbDecode ''RunStatus'' v ''unknown tag''))"

fun task_status_to_str :: "task_status \<Rightarrow> db_error + string" where
  "task_status_to_str TS_Pending = Inr ''pending''"
| "task_status_to_str TS_Ready = Inr ''ready''"
| "task_status_to_str TS_Active = Inr ''active''"
| "task_status_to_str TS_Review = Inr ''review''"
| "task_status_to_str TS_Accepted = Inr ''accepted''"
| "task_status_to_str TS_Integrated = Inr ''integrated''"
| "task_status_to_str TS_Blocked = Inr ''blocked''"
| "task_status_to_str TS_Cancelled = Inr ''cancelled''"
| "task_status_to_str TS_Failed = Inr ''failed''"
| "task_status_to_str TS_Unrecognized = Inl (DbEncode ''unhandled TaskStatus: Unrecognized'')"

definition task_status_from_str :: "string \<Rightarrow> db_error + task_status" where
  "task_status_from_str v =
    (if v = ''pending'' then Inr TS_Pending
     else if v = ''ready'' then Inr TS_Ready
     else if v = ''active'' then Inr TS_Active
     else if v = ''review'' then Inr TS_Review
     else if v = ''accepted'' then Inr TS_Accepted
     else if v = ''integrated'' then Inr TS_Integrated
     else if v = ''blocked'' then Inr TS_Blocked
     else if v = ''cancelled'' then Inr TS_Cancelled
     else if v = ''failed'' then Inr TS_Failed
     else Inl (DbDecode ''TaskStatus'' v ''unknown tag''))"

fun task_mode_to_str :: "work_mode \<Rightarrow> db_error + string" where
  "task_mode_to_str WM_Write = Inr ''write''"
| "task_mode_to_str WM_ReadOnly = Inr ''read_only''"
| "task_mode_to_str WM_Unrecognized = Inl (DbEncode ''unhandled WorkMode: Unrecognized'')"

definition task_mode_from_str :: "string \<Rightarrow> db_error + work_mode" where
  "task_mode_from_str v =
    (if v = ''write'' then Inr WM_Write
     else if v = ''read_only'' then Inr WM_ReadOnly
     else Inl (DbDecode ''WorkMode'' v ''unknown tag''))"

fun attempt_phase_to_str :: "attempt_phase \<Rightarrow> db_error + string" where
  "attempt_phase_to_str AP_Starting = Inr ''starting''"
| "attempt_phase_to_str AP_Running = Inr ''running''"
| "attempt_phase_to_str AP_Reported = Inr ''reported''"
| "attempt_phase_to_str AP_Rejected = Inr ''rejected''"
| "attempt_phase_to_str AP_Lost = Inr ''lost''"
| "attempt_phase_to_str AP_Unrecognized = Inl (DbEncode ''unhandled AttemptPhase: Unrecognized'')"

definition attempt_phase_from_str :: "string \<Rightarrow> db_error + attempt_phase" where
  "attempt_phase_from_str v =
    (if v = ''starting'' then Inr AP_Starting
     else if v = ''running'' then Inr AP_Running
     else if v = ''reported'' then Inr AP_Reported
     else if v = ''rejected'' then Inr AP_Rejected
     else if v = ''lost'' then Inr AP_Lost
     else Inl (DbDecode ''AttemptPhase'' v ''unknown tag''))"

fun report_outcome_to_str :: "report_outcome \<Rightarrow> db_error + string" where
  "report_outcome_to_str RO_Done = Inr ''done''"
| "report_outcome_to_str RO_Failed = Inr ''failed''"
| "report_outcome_to_str RO_Blocked = Inr ''blocked''"
| "report_outcome_to_str RO_Unrecognized = Inl (DbEncode ''unhandled ReportOutcome: Unrecognized'')"

definition report_outcome_from_str :: "string \<Rightarrow> db_error + report_outcome" where
  "report_outcome_from_str v =
    (if v = ''done'' then Inr RO_Done
     else if v = ''failed'' then Inr RO_Failed
     else if v = ''blocked'' then Inr RO_Blocked
     else Inl (DbDecode ''ReportOutcome'' v ''unknown tag''))"

fun lost_reason_to_str :: "lost_reason \<Rightarrow> db_error + string" where
  "lost_reason_to_str LR_ExitedWithoutReport = Inr ''exited_without_report''"
| "lost_reason_to_str LR_DaemonRestarted = Inr ''daemon_restarted''"
| "lost_reason_to_str LR_Cancelled = Inr ''cancelled''"
| "lost_reason_to_str LR_SpawnFailed = Inr ''spawn_failed''"
| "lost_reason_to_str LR_Unrecognized = Inl (DbEncode ''unhandled LostReason: Unrecognized'')"

definition lost_reason_from_str :: "string \<Rightarrow> db_error + lost_reason" where
  "lost_reason_from_str v =
    (if v = ''exited_without_report'' then Inr LR_ExitedWithoutReport
     else if v = ''daemon_restarted'' then Inr LR_DaemonRestarted
     else if v = ''cancelled'' then Inr LR_Cancelled
     else if v = ''spawn_failed'' then Inr LR_SpawnFailed
     else Inl (DbDecode ''LostReason'' v ''unknown tag''))"

text \<open>
  A column of tags, as the rows use it: what was written reads back, also when the column may be
  null, and two values never share a tag.
\<close>

locale tag_column =
  fixes to_str :: "'a \<Rightarrow> db_error + string"
    and of_str :: "string \<Rightarrow> db_error + 'a"
  assumes read_written: "to_str a = Inr v \<Longrightarrow> of_str v = Inr a"
begin

lemma read_written_opt: "try_opt to_str a = Inr v \<Longrightarrow> try_opt of_str v = Inr a"
  by (cases a) (auto simp: try_bind_Inr dest: read_written)

lemma tag_injective: "to_str a = Inr v \<Longrightarrow> to_str b = Inr v \<Longrightarrow> a = b"
  using read_written by (metis sum.inject(2))

end

interpretation run_tag: tag_column run_status_to_str run_status_from_str
  by unfold_locales (case_tac a; auto simp: run_status_from_str_def)

interpretation task_tag: tag_column task_status_to_str task_status_from_str
  by unfold_locales (case_tac a; auto simp: task_status_from_str_def)

interpretation mode_tag: tag_column task_mode_to_str task_mode_from_str
  by unfold_locales (case_tac a; auto simp: task_mode_from_str_def)

interpretation phase_tag: tag_column attempt_phase_to_str attempt_phase_from_str
  by unfold_locales (case_tac a; auto simp: attempt_phase_from_str_def)

interpretation outcome_tag: tag_column report_outcome_to_str report_outcome_from_str
  by unfold_locales (case_tac a; auto simp: report_outcome_from_str_def)

interpretation lost_tag: tag_column lost_reason_to_str lost_reason_from_str
  by unfold_locales (case_tac a; auto simp: lost_reason_from_str_def)

lemmas tags_read_back = run_tag.read_written task_tag.read_written mode_tag.read_written
  phase_tag.read_written outcome_tag.read_written_opt lost_tag.read_written_opt

section \<open>Rows\<close>

text \<open>Integer columns hold an \<open>i64\<close>; a negative one, or one too large, reads as zero.\<close>

definition u64_column :: "int \<Rightarrow> u64" where
  "u64_column i = (if 0 \<le> i then word_of_int i else 0)"

definition u32_column :: "int \<Rightarrow> u32" where
  "u32_column i = (if 0 \<le> i \<and> i < 2 ^ 32 then word_of_int i else 0)"

definition bool_column :: "bool \<Rightarrow> int" where
  "bool_column b = (if b then 1 else 0)"

fun uuid_of_run :: "run_id \<Rightarrow> uuid" where "uuid_of_run (RunId u) = u"
fun uuid_of_task :: "task_id \<Rightarrow> uuid" where "uuid_of_task (TaskId u) = u"
fun uuid_of_attempt :: "attempt_id \<Rightarrow> uuid" where "uuid_of_attempt (AttemptId u) = u"
fun uuid_of_project :: "project_id \<Rightarrow> uuid" where "uuid_of_project (ProjectId u) = u"
fun uuid_of_session :: "session_id \<Rightarrow> uuid" where "uuid_of_session (SessionId u) = u"
fun uuid_of_workspace :: "workspace_id \<Rightarrow> uuid" where "uuid_of_workspace (WorkspaceId u) = u"
fun uuid_of_profile :: "agent_profile_id \<Rightarrow> uuid" where "uuid_of_profile (AgentProfileId u) = u"
fun text_of_provider :: "agent_provider_id \<Rightarrow> string" where "text_of_provider (AgentProviderId s) = s"

lemma uuid_back [simp]:
  "RunId (uuid_of_run r) = r" "TaskId (uuid_of_task t) = t" "AttemptId (uuid_of_attempt a) = a"
  "ProjectId (uuid_of_project p) = p" "SessionId (uuid_of_session s) = s"
  "WorkspaceId (uuid_of_workspace w) = w" "AgentProfileId (uuid_of_profile f) = f"
  "AgentProviderId (text_of_provider v) = v"
  by (cases r, cases t, cases a, cases p, cases s, cases w, cases f, cases v; simp)+

lemma uuid_inject [simp]:
  "uuid_of_run r = uuid_of_run r' \<longleftrightarrow> r = r'" "uuid_of_task t = uuid_of_task t' \<longleftrightarrow> t = t'"
  "uuid_of_attempt a = uuid_of_attempt a' \<longleftrightarrow> a = a'"
  by (metis uuid_back)+

record run_row =
  rw_id :: string
  rw_project_id :: string
  rw_objective :: string
  rw_brief :: string
  rw_brief_version :: int
  rw_controller_session_id :: "string option"
  rw_integration_workspace_id :: "string option"
  rw_base :: "string option"
  rw_parent_attempt_id :: "string option"
  rw_status :: string
  rw_revision :: int
  rw_created_at :: string
  rw_updated_at :: string
  rw_closed_at :: "string option"

definition opt_id :: "codec \<Rightarrow> ('i \<Rightarrow> uuid) \<Rightarrow> 'i option \<Rightarrow> string option" where
  "opt_id c un o' = map_option (\<lambda>i. co_id c (un i)) o'"

definition run_values :: "codec \<Rightarrow> run \<Rightarrow> db_error + run_row" where
  "run_values c r =
    try_bind (run_status_to_str (run_status r)) (\<lambda>status. Inr
      \<lparr>rw_id = co_id c (uuid_of_run (run_id r)),
       rw_project_id = co_id c (uuid_of_project (run_project_id r)),
       rw_objective = run_objective r,
       rw_brief = run_brief r,
       rw_brief_version = as_i64 (run_brief_version r),
       rw_controller_session_id = opt_id c uuid_of_session (run_controller r),
       rw_integration_workspace_id = opt_id c uuid_of_workspace (run_integration_workspace r),
       rw_base = run_base r,
       rw_parent_attempt_id = opt_id c uuid_of_attempt (run_parent_attempt r),
       rw_status = status,
       rw_revision = as_i64 (run_revision r),
       rw_created_at = co_ts c (run_created_at r),
       rw_updated_at = co_ts c (run_updated_at r),
       rw_closed_at = map_option (co_ts c) (run_closed_at r)\<rparr>)"

definition run_from_row :: "codec \<Rightarrow> run_row \<Rightarrow> db_error + run" where
  "run_from_row c w =
    try_bind (id_from_str c ''RunId'' (rw_id w)) (\<lambda>i.
    try_bind (id_from_str c ''ProjectId'' (rw_project_id w)) (\<lambda>project.
    try_bind (id_from_opt c ''SessionId'' (rw_controller_session_id w)) (\<lambda>controller.
    try_bind (id_from_opt c ''WorkspaceId'' (rw_integration_workspace_id w)) (\<lambda>integration.
    try_bind (id_from_opt c ''AttemptId'' (rw_parent_attempt_id w)) (\<lambda>parent.
    try_bind (run_status_from_str (rw_status w)) (\<lambda>status.
    try_bind (ts_from_str c (rw_created_at w)) (\<lambda>created.
    try_bind (ts_from_str c (rw_updated_at w)) (\<lambda>updated.
    try_bind (ts_from_opt c (rw_closed_at w)) (\<lambda>closed.
    Inr \<lparr>run_id = RunId i, run_project_id = ProjectId project, run_objective = rw_objective w,
         run_brief = rw_brief w, run_brief_version = u64_column (rw_brief_version w),
         run_controller = map_option SessionId controller,
         run_integration_workspace = map_option WorkspaceId integration,
         run_base = rw_base w, run_parent_attempt = map_option AttemptId parent,
         run_status = status, run_revision = u64_column (rw_revision w),
         run_created_at = created, run_updated_at = updated, run_closed_at = closed\<rparr>)))))))))"

record task_row =
  tw_id :: string
  tw_run_id :: string
  tw_title :: string
  tw_spec :: string
  tw_acceptance :: string
  tw_mode :: string
  tw_allow_subruns :: int
  tw_status :: string
  tw_attempts_used :: int
  tw_revision :: int
  tw_feedback :: "string option"
  tw_created_at :: string
  tw_updated_at :: string

definition task_values :: "codec \<Rightarrow> task \<Rightarrow> db_error + task_row" where
  "task_values c t =
    try_bind (task_mode_to_str (t_mode t)) (\<lambda>mode.
    try_bind (task_status_to_str (t_status t)) (\<lambda>status. Inr
      \<lparr>tw_id = co_id c (uuid_of_task (t_id t)), tw_run_id = co_id c (uuid_of_run (t_run_id t)),
       tw_title = t_title t, tw_spec = t_spec t, tw_acceptance = t_acceptance t, tw_mode = mode,
       tw_allow_subruns = bool_column (t_allow_subruns t), tw_status = status,
       tw_attempts_used = uint (t_attempts_used t), tw_revision = as_i64 (t_revision t),
       tw_feedback = t_feedback t, tw_created_at = co_ts c (t_created_at t),
       tw_updated_at = co_ts c (t_updated_at t)\<rparr>))"

definition task_from_row :: "codec \<Rightarrow> task_row \<Rightarrow> db_error + task" where
  "task_from_row c w =
    try_bind (id_from_str c ''TaskId'' (tw_id w)) (\<lambda>i.
    try_bind (id_from_str c ''RunId'' (tw_run_id w)) (\<lambda>r.
    try_bind (task_mode_from_str (tw_mode w)) (\<lambda>mode.
    try_bind (task_status_from_str (tw_status w)) (\<lambda>status.
    try_bind (ts_from_str c (tw_created_at w)) (\<lambda>created.
    try_bind (ts_from_str c (tw_updated_at w)) (\<lambda>updated.
    Inr \<lparr>t_id = TaskId i, t_run_id = RunId r, t_title = tw_title w, t_spec = tw_spec w,
         t_acceptance = tw_acceptance w, t_after = [], t_mode = mode,
         t_allow_subruns = (tw_allow_subruns w \<noteq> 0), t_status = status,
         t_attempts_used = u32_column (tw_attempts_used w), t_revision = u64_column (tw_revision w),
         t_created_at = created, t_updated_at = updated, t_feedback = tw_feedback w\<rparr>))))))"

record attempt_row =
  aw_id :: string
  aw_task_id :: string
  aw_n :: int
  aw_session_id :: "string option"
  aw_workspace_id :: "string option"
  aw_branch :: "string option"
  aw_base_commit :: "string option"
  aw_provider_id :: string
  aw_profile_id :: "string option"
  aw_read_only :: int
  aw_phase :: string
  aw_outcome :: "string option"
  aw_lost_reason :: "string option"
  aw_summary :: "string option"
  aw_verification :: "string option"
  aw_result_path :: "string option"
  aw_reported_head :: "string option"
  aw_dirty_at_report :: "int option"
  aw_files_changed_json :: "string option"
  aw_integrated_commit :: "string option"
  aw_created_at :: string
  aw_settled_at :: "string option"

definition attempt_values :: "codec \<Rightarrow> attempt \<Rightarrow> db_error + attempt_row" where
  "attempt_values c a =
    try_bind (attempt_phase_to_str (at_phase a)) (\<lambda>phase.
    try_bind (try_opt report_outcome_to_str (at_outcome a)) (\<lambda>outcome.
    try_bind (try_opt lost_reason_to_str (at_lost_reason a)) (\<lambda>lost. Inr
      \<lparr>aw_id = co_id c (uuid_of_attempt (at_id a)), aw_task_id = co_id c (uuid_of_task (at_task_id a)),
       aw_n = uint (at_n a), aw_session_id = opt_id c uuid_of_session (at_session_id a),
       aw_workspace_id = opt_id c uuid_of_workspace (at_workspace_id a), aw_branch = at_branch a,
       aw_base_commit = at_base_commit a, aw_provider_id = text_of_provider (at_provider_id a),
       aw_profile_id = opt_id c uuid_of_profile (at_profile_id a),
       aw_read_only = bool_column (at_read_only a), aw_phase = phase, aw_outcome = outcome,
       aw_lost_reason = lost, aw_summary = map_option rep_summary (at_report a),
       aw_verification = Option.bind (at_report a) rep_verification,
       aw_result_path = Option.bind (at_report a) rep_result_path,
       aw_reported_head = Option.bind (at_report a) rep_reported_head,
       aw_dirty_at_report = map_option (\<lambda>r. bool_column (rep_dirty_at_report r)) (at_report a),
       aw_files_changed_json = map_option (\<lambda>r. co_files c (rep_files_changed r)) (at_report a),
       aw_integrated_commit = at_integrated_commit a, aw_created_at = co_ts c (at_created_at a),
       aw_settled_at = map_option (co_ts c) (at_settled_at a)\<rparr>)))"

definition attempt_from_row :: "codec \<Rightarrow> attempt_row \<Rightarrow> db_error + attempt" where
  "attempt_from_row c w =
    try_bind (try_opt (files_from_str c) (aw_files_changed_json w)) (\<lambda>files.
    try_bind (try_opt report_outcome_from_str (aw_outcome w)) (\<lambda>parsed.
    let report = map_option (\<lambda>summary.
          \<lparr>rep_outcome = (case parsed of None \<Rightarrow> RO_Done | Some r \<Rightarrow> r), rep_summary = summary,
           rep_verification = aw_verification w, rep_result_path = aw_result_path w,
           rep_reported_head = aw_reported_head w,
           rep_dirty_at_report = ((case aw_dirty_at_report w of None \<Rightarrow> 0 | Some d \<Rightarrow> d) \<noteq> 0),
           rep_files_changed = (case files of None \<Rightarrow> [] | Some fs \<Rightarrow> fs)\<rparr>) (aw_summary w) in
    try_bind (id_from_str c ''AttemptId'' (aw_id w)) (\<lambda>i.
    try_bind (id_from_str c ''TaskId'' (aw_task_id w)) (\<lambda>t.
    try_bind (id_from_opt c ''SessionId'' (aw_session_id w)) (\<lambda>session.
    try_bind (id_from_opt c ''WorkspaceId'' (aw_workspace_id w)) (\<lambda>workspace.
    try_bind (id_from_opt c ''AgentProfileId'' (aw_profile_id w)) (\<lambda>profile.
    try_bind (attempt_phase_from_str (aw_phase w)) (\<lambda>phase.
    try_bind (try_opt report_outcome_from_str (aw_outcome w)) (\<lambda>outcome.
    try_bind (try_opt lost_reason_from_str (aw_lost_reason w)) (\<lambda>lost.
    try_bind (ts_from_str c (aw_created_at w)) (\<lambda>created.
    try_bind (ts_from_opt c (aw_settled_at w)) (\<lambda>settled.
    Inr \<lparr>at_id = AttemptId i, at_task_id = TaskId t, at_n = u32_column (aw_n w),
         at_session_id = map_option SessionId session,
         at_workspace_id = map_option WorkspaceId workspace, at_branch = aw_branch w,
         at_base_commit = aw_base_commit w, at_provider_id = AgentProviderId (aw_provider_id w),
         at_profile_id = map_option AgentProfileId profile, at_read_only = (aw_read_only w \<noteq> 0),
         at_phase = phase, at_outcome = outcome, at_lost_reason = lost, at_report = report,
         at_integrated_commit = aw_integrated_commit w, at_created_at = created,
         at_settled_at = settled\<rparr>))))))))))))"

lemma u32_column_uint [simp]: "u32_column (uint n) = n"
  using uint_bounded [of n] by (simp add: u32_column_def)

lemma bool_column_read [simp]: "(bool_column b \<noteq> 0) = b"
  by (simp add: bool_column_def)

text \<open>A counter survives its signed column only while it fits one.\<close>

lemma u64_column_as_i64: "u64_column (as_i64 v) = (if v < 2 ^ 63 then v else 0)"
proof (cases "v < 2 ^ 63")
  case True
  then have "uint v < 2 ^ 63" by (simp add: word_less_def)
  moreover have "- (2 ^ 63) \<le> uint v" by (rule order_trans [OF _ uint_ge_0]) simp
  ultimately have "sint v = uint v" by (simp add: sint_uint signed_take_bit_int_eq_self)
  with True show ?thesis by (simp add: u64_column_def as_i64_def)
next
  case False
  then have "2 ^ 63 \<le> uint v" by (simp add: word_less_def)
  then have "sint v \<le> uint v - 2 ^ 64"
    using signed_take_bit_int_less_eq [of 63 "uint v"] by (simp add: sint_uint)
  moreover have "uint v < 2 ^ 64" using uint_bounded [of v] by simp
  ultimately have "sint v < 0" by linarith
  with False show ?thesis by (simp add: u64_column_def as_i64_def)
qed

lemma run_row_round_trip:
  assumes "codec_ok c" "run_values c r = Inr w" "run_brief_version r < 2 ^ 63" "run_revision r < 2 ^ 63"
  shows "run_from_row c w = Inr r"
  using assms(2-) by (auto simp: run_values_def run_from_row_def opt_id_def assms(1) try_bind_Inr tags_read_back
      u64_column_as_i64 option.map_comp comp_def option.map_ident)

lemma task_row_round_trip:
  assumes "codec_ok c" "task_values c t = Inr w" "t_revision t < 2 ^ 63"
  shows "task_from_row c w = Inr (t\<lparr>t_after := []\<rparr>)"
  using assms(2-) by (auto simp: task_values_def task_from_row_def assms(1) try_bind_Inr tags_read_back u64_column_as_i64)

text \<open>The outcome inside a report is not a column: it reads back as the outcome of the attempt, or done.\<close>

definition outcome_restored :: "attempt \<Rightarrow> attempt" where
  "outcome_restored a = a\<lparr>at_report := map_option
     (\<lambda>r. r\<lparr>rep_outcome := (case at_outcome a of None \<Rightarrow> RO_Done | Some x \<Rightarrow> x)\<rparr>) (at_report a)\<rparr>"

lemma attempt_row_round_trip:
  assumes c: "codec_ok c" and w: "attempt_values c a = Inr w"
  shows "attempt_from_row c w = Inr (outcome_restored a)"
proof (cases "at_report a")
  case None
  with w show ?thesis
    by (auto simp: attempt_values_def attempt_from_row_def opt_id_def c try_bind_Inr tags_read_back
        outcome_restored_def option.map_comp comp_def option.map_ident)
next
  case (Some r)
  with w show ?thesis
    by (auto simp: attempt_values_def attempt_from_row_def opt_id_def c try_bind_Inr tags_read_back
        outcome_restored_def option.map_comp comp_def option.map_ident)
qed

section \<open>Statements\<close>

record orch_db =
  od_runs :: "run_row list"
  od_tasks :: "task_row list"
  od_deps :: "(string \<times> string) list"
  od_attempts :: "attempt_row list"
  od_receipts :: "((string \<times> string) \<times> string \<times> string) list"

type_synonym faults = "nat \<Rightarrow> string option"

definition statement :: "string option \<Rightarrow> (orch_db \<Rightarrow> orch_db) \<Rightarrow> orch_db \<Rightarrow> (db_error + unit) \<times> orch_db" where
  "statement f change db = (case f of Some m \<Rightarrow> (Inl (DbSqlite m), db) | None \<Rightarrow> (Inr (), change db))"

definition insert_unique ::
  "string option \<Rightarrow> bool \<Rightarrow> (orch_db \<Rightarrow> orch_db) \<Rightarrow> orch_db \<Rightarrow> (db_error + unit) \<times> orch_db" where
  "insert_unique f taken change db =
    (if taken \<and> f = None then (Inl (DbSqlite ''UNIQUE constraint failed''), db) else statement f change db)"

definition insert_run :: "codec \<Rightarrow> faults \<Rightarrow> run \<Rightarrow> orch_db \<Rightarrow> (db_error + unit) \<times> orch_db" where
  "insert_run c f r db =
    (case run_values c r of
       Inl e \<Rightarrow> (Inl e, db)
     | Inr w \<Rightarrow> insert_unique (f 0) (rw_id w \<in> rw_id ` set (od_runs db))
         (\<lambda>db. db\<lparr>od_runs := od_runs db @ [w]\<rparr>) db)"

definition update_run :: "codec \<Rightarrow> faults \<Rightarrow> run \<Rightarrow> orch_db \<Rightarrow> (db_error + unit) \<times> orch_db" where
  "update_run c f r db =
    (case run_values c r of
       Inl e \<Rightarrow> (Inl e, db)
     | Inr w \<Rightarrow> statement (f 0) (\<lambda>db. db\<lparr>od_runs := map
         (\<lambda>old. if rw_id old = rw_id w
                then w\<lparr>rw_project_id := rw_project_id old, rw_created_at := rw_created_at old\<rparr> else old)
         (od_runs db)\<rparr>) db)"

fun insert_deps ::
  "codec \<Rightarrow> faults \<Rightarrow> nat \<Rightarrow> task_id \<Rightarrow> task_id list \<Rightarrow> orch_db \<Rightarrow> (db_error + unit) \<times> orch_db" where
  "insert_deps c f n t [] db = (Inr (), db)"
| "insert_deps c f n t (a # as) db =
    (let pair = (co_id c (uuid_of_task t), co_id c (uuid_of_task a)) in
     case insert_unique (f n) (pair \<in> set (od_deps db)) (\<lambda>db. db\<lparr>od_deps := od_deps db @ [pair]\<rparr>) db of
       (Inl e, db') \<Rightarrow> (Inl e, db')
     | (Inr _, db') \<Rightarrow> insert_deps c f (Suc n) t as db')"

definition insert_task :: "codec \<Rightarrow> faults \<Rightarrow> task \<Rightarrow> orch_db \<Rightarrow> (db_error + unit) \<times> orch_db" where
  "insert_task c f t db =
    (case task_values c t of
       Inl e \<Rightarrow> (Inl e, db)
     | Inr w \<Rightarrow>
         (case insert_unique (f 0) (tw_id w \<in> tw_id ` set (od_tasks db))
             (\<lambda>db. db\<lparr>od_tasks := od_tasks db @ [w]\<rparr>) db of
            (Inl e, db') \<Rightarrow> (Inl e, db')
          | (Inr _, db') \<Rightarrow> insert_deps c f 1 (t_id t) (t_after t) db'))"

definition update_task :: "codec \<Rightarrow> faults \<Rightarrow> task \<Rightarrow> orch_db \<Rightarrow> (db_error + unit) \<times> orch_db" where
  "update_task c f t db =
    (case task_values c t of
       Inl e \<Rightarrow> (Inl e, db)
     | Inr w \<Rightarrow>
         (case statement (f 0) (\<lambda>db. db\<lparr>od_tasks := map
             (\<lambda>old. if tw_id old = tw_id w
                    then w\<lparr>tw_run_id := tw_run_id old, tw_created_at := tw_created_at old\<rparr> else old)
             (od_tasks db)\<rparr>) db of
            (Inl e, db') \<Rightarrow> (Inl e, db')
          | (Inr _, db') \<Rightarrow>
              (case statement (f 1) (\<lambda>db. db\<lparr>od_deps := filter (\<lambda>p. fst p \<noteq> tw_id w) (od_deps db)\<rparr>) db' of
                 (Inl e, db'') \<Rightarrow> (Inl e, db'')
               | (Inr _, db'') \<Rightarrow> insert_deps c f 2 (t_id t) (t_after t) db'')))"

definition insert_attempt :: "codec \<Rightarrow> faults \<Rightarrow> attempt \<Rightarrow> orch_db \<Rightarrow> (db_error + unit) \<times> orch_db" where
  "insert_attempt c f a db =
    (case attempt_values c a of
       Inl e \<Rightarrow> (Inl e, db)
     | Inr w \<Rightarrow> insert_unique (f 0) (aw_id w \<in> aw_id ` set (od_attempts db))
         (\<lambda>db. db\<lparr>od_attempts := od_attempts db @ [w]\<rparr>) db)"

definition update_attempt :: "codec \<Rightarrow> faults \<Rightarrow> attempt \<Rightarrow> orch_db \<Rightarrow> (db_error + unit) \<times> orch_db" where
  "update_attempt c f a db =
    (case attempt_values c a of
       Inl e \<Rightarrow> (Inl e, db)
     | Inr w \<Rightarrow> statement (f 0) (\<lambda>db. db\<lparr>od_attempts := map
         (\<lambda>old. if aw_id old = aw_id w
                then w\<lparr>aw_task_id := aw_task_id old, aw_n := aw_n old, aw_created_at := aw_created_at old\<rparr>
                else old)
         (od_attempts db)\<rparr>) db)"

text \<open>Reading a table stops at the first row that does not decode.\<close>

fun try_all :: "('a \<Rightarrow> 'e + 'b) \<Rightarrow> 'a list \<Rightarrow> 'e + 'b list" where
  "try_all g [] = Inr []"
| "try_all g (x # xs) = try_bind (g x) (\<lambda>y. try_bind (try_all g xs) (\<lambda>ys. Inr (y # ys)))"

definition list_runs :: "codec \<Rightarrow> orch_db \<Rightarrow> db_error + run list" where
  "list_runs c db = try_all (run_from_row c) (sort_key rw_created_at (od_runs db))"

definition deps :: "codec \<Rightarrow> task_id \<Rightarrow> orch_db \<Rightarrow> db_error + task_id list" where
  "deps c t db =
    try_all (\<lambda>s. try_bind (id_from_str c ''TaskId'' s) (\<lambda>u. Inr (TaskId u)))
      (sort (map snd (filter (\<lambda>p. fst p = co_id c (uuid_of_task t)) (od_deps db))))"

definition list_tasks :: "codec \<Rightarrow> orch_db \<Rightarrow> db_error + task list" where
  "list_tasks c db =
    try_all (\<lambda>w. try_bind (task_from_row c w) (\<lambda>t. try_bind (deps c (t_id t) db) (\<lambda>as. Inr (t\<lparr>t_after := as\<rparr>))))
      (sort_key tw_created_at (od_tasks db))"

definition list_attempts :: "codec \<Rightarrow> orch_db \<Rightarrow> db_error + attempt list" where
  "list_attempts c db = try_all (attempt_from_row c) (sort_key aw_created_at (od_attempts db))"

definition put_receipt ::
  "codec \<Rightarrow> faults \<Rightarrow> string \<Rightarrow> string \<Rightarrow> string \<Rightarrow> timestamp \<Rightarrow> orch_db \<Rightarrow> (db_error + unit) \<times> orch_db" where
  "put_receipt c f request_id caller response now db =
    statement (f 0) (\<lambda>db. db\<lparr>od_receipts := (let k = (request_id, caller) in
      (k, response, co_ts c now) # filter (\<lambda>p. fst p \<noteq> k) (od_receipts db))\<rparr>) db"

definition get_receipt ::
  "codec \<Rightarrow> faults \<Rightarrow> string \<Rightarrow> string \<Rightarrow> orch_db \<Rightarrow> db_error + (string \<times> timestamp) option" where
  "get_receipt c f request_id caller db =
    (case f 0 of
       Some m \<Rightarrow> Inl (DbSqlite m)
     | None \<Rightarrow> try_opt (\<lambda>(bytes, at). try_bind (ts_from_str c at) (\<lambda>t. Inr (bytes, t)))
         (map_of (od_receipts db) (request_id, caller)))"

section \<open>A codec\<close>

text \<open>Numbers in unary and files behind their lengths: a codec that keeps \<open>codec_ok\<close>.\<close>

fun plain_files :: "string list \<Rightarrow> string" where
  "plain_files [] = []"
| "plain_files (f # fs) = replicate (length f) (CHR ''1'') @ CHR ''0'' # f @ plain_files fs"

function plain_parse_files :: "string \<Rightarrow> string list" where
  "plain_parse_files s =
    (if s = [] then []
     else let n = length (takeWhile (\<lambda>ch. ch = CHR ''1'') s); rest = drop (Suc n) s
          in take n rest # plain_parse_files (drop n rest))"
  by pat_completeness auto
termination by (relation "measure length") auto

declare plain_parse_files.simps [simp del]

lemma plain_files_read: "plain_parse_files (plain_files fs) = fs"
proof (induction fs)
  case Nil
  then show ?case by (simp add: plain_parse_files.simps)
next
  case (Cons f fs)
  have "takeWhile (\<lambda>ch. ch = CHR ''1'') (plain_files (f # fs)) = replicate (length f) (CHR ''1'')"
    by (simp add: takeWhile_append)
  then show ?case using Cons by (subst plain_parse_files.simps) (simp add: Let_def)
qed

definition plain_codec :: codec where
  "plain_codec =
    \<lparr>co_id = (\<lambda>u. replicate (unat u) (CHR ''1'')), co_parse_id = (\<lambda>s. Inr (word_of_nat (length s))),
     co_ts = (\<lambda>t. (if as_offset t < 0 then CHR ''-'' else CHR ''+'') # replicate (nat \<bar>as_offset t\<bar>) (CHR ''1'')),
     co_parse_ts = (\<lambda>s. Inr (Timestamp (if hd s = CHR ''-'' then - int (length s - 1) else int (length s - 1)))),
     co_files = plain_files, co_parse_files = (\<lambda>s. Inr (plain_parse_files s))\<rparr>"

lemma plain_codec_ok [simp]: "codec_ok plain_codec"
proof -
  have "Timestamp (as_offset t) = t" for t by (cases t) simp
  then show ?thesis by (auto simp: codec_ok_def plain_codec_def plain_files_read)
qed

end
