(* ===== verification/Orch_Ledger.thy ===== *)
theory Orch_Ledger
  imports Orch_Rows Orch_Board Orch_Graph Protocol_Event
begin

text \<open>
  The orchestration ledger the daemon keeps in memory and the critical sections of its handlers
  (\<^verbatim>\<open>crates/daemon/src/orchestration/mod.rs\<close>). A handler that releases the core lock, to run git, to
  copy a file or to spawn a session, is one definition for each section; what the work between two
  sections produced is an argument of the second. A \<open>HashMap\<close> is an association list: its order is
  the order of one iteration. The clock, fresh identifiers and the failures of statements (by the
  number of the write in the section) are arguments. Events that a section broadcasts after it
  releases the lock are appended to \<open>k_events\<close>.
\<close>

definition MAX_OBJECTIVE_BYTES :: nat where "MAX_OBJECTIVE_BYTES = 8 * 1024"
definition MAX_BRIEF_BYTES :: nat where "MAX_BRIEF_BYTES = 16 * 1024"
definition MAX_TITLE_BYTES :: nat where "MAX_TITLE_BYTES = 200"
definition MAX_SPEC_BYTES :: nat where "MAX_SPEC_BYTES = 32 * 1024"
definition MAX_ACCEPTANCE_BYTES :: nat where "MAX_ACCEPTANCE_BYTES = 8 * 1024"
definition MAX_SUMMARY_BYTES :: nat where "MAX_SUMMARY_BYTES = 16 * 1024"
definition MAX_VERIFICATION_BYTES :: nat where "MAX_VERIFICATION_BYTES = 4 * 1024"
definition MAX_MESSAGE_BYTES :: nat where "MAX_MESSAGE_BYTES = 16 * 1024"

section \<open>State\<close>

type_synonym ledger_event = "unit daemon_event"

record pointer_slot =
  ps_queued :: bool
  ps_typed_this_idle :: bool

record ledger =
  lg_runs :: "(run_id \<times> run) list"
  lg_tasks :: "(task_id \<times> task) list"
  lg_attempts :: "(attempt_id \<times> attempt) list"
  lg_board :: board
  lg_pointer :: "(session_id \<times> pointer_slot) list"
  lg_conflict :: "run_id list"
  lg_max_attempts_per_task :: u32
  lg_resuming :: "run_id set"
  lg_in_flight :: "(string \<times> string) set"
  lg_outbox :: "ledger_event list"

record kernel =
  k_ledger :: ledger
  k_db :: orch_db
  k_inner :: inner
  k_events :: "ledger_event list"

abbreviation run_at :: "ledger \<Rightarrow> run_id \<Rightarrow> run option" where "run_at lg \<equiv> map_of (lg_runs lg)"
abbreviation task_at :: "ledger \<Rightarrow> task_id \<Rightarrow> task option" where "task_at lg \<equiv> map_of (lg_tasks lg)"
abbreviation attempt_at :: "ledger \<Rightarrow> attempt_id \<Rightarrow> attempt option" where
  "attempt_at lg \<equiv> map_of (lg_attempts lg)"

definition put_task :: "task \<Rightarrow> kernel \<Rightarrow> kernel" where
  "put_task t k = k\<lparr>k_ledger := (k_ledger k)\<lparr>lg_tasks := AList.update (t_id t) t (lg_tasks (k_ledger k))\<rparr>\<rparr>"

definition put_attempt :: "attempt \<Rightarrow> kernel \<Rightarrow> kernel" where
  "put_attempt a k =
    k\<lparr>k_ledger := (k_ledger k)\<lparr>lg_attempts := AList.update (at_id a) a (lg_attempts (k_ledger k))\<rparr>\<rparr>"

definition put_run :: "run \<Rightarrow> kernel \<Rightarrow> kernel" where
  "put_run r k = k\<lparr>k_ledger := (k_ledger k)\<lparr>lg_runs := AList.update (run_id r) r (lg_runs (k_ledger k))\<rparr>\<rparr>"

definition broadcast :: "ledger_event list \<Rightarrow> kernel \<Rightarrow> kernel" where
  "broadcast evs k = k\<lparr>k_events := k_events k @ evs\<rparr>"

section \<open>Writing to the database\<close>

type_synonym writes = "nat \<Rightarrow> faults"

text \<open>The quotes \<open>Debug\<close> puts around a value that does not decode are left out.\<close>

definition db_error_text :: "db_error \<Rightarrow> string" where
  "db_error_text e =
    (case e of
       DbSqlite m \<Rightarrow> ''sqlite error: '' @ m
     | DbJson m \<Rightarrow> ''json error: '' @ m
     | DbDecode w v r \<Rightarrow> ''could not decode '' @ w @ '' from '' @ v @ '': '' @ r
     | DbEncode m \<Rightarrow> ''could not encode '' @ m)"

definition run_db ::
  "(orch_db \<Rightarrow> (db_error + unit) \<times> orch_db) \<Rightarrow> kernel \<Rightarrow> (protocol_error + unit) \<times> kernel" where
  "run_db op k =
    (case op (k_db k) of
       (Inl e, db) \<Rightarrow> (Inl (db_err (db_error_text e)), k\<lparr>k_db := db\<rparr>)
     | (Inr u, db) \<Rightarrow> (Inr u, k\<lparr>k_db := db\<rparr>))"

definition persist_task :: "codec \<Rightarrow> faults \<Rightarrow> task \<Rightarrow> kernel \<Rightarrow> (protocol_error + unit) \<times> kernel" where
  "persist_task c f t k = run_db (update_task c f t) k"

definition persist_attempt :: "codec \<Rightarrow> faults \<Rightarrow> attempt \<Rightarrow> kernel \<Rightarrow> (protocol_error + unit) \<times> kernel" where
  "persist_attempt c f a k = run_db (update_attempt c f a) k"

text \<open>Two writes of one section in sequence, the second only if the first succeeded.\<close>

definition then_do ::
  "(kernel \<Rightarrow> ('e + unit) \<times> kernel) \<Rightarrow> (kernel \<Rightarrow> ('e + 'a) \<times> kernel) \<Rightarrow> kernel \<Rightarrow> ('e + 'a) \<times> kernel" where
  "then_do m n k = (case m k of (Inl e, k') \<Rightarrow> (Inl e, k') | (Inr _, k') \<Rightarrow> n k')"

text \<open>A write whose error is only logged.\<close>

definition attempt_write :: "(kernel \<Rightarrow> (protocol_error + unit) \<times> kernel) \<Rightarrow> kernel \<Rightarrow> kernel" where
  "attempt_write m k = snd (m k)"

section \<open>Loading and settling after a restart\<close>

definition load_ledger :: "codec \<Rightarrow> orchestration_limits \<Rightarrow> board \<Rightarrow> orch_db \<Rightarrow> db_error + ledger" where
  "load_ledger c limits rows db =
    try_bind (list_runs c db) (\<lambda>runs.
    try_bind (list_tasks c db) (\<lambda>tasks.
    try_bind (list_attempts c db) (\<lambda>attempts.
    Inr \<lparr>lg_runs = foldl (\<lambda>m r. AList.update (run_id r) r m) [] runs,
         lg_tasks = foldl (\<lambda>m t. AList.update (t_id t) t m) [] tasks,
         lg_attempts = foldl (\<lambda>m a. AList.update (at_id a) a m) [] attempts,
         lg_board = filter (\<lambda>e. fst (fst e) \<in> run_id ` set runs) rows,
         lg_pointer = [], lg_conflict = [],
         lg_max_attempts_per_task = max_attempts_per_task limits, lg_resuming = {},
         lg_in_flight = {}, lg_outbox = []\<rparr>)))"

fun persist_each ::
  "(nat \<Rightarrow> 'a \<Rightarrow> orch_db \<Rightarrow> (db_error + unit) \<times> orch_db) \<Rightarrow> nat \<Rightarrow> 'a list \<Rightarrow> orch_db \<Rightarrow> (db_error + unit) \<times> orch_db"
where
  "persist_each op n [] db = (Inr (), db)"
| "persist_each op n (x # xs) db =
    (case op n x db of (Inl e, db') \<Rightarrow> (Inl e, db') | (Inr _, db') \<Rightarrow> persist_each op (Suc n) xs db')"

definition reconcile_startup ::
  "codec \<Rightarrow> writes \<Rightarrow> orchestration_limits \<Rightarrow> timestamp \<Rightarrow> orch_db \<Rightarrow> (db_error + unit) \<times> orch_db" where
  "reconcile_startup c f limits now db =
    (case try_bind (list_runs c db) (\<lambda>runs. try_bind (list_tasks c db) (\<lambda>tasks.
            try_bind (list_attempts c db) (\<lambda>attempts. Inr (runs, tasks, attempts)))) of
       Inl e \<Rightarrow> (Inl e, db)
     | Inr (runs, tasks, attempts) \<Rightarrow>
         if runs = [] \<and> attempts = [] then (Inr (), db)
         else
           let rec = reconcile_restart runs tasks attempts limits now; n1 = length (rr_runs rec);
               n2 = n1 + length (rr_tasks rec) in
           case persist_each (\<lambda>n. update_run c (f n)) 0 (rr_runs rec) db of
             (Inl e, db1) \<Rightarrow> (Inl e, db1)
           | (Inr _, db1) \<Rightarrow>
               (case persist_each (\<lambda>n. update_task c (f n)) n1 (rr_tasks rec) db1 of
                  (Inl e, db2) \<Rightarrow> (Inl e, db2)
                | (Inr _, db2) \<Rightarrow> persist_each (\<lambda>n. update_attempt c (f n)) n2 (rr_attempts rec) db2))"

section \<open>Sessions, workspaces and projects that go away\<close>

text \<open>A live attempt of a forgotten session is lost, and its task with it when it waited for it.\<close>

definition lose :: "lost_reason \<Rightarrow> timestamp \<Rightarrow> attempt \<Rightarrow> attempt" where
  "lose reason now a = a\<lparr>at_phase := AP_Lost, at_lost_reason := Some reason, at_settled_at := Some now\<rparr>"

definition task_after_loss :: "u32 \<Rightarrow> timestamp \<Rightarrow> task \<Rightarrow> task" where
  "task_after_loss max_attempts now t =
    t\<lparr>t_status := task_status_after_loss (t_attempts_used t) max_attempts, t_updated_at := now,
      t_revision := saturating_add (t_revision t) 1\<rparr>"

abbreviation waits_for_attempt :: "task_status \<Rightarrow> bool" where
  "waits_for_attempt st \<equiv> st = TS_Active \<or> st = TS_Blocked"

fun forget_attempts ::
  "timestamp \<Rightarrow> u32 \<Rightarrow> session_id \<Rightarrow> (attempt_id \<times> attempt) list \<Rightarrow> (task_id \<times> task) list
    \<Rightarrow> (attempt_id \<times> attempt) list \<times> (task_id \<times> task) list \<times> attempt list \<times> task list"
where
  "forget_attempts now mx sid [] tasks = ([], tasks, [], [])"
| "forget_attempts now mx sid ((i, a) # rest) tasks =
    (if at_session_id a \<noteq> Some sid then
       (case forget_attempts now mx sid rest tasks of
          (rest', tasks', as, ts) \<Rightarrow> ((i, a) # rest', tasks', as, ts))
     else
       let a1 = a\<lparr>at_session_id := None\<rparr>;
           a2 = (if is_live a1 then lose LR_ExitedWithoutReport now a1 else a1);
           changed = (if is_live a1 then (case map_of tasks (at_task_id a) of
               None \<Rightarrow> None
             | Some t \<Rightarrow> if waits_for_attempt (t_status t) then Some (task_after_loss mx now t) else None)
             else None);
           tasks1 = (case changed of None \<Rightarrow> tasks | Some t \<Rightarrow> AList.update (at_task_id a) t tasks)
       in case forget_attempts now mx sid rest tasks1 of
            (rest', tasks', as, ts) \<Rightarrow>
              ((i, a2) # rest', tasks', a2 # as, (case changed of None \<Rightarrow> ts | Some t \<Rightarrow> t # ts)))"

definition persist_forgotten ::
  "codec \<Rightarrow> writes \<Rightarrow> run list \<Rightarrow> task list \<Rightarrow> attempt list \<Rightarrow> kernel \<Rightarrow> kernel" where
  "persist_forgotten c f runs tasks attempts k =
    (let nr = length runs; nt = length tasks;
         k1 = fold (\<lambda>(n, r). attempt_write (run_db (update_run c (f n) r))) (enumerate 0 runs) k;
         k2 = fold (\<lambda>(n, t). attempt_write (persist_task c (f n) t)) (enumerate nr tasks) k1;
         k3 = fold (\<lambda>(n, a). attempt_write (persist_attempt c (f n) a)) (enumerate (nr + nt) attempts) k2
     in k3\<lparr>k_ledger := (k_ledger k3)\<lparr>lg_outbox := lg_outbox (k_ledger k3) @ map RunUpdated runs
          @ map TaskUpdated tasks @ map AttemptUpdated attempts\<rparr>\<rparr>)"

definition forget_session :: "codec \<Rightarrow> writes \<Rightarrow> timestamp \<Rightarrow> session_id \<Rightarrow> kernel \<Rightarrow> kernel" where
  "forget_session c f now sid k =
    (let lg = k_ledger k in
     case forget_attempts now (lg_max_attempts_per_task lg) sid (lg_attempts lg) (lg_tasks lg) of
       (attempts', tasks', as, ts) \<Rightarrow>
         let hit = (\<lambda>r. run_controller r = Some sid);
             runs' = map (\<lambda>(i, r). (i, if hit r then r\<lparr>run_controller := None\<rparr> else r)) (lg_runs lg);
             rs = map (\<lambda>r. r\<lparr>run_controller := None\<rparr>) (filter hit (map snd (lg_runs lg)))
         in persist_forgotten c f rs ts as
              (k\<lparr>k_ledger := lg\<lparr>lg_attempts := attempts', lg_tasks := tasks', lg_runs := runs',
                 lg_pointer := AList.delete sid (lg_pointer lg)\<rparr>\<rparr>))"

definition forget_workspace :: "codec \<Rightarrow> writes \<Rightarrow> workspace_id \<Rightarrow> kernel \<Rightarrow> kernel" where
  "forget_workspace c f wid k =
    (let lg = k_ledger k;
         ahit = (\<lambda>a. at_workspace_id a = Some wid); aset = (\<lambda>a. a\<lparr>at_workspace_id := None\<rparr>);
         rhit = (\<lambda>r. run_integration_workspace r = Some wid);
         rset = (\<lambda>r. r\<lparr>run_integration_workspace := None\<rparr>)
     in persist_forgotten c f (map rset (filter rhit (map snd (lg_runs lg)))) []
          (map aset (filter ahit (map snd (lg_attempts lg))))
          (k\<lparr>k_ledger := lg\<lparr>
             lg_attempts := map (\<lambda>(i, a). (i, if ahit a then aset a else a)) (lg_attempts lg),
             lg_runs := map (\<lambda>(i, r). (i, if rhit r then rset r else r)) (lg_runs lg)\<rparr>\<rparr>))"

definition forget_project :: "project_id \<Rightarrow> ledger \<Rightarrow> ledger" where
  "forget_project pid lg =
    (let runs = map run_id (filter (\<lambda>r. run_project_id r = pid) (map snd (lg_runs lg)));
         tasks = map t_id (filter (\<lambda>t. t_run_id t \<in> set runs) (map snd (lg_tasks lg)))
     in lg\<lparr>lg_runs := filter (\<lambda>(_, r). run_project_id r \<noteq> pid) (lg_runs lg),
           lg_tasks := filter (\<lambda>(i, _). i \<notin> set tasks) (lg_tasks lg),
           lg_attempts := filter (\<lambda>(_, a). at_task_id a \<notin> set tasks) (lg_attempts lg),
           lg_board := filter (\<lambda>((r, _), _). r \<notin> set runs) (lg_board lg),
           lg_conflict := filter (\<lambda>r. r \<notin> set runs) (lg_conflict lg)\<rparr>)"

definition flush_events :: "kernel \<Rightarrow> kernel" where
  "flush_events k =
    broadcast (lg_outbox (k_ledger k)) (k\<lparr>k_ledger := (k_ledger k)\<lparr>lg_outbox := []\<rparr>\<rparr>)"

text \<open>Whose work a session does: of an attempt, or as the controller of a run.\<close>

definition identity_for :: "ledger \<Rightarrow> session_id \<Rightarrow> (run_id \<times> task_id option \<times> attempt_id option) option" where
  "identity_for lg sid =
    (case find (\<lambda>a. at_session_id a = Some sid) (map snd (lg_attempts lg)) of
       Some a \<Rightarrow> map_option (\<lambda>t. (t_run_id t, Some (t_id t), Some (at_id a))) (task_at lg (at_task_id a))
     | None \<Rightarrow> map_option (\<lambda>r. (run_id r, None, None))
                (find (\<lambda>r. run_controller r = Some sid) (map snd (lg_runs lg))))"

definition note_session_exit ::
  "codec \<Rightarrow> writes \<Rightarrow> orchestration_limits \<Rightarrow> timestamp \<Rightarrow> session_id \<Rightarrow> kernel \<Rightarrow> kernel" where
  "note_session_exit c f limits now sid k =
    (case find (\<lambda>a. at_session_id a = Some sid \<and> is_live a) (map snd (lg_attempts (k_ledger k))) of
       None \<Rightarrow> k
     | Some a0 \<Rightarrow>
         (case attempt_at (k_ledger k) (at_id a0) of
            None \<Rightarrow> k
          | Some a1 \<Rightarrow>
              let a = lose LR_ExitedWithoutReport now a1;
                  k1 = put_attempt a k;
                  t = map_option (\<lambda>t. if waits_for_attempt (t_status t)
                        then task_after_loss (max_attempts_per_task limits) now t else t)
                      (task_at (k_ledger k1) (at_task_id a));
                  k2 = (case t of None \<Rightarrow> k1 | Some t \<Rightarrow> put_task t k1);
                  k3 = attempt_write (persist_attempt c (f 0) a) k2;
                  k4 = (case t of None \<Rightarrow> k3 | Some t \<Rightarrow> attempt_write (persist_task c (f 1) t) k3)
              in broadcast (AttemptUpdated a # (case t of None \<Rightarrow> [] | Some t \<Rightarrow> [TaskUpdated t])) k4))"

section \<open>Runs\<close>

definition invalid_request :: "string \<Rightarrow> protocol_error" where
  "invalid_request m = protocol_error_new InvalidRequest m"

definition precondition_failed :: "string \<Rightarrow> protocol_error" where
  "precondition_failed m = protocol_error_new PreconditionFailed m"

definition internal :: "string \<Rightarrow> protocol_error" where
  "internal m = protocol_error_new Internal m"

definition rail_error :: "rail_refusal + unit \<Rightarrow> protocol_error + unit" where
  "rail_error r = (case r of Inl e \<Rightarrow> Inl (policy e) | Inr u \<Rightarrow> Inr u)"

definition require :: "'a option \<Rightarrow> protocol_error \<Rightarrow> protocol_error + 'a" where
  "require x e = (case x of None \<Rightarrow> Inl e | Some v \<Rightarrow> Inr v)"

definition check :: "bool \<Rightarrow> protocol_error \<Rightarrow> protocol_error + unit" where
  "check b e = (if b then Inr () else Inl e)"

text \<open>The depth of a run below its parent attempts; the loop stops once it has counted nine.\<close>

definition parent_of_run :: "ledger \<Rightarrow> attempt_id \<Rightarrow> attempt_id option" where
  "parent_of_run lg i =
    Option.bind (attempt_at lg i) (\<lambda>a. Option.bind (task_at lg (at_task_id a))
      (\<lambda>t. Option.bind (run_at lg (t_run_id t)) run_parent_attempt))"

function run_depth_loop :: "ledger \<Rightarrow> u32 \<Rightarrow> attempt_id option \<Rightarrow> u32" where
  "run_depth_loop lg depth None = depth"
| "run_depth_loop lg depth (Some i) =
    (let depth' = saturating_add depth 1 in
     if depth' > 8 then depth' else run_depth_loop lg depth' (parent_of_run lg i))"
  by pat_completeness auto
termination
  by (relation "measure (\<lambda>(lg, depth, p). 10 - unat depth)")
    (auto simp: saturating_add_def word_less_nat_alt not_less word_le_nat_alt unat_word_ariths unsigned_minus_1_eq_mask mask_eq_exp_minus_1 split: if_splits)

definition run_depth :: "ledger \<Rightarrow> run \<Rightarrow> u32" where
  "run_depth lg r = run_depth_loop lg 1 (run_parent_attempt r)"

text \<open>The session of the parent attempt, if there is a parent.\<close>

definition create_run_check ::
  "orchestration_limits \<Rightarrow> bool \<Rightarrow> string \<Rightarrow> attempt_id option \<Rightarrow> kernel
    \<Rightarrow> protocol_error + session_id option option" where
  "create_run_check limits project_known objective parent k =
    try_bind (check (trim (fst (clamp_text objective MAX_OBJECTIVE_BYTES)) \<noteq> []) (invalid_request ''objective is empty'')) (\<lambda>_.
    try_bind (check project_known (not_found ''project'')) (\<lambda>_.
    case parent of
      None \<Rightarrow> Inr None
    | Some i \<Rightarrow>
        let lg = k_ledger k in
        try_bind (require (attempt_at lg i) (not_found ''parent attempt'')) (\<lambda>a.
        try_bind (require (task_at lg (at_task_id a)) (not_found ''parent task'')) (\<lambda>t.
        try_bind (require (run_at lg (t_run_id t)) (not_found ''parent run'')) (\<lambda>r.
        try_bind (rail_error (allow_nested_run (run_depth lg r) (t_allow_subruns t) limits)) (\<lambda>_.
        Inr (Some (at_session_id a))))))))"

definition new_run ::
  "run_id \<Rightarrow> project_id \<Rightarrow> string \<Rightarrow> session_id option \<Rightarrow> workspace_id option \<Rightarrow> string option
    \<Rightarrow> attempt_id option \<Rightarrow> timestamp \<Rightarrow> run" where
  "new_run i project objective controller workspace base parent now =
    \<lparr>run_id = i, run_project_id = project, run_objective = objective, run_brief = [],
     run_brief_version = 0, run_controller = controller, run_integration_workspace = workspace,
     run_base = base, run_parent_attempt = parent, run_status = RS_Active, run_revision = 1,
     run_created_at = now, run_updated_at = now, run_closed_at = None\<rparr>"

definition create_run_commit :: "codec \<Rightarrow> writes \<Rightarrow> run \<Rightarrow> kernel \<Rightarrow> (protocol_error + run_id) \<times> kernel" where
  "create_run_commit c f r k =
    (case run_db (insert_run c (f 0) r) k of
       (Inl e, k1) \<Rightarrow> (Inl e, k1)
     | (Inr _, k1) \<Rightarrow> (Inr (run_id r), broadcast [RunUpdated r] (put_run r k1)))"

text \<open>
  \<open>update_brief\<close> with its two version checks as they are written; \<open>Some 0\<close> filtered away and put
  back is \<open>Some 0\<close>.
\<close>

definition update_brief ::
  "codec \<Rightarrow> writes \<Rightarrow> timestamp \<Rightarrow> session_id option \<Rightarrow> run_id \<Rightarrow> string \<Rightarrow> u64 \<Rightarrow> kernel
    \<Rightarrow> (protocol_error + unit) \<times> kernel" where
  "update_brief c f now caller rid brief0 expected k =
    (let brief = fst (clamp_text brief0 MAX_BRIEF_BYTES) in
     case run_at (k_ledger k) rid of
       None \<Rightarrow> (Inl (not_found ''run''), k)
     | Some r \<Rightarrow>
         (case allow_controller caller (run_controller r) of
            Inl e \<Rightarrow> (Inl (policy e), k)
          | Inr _ \<Rightarrow>
              let v = run_brief_version r;
                  first = (case compare_and_set (Some v) expected of
                      Mismatch cur \<Rightarrow>
                        if \<not> (expected = 0 \<and> v = 0) \<and> expected \<noteq> v
                        then Some (if v = 0 then 0 else max cur v) else None
                    | _ \<Rightarrow> None) in
              case first of
                Some cur \<Rightarrow> (Inl (version_conflict cur), k)
              | None \<Rightarrow>
                  if expected \<noteq> v \<and> \<not> (expected = 0 \<and> v = 0) then (Inl (version_conflict v), k)
                  else
                    let r' = r\<lparr>run_brief := brief, run_brief_version := saturating_add v 1,
                          run_revision := saturating_add (run_revision r) 1, run_updated_at := now\<rparr>;
                        k1 = put_run r' k in
                    (case run_db (update_run c (f 0) r') k1 of
                       (Inl e, k2) \<Rightarrow> (Inl e, k2)
                     | (Inr _, k2) \<Rightarrow> (Inr (), broadcast [RunUpdated r'] k2))))"

definition close_run_commit ::
  "codec \<Rightarrow> writes \<Rightarrow> timestamp \<Rightarrow> run_id \<Rightarrow> bool \<Rightarrow> kernel \<Rightarrow> (protocol_error + unit) \<times> kernel" where
  "close_run_commit c f now rid cancel k =
    (case run_at (k_ledger k) rid of
       None \<Rightarrow> (Inl (not_found ''run''), k)
     | Some r \<Rightarrow>
         let r' = r\<lparr>run_status := (if cancel then RS_Cancelled else RS_Completed), run_closed_at := Some now,
               run_updated_at := now, run_revision := saturating_add (run_revision r) 1\<rparr> in
         case run_db (update_run c (f 0) r') (put_run r' k) of
           (Inl e, k1) \<Rightarrow> (Inl e, k1)
         | (Inr _, k1) \<Rightarrow> (Inr (), broadcast [RunUpdated r'] k1))"

definition session_live :: "kernel \<Rightarrow> session_id option \<Rightarrow> bool" where
  "session_live k sid =
    (case Option.bind sid (in_sessions (k_inner k)) of None \<Rightarrow> False | Some s \<Rightarrow> \<not> is_terminal (s_state s))"

text \<open>The claim on a run that is being resumed; \<open>resume_release\<close> is its \<open>Drop\<close>.\<close>

definition resume_claim ::
  "session_id option \<Rightarrow> run_id \<Rightarrow> kernel \<Rightarrow> (protocol_error + run) \<times> kernel" where
  "resume_claim caller rid k =
    (case run_at (k_ledger k) rid of
       None \<Rightarrow> (Inl (not_found ''run''), k)
     | Some r \<Rightarrow>
         (case allow_controller caller (run_controller r) of
            Inl e \<Rightarrow> (Inl (policy e), k)
          | Inr _ \<Rightarrow>
              if \<not> (run_status r = RS_Interrupted
                     \<or> (run_status r = RS_Active \<and> \<not> session_live k (run_controller r)))
              then (Inl (precondition_failed
                ''only an interrupted run, or one whose controller has ended, can be resumed''), k)
              else if rid \<in> lg_resuming (k_ledger k)
              then (Inl (protocol_error_new Conflict ''run is already being resumed''), k)
              else (Inr r, k\<lparr>k_ledger := (k_ledger k)\<lparr>lg_resuming := insert rid (lg_resuming (k_ledger k))\<rparr>\<rparr>)))"

definition resume_commit ::
  "codec \<Rightarrow> writes \<Rightarrow> timestamp \<Rightarrow> run_id \<Rightarrow> session_id \<Rightarrow> kernel \<Rightarrow> (protocol_error + unit) \<times> kernel" where
  "resume_commit c f now rid sid k =
    (case run_at (k_ledger k) rid of
       None \<Rightarrow> (Inl (not_found ''run''), k)
     | Some r \<Rightarrow>
         let r' = r\<lparr>run_status := RS_Active, run_controller := Some sid, run_updated_at := now,
               run_revision := saturating_add (run_revision r) 1\<rparr> in
         case run_db (update_run c (f 0) r') (put_run r' k) of
           (Inl e, k1) \<Rightarrow> (Inl e, k1)
         | (Inr _, k1) \<Rightarrow> (Inr (), broadcast [RunUpdated r'] k1))"

definition resume_release :: "run_id \<Rightarrow> kernel \<Rightarrow> kernel" where
  "resume_release rid k = k\<lparr>k_ledger := (k_ledger k)\<lparr>lg_resuming := lg_resuming (k_ledger k) - {rid}\<rparr>\<rparr>"

definition set_conflict :: "run_id \<Rightarrow> kernel \<Rightarrow> kernel" where
  "set_conflict rid k = k\<lparr>k_ledger := (k_ledger k)\<lparr>lg_conflict := lg_conflict (k_ledger k) @ [rid]\<rparr>\<rparr>"

definition clear_conflict :: "run_id \<Rightarrow> kernel \<Rightarrow> kernel" where
  "clear_conflict rid k =
    k\<lparr>k_ledger := (k_ledger k)\<lparr>lg_conflict := filter (\<lambda>r. r \<noteq> rid) (lg_conflict (k_ledger k))\<rparr>\<rparr>"

section \<open>Tasks\<close>

definition new_task ::
  "task_id \<Rightarrow> run_id \<Rightarrow> string \<Rightarrow> string \<Rightarrow> string \<Rightarrow> task_id list \<Rightarrow> work_mode \<Rightarrow> bool \<Rightarrow> timestamp \<Rightarrow> task" where
  "new_task i rid title spec acceptance after mode allow_subruns now =
    \<lparr>t_id = i, t_run_id = rid, t_title = title, t_spec = spec, t_acceptance = acceptance,
     t_after = after, t_mode = mode, t_allow_subruns = allow_subruns, t_status = TS_Pending,
     t_attempts_used = 0, t_revision = 1, t_created_at = now, t_updated_at = now, t_feedback = None\<rparr>"

definition tasks_of :: "run_id \<Rightarrow> ledger \<Rightarrow> task list" where
  "tasks_of rid lg = filter (\<lambda>t. t_run_id t = rid) (map snd (lg_tasks lg))"

fun check_dependencies :: "ledger \<Rightarrow> run_id \<Rightarrow> task_id list \<Rightarrow> protocol_error + unit" where
  "check_dependencies lg rid [] = Inr ()"
| "check_dependencies lg rid (d # ds) =
    (case task_at lg d of
       None \<Rightarrow> Inl (not_found ''dependency'')
     | Some t \<Rightarrow>
         if t_run_id t \<noteq> rid then Inl (invalid_request ''dependencies must be tasks in the same run'')
         else check_dependencies lg rid ds)"

definition task_edges :: "run_id \<Rightarrow> ledger \<Rightarrow> (task_id \<times> task_id) list" where
  "task_edges rid lg = concat (map (\<lambda>t. map (\<lambda>a. (t_id t, a)) (t_after t)) (tasks_of rid lg))"

definition create_task_check ::
  "(task_id list \<Rightarrow> task_id list) \<Rightarrow> orchestration_limits \<Rightarrow> session_id option \<Rightarrow> run_id \<Rightarrow> task_id
    \<Rightarrow> string \<Rightarrow> task_id list \<Rightarrow> ledger \<Rightarrow> protocol_error + unit" where
  "create_task_check key_order limits caller rid i title after lg =
    try_bind (check (trim title \<noteq> []) (invalid_request ''title is empty'')) (\<lambda>_.
    try_bind (require (run_at lg rid) (not_found ''run'')) (\<lambda>r.
    try_bind (rail_error (allow_controller caller (run_controller r))) (\<lambda>_.
    try_bind (check (is_open (run_status r)) (precondition_failed ''run is not open'')) (\<lambda>_.
    try_bind (rail_error (allow_new_task (length (tasks_of rid lg)) limits)) (\<lambda>_.
    try_bind (check_dependencies lg rid after) (\<lambda>_.
    check (\<not> dependency_cycle key_order (task_edges rid lg) i after)
      (policy (rail_refusal_new ''cycle'' ''task dependencies would cycle''))))))))"

definition create_task ::
  "codec \<Rightarrow> writes \<Rightarrow> (task_id list \<Rightarrow> task_id list) \<Rightarrow> orchestration_limits \<Rightarrow> timestamp \<Rightarrow> task_id
    \<Rightarrow> session_id option \<Rightarrow> run_id \<Rightarrow> string \<Rightarrow> string \<Rightarrow> string \<Rightarrow> task_id list \<Rightarrow> work_mode \<Rightarrow> bool
    \<Rightarrow> kernel \<Rightarrow> (protocol_error + task_id) \<times> kernel" where
  "create_task c f key_order limits now i caller rid title0 spec0 acceptance0 after mode allow_subruns k =
    (let title = fst (clamp_text title0 MAX_TITLE_BYTES); spec = fst (clamp_text spec0 MAX_SPEC_BYTES);
         acceptance = fst (clamp_text acceptance0 MAX_ACCEPTANCE_BYTES); lg = k_ledger k in
     case create_task_check key_order limits caller rid i title after lg of
       Inl e \<Rightarrow> (Inl e, k)
     | Inr _ \<Rightarrow>
         let t0 = new_task i rid title spec acceptance after mode allow_subruns now;
             t = (case find (\<lambda>t. t_id t = i) (promote_ready (tasks_of rid lg @ [t0])) of
                    Some t \<Rightarrow> t | None \<Rightarrow> t0)
         in case run_db (insert_task c (f 0) t) k of
              (Inl e, k1) \<Rightarrow> (Inl e, k1)
            | (Inr _, k1) \<Rightarrow> (Inr (t_id t), broadcast [TaskUpdated t] (put_task t k1)))"

section \<open>Attempts\<close>

fun task_status_debug :: "task_status \<Rightarrow> string" where
  "task_status_debug TS_Pending = ''Pending''"
| "task_status_debug TS_Ready = ''Ready''"
| "task_status_debug TS_Active = ''Active''"
| "task_status_debug TS_Review = ''Review''"
| "task_status_debug TS_Accepted = ''Accepted''"
| "task_status_debug TS_Integrated = ''Integrated''"
| "task_status_debug TS_Blocked = ''Blocked''"
| "task_status_debug TS_Cancelled = ''Cancelled''"
| "task_status_debug TS_Failed = ''Failed''"
| "task_status_debug TS_Unrecognized = ''Unrecognized''"

definition attempts :: "ledger \<Rightarrow> attempt list" where
  "attempts lg = map snd (lg_attempts lg)"

definition live_in_run :: "run_id \<Rightarrow> ledger \<Rightarrow> nat" where
  "live_in_run rid lg = length (filter (\<lambda>a. is_live a \<and>
     (case task_at lg (at_task_id a) of None \<Rightarrow> False | Some t \<Rightarrow> t_run_id t = rid)) (attempts lg))"

definition has_writer :: "workspace_id \<Rightarrow> ledger \<Rightarrow> bool" where
  "has_writer w lg \<longleftrightarrow>
    list_ex (\<lambda>a. is_live a \<and> \<not> at_read_only a \<and> at_workspace_id a = Some w) (attempts lg)"

definition task_status_at :: "ledger \<Rightarrow> task_id \<Rightarrow> task_status option" where
  "task_status_at lg i = map_option t_status (task_at lg i)"

definition startable :: "orchestration_limits \<Rightarrow> ledger \<Rightarrow> run_id \<Rightarrow> task \<Rightarrow> workspace_id \<Rightarrow> protocol_error + unit" where
  "startable limits lg rid t w =
    try_bind (check (t_status t = TS_Ready \<or> t_status t = TS_Pending)
      (precondition_failed (''task is '' @ task_status_debug (t_status t) @ '', not ready''))) (\<lambda>_.
    try_bind (check (dependencies_met (t_after t) (task_status_at lg))
      (precondition_failed ''dependencies are not accepted or integrated'')) (\<lambda>_.
    rail_error (allow_start (live_in_run rid lg) (t_attempts_used t) (t_mode t) (has_writer w lg) limits)))"

definition resolve_workspace ::
  "inner \<Rightarrow> run \<Rightarrow> attempt_placement \<Rightarrow> session_id option \<Rightarrow> protocol_error + workspace_id" where
  "resolve_workspace inn r placement caller =
    (case placement of
       APl_Same \<Rightarrow>
         require (case Option.bind caller (\<lambda>s. map_option s_workspace_id (in_sessions inn s)) of
             Some w \<Rightarrow> Some w | None \<Rightarrow> run_integration_workspace r)
           (precondition_failed ''no workspace for this attempt'')
     | APl_Workspace w \<Rightarrow> if in_workspaces inn w \<noteq> None then Inr w else Inl (not_found ''workspace'')
     | _ \<Rightarrow> require (run_integration_workspace r) (precondition_failed ''run has no integration workspace''))"

text \<open>The first section of \<open>start_attempt\<close>: the plan, taken before any worktree or session exists.\<close>

definition start_plan ::
  "orchestration_limits \<Rightarrow> session_id option \<Rightarrow> task_id \<Rightarrow> attempt_placement \<Rightarrow> kernel
    \<Rightarrow> protocol_error + (task \<times> run \<times> workspace_id)" where
  "start_plan limits caller tid placement k =
    (let lg = k_ledger k in
     try_bind (require (task_at lg tid) (not_found ''task'')) (\<lambda>t.
     try_bind (require (run_at lg (t_run_id t)) (not_found ''run'')) (\<lambda>r.
     try_bind (rail_error (allow_controller caller (run_controller r))) (\<lambda>_.
     try_bind (check (is_open (run_status r)) (precondition_failed ''run is not open'')) (\<lambda>_.
     try_bind (check (t_status t = TS_Ready \<or> t_status t = TS_Pending)
       (precondition_failed (''task is '' @ task_status_debug (t_status t) @ '', not ready''))) (\<lambda>_.
     try_bind (check (dependencies_met (t_after t) (task_status_at lg))
       (precondition_failed ''dependencies are not accepted or integrated'')) (\<lambda>_.
     try_bind (resolve_workspace (k_inner k) r placement caller) (\<lambda>w.
     try_bind (rail_error (allow_start (live_in_run (run_id r) lg) (t_attempts_used t) (t_mode t) (has_writer w lg) limits)) (\<lambda>_.
     Inr (t, r, w))))))))))"

text \<open>The section that commits a start: everything the plan looked at is looked at again.\<close>

definition refuse_stale_start ::
  "ledger \<Rightarrow> run_id \<Rightarrow> task_id \<Rightarrow> workspace_id \<Rightarrow> orchestration_limits \<Rightarrow> protocol_error + u32" where
  "refuse_stale_start lg rid tid w limits =
    try_bind (check (case run_at lg rid of None \<Rightarrow> False | Some r \<Rightarrow> is_open (run_status r))
      (precondition_failed ''run is not open'')) (\<lambda>_.
    try_bind (require (task_at lg tid) (internal ''task vanished'')) (\<lambda>t.
    try_bind (startable limits lg rid t w) (\<lambda>_.
    Inr (saturating_add (t_attempts_used t) 1))))"

definition new_attempt ::
  "attempt_id \<Rightarrow> task \<Rightarrow> session_id \<Rightarrow> workspace_id \<Rightarrow> string option \<Rightarrow> string option \<Rightarrow> agent_provider_id
    \<Rightarrow> agent_profile_id option \<Rightarrow> timestamp \<Rightarrow> attempt" where
  "new_attempt i t sid w branch base provider profile now =
    \<lparr>at_id = i, at_task_id = t_id t, at_n = saturating_add (t_attempts_used t) 1,
     at_session_id = Some sid, at_workspace_id = Some w, at_branch = branch, at_base_commit = base,
     at_provider_id = provider, at_profile_id = profile, at_read_only = (t_mode t = WM_ReadOnly),
     at_phase = AP_Running, at_outcome = None, at_lost_reason = None, at_report = None,
     at_integrated_commit = None, at_created_at = now, at_settled_at = None\<rparr>"

definition set_base_commit :: "session_id \<Rightarrow> string option \<Rightarrow> kernel \<Rightarrow> kernel" where
  "set_base_commit sid base k =
    (case in_sessions (k_inner k) sid of
       None \<Rightarrow> k
     | Some s \<Rightarrow> if s_base_commit s = None
         then k\<lparr>k_inner := (k_inner k)\<lparr>in_sessions := (in_sessions (k_inner k))(sid \<mapsto> s\<lparr>s_base_commit := base\<rparr>)\<rparr>\<rparr>
         else k)"

text \<open>
  \<open>rid\<close>, \<open>t\<close> and the attempt come from the plan; the work between the sections gave the workspace,
  the branch, the base and the session. A refusal leaves the ledger alone and the caller closes
  the session (\<open>abandon_uncommitted_start\<close>); an error of a write after it returns at once.
\<close>

definition start_commit ::
  "codec \<Rightarrow> writes \<Rightarrow> orchestration_limits \<Rightarrow> timestamp \<Rightarrow> run_id \<Rightarrow> session_id \<Rightarrow> workspace_id
    \<Rightarrow> attempt \<Rightarrow> kernel \<Rightarrow> (protocol_error + attempt) \<times> kernel" where
  "start_commit c f limits now rid sid w a0 k =
    (case refuse_stale_start (k_ledger k) rid (at_task_id a0) w limits of
       Inl e \<Rightarrow> (Inl e, k)
     | Inr n \<Rightarrow>
         let a = a0\<lparr>at_n := n\<rparr>; k1 = set_base_commit sid (at_base_commit a) k in
         case task_at (k_ledger k1) (at_task_id a) of
           None \<Rightarrow> (Inl (internal ''task vanished''), k1)
         | Some t0 \<Rightarrow>
             let t = t0\<lparr>t_status := TS_Active, t_attempts_used := n,
                   t_revision := saturating_add (t_revision t0) 1, t_updated_at := now\<rparr>;
                 k2 = put_task t k1 in
             case run_db (insert_attempt c (f 0) a) k2 of
               (Inl e, k3) \<Rightarrow> (Inl e, k3)
             | (Inr _, k3) \<Rightarrow>
                 (case run_db (update_task c (f 1) t) k3 of
                    (Inl e, k4) \<Rightarrow> (Inl e, k4)
                  | (Inr _, k4) \<Rightarrow> (Inr a, put_attempt a k4)))"

text \<open>What a start tells the clients: the task is read again, in a section after the one that wrote it.\<close>

definition start_announce :: "attempt \<Rightarrow> kernel \<Rightarrow> kernel" where
  "start_announce a k = broadcast (AttemptUpdated a #
     (case task_at (k_ledger k) (at_task_id a) of None \<Rightarrow> [] | Some t \<Rightarrow> [TaskUpdated t])) k"

text \<open>The newest attempt at a task; of several with the same number the last one.\<close>

definition newest_attempt :: "task_id \<Rightarrow> ledger \<Rightarrow> attempt option" where
  "newest_attempt tid lg = max_by_key at_n (filter (\<lambda>a. at_task_id a = tid) (attempts lg))"

definition previous_summary :: "task_id \<Rightarrow> ledger \<Rightarrow> string option" where
  "previous_summary tid lg = Option.bind (newest_attempt tid lg) (\<lambda>a. map_option rep_summary (at_report a))"

section \<open>Reports\<close>

definition newer_exists :: "attempt \<Rightarrow> ledger \<Rightarrow> bool" where
  "newer_exists a lg \<longleftrightarrow> list_ex (\<lambda>b. at_task_id b = at_task_id a \<and> at_n a < at_n b) (attempts lg)"

definition report_err :: "report_refuse \<Rightarrow> protocol_error" where
  "report_err e =
    (case e of
       Foreign \<Rightarrow> protocol_error_new Conflict ''report is from another session''
     | Superseded \<Rightarrow> protocol_error_new Conflict ''attempt is superseded or already settled'')"

definition settle_check :: "session_id option \<Rightarrow> attempt \<Rightarrow> ledger \<Rightarrow> protocol_error + unit" where
  "settle_check caller a lg =
    (case settle_report (at_phase a) (at_session_id a) caller (newer_exists a lg) of
       Inl e \<Rightarrow> Inl (report_err e) | Inr u \<Rightarrow> Inr u)"

text \<open>The first section: where the work is, the task and its attempts used so far.\<close>

definition report_plan ::
  "session_id option \<Rightarrow> attempt_id \<Rightarrow> string \<Rightarrow> kernel
    \<Rightarrow> protocol_error + (string option \<times> string option \<times> task_id \<times> u32)" where
  "report_plan caller i summary k =
    try_bind (check (trim (fst (clamp_text summary MAX_SUMMARY_BYTES)) \<noteq> []) (invalid_request ''summary is empty'')) (\<lambda>_.
    try_bind (require (attempt_at (k_ledger k) i) (not_found ''attempt'')) (\<lambda>a.
    try_bind (settle_check caller a (k_ledger k)) (\<lambda>_.
    try_bind (require (task_at (k_ledger k) (at_task_id a)) (not_found ''task'')) (\<lambda>t.
    Inr (Option.bind (at_workspace_id a) (\<lambda>w. map_option ws_path (in_workspaces (k_inner k) w)),
         at_base_commit a, t_id t, t_attempts_used t)))))"

definition report_commit ::
  "codec \<Rightarrow> writes \<Rightarrow> orchestration_limits \<Rightarrow> timestamp \<Rightarrow> session_id option \<Rightarrow> attempt_id \<Rightarrow> attempt_report
    \<Rightarrow> task_id \<Rightarrow> u32 \<Rightarrow> kernel \<Rightarrow> (protocol_error + unit) \<times> kernel" where
  "report_commit c f limits now caller i rep tid used k =
    (let lg = k_ledger k in
     case attempt_at lg i of
       None \<Rightarrow> (Inl (not_found ''attempt''), k)
     | Some a0 \<Rightarrow>
         (case settle_check caller a0 lg of
            Inl e \<Rightarrow> (Inl e, k)
          | Inr _ \<Rightarrow>
              let a = a0\<lparr>at_phase := AP_Reported, at_outcome := Some (rep_outcome rep),
                    at_settled_at := Some now, at_report := Some rep\<rparr>;
                  k1 = put_attempt a k in
              case task_at lg tid of
                None \<Rightarrow> (Inl (not_found ''task''), k1)
              | Some t0 \<Rightarrow>
                  let t = t0\<lparr>t_status := task_status_after_report (rep_outcome rep) used (max_attempts_per_task limits),
                        t_updated_at := now, t_revision := saturating_add (t_revision t0) 1\<rparr>;
                      k2 = put_task t k1 in
                  case then_do (persist_attempt c (f 0) a) (persist_task c (f 1) t) k2 of
                    (Inl e, k3) \<Rightarrow> (Inl e, k3)
                  | (Inr _, k3) \<Rightarrow> (Inr (), broadcast [AttemptUpdated a, TaskUpdated t] k3)))"

section \<open>Decisions\<close>

definition check_decision ::
  "ledger \<Rightarrow> session_id option \<Rightarrow> task_id \<Rightarrow> u64 \<Rightarrow> task_decision \<Rightarrow> protocol_error + unit" where
  "check_decision lg caller tid expected d =
    try_bind (require (task_at lg tid) (not_found ''task'')) (\<lambda>t.
    try_bind (require (run_at lg (t_run_id t)) (not_found ''run'')) (\<lambda>r.
    try_bind (rail_error (allow_controller caller (run_controller r))) (\<lambda>_.
    try_bind (check (t_revision t = expected) (version_conflict (t_revision t))) (\<lambda>_.
    case d of
      TD_Accept _ \<Rightarrow> check (t_status t = TS_Review \<or> t_status t = TS_Blocked)
        (precondition_failed ''task is not awaiting a decision'')
    | TD_Reject _ _ \<Rightarrow> check (t_status t = TS_Review \<or> t_status t = TS_Blocked)
        (precondition_failed ''task is not awaiting a decision'')
    | TD_Cancel _ \<Rightarrow> check (\<not> is_final (t_status t)) (precondition_failed ''task is already final'')
    | TD_Unrecognized \<Rightarrow> Inl (invalid_request ''decision'')))))"

text \<open>A task as a decision at \<open>now\<close> leaves it.\<close>

definition decided :: "task_status \<Rightarrow> timestamp \<Rightarrow> task \<Rightarrow> task" where
  "decided st now t = t\<lparr>t_status := st, t_updated_at := now, t_revision := saturating_add (t_revision t) 1\<rparr>"

text \<open>Accepting writes every task of the run, one row after the other, and stops at an error.\<close>

fun write_tasks :: "codec \<Rightarrow> writes \<Rightarrow> nat \<Rightarrow> task list \<Rightarrow> kernel \<Rightarrow> (protocol_error + unit) \<times> kernel" where
  "write_tasks c f n [] k = (Inr (), k)"
| "write_tasks c f n (t # ts) k =
    (case persist_task c (f n) t k of
       (Inl e, k') \<Rightarrow> (Inl e, k')
     | (Inr _, k') \<Rightarrow> write_tasks c f (Suc n) ts (put_task t k'))"

definition decide_accept ::
  "codec \<Rightarrow> writes \<Rightarrow> timestamp \<Rightarrow> session_id option \<Rightarrow> task_id \<Rightarrow> u64 \<Rightarrow> string option \<Rightarrow> kernel
    \<Rightarrow> (protocol_error + unit) \<times> kernel" where
  "decide_accept c f now caller tid expected note k =
    (case check_decision (k_ledger k) caller tid expected (TD_Accept note) of
       Inl e \<Rightarrow> (Inl e, k)
     | Inr _ \<Rightarrow>
         (case task_at (k_ledger k) tid of
            None \<Rightarrow> (Inl (not_found ''task''), k)
          | Some t \<Rightarrow>
              let k1 = put_task (decided TS_Accepted now t) k;
                  ts = promote_ready (tasks_of (t_run_id t) (k_ledger k1)) in
              case write_tasks c f 0 ts k1 of
                (Inl e, k2) \<Rightarrow> (Inl e, k2)
              | (Inr _, k2) \<Rightarrow> (Inr (), broadcast (map TaskUpdated ts) k2)))"

text \<open>Rejecting without a retry hands the task back to the session that reported it.\<close>

definition decide_reopen ::
  "codec \<Rightarrow> writes \<Rightarrow> timestamp \<Rightarrow> session_id option \<Rightarrow> task_id \<Rightarrow> u64 \<Rightarrow> string \<Rightarrow> kernel
    \<Rightarrow> (protocol_error + session_id option) \<times> kernel" where
  "decide_reopen c f now caller tid expected feedback0 k =
    (let feedback = fst (clamp_text feedback0 MAX_MESSAGE_BYTES) in
     case check_decision (k_ledger k) caller tid expected (TD_Reject feedback0 False) of
       Inl e \<Rightarrow> (Inl e, k)
     | Inr _ \<Rightarrow>
         if \<not> session_live k (Option.bind (newest_attempt tid (k_ledger k)) at_session_id)
         then (Inl (precondition_failed ''the attempt's session has ended; reject with a retry instead''), k)
         else (case task_at (k_ledger k) tid of
            None \<Rightarrow> (Inl (not_found ''task''), k)
          | Some t0 \<Rightarrow>
              let t = (decided TS_Active now t0)\<lparr>t_feedback := Some feedback\<rparr>;
                  k1 = put_task t k;
                  a = map_option (\<lambda>a. a\<lparr>at_phase := AP_Running, at_outcome := None, at_settled_at := None\<rparr>)
                        (newest_attempt tid (k_ledger k1));
                  k2 = (case a of None \<Rightarrow> k1 | Some a \<Rightarrow> put_attempt a k1) in
              case (case a of None \<Rightarrow> persist_task c (f 0) t
                    | Some a \<Rightarrow> then_do (persist_task c (f 0) t) (persist_attempt c (f 1) a)) k2 of
                (Inl e, k3) \<Rightarrow> (Inl e, k3)
              | (Inr _, k3) \<Rightarrow> (Inr (Option.bind a at_session_id),
                  broadcast (TaskUpdated t # (case a of None \<Rightarrow> [] | Some a \<Rightarrow> [AttemptUpdated a])) k3)))"

text \<open>
  Rejecting with a retry frees the task for the next start; the provider, the profile and whether
  the work only reads are what the start is called with.
\<close>

definition decide_retry ::
  "codec \<Rightarrow> writes \<Rightarrow> orchestration_limits \<Rightarrow> timestamp \<Rightarrow> session_id option \<Rightarrow> task_id \<Rightarrow> u64 \<Rightarrow> string
    \<Rightarrow> agent_provider_id option \<Rightarrow> agent_profile_id option \<Rightarrow> kernel
    \<Rightarrow> (protocol_error + (agent_provider_id \<times> agent_profile_id option \<times> attempt_placement)) \<times> kernel" where
  "decide_retry c f limits now caller tid expected feedback0 retry_provider retry_profile k =
    (let feedback = fst (clamp_text feedback0 MAX_MESSAGE_BYTES) in
     case check_decision (k_ledger k) caller tid expected (TD_Reject feedback0 True) of
       Inl e \<Rightarrow> (Inl e, k)
     | Inr _ \<Rightarrow>
         (case task_at (k_ledger k) tid of
            None \<Rightarrow> (Inl (not_found ''task''), k)
          | Some t0 \<Rightarrow>
              if t_attempts_used t0 \<ge> max_attempts_per_task limits then
                (let t = decided TS_Failed now t0 in
                 case persist_task c (f 0) t (put_task t k) of
                   (Inl e, k1) \<Rightarrow> (Inl e, k1)
                 | (Inr _, k1) \<Rightarrow> (Inl (policy (rail_refusal_new ''max_attempts'' ''attempt budget is spent'')),
                     broadcast [TaskUpdated t] k1))
              else
                let t = (decided TS_Ready now t0)\<lparr>t_feedback := Some feedback\<rparr>;
                    k1 = put_task t k;
                    a = map_option (\<lambda>a. a\<lparr>at_phase := AP_Rejected, at_settled_at := Some now\<rparr>)
                          (newest_attempt tid (k_ledger k1));
                    k2 = (case a of None \<Rightarrow> k1 | Some a \<Rightarrow> put_attempt a k1) in
                case (case a of None \<Rightarrow> persist_task c (f 0) t
                      | Some a \<Rightarrow> then_do (persist_task c (f 0) t) (persist_attempt c (f 1) a)) k2 of
                  (Inl e, k3) \<Rightarrow> (Inl e, k3)
                | (Inr _, k3) \<Rightarrow>
                    (case (case retry_provider of Some p \<Rightarrow> Some p | None \<Rightarrow> map_option at_provider_id a) of
                       None \<Rightarrow> (Inl (invalid_request ''retry needs a provider''), k3)
                     | Some p \<Rightarrow> (Inr (p, (case retry_profile of Some q \<Rightarrow> Some q | None \<Rightarrow> Option.bind a at_profile_id),
                         if t_mode t = WM_ReadOnly then APl_Integration else APl_Worktree), k3))))"

fun write_attempts :: "codec \<Rightarrow> writes \<Rightarrow> nat \<Rightarrow> attempt list \<Rightarrow> kernel \<Rightarrow> (protocol_error + unit) \<times> kernel" where
  "write_attempts c f n [] k = (Inr (), k)"
| "write_attempts c f n (a # as) k =
    (case persist_attempt c (f n) a k of
       (Inl e, k') \<Rightarrow> (Inl e, k')
     | (Inr _, k') \<Rightarrow> write_attempts c f (Suc n) as k')"

text \<open>Cancelling loses every live attempt; the result is the sessions to kill.\<close>

definition decide_cancel ::
  "codec \<Rightarrow> writes \<Rightarrow> timestamp \<Rightarrow> session_id option \<Rightarrow> task_id \<Rightarrow> u64 \<Rightarrow> bool \<Rightarrow> kernel
    \<Rightarrow> (protocol_error + session_id list) \<times> kernel" where
  "decide_cancel c f now caller tid expected kill k =
    (case check_decision (k_ledger k) caller tid expected (TD_Cancel kill) of
       Inl e \<Rightarrow> (Inl e, k)
     | Inr _ \<Rightarrow>
         (case task_at (k_ledger k) tid of
            None \<Rightarrow> (Inl (not_found ''task''), k)
          | Some t0 \<Rightarrow>
              let t = decided TS_Cancelled now t0; k1 = put_task t k;
                  hit = (\<lambda>a. at_task_id a = tid \<and> is_live a);
                  as = map (lose LR_Cancelled now) (filter hit (attempts (k_ledger k1)));
                  k2 = k1\<lparr>k_ledger := (k_ledger k1)\<lparr>lg_attempts :=
                    map (\<lambda>(i, a). (i, if hit a then lose LR_Cancelled now a else a)) (lg_attempts (k_ledger k1))\<rparr>\<rparr> in
              case then_do (persist_task c (f 0) t) (write_attempts c f 1 as) k2 of
                (Inl e, k3) \<Rightarrow> (Inl e, k3)
              | (Inr _, k3) \<Rightarrow>
                  (Inr (if kill then List.map_filter at_session_id as else []),
                   broadcast (TaskUpdated t # map AttemptUpdated as) k3)))"

section \<open>Integration and answers\<close>

definition integrate_check ::
  "orchestration_limits \<Rightarrow> session_id option \<Rightarrow> task_id \<Rightarrow> ledger
    \<Rightarrow> protocol_error + (run \<times> string option \<times> workspace_id)" where
  "integrate_check limits caller tid lg =
    try_bind (require (task_at lg tid) (not_found ''task'')) (\<lambda>t.
    try_bind (require (run_at lg (t_run_id t)) (not_found ''run'')) (\<lambda>r.
    try_bind (rail_error (allow_controller caller (run_controller r))) (\<lambda>_.
    try_bind (if caller = None then Inr ()
              else rail_error (allow_agent_integrate False (agent_may_integrate limits))) (\<lambda>_.
    try_bind (require (run_integration_workspace r) (precondition_failed ''run has no integration workspace'')) (\<lambda>w.
    Inr (r, Option.bind (newest_attempt tid lg) at_branch, w))))))"

text \<open>Only a merge looks at the status of the task; continuing a stopped merge does not.\<close>

definition merge_check :: "task_id \<Rightarrow> string option \<Rightarrow> ledger \<Rightarrow> protocol_error + string" where
  "merge_check tid branch lg =
    try_bind (check (task_status_at lg tid = Some TS_Accepted)
      (precondition_failed ''only an accepted task can be integrated'')) (\<lambda>_.
    require branch (precondition_failed ''attempt has no branch to merge''))"

definition mark_integrated ::
  "codec \<Rightarrow> writes \<Rightarrow> timestamp \<Rightarrow> task_id \<Rightarrow> string option \<Rightarrow> kernel \<Rightarrow> (protocol_error + unit) \<times> kernel" where
  "mark_integrated c f now tid commit k =
    (case task_at (k_ledger k) tid of
       None \<Rightarrow> (Inl (not_found ''task''), k)
     | Some t \<Rightarrow>
         let k1 = put_task (decided TS_Integrated now t) k;
             k2 = (case newest_attempt tid (k_ledger k1) of
                     None \<Rightarrow> k1 | Some a \<Rightarrow> put_attempt (a\<lparr>at_integrated_commit := commit\<rparr>) k1);
             ts = promote_ready (tasks_of (t_run_id t) (k_ledger k2));
             as = filter (\<lambda>a. at_task_id a = tid) (attempts (k_ledger k2)) in
         case then_do (write_tasks c f 0 ts) (write_attempts c f (length ts) as) k2 of
           (Inl e, k3) \<Rightarrow> (Inl e, k3)
         | (Inr _, k3) \<Rightarrow> (Inr (), broadcast (map TaskUpdated ts) k3))"

text \<open>A message to the session of a blocked task makes its reported attempt run again.\<close>

fun resume_pairs ::
  "codec \<Rightarrow> writes \<Rightarrow> timestamp \<Rightarrow> nat \<Rightarrow> (attempt_id \<times> task_id) list \<Rightarrow> kernel
    \<Rightarrow> (protocol_error + (task \<times> attempt) list) \<times> kernel" where
  "resume_pairs c f now n [] k = (Inr [], k)"
| "resume_pairs c f now n ((i, tid) # ps) k =
    (case attempt_at (k_ledger k) i of
       None \<Rightarrow> resume_pairs c f now n ps k
     | Some a0 \<Rightarrow>
         let a = a0\<lparr>at_phase := AP_Running, at_settled_at := None\<rparr>; k1 = put_attempt a k in
         case task_at (k_ledger k1) tid of
           None \<Rightarrow> resume_pairs c f now n ps k1
         | Some t0 \<Rightarrow>
             let t = decided TS_Active now t0; k2 = put_task t k1 in
             case then_do (persist_attempt c (f n) a) (persist_task c (f (Suc n)) t) k2 of
               (Inl e, k3) \<Rightarrow> (Inl e, k3)
             | (Inr _, k3) \<Rightarrow>
                 (case resume_pairs c f now (Suc (Suc n)) ps k3 of
                    (Inl e, k4) \<Rightarrow> (Inl e, k4)
                  | (Inr rs, k4) \<Rightarrow> (Inr ((t, a) # rs), k4)))"

definition resume_blocked ::
  "codec \<Rightarrow> writes \<Rightarrow> timestamp \<Rightarrow> session_id list \<Rightarrow> kernel
    \<Rightarrow> (protocol_error + (task \<times> attempt) list) \<times> kernel" where
  "resume_blocked c f now sessions k =
    (let lg = k_ledger k;
         hit = (\<lambda>a. (case at_session_id a of None \<Rightarrow> False | Some s \<Rightarrow> s \<in> set sessions)
             \<and> at_phase a = AP_Reported \<and> at_outcome a = Some RO_Blocked
             \<and> task_status_at lg (at_task_id a) = Some TS_Blocked)
     in resume_pairs c f now 0 (map (\<lambda>a. (at_id a, at_task_id a)) (filter hit (attempts lg))) k)"

section \<open>The decision handler\<close>

text \<open>
  What a decision leaves to do after the lock is released: nothing, a feedback message to a session,
  the start of the next attempt, or sessions to kill.
\<close>

datatype decision_effect =
    DE_Ack
  | DE_Feedback "session_id option"
  | DE_Start agent_provider_id "agent_profile_id option" attempt_placement
  | DE_Kill "session_id list"

definition decide_task ::
  "codec \<Rightarrow> writes \<Rightarrow> orchestration_limits \<Rightarrow> timestamp \<Rightarrow> session_id option \<Rightarrow> task_id \<Rightarrow> u64 \<Rightarrow> task_decision
    \<Rightarrow> agent_provider_id option \<Rightarrow> agent_profile_id option \<Rightarrow> kernel \<Rightarrow> (protocol_error + decision_effect) \<times> kernel" where
  "decide_task c f limits now caller tid expected d provider profile k =
    (case d of
       TD_Accept note \<Rightarrow> map_prod (map_sum id (\<lambda>_. DE_Ack)) id (decide_accept c f now caller tid expected note k)
     | TD_Reject feedback retry \<Rightarrow>
         if \<not> retry then map_prod (map_sum id DE_Feedback) id (decide_reopen c f now caller tid expected feedback k)
         else map_prod (map_sum id (\<lambda>(p, q, pl). DE_Start p q pl)) id
                (decide_retry c f limits now caller tid expected feedback provider profile k)
     | TD_Cancel kill \<Rightarrow> map_prod (map_sum id DE_Kill) id (decide_cancel c f now caller tid expected kill k)
     | TD_Unrecognized \<Rightarrow> (Inl (invalid_request ''decision''), k))"

end
