(* ===== verification/Orch_Invariant.thy ===== *)
theory Orch_Invariant
  imports Orch_Ledger
begin

text \<open>
  The invariant of the orchestration ledger. The critical sections of theory \<open>Orch_Ledger\<close> are the
  steps of a system in which threads that planned a start or a report wait, in any number, to
  commit it. Whatever the interleaving, a task has at most one live attempt, it is its newest one,
  and the numbers of the attempts at a task are distinct and within its budget.
\<close>

section \<open>What a section leaves of the ledger\<close>

named_theorems ledger_simps

lemma run_db_ledger [ledger_simps]: "k_ledger (snd (run_db op k)) = k_ledger k"
  by (simp add: run_db_def split: prod.split sum.split)

lemma run_db_cases:
  obtains (failed) e db where "run_db op k = (Inl e, k\<lparr>k_db := db\<rparr>)"
  | (written) db where "run_db op k = (Inr (), k\<lparr>k_db := db\<rparr>)"
  by (cases "op (k_db k)"; cases "fst (op (k_db k))") (auto simp: run_db_def)

lemma persist_ledger [ledger_simps]:
  "k_ledger (snd (persist_task c f t k)) = k_ledger k" "k_ledger (snd (persist_attempt c f a k)) = k_ledger k"
  by (simp_all add: persist_task_def persist_attempt_def ledger_simps)

lemma then_do_ledger [ledger_simps]:
  assumes "\<And>k. k_ledger (snd (m k)) = k_ledger k" "\<And>k. k_ledger (snd (n k)) = k_ledger k"
  shows "k_ledger (snd (then_do m n k)) = k_ledger k"
  by (simp add: then_do_def split: prod.split sum.split) (metis assms snd_conv)

lemma write_attempts_ledger [ledger_simps]: "k_ledger (snd (write_attempts c f n as k)) = k_ledger k"
proof (induction as arbitrary: n k)
  case (Cons a as)
  obtain r k' where r: "persist_attempt c (f n) a k = (r, k')" by fastforce
  then have "k_ledger k' = k_ledger k" using persist_ledger(2) [of c "f n" a k] by simp
  then show ?case using Cons.IH r by (cases r) auto
qed simp

lemma broadcast_ledger [ledger_simps]: "k_ledger (broadcast evs k) = k_ledger k"
  by (simp add: broadcast_def)

lemma attempt_write_ledger [ledger_simps]:
  "(\<And>k. k_ledger (snd (m k)) = k_ledger k) \<Longrightarrow> k_ledger (attempt_write m k) = k_ledger k"
  by (simp add: attempt_write_def)

lemma put_ledger [ledger_simps]:
  "task_at (k_ledger (put_task t k)) = (task_at (k_ledger k))(t_id t \<mapsto> t)"
  "attempt_at (k_ledger (put_task t k)) = attempt_at (k_ledger k)"
  "task_at (k_ledger (put_attempt a k)) = task_at (k_ledger k)"
  "attempt_at (k_ledger (put_attempt a k)) = (attempt_at (k_ledger k))(at_id a \<mapsto> a)"
  "task_at (k_ledger (put_run r k)) = task_at (k_ledger k)"
  "attempt_at (k_ledger (put_run r k)) = attempt_at (k_ledger k)"
  by (simp_all add: put_task_def put_attempt_def put_run_def update_conv')

definition keys_ok :: "ledger \<Rightarrow> bool" where
  "keys_ok lg \<longleftrightarrow> distinct (map fst (lg_tasks lg)) \<and> distinct (map fst (lg_attempts lg))"

lemma put_keys_ok [ledger_simps]:
  "keys_ok (k_ledger k) \<Longrightarrow> keys_ok (k_ledger (put_task t k))"
  "keys_ok (k_ledger k) \<Longrightarrow> keys_ok (k_ledger (put_attempt a k))"
  "keys_ok (k_ledger (put_run r k)) = keys_ok (k_ledger k)"
  by (simp_all add: keys_ok_def put_task_def put_attempt_def put_run_def distinct_update)

section \<open>The invariant\<close>

definition settling :: "attempt \<Rightarrow> bool" where
  "settling a \<longleftrightarrow> is_live a \<or> at_phase a = AP_Reported"

definition fits :: "task \<Rightarrow> attempt \<Rightarrow> bool" where
  "fits t a \<longleftrightarrow> 1 \<le> at_n a \<and> at_n a \<le> t_attempts_used t
    \<and> (is_live a \<longrightarrow> t_status t = TS_Active \<or> t_status t = TS_Integrated)
    \<and> (settling a \<longrightarrow> t_status t \<noteq> TS_Pending \<and> t_status t \<noteq> TS_Ready)"

definition work_ok :: "(task_id \<rightharpoonup> task) \<Rightarrow> (attempt_id \<rightharpoonup> attempt) \<Rightarrow> bool" where
  "work_ok T A \<longleftrightarrow>
    (\<forall>i t. T i = Some t \<longrightarrow> t_id t = i)
    \<and> (\<forall>i a. A i = Some a \<longrightarrow> at_id a = i \<and> (\<exists>t. T (at_task_id a) = Some t \<and> fits t a))
    \<and> (\<forall>i j a b. A i = Some a \<longrightarrow> A j = Some b \<longrightarrow> at_task_id a = at_task_id b \<longrightarrow> settling a \<longrightarrow> at_n b \<le> at_n a)
    \<and> (\<forall>i j a b. A i = Some a \<longrightarrow> A j = Some b \<longrightarrow> at_task_id a = at_task_id b \<longrightarrow> at_n a = at_n b \<longrightarrow> i = j)"

lemma work_okD:
  assumes "work_ok T A"
  shows "T i = Some t \<Longrightarrow> t_id t = i" "A j = Some a \<Longrightarrow> at_id a = j"
    "A j = Some a \<Longrightarrow> \<exists>t. T (at_task_id a) = Some t \<and> fits t a"
    "A j = Some a \<Longrightarrow> A j' = Some b \<Longrightarrow> at_task_id a = at_task_id b \<Longrightarrow> settling a \<Longrightarrow> at_n b \<le> at_n a"
    "A j = Some a \<Longrightarrow> A j' = Some b \<Longrightarrow> at_task_id a = at_task_id b \<Longrightarrow> at_n a = at_n b \<Longrightarrow> j = j'"
  using assms unfolding work_ok_def by blast+

text \<open>Of the attempts at a task, at most one is live or reported.\<close>

lemma settling_unique:
  assumes "work_ok T A" "A i = Some a" "A j = Some b" "at_task_id a = at_task_id b" "settling a" "settling b"
  shows "i = j"
  using work_okD(4) [OF assms(1,2,3,4,5)] work_okD(4) [OF assms(1,3,2) assms(4) [symmetric] assms(6)]
    work_okD(5) [OF assms(1,2,3,4)] by simp

lemma work_ok_task:
  assumes ok: "work_ok T A" and t: "T i = Some t" "t_id t' = i" "t_attempts_used t \<le> t_attempts_used t'"
    and live: "\<And>j a. A j = Some a \<Longrightarrow> at_task_id a = i \<Longrightarrow> is_live a \<Longrightarrow>
        t_status t' = TS_Active \<or> t_status t' = TS_Integrated"
    and settling: "\<And>j a. A j = Some a \<Longrightarrow> at_task_id a = i \<Longrightarrow> settling a \<Longrightarrow>
        t_status t' \<noteq> TS_Pending \<and> t_status t' \<noteq> TS_Ready"
  shows "work_ok (T(i \<mapsto> t')) A"
proof -
  have "fits t' a" if "A j = Some a" "at_task_id a = i" for j a
    using work_okD(3) [OF ok that(1)] that t live [OF that] settling [OF that]
    by (auto simp: fits_def intro: order_trans)
  then show ?thesis using ok t(2) unfolding work_ok_def by auto
qed

lemma work_ok_attempt:
  assumes ok: "work_ok T A" and t: "T (at_task_id a') = Some t" "fits t a'" and i: "at_id a' = i"
    and old: "\<And>a. A i = Some a \<Longrightarrow> at_task_id a = at_task_id a' \<and> at_n a = at_n a'"
    and newest: "\<And>j b. A j = Some b \<Longrightarrow> j \<noteq> i \<Longrightarrow> at_task_id b = at_task_id a' \<Longrightarrow>
        (settling a' \<longrightarrow> at_n b \<le> at_n a') \<and> at_n b \<noteq> at_n a' \<and> (settling b \<longrightarrow> at_n a' \<le> at_n b)"
  shows "work_ok T (A(i \<mapsto> a'))"
  using ok t i newest unfolding work_ok_def by (auto; metis)

text \<open>Updating an attempt that is there needs less: its number is taken by no other.\<close>

lemma work_ok_attempt_update:
  assumes ok: "work_ok T A" and a: "A i = Some a" "at_id a' = i" "at_task_id a' = at_task_id a" "at_n a' = at_n a"
    and t: "T (at_task_id a) = Some t"
    and live: "is_live a' \<Longrightarrow> t_status t = TS_Active \<or> t_status t = TS_Integrated"
    and settling: "settling a' \<Longrightarrow> t_status t \<noteq> TS_Pending \<and> t_status t \<noteq> TS_Ready
        \<and> (\<forall>j b. A j = Some b \<longrightarrow> at_task_id b = at_task_id a \<longrightarrow> at_n b \<le> at_n a)"
  shows "work_ok T (A(i \<mapsto> a'))"
proof (rule work_ok_attempt [OF ok])
  show "T (at_task_id a') = Some t" using a t by simp
  have "fits t a" using work_okD(3) [OF ok a(1)] t by simp
  then show "fits t a'" using a live settling by (auto simp: fits_def)
  show "at_id a' = i" by (rule a)
  show "at_task_id a0 = at_task_id a' \<and> at_n a0 = at_n a'" if "A i = Some a0" for a0 using a that by simp
  show "(settling a' \<longrightarrow> at_n b \<le> at_n a') \<and> at_n b \<noteq> at_n a' \<and> (settling b \<longrightarrow> at_n a' \<le> at_n b)"
    if b: "A j = Some b" "j \<noteq> i" "at_task_id b = at_task_id a'" for j b
    using settling work_okD(4) [OF ok b(1) a(1)] work_okD(5) [OF ok b(1) a(1)] b a by auto
qed

text \<open>\<open>own\<close> is the task of an attempt, also before the attempt is there: it never changes.\<close>

definition owned :: "(attempt_id \<Rightarrow> task_id) \<Rightarrow> (attempt_id \<rightharpoonup> attempt) \<Rightarrow> bool" where
  "owned own A \<longleftrightarrow> (\<forall>i a. A i = Some a \<longrightarrow> at_task_id a = own i)"

definition ledger_ok :: "(attempt_id \<Rightarrow> task_id) \<Rightarrow> orchestration_limits \<Rightarrow> ledger \<Rightarrow> bool" where
  "ledger_ok own limits lg \<longleftrightarrow> keys_ok lg \<and> work_ok (task_at lg) (attempt_at lg) \<and> owned own (attempt_at lg)
    \<and> (\<forall>i t. task_at lg i = Some t \<longrightarrow> t_attempts_used t \<le> max_attempts_per_task limits)"


lemma ledger_okI:
  "keys_ok lg \<Longrightarrow> work_ok (task_at lg) (attempt_at lg) \<Longrightarrow> owned own (attempt_at lg) \<Longrightarrow>
    (\<And>i t. task_at lg i = Some t \<Longrightarrow> t_attempts_used t \<le> max_attempts_per_task limits) \<Longrightarrow> ledger_ok own limits lg"
  by (simp add: ledger_ok_def)

lemma ledger_okD:
  assumes "ledger_ok own limits lg"
  shows "keys_ok lg" "work_ok (task_at lg) (attempt_at lg)"
    "task_at lg i = Some t \<Longrightarrow> t_attempts_used t \<le> max_attempts_per_task limits"
    "owned own (attempt_at lg)" "attempt_at lg j = Some a \<Longrightarrow> at_task_id a = own j"
  using assms by (simp_all add: ledger_ok_def owned_def)

lemma ledger_ok_task_id: "ledger_ok own limits lg \<Longrightarrow> task_at lg i = Some t \<Longrightarrow> t_id t = i"
  by (rule work_okD(1) [OF ledger_okD(2)])

text \<open>A task is replaced, its budget not grown past the limit.\<close>

lemma ledger_ok_put_task:
  assumes ok: "ledger_ok own limits (k_ledger k)" and t: "task_at (k_ledger k) (t_id t') = Some t"
    and used: "t_attempts_used t \<le> t_attempts_used t'" "t_attempts_used t' \<le> max_attempts_per_task limits"
    and live: "\<And>j a. attempt_at (k_ledger k) j = Some a \<Longrightarrow> at_task_id a = t_id t' \<Longrightarrow> is_live a \<Longrightarrow>
        t_status t' = TS_Active \<or> t_status t' = TS_Integrated"
    and settling: "\<And>j a. attempt_at (k_ledger k) j = Some a \<Longrightarrow> at_task_id a = t_id t' \<Longrightarrow> settling a \<Longrightarrow>
        t_status t' \<noteq> TS_Pending \<and> t_status t' \<noteq> TS_Ready"
  shows "ledger_ok own limits (k_ledger (put_task t' k))"
proof (rule ledger_okI)
  show "keys_ok (k_ledger (put_task t' k))" by (rule put_keys_ok(1) [OF ledger_okD(1) [OF ok]])
  have "work_ok ((task_at (k_ledger k))(t_id t' \<mapsto> t')) (attempt_at (k_ledger k))"
    by (rule work_ok_task [OF ledger_okD(2) [OF ok] t refl used(1)]) (use live settling in blast)+
  then show "work_ok (task_at (k_ledger (put_task t' k))) (attempt_at (k_ledger (put_task t' k)))"
    by (simp add: ledger_simps)
  show "owned own (attempt_at (k_ledger (put_task t' k)))" using ledger_okD(4) [OF ok] by (simp add: ledger_simps)
  show "t_attempts_used u \<le> max_attempts_per_task limits" if "task_at (k_ledger (put_task t' k)) i = Some u" for i u
    using that ledger_okD(3) [OF ok] used(2) by (auto simp: ledger_simps split: if_splits)
qed

lemma ledger_ok_put_attempt:
  assumes ok: "ledger_ok own limits (k_ledger k)"
    and a: "attempt_at (k_ledger k) (at_id a') = Some a" "at_task_id a' = at_task_id a" "at_n a' = at_n a"
    and t: "task_at (k_ledger k) (at_task_id a) = Some t"
    and live: "is_live a' \<Longrightarrow> t_status t = TS_Active \<or> t_status t = TS_Integrated"
    and settling: "settling a' \<Longrightarrow> t_status t \<noteq> TS_Pending \<and> t_status t \<noteq> TS_Ready
        \<and> (\<forall>j b. attempt_at (k_ledger k) j = Some b \<longrightarrow> at_task_id b = at_task_id a \<longrightarrow> at_n b \<le> at_n a)"
  shows "ledger_ok own limits (k_ledger (put_attempt a' k))"
proof (rule ledger_okI)
  show "keys_ok (k_ledger (put_attempt a' k))" by (rule put_keys_ok(2) [OF ledger_okD(1) [OF ok]])
  have "work_ok (task_at (k_ledger k)) ((attempt_at (k_ledger k))(at_id a' \<mapsto> a'))"
    by (rule work_ok_attempt_update [OF ledger_okD(2) [OF ok] a(1) refl a(2,3) t]) (use live settling in blast)+
  then show "work_ok (task_at (k_ledger (put_attempt a' k))) (attempt_at (k_ledger (put_attempt a' k)))"
    by (simp add: ledger_simps)
  show "owned own (attempt_at (k_ledger (put_attempt a' k)))"
    using ledger_okD(4) [OF ok] ledger_okD(5) [OF ok a(1)] a(2) by (auto simp: owned_def ledger_simps)
qed (use ledger_okD(3) [OF ok] in \<open>simp add: ledger_simps\<close>)

lemma ledger_ok_task_of:
  assumes "ledger_ok own limits lg" "attempt_at lg i = Some a"
  obtains t where "task_at lg (at_task_id a) = Some t" "fits t a"
  using work_okD(3) [OF ledger_okD(2) [OF assms(1)] assms(2)] by blast

text \<open>Lists and maps of the ledger.\<close>

lemma in_attempts:
  assumes "ledger_ok own limits lg"
  shows "a \<in> set (attempts lg) \<longleftrightarrow> attempt_at lg (at_id a) = Some a"
proof
  assume "a \<in> set (attempts lg)"
  then obtain i where i: "(i, a) \<in> set (lg_attempts lg)" by (auto simp: attempts_def)
  then have "attempt_at lg i = Some a" using ledger_okD(1) [OF assms] by (simp add: keys_ok_def)
  then show "attempt_at lg (at_id a) = Some a" using work_okD(2) [OF ledger_okD(2) [OF assms]] by metis
next
  assume "attempt_at lg (at_id a) = Some a"
  then show "a \<in> set (attempts lg)" using map_of_SomeD by (force simp: attempts_def)
qed

lemma in_tasks_of:
  assumes "ledger_ok own limits lg"
  shows "t \<in> set (tasks_of r lg) \<longleftrightarrow> task_at lg (t_id t) = Some t \<and> t_run_id t = r"
proof
  assume "t \<in> set (tasks_of r lg)"
  then obtain i where i: "(i, t) \<in> set (lg_tasks lg)" "t_run_id t = r" by (auto simp: tasks_of_def)
  then have "task_at lg i = Some t" using ledger_okD(1) [OF assms] by (simp add: keys_ok_def)
  then show "task_at lg (t_id t) = Some t \<and> t_run_id t = r" using ledger_ok_task_id [OF assms] i by metis
next
  assume "task_at lg (t_id t) = Some t \<and> t_run_id t = r"
  then show "t \<in> set (tasks_of r lg)" using map_of_SomeD by (force simp: tasks_of_def)
qed

lemma max_by_key_None: "max_by_key g xs = None \<longleftrightarrow> xs = []"
  by (cases xs) (auto split: option.splits if_splits)

lemma newest_attempt_Some:
  assumes "ledger_ok own limits lg" "newest_attempt i lg = Some a"
  shows "attempt_at lg (at_id a) = Some a" "at_task_id a = i"
    "\<And>j b. attempt_at lg j = Some b \<Longrightarrow> at_task_id b = i \<Longrightarrow> at_n b \<le> at_n a"
proof -
  have m: "a \<in> set (attempts lg)" "at_task_id a = i"
    "\<And>b. b \<in> set (attempts lg) \<Longrightarrow> at_task_id b = i \<Longrightarrow> at_n b \<le> at_n a"
    using max_by_key_max [OF assms(2) [unfolded newest_attempt_def]] by auto
  then show "attempt_at lg (at_id a) = Some a" "at_task_id a = i" using in_attempts [OF assms(1)] by auto
  fix j b assume b: "attempt_at lg j = Some b" "at_task_id b = i"
  then have "at_id b = j" using work_okD(2) [OF ledger_okD(2) [OF assms(1)]] by blast
  then show "at_n b \<le> at_n a" using b in_attempts [OF assms(1)] m(3) by auto
qed

section \<open>Every section keeps the invariant\<close>

lemma promote_ready_mem:
  "t \<in> set (promote_ready ts) \<Longrightarrow> \<exists>t0 \<in> set ts. t = t0 \<or> t_status t0 = TS_Pending \<and> t = t0\<lparr>t_status := TS_Ready\<rparr>"
  by (auto simp: promote_ready_def Let_def)

definition promotes :: "ledger \<Rightarrow> task list \<Rightarrow> bool" where
  "promotes lg ts \<longleftrightarrow> (\<forall>t \<in> set ts. \<exists>t0. task_at lg (t_id t) = Some t0
     \<and> (t = t0 \<or> t_status t0 = TS_Pending \<and> t = t0\<lparr>t_status := TS_Ready\<rparr>))"

lemma promotes_ready: "ledger_ok own limits lg \<Longrightarrow> promotes lg (promote_ready (tasks_of r lg))"
  unfolding promotes_def by (auto dest!: promote_ready_mem simp: in_tasks_of)

lemma promotes_put:
  assumes "promotes (k_ledger k) (t # ts)" "distinct (map t_id (t # ts))"
  shows "promotes (k_ledger (put_task t k)) ts"
  unfolding promotes_def
proof
  fix u assume u: "u \<in> set ts"
  then have "t_id u \<in> t_id ` set ts" by (rule imageI)
  then have "t_id u \<noteq> t_id t" using assms(2) by auto
  then have "task_at (k_ledger (put_task t k)) (t_id u) = task_at (k_ledger k) (t_id u)" by (simp add: ledger_simps)
  then show "\<exists>t0. task_at (k_ledger (put_task t k)) (t_id u) = Some t0
      \<and> (u = t0 \<or> t_status t0 = TS_Pending \<and> u = t0\<lparr>t_status := TS_Ready\<rparr>)"
    using assms(1) u by (simp add: promotes_def)
qed

lemma pending_unattempted:
  assumes "ledger_ok own limits lg" "task_at lg i = Some t" "t_status t = TS_Pending \<or> t_status t = TS_Ready"
    "attempt_at lg j = Some a" "at_task_id a = i"
  shows "\<not> settling a" "\<not> is_live a"
  using ledger_ok_task_of [OF assms(1,4)] assms by (auto simp: fits_def settling_def)

lemma ledger_ok_promote:
  assumes ok: "ledger_ok own limits (k_ledger k)" and p: "promotes (k_ledger k) (t # ts)"
  shows "ledger_ok own limits (k_ledger (put_task t k))"
proof -
  obtain t0 where t0: "task_at (k_ledger k) (t_id t) = Some t0"
      "t = t0 \<or> t_status t0 = TS_Pending \<and> t = t0\<lparr>t_status := TS_Ready\<rparr>"
    using p by (auto simp: promotes_def)
  have used: "t_attempts_used t0 = t_attempts_used t" using t0(2) by auto
  show ?thesis
  proof (rule ledger_ok_put_task [OF ok t0(1)])
    show "t_attempts_used t \<le> max_attempts_per_task limits" using ledger_okD(3) [OF ok t0(1)] used by simp
  next
    fix j a assume a: "attempt_at (k_ledger k) j = Some a" "at_task_id a = t_id t"
    obtain t1 where "task_at (k_ledger k) (at_task_id a) = Some t1" "fits t1 a"
      by (rule ledger_ok_task_of [OF ok a(1)])
    then have f: "fits t0 a" using a t0 by simp
    show "is_live a \<Longrightarrow> t_status t = TS_Active \<or> t_status t = TS_Integrated"
      using t0(2) f by (auto simp: fits_def)
    show "settling a \<Longrightarrow> t_status t \<noteq> TS_Pending \<and> t_status t \<noteq> TS_Ready"
      using t0(2) f by (auto simp: fits_def)
  qed (simp add: used)
qed

lemma ledger_ok_write_tasks:
  "ledger_ok own limits (k_ledger k) \<Longrightarrow> promotes (k_ledger k) ts \<Longrightarrow> distinct (map t_id ts) \<Longrightarrow>
    ledger_ok own limits (k_ledger (snd (write_tasks c f n ts k)))"
proof (induction ts arbitrary: n k)
  case (Cons t ts)
  obtain r k' where r: "persist_task c (f n) t k = (r, k')" by fastforce
  then have k': "k_ledger k' = k_ledger k" using persist_ledger(1) [of c "f n" t k] by simp
  have "ledger_ok own limits (k_ledger (put_task t k'))" "promotes (k_ledger (put_task t k')) ts"
    using Cons.prems k' ledger_ok_promote [of own limits k' t ts] promotes_put [of k' t ts] by auto
  then show ?case using Cons r k' by (cases r) auto
qed simp

lemma tasks_of_distinct:
  assumes "ledger_ok own limits lg" shows "distinct (map t_id (tasks_of r lg))"
proof -
  have "distinct (map fst (lg_tasks lg))" using ledger_okD(1) [OF assms] by (simp add: keys_ok_def)
  moreover have "map t_id (map snd (lg_tasks lg)) = map fst (lg_tasks lg)"
    unfolding map_map
  proof (rule map_cong [OF refl])
    fix p assume "p \<in> set (lg_tasks lg)"
    then have "(fst p, snd p) \<in> set (lg_tasks lg)" by simp
    then have "task_at lg (fst p) = Some (snd p)"
      using ledger_okD(1) [OF assms] by (simp add: keys_ok_def)
    then show "(t_id \<circ> snd) p = fst p" using ledger_ok_task_id [OF assms] by simp
  qed
  ultimately have "distinct (map t_id (map snd (lg_tasks lg)))" by metis
  then show ?thesis unfolding tasks_of_def by (rule distinct_map_filter)
qed

lemma promoted_distinct: "ledger_ok own limits lg \<Longrightarrow> distinct (map t_id (promote_ready (tasks_of r lg)))"
  by (simp add: promote_ready_ids tasks_of_distinct)

lemma ledger_ok_write_promoted:
  "ledger_ok own limits (k_ledger k) \<Longrightarrow>
    ledger_ok own limits (k_ledger (snd (write_tasks c f n (promote_ready (tasks_of r (k_ledger k))) k)))"
  by (intro ledger_ok_write_tasks promotes_ready promoted_distinct)

lemma ledger_ok_same:
  "ledger_ok own limits lg \<Longrightarrow> lg_tasks lg' = lg_tasks lg \<Longrightarrow> lg_attempts lg' = lg_attempts lg \<Longrightarrow> ledger_ok own limits lg'"
  by (simp add: ledger_ok_def keys_ok_def)

text \<open>A section ends with its writes, which do not touch the ledger.\<close>

lemma ledger_ok_section:
  assumes "k_ledger (snd r) = L" "ledger_ok own limits L"
    and "\<And>u k1. k_ledger k1 = L \<Longrightarrow> k_ledger (snd (h u k1)) = L"
  shows "ledger_ok own limits (k_ledger (snd (case r of (Inl e, k1) \<Rightarrow> (Inl e, k1) | (Inr u, k1) \<Rightarrow> h u k1)))"
  using assms by (cases r) (auto split: sum.split)

subsection \<open>Decisions\<close>

lemma check_Inr: "check b e = Inr u \<longleftrightarrow> b"
  by (simp add: check_def)

lemma require_Inr: "require x e = Inr v \<longleftrightarrow> x = Some v"
  by (cases x) (simp_all add: require_def)

lemma rail_error_Inr: "rail_error r = Inr u \<longleftrightarrow> r = Inr ()"
  by (cases r) (simp_all add: rail_error_def)

lemmas section_simps = check_Inr require_Inr rail_error_Inr try_bind_Inr

lemma check_decision_ok:
  assumes "check_decision lg caller tid expected d = Inr u"
  obtains t r where "task_at lg tid = Some t" "run_at lg (t_run_id t) = Some r"
    "allow_controller caller (run_controller r) = Inr ()" "t_revision t = expected"
    "d \<noteq> TD_Unrecognized" "\<exists>b. d = TD_Cancel b \<Longrightarrow> \<not> is_final (t_status t)"
    "\<not> (\<exists>b. d = TD_Cancel b) \<Longrightarrow> t_status t = TS_Review \<or> t_status t = TS_Blocked"
proof -
  from assms obtain t r where "task_at lg tid = Some t" "run_at lg (t_run_id t) = Some r"
      "allow_controller caller (run_controller r) = Inr ()" "t_revision t = expected"
      "case d of TD_Cancel b \<Rightarrow> \<not> is_final (t_status t) | TD_Unrecognized \<Rightarrow> False
        | _ \<Rightarrow> t_status t = TS_Review \<or> t_status t = TS_Blocked"
    unfolding check_decision_def by (cases d) (auto simp: section_simps)
  then show thesis using that [of t r] by (cases d) auto
qed

lemma decided_fields [simp]:
  "t_id (decided st now t) = t_id t" "t_status (decided st now t) = st"
  "t_attempts_used (decided st now t) = t_attempts_used t" "t_run_id (decided st now t) = t_run_id t"
  "t_revision (decided st now t) = saturating_add (t_revision t) 1" "t_mode (decided st now t) = t_mode t"
  by (simp_all add: decided_def)

text \<open>A task whose live and reported attempts allow it moves to another status.\<close>

lemma ledger_ok_move:
  assumes ok: "ledger_ok own limits (k_ledger k)" and t: "task_at (k_ledger k) (t_id t') = Some t"
    and used: "t_attempts_used t' = t_attempts_used t"
    and a: "\<And>j a. attempt_at (k_ledger k) j = Some a \<Longrightarrow> at_task_id a = t_id t' \<Longrightarrow> fits t a \<Longrightarrow> fits t' a"
  shows "ledger_ok own limits (k_ledger (put_task t' k))"
proof (rule ledger_ok_put_task [OF ok t])
  fix j a assume x: "attempt_at (k_ledger k) j = Some a" "at_task_id a = t_id t'"
  obtain t1 where "task_at (k_ledger k) (at_task_id a) = Some t1" "fits t1 a" by (rule ledger_ok_task_of [OF ok x(1)])
  then have "fits t' a" using a [OF x] x t by simp
  then show "is_live a \<Longrightarrow> t_status t' = TS_Active \<or> t_status t' = TS_Integrated"
    "settling a \<Longrightarrow> t_status t' \<noteq> TS_Pending \<and> t_status t' \<noteq> TS_Ready"
    by (auto simp: fits_def)
qed (use used ledger_okD(3) [OF ok t] in auto)

lemma ledger_ok_accept:
  assumes ok: "ledger_ok own limits (k_ledger k)"
  shows "ledger_ok own limits (k_ledger (snd (decide_accept c f now caller tid ex note k)))"
proof (cases "check_decision (k_ledger k) caller tid ex (TD_Accept note)")
  case (Inr u)
  then obtain t r where t: "task_at (k_ledger k) tid = Some t" "t_status t = TS_Review \<or> t_status t = TS_Blocked"
    by (rule check_decision_ok) auto
  have id: "t_id t = tid" by (rule ledger_ok_task_id [OF ok t(1)])
  have put: "ledger_ok own limits (k_ledger (put_task (decided TS_Accepted now t) k))"
    by (rule ledger_ok_move [OF ok, of _ t]) (use t id in \<open>auto simp: fits_def\<close>)
  show ?thesis
    using ledger_ok_write_promoted [OF put, of c f 0 "t_run_id t"] Inr t(1)
    by (simp add: decide_accept_def Let_def split: prod.split sum.split)
      (auto simp: ledger_simps)
qed (use ok in \<open>simp add: decide_accept_def\<close>)

lemma session_live_attempt: "session_live k (Option.bind x at_session_id) \<Longrightarrow> \<exists>a. x = Some a"
  by (cases x) (simp_all add: session_live_def)

lemma put_commute: "k_ledger (put_attempt a (put_task t k)) = k_ledger (put_task t (put_attempt a k))"
  by (simp add: put_task_def put_attempt_def)

lemma newest_attempt_put_task: "newest_attempt i (k_ledger (put_task t k)) = newest_attempt i (k_ledger k)"
  by (simp add: newest_attempt_def attempts_def put_task_def)

lemma ledger_ok_reopen:
  assumes ok: "ledger_ok own limits (k_ledger k)"
  shows "ledger_ok own limits (k_ledger (snd (decide_reopen c f now caller tid ex fb k)))"
proof (cases "check_decision (k_ledger k) caller tid ex (TD_Reject fb False)")
  case (Inr u)
  then obtain t0 r where t0: "task_at (k_ledger k) tid = Some t0" "t_status t0 = TS_Review \<or> t_status t0 = TS_Blocked"
    by (rule check_decision_ok) auto
  show ?thesis
  proof (cases "session_live k (Option.bind (newest_attempt tid (k_ledger k)) at_session_id)")
    case True
    then obtain a0 where a0: "newest_attempt tid (k_ledger k) = Some a0" using session_live_attempt by blast
    define t where "t = (decided TS_Active now t0)\<lparr>t_feedback := Some (fst (clamp_text fb MAX_MESSAGE_BYTES))\<rparr>"
    define a where "a = a0\<lparr>at_phase := AP_Running, at_outcome := None, at_settled_at := None\<rparr>"
    have id: "t_id t = tid" using ledger_ok_task_id [OF ok t0(1)] by (simp add: t_def)
    note n = newest_attempt_Some [OF ok a0]
    have put: "ledger_ok own limits (k_ledger (put_task t k))"
      by (rule ledger_ok_move [OF ok, of _ t0]) (use t0 id in \<open>auto simp: fits_def t_def\<close>)
    have "ledger_ok own limits (k_ledger (put_attempt a (put_task t k)))"
      by (rule ledger_ok_put_attempt [OF put, of _ a0 t]) (use n id in \<open>auto simp: ledger_simps a_def t_def\<close>)
    then show ?thesis using Inr t0(1) True a0
      by (simp add: decide_reopen_def Let_def newest_attempt_put_task flip: t_def a_def)
        (rule ledger_ok_section; simp add: ledger_simps)
  qed (use ok Inr in \<open>simp add: decide_reopen_def Let_def\<close>)
qed (use ok in \<open>simp add: decide_reopen_def Let_def\<close>)

lemma ledger_ok_retry:
  assumes ok: "ledger_ok own limits (k_ledger k)"
  shows "ledger_ok own limits (k_ledger (snd (decide_retry c f limits now caller tid ex fb rp rf k)))"
proof (cases "check_decision (k_ledger k) caller tid ex (TD_Reject fb True)")
  case (Inr u)
  then obtain t0 r where t0: "task_at (k_ledger k) tid = Some t0" "t_status t0 = TS_Review \<or> t_status t0 = TS_Blocked"
    by (rule check_decision_ok) auto
  have id: "t_id t0 = tid" by (rule ledger_ok_task_id [OF ok t0(1)])
  define t where "t = (decided TS_Ready now t0)\<lparr>t_feedback := Some (fst (clamp_text fb MAX_MESSAGE_BYTES))\<rparr>"
  have tt: "t_id t = tid" "t_status t = TS_Ready" "t_attempts_used t = t_attempts_used t0"
    using id by (simp_all add: t_def)
  show ?thesis
  proof (cases "t_attempts_used t0 \<ge> max_attempts_per_task limits")
    case True
    have "ledger_ok own limits (k_ledger (put_task (decided TS_Failed now t0) k))"
      by (rule ledger_ok_move [OF ok, of _ t0]) (use t0 id in \<open>auto simp: fits_def\<close>)
    then show ?thesis using Inr t0(1) True
      by (simp add: decide_retry_def Let_def) (rule ledger_ok_section; simp add: ledger_simps)
  next
    case False
    show ?thesis
    proof (cases "newest_attempt tid (k_ledger k)")
      case None
      then have "attempt_at (k_ledger k) j = Some a \<Longrightarrow> at_task_id a \<noteq> tid" for j a
        using in_attempts [OF ok, of a] work_okD(2) [OF ledger_okD(2) [OF ok]]
        by (auto simp: newest_attempt_def max_by_key_None filter_empty_conv)
      then have "ledger_ok own limits (k_ledger (put_task t k))"
        by (intro ledger_ok_move [OF ok, of _ t0]) (use t0 tt in auto)
      then show ?thesis using Inr t0(1) False None
        by (simp add: decide_retry_def Let_def newest_attempt_put_task flip: t_def)
          (intro conjI impI ledger_ok_section; auto simp: ledger_simps split: option.split)
    next
      case (Some a0)
      define a where "a = a0\<lparr>at_phase := AP_Rejected, at_settled_at := Some now\<rparr>"
      note n = newest_attempt_Some [OF ok Some]
      have dead: "\<not> is_live a" "\<not> settling a" by (simp_all add: a_def is_live_def live_phase_def settling_def)
      have put: "ledger_ok own limits (k_ledger (put_attempt a k))"
        by (rule ledger_ok_put_attempt [OF ok, of _ a0 t0]) (use n dead t0 in \<open>auto simp: a_def\<close>)
      have "ledger_ok own limits (k_ledger (put_task t (put_attempt a k)))"
      proof (rule ledger_ok_move [OF put, of _ t0])
        fix j b assume b: "attempt_at (k_ledger (put_attempt a k)) j = Some b" "at_task_id b = t_id t" "fits t0 b"
        have "\<not> settling b"
        proof
          assume s: "settling b"
          then have "j \<noteq> at_id a" "attempt_at (k_ledger k) j = Some b"
            using b dead by (auto simp: ledger_simps split: if_splits)
          moreover have "at_n b = at_n a0"
            using n(3) [OF calculation(2)] work_okD(4) [OF ledger_okD(2) [OF ok] calculation(2) n(1)] s b tt n(2)
            by simp
          ultimately show False
            using work_okD(5) [OF ledger_okD(2) [OF ok] _ n(1), of j b] b tt n(2) by (simp add: a_def)
        qed
        then show "fits t b" using b(3) tt by (auto simp: fits_def settling_def)
      qed (use t0 tt in \<open>auto simp: ledger_simps\<close>)
      then have "ledger_ok own limits (k_ledger (put_attempt a (put_task t k)))" by (simp add: put_commute)
      then show ?thesis using Inr t0(1) False Some
        by (simp add: decide_retry_def Let_def newest_attempt_put_task flip: t_def a_def)
          (intro conjI impI ledger_ok_section; auto simp: ledger_simps split: option.split)
    qed
  qed
qed (use ok in \<open>simp add: decide_retry_def Let_def\<close>)

text \<open>Attempts may be changed all at once as long as none gets a claim on its task.\<close>

lemma work_ok_weaken:
  assumes ok: "work_ok T A" and A': "\<And>j. A' j = map_option (g j) (A j)"
    and g: "\<And>j a. A j = Some a \<Longrightarrow> at_id (g j a) = at_id a \<and> at_task_id (g j a) = at_task_id a \<and> at_n (g j a) = at_n a
      \<and> (is_live (g j a) \<longrightarrow> is_live a) \<and> (settling (g j a) \<longrightarrow> settling a)"
  shows "work_ok T A'"
  unfolding work_ok_def
proof (intro conjI allI impI)
  fix j a' assume "A' j = Some a'"
  then obtain a where a: "A j = Some a" "a' = g j a" using A' by auto
  show "at_id a' = j" using work_okD(2) [OF ok a(1)] g [OF a(1)] a(2) by simp
  show "\<exists>t. T (at_task_id a') = Some t \<and> fits t a'"
    using work_okD(3) [OF ok a(1)] g [OF a(1)] a(2) by (auto simp: fits_def)
next
  fix i j a' b' assume "A' i = Some a'" "A' j = Some b'"
  then obtain a b where ab: "A i = Some a" "a' = g i a" "A j = Some b" "b' = g j b" using A' by auto
  note g = g [OF ab(1)] g [OF ab(3)]
  show "at_task_id a' = at_task_id b' \<Longrightarrow> settling a' \<Longrightarrow> at_n b' \<le> at_n a'"
    using work_okD(4) [OF ok ab(1,3)] g ab by simp
  show "at_task_id a' = at_task_id b' \<Longrightarrow> at_n a' = at_n b' \<Longrightarrow> i = j"
    using work_okD(5) [OF ok ab(1,3)] g ab by simp
qed (use work_okD(1) [OF ok] in blast)

lemma map_of_map_snd: "map_of (map (\<lambda>(i, x). (i, g x)) xs) j = map_option g (map_of xs j)"
  by (induction xs) auto

lemma ledger_ok_map_attempts:
  assumes ok: "ledger_ok own limits lg"
    and g: "\<And>a. a \<in> set (attempts lg) \<Longrightarrow> at_id (g a) = at_id a \<and> at_task_id (g a) = at_task_id a \<and> at_n (g a) = at_n a
      \<and> (is_live (g a) \<longrightarrow> is_live a) \<and> (settling (g a) \<longrightarrow> settling a)"
  shows "ledger_ok own limits (lg\<lparr>lg_attempts := map (\<lambda>(i, a). (i, g a)) (lg_attempts lg)\<rparr>)"
proof (rule ledger_okI)
  show "keys_ok (lg\<lparr>lg_attempts := map (\<lambda>(i, a). (i, g a)) (lg_attempts lg)\<rparr>)"
    using ledger_okD(1) [OF ok] by (simp add: keys_ok_def comp_def case_prod_unfold)
  show "work_ok (task_at (lg\<lparr>lg_attempts := map (\<lambda>(i, a). (i, g a)) (lg_attempts lg)\<rparr>))
      (attempt_at (lg\<lparr>lg_attempts := map (\<lambda>(i, a). (i, g a)) (lg_attempts lg)\<rparr>))"
  proof (rule work_ok_weaken [where g = "\<lambda>_. g"])
    show "work_ok (task_at (lg\<lparr>lg_attempts := map (\<lambda>(i, a). (i, g a)) (lg_attempts lg)\<rparr>)) (attempt_at lg)"
      using ledger_okD(2) [OF ok] by simp
  next
    fix j a assume a: "attempt_at lg j = Some a"
    then have "a \<in> set (attempts lg)" using map_of_SomeD by (force simp: attempts_def)
    then show "at_id (g a) = at_id a \<and> at_task_id (g a) = at_task_id a \<and> at_n (g a) = at_n a
      \<and> (is_live (g a) \<longrightarrow> is_live a) \<and> (settling (g a) \<longrightarrow> settling a)" by (rule g)
  qed (simp add: map_of_map_snd)
  show "owned own (attempt_at (lg\<lparr>lg_attempts := map (\<lambda>(i, a). (i, g a)) (lg_attempts lg)\<rparr>))"
    unfolding owned_def
  proof (intro allI impI)
    fix i a assume "attempt_at (lg\<lparr>lg_attempts := map (\<lambda>(i, a). (i, g a)) (lg_attempts lg)\<rparr>) i = Some a"
    then obtain b where b: "attempt_at lg i = Some b" "a = g b" by (auto simp: map_of_map_snd)
    then have "b \<in> set (attempts lg)" using map_of_SomeD by (force simp: attempts_def)
    then show "at_task_id a = own i" using g b ledger_okD(5) [OF ok b(1)] by simp
  qed
qed (use ledger_okD(3) [OF ok] in simp)

lemma lose_fields [simp]:
  "at_id (lose r now a) = at_id a" "at_task_id (lose r now a) = at_task_id a" "at_n (lose r now a) = at_n a"
  "\<not> is_live (lose r now a)" "\<not> settling (lose r now a)" "at_phase (lose r now a) = AP_Lost"
  by (simp_all add: lose_def is_live_def live_phase_def settling_def)

lemma ledger_ok_cancel:
  assumes ok: "ledger_ok own limits (k_ledger k)"
  shows "ledger_ok own limits (k_ledger (snd (decide_cancel c f now caller tid ex kill k)))"
proof (cases "check_decision (k_ledger k) caller tid ex (TD_Cancel kill)")
  case (Inr u)
  then obtain t0 where t0: "task_at (k_ledger k) tid = Some t0" by (rule check_decision_ok) auto
  have id: "t_id t0 = tid" by (rule ledger_ok_task_id [OF ok t0])
  define hit where "hit = (\<lambda>a. at_task_id a = tid \<and> is_live a)"
  define g where "g = (\<lambda>a. if hit a then lose LR_Cancelled now a else a)"
  define k' where "k' = k\<lparr>k_ledger := (k_ledger k)\<lparr>lg_attempts := map (\<lambda>(i, a). (i, g a)) (lg_attempts (k_ledger k))\<rparr>\<rparr>"
  have ok': "ledger_ok own limits (k_ledger k')"
    unfolding k'_def using ledger_ok_map_attempts [OF ok, of g] by (simp add: g_def)
  have "ledger_ok own limits (k_ledger (put_task (decided TS_Cancelled now t0) k'))"
  proof (rule ledger_ok_move [OF ok', of _ t0])
    fix j b assume b: "attempt_at (k_ledger k') j = Some b" "at_task_id b = t_id (decided TS_Cancelled now t0)" "fits t0 b"
    then obtain a where "b = g a" by (auto simp: k'_def map_of_map_snd)
    then have "\<not> is_live b" using b(2) id by (auto simp: g_def hit_def split: if_splits)
    then show "fits (decided TS_Cancelled now t0) b" using b(3) by (auto simp: fits_def)
  qed (use t0 id in \<open>auto simp: k'_def\<close>)
  moreover have "k_ledger (put_task (decided TS_Cancelled now t0) k')
      = (k_ledger (put_task (decided TS_Cancelled now t0) k))\<lparr>lg_attempts := map (\<lambda>(i, a). (i, g a))
          (lg_attempts (k_ledger (put_task (decided TS_Cancelled now t0) k)))\<rparr>"
    by (simp add: put_task_def k'_def)
  ultimately show ?thesis using Inr t0
    by (simp add: decide_cancel_def Let_def g_def flip: hit_def)
      (intro conjI impI ledger_ok_section; simp add: ledger_simps)
qed (use ok in \<open>simp add: decide_cancel_def Let_def\<close>)

subsection \<open>Reports, starts and the rest\<close>

lemma settle_check_live: "settle_check caller a lg = Inr u \<Longrightarrow> is_live a \<and> \<not> newer_exists a lg \<and> caller \<noteq> None \<and> caller = at_session_id a"
  by (auto simp: settle_check_def settle_report_def is_live_def split: sum.splits if_splits)

lemma task_status_after_report_idle:
  "task_status_after_report r u m \<noteq> TS_Pending" "task_status_after_report r u m \<noteq> TS_Ready"
  by (simp_all add: task_status_after_report_def split: report_outcome.split)

lemma task_status_after_loss_cases: "task_status_after_loss u m = TS_Failed \<or> task_status_after_loss u m = TS_Ready"
  by (simp add: task_status_after_loss_def)

text \<open>The only settling attempt of a task stops being one; then the task may move anywhere.\<close>

lemma ledger_ok_settle:
  assumes ok: "ledger_ok own limits (k_ledger k)"
    and a: "attempt_at (k_ledger k) (at_id a) = Some a0" "at_task_id a = at_task_id a0" "at_n a = at_n a0" "settling a0"
    and new: "\<not> is_live a" "settling a \<longrightarrow> t_status t \<noteq> TS_Pending \<and> t_status t \<noteq> TS_Ready"
    and t: "task_at (k_ledger k) (at_task_id a0) = Some t0" "t_id t = at_task_id a0"
      "t_attempts_used t = t_attempts_used t0"
  shows "ledger_ok own limits (k_ledger (put_attempt a k))" "ledger_ok own limits (k_ledger (put_task t (put_attempt a k)))"
proof -
  have f: "fits t0 a0" using work_okD(3) [OF ledger_okD(2) [OF ok] a(1)] t by simp
  have newest: "at_n b \<le> at_n a0" if "attempt_at (k_ledger k) j = Some b" "at_task_id b = at_task_id a0" for j b
    using work_okD(4) [OF ledger_okD(2) [OF ok] a(1) that(1)] that(2) a(4) by simp
  show put: "ledger_ok own limits (k_ledger (put_attempt a k))"
    by (rule ledger_ok_put_attempt [OF ok a(1,2,3) t(1)]) (use new newest f a(4) in \<open>auto simp: fits_def\<close>)
  show "ledger_ok own limits (k_ledger (put_task t (put_attempt a k)))"
  proof (rule ledger_ok_move [OF put])
    show "task_at (k_ledger (put_attempt a k)) (t_id t) = Some t0" using t by (simp add: ledger_simps)
    fix j b assume b: "attempt_at (k_ledger (put_attempt a k)) j = Some b" "at_task_id b = t_id t" "fits t0 b"
    show "fits t b"
    proof (cases "j = at_id a")
      case True
      then show ?thesis using b new t(3) by (auto simp: ledger_simps fits_def)
    next
      case False
      then have "attempt_at (k_ledger k) j = Some b" using b by (simp add: ledger_simps)
      then have "\<not> settling b"
        using settling_unique [OF ledger_okD(2) [OF ok] a(1) _ _ a(4), of j b] False b(2) t(2) by auto
      then show ?thesis using b(3) t(3) by (auto simp: fits_def settling_def)
    qed
  qed (rule t)
qed

text \<open>A report commits for the task of its attempt, as the plan noted it.\<close>

lemma ledger_ok_report:
  assumes ok: "ledger_ok own limits (k_ledger k)"
    and tid: "\<And>a. attempt_at (k_ledger k) i = Some a \<Longrightarrow> at_task_id a = tid"
  shows "ledger_ok own limits (k_ledger (snd (report_commit c f limits now caller i rep tid used k)))"
proof (cases "attempt_at (k_ledger k) i")
  case (Some a0)
  note i = work_okD(2) [OF ledger_okD(2) [OF ok] Some]
  show ?thesis
  proof (cases "settle_check caller a0 (k_ledger k)")
    case (Inr u)
    define a where "a = a0\<lparr>at_phase := AP_Reported, at_outcome := Some (rep_outcome rep),
      at_settled_at := Some now, at_report := Some rep\<rparr>"
    obtain t0 where t0: "task_at (k_ledger k) (at_task_id a0) = Some t0" "fits t0 a0"
      by (rule ledger_ok_task_of [OF ok Some])
    define t where "t = t0\<lparr>t_status := task_status_after_report (rep_outcome rep) used (max_attempts_per_task limits),
      t_updated_at := now, t_revision := saturating_add (t_revision t0) 1\<rparr>"
    have "ledger_ok own limits (k_ledger (put_task t (put_attempt a k)))"
      by (rule ledger_ok_settle [OF ok, where ?a0.0 = a0 and ?t0.0 = t0])
        (use Some i t0 settle_check_live [OF Inr] ledger_ok_task_id [OF ok t0(1)] task_status_after_report_idle in
          \<open>simp_all add: a_def t_def settling_def is_live_def live_phase_def\<close>)
    then show ?thesis using Some Inr t0(1) tid [OF Some]
      by (simp add: report_commit_def Let_def flip: a_def t_def)
        (rule ledger_ok_section; simp add: ledger_simps)
  qed (use ok Some in \<open>simp add: report_commit_def\<close>)
qed (use ok in \<open>simp add: report_commit_def\<close>)

lemma ledger_ok_add_attempt:
  assumes ok: "ledger_ok own limits (k_ledger k)" and fresh: "attempt_at (k_ledger k) (at_id a) = None"
    and t: "task_at (k_ledger k) (at_task_id a) = Some t" "fits t a" and own: "own (at_id a) = at_task_id a"
    and older: "\<And>j b. attempt_at (k_ledger k) j = Some b \<Longrightarrow> at_task_id b = at_task_id a \<Longrightarrow> at_n b < at_n a \<and> \<not> settling b"
  shows "ledger_ok own limits (k_ledger (put_attempt a k))"
proof (rule ledger_okI)
  show "keys_ok (k_ledger (put_attempt a k))" by (rule put_keys_ok(2) [OF ledger_okD(1) [OF ok]])
  have "work_ok (task_at (k_ledger k)) ((attempt_at (k_ledger k))(at_id a \<mapsto> a))"
  proof (rule work_ok_attempt [OF ledger_okD(2) [OF ok] t refl])
    fix j b assume "attempt_at (k_ledger k) j = Some b" "at_task_id b = at_task_id a"
    then show "(settling a \<longrightarrow> at_n b \<le> at_n a) \<and> at_n b \<noteq> at_n a \<and> (settling b \<longrightarrow> at_n a \<le> at_n b)"
      using older by fastforce
  qed (use fresh in simp)
  then show "work_ok (task_at (k_ledger (put_attempt a k))) (attempt_at (k_ledger (put_attempt a k)))"
    by (simp add: ledger_simps)
  show "owned own (attempt_at (k_ledger (put_attempt a k)))"
    using ledger_okD(4) [OF ok] own by (auto simp: owned_def ledger_simps)
qed (use ledger_okD(3) [OF ok] in \<open>simp add: ledger_simps\<close>)

lemma allow_start_budget: "allow_start active used mode writer limits = Inr u \<Longrightarrow>
    active < unat (max_active_attempts_per_run limits) \<and> used < max_attempts_per_task limits \<and> \<not> (mode = WM_Write \<and> writer)"
  by (auto simp: allow_start_def split: if_splits)

lemma budget_step:
  assumes "used < (m :: u32)"
  shows "used < saturating_add used 1" "saturating_add used 1 \<le> m" "1 \<le> saturating_add used 1"
proof -
  have "unat m < 2 ^ LENGTH(32)" by (rule unsigned_less)
  then have "unat used + 1 < 2 ^ LENGTH(32)" using assms by (simp add: word_less_nat_alt)
  then have "unat (saturating_add used 1) = unat used + 1"
    using assms by (simp add: saturating_add_def unat_word_ariths)
  then show "used < saturating_add used 1" "saturating_add used 1 \<le> m" "1 \<le> saturating_add used 1"
    using assms by (simp_all add: word_less_nat_alt word_le_nat_alt)
qed

lemma refuse_stale_start_ok:
  assumes "refuse_stale_start lg rid tid w limits = Inr n"
  obtains t r where "task_at lg tid = Some t" "run_at lg rid = Some r" "is_open (run_status r)"
    "t_status t = TS_Ready \<or> t_status t = TS_Pending" "n = saturating_add (t_attempts_used t) 1"
    "dependencies_met (t_after t) (task_status_at lg)"
    "live_in_run rid lg < unat (max_active_attempts_per_run limits)"
    "t_attempts_used t < max_attempts_per_task limits" "\<not> (t_mode t = WM_Write \<and> has_writer w lg)"
proof -
  have st: "startable limits lg rid t w = Inr u \<longleftrightarrow> (t_status t = TS_Ready \<or> t_status t = TS_Pending)
      \<and> dependencies_met (t_after t) (task_status_at lg)
      \<and> allow_start (live_in_run rid lg) (t_attempts_used t) (t_mode t) (has_writer w lg) limits = Inr ()" for t u
    by (simp add: startable_def section_simps)
  from assms obtain t where "task_at lg tid = Some t" "case run_at lg rid of None \<Rightarrow> False | Some r \<Rightarrow> is_open (run_status r)"
      "startable limits lg rid t w = Inr ()" "n = saturating_add (t_attempts_used t) 1"
    unfolding refuse_stale_start_def by (auto simp: section_simps)
  moreover obtain r where "run_at lg rid = Some r" "is_open (run_status r)"
    using calculation(2) by (auto split: option.splits)
  moreover have "allow_start (live_in_run rid lg) (t_attempts_used t) (t_mode t) (has_writer w lg) limits = Inr ()"
    using calculation(3) st by simp
  ultimately show thesis using that [of t r] allow_start_budget unfolding st by metis
qed

lemma set_base_commit_ledger [ledger_simps]: "k_ledger (set_base_commit sid base k) = k_ledger k"
  by (simp add: set_base_commit_def split: option.split)

definition started_task :: "u32 \<Rightarrow> timestamp \<Rightarrow> task \<Rightarrow> task" where
  "started_task n now t = t\<lparr>t_status := TS_Active, t_attempts_used := n,
     t_revision := saturating_add (t_revision t) 1, t_updated_at := now\<rparr>"

lemma start_budget:
  assumes "refuse_stale_start lg rid tid w limits = Inr n" "task_at lg tid = Some t"
  shows "t_attempts_used t < n" "n \<le> max_attempts_per_task limits" "1 \<le> n"
    "t_status t = TS_Pending \<or> t_status t = TS_Ready"
  by (rule refuse_stale_start_ok [OF assms(1)], use assms(2) budget_step in auto)+

lemma ledger_ok_start_task:
  assumes ok: "ledger_ok own limits (k_ledger k)" and n: "refuse_stale_start (k_ledger k) rid tid w limits = Inr n"
    and t: "task_at (k_ledger k) tid = Some t"
  shows "ledger_ok own limits (k_ledger (put_task (started_task n now t) k))"
proof (rule ledger_ok_put_task [OF ok, of _ t])
  show "task_at (k_ledger k) (t_id (started_task n now t)) = Some t"
    using t ledger_ok_task_id [OF ok t] by (simp add: started_task_def)
qed (use start_budget [OF n t] in \<open>auto simp: started_task_def less_imp_le\<close>)

lemma start_commit_cases:
  obtains (refused) e where "start_commit c f limits now rid sid w a0 k = (Inl e, k)"
      "refuse_stale_start (k_ledger k) rid (at_task_id a0) w limits = Inl e"
  | (failed) e t n where "fst (start_commit c f limits now rid sid w a0 k) = Inl e"
      "refuse_stale_start (k_ledger k) rid (at_task_id a0) w limits = Inr n"
      "task_at (k_ledger k) (at_task_id a0) = Some t"
      "k_ledger (snd (start_commit c f limits now rid sid w a0 k)) = k_ledger (put_task (started_task n now t) k)"
  | (started) t n where "fst (start_commit c f limits now rid sid w a0 k) = Inr (a0\<lparr>at_n := n\<rparr>)"
      "refuse_stale_start (k_ledger k) rid (at_task_id a0) w limits = Inr n"
      "task_at (k_ledger k) (at_task_id a0) = Some t"
      "k_ledger (snd (start_commit c f limits now rid sid w a0 k)) = k_ledger (put_attempt (a0\<lparr>at_n := n\<rparr>) (put_task (started_task n now t) k))"
proof (cases "refuse_stale_start (k_ledger k) rid (at_task_id a0) w limits")
  case (Inl e)
  then show thesis using refused by (simp add: start_commit_def)
next
  case (Inr n)
  obtain t where t: "task_at (k_ledger k) (at_task_id a0) = Some t" by (rule refuse_stale_start_ok [OF Inr])
  let ?a = "a0\<lparr>at_n := n\<rparr>"
  let ?t = "started_task n now t"
  let ?k2 = "put_task ?t (set_base_commit sid (at_base_commit a0) k)"
  have led: "k_ledger ?k2 = k_ledger (put_task ?t k)" by (simp add: put_task_def ledger_simps)
  have eq: "start_commit c f limits now rid sid w a0 k = (case run_db (insert_attempt c (f 0) ?a) ?k2 of
         (Inl e, k3) \<Rightarrow> (Inl e, k3)
       | (Inr _, k3) \<Rightarrow> (case run_db (update_task c (f 1) ?t) k3 of
              (Inl e, k4) \<Rightarrow> (Inl e, k4)
            | (Inr _, k4) \<Rightarrow> (Inr ?a, put_attempt ?a k4)))"
    unfolding started_task_def using Inr t by (simp add: start_commit_def Let_def ledger_simps)
  show thesis
  proof (cases rule: run_db_cases [of "insert_attempt c (f 0) ?a" ?k2])
    case (failed e db)
    then show thesis using that(2) [OF _ Inr t] eq led by simp
  next
    case (written db)
    note w = this
    show thesis
    proof (cases rule: run_db_cases [of "update_task c (f 1) ?t" "?k2\<lparr>k_db := db\<rparr>"])
      case (failed e db')
      then show thesis using that(2) [OF _ Inr t] eq led w by simp
    next
      case (written db')
      then show thesis using that(3) [OF _ Inr t] eq led w by (simp add: ledger_simps put_attempt_def)
    qed
  qed
qed

lemma ledger_ok_start:
  assumes ok: "ledger_ok own limits (k_ledger k)" and fresh: "attempt_at (k_ledger k) (at_id a0) = None"
    and own: "own (at_id a0) = at_task_id a0"
  shows "ledger_ok own limits (k_ledger (snd (start_commit c f limits now rid sid w a0 k)))"
proof (cases rule: start_commit_cases [of c f limits now rid sid w a0 k])
  case refused
  then show ?thesis using ok by simp
next
  case (failed e t n)
  show ?thesis unfolding failed(4) by (rule ledger_ok_start_task [OF ok failed(2,3)])
next
  case (started t n)
  note b = start_budget [OF started(2,3)]
  have id: "t_id t = at_task_id a0" by (rule ledger_ok_task_id [OF ok started(3)])
  show ?thesis unfolding started(4)
  proof (rule ledger_ok_add_attempt [OF ledger_ok_start_task [OF ok started(2,3)]])
    show "attempt_at (k_ledger (put_task (started_task n now t) k)) (at_id (a0\<lparr>at_n := n\<rparr>)) = None"
      using fresh by (simp add: ledger_simps)
    show "task_at (k_ledger (put_task (started_task n now t) k)) (at_task_id (a0\<lparr>at_n := n\<rparr>))
        = Some (started_task n now t)" using id by (simp add: ledger_simps started_task_def)
    show "own (at_id (a0\<lparr>at_n := n\<rparr>)) = at_task_id (a0\<lparr>at_n := n\<rparr>)" using own by simp
    show "fits (started_task n now t) (a0\<lparr>at_n := n\<rparr>)"
      using b by (simp add: fits_def started_task_def)
    fix j x assume "attempt_at (k_ledger (put_task (started_task n now t) k)) j = Some x"
      "at_task_id x = at_task_id (a0\<lparr>at_n := n\<rparr>)"
    then have x: "attempt_at (k_ledger k) j = Some x" "at_task_id x = at_task_id a0" by (simp_all add: ledger_simps)
    have "fits t x" using work_okD(3) [OF ledger_okD(2) [OF ok] x(1)] x(2) started(3) by simp
    then have "at_n x \<le> t_attempts_used t" by (simp add: fits_def)
    then have "at_n x < n" using b(1) by (rule le_less_trans)
    moreover have "\<not> settling x"
      by (rule pending_unattempted(1) [OF ok started(3) _ x]) (use b in blast)
    ultimately show "at_n x < at_n (a0\<lparr>at_n := n\<rparr>) \<and> \<not> settling x" by simp
  qed
qed

lemma ledger_ok_exit:
  assumes ok: "ledger_ok own limits (k_ledger k)"
  shows "ledger_ok own limits (k_ledger (note_session_exit c f limits now sid k))"
proof (cases "find (\<lambda>a. at_session_id a = Some sid \<and> is_live a) (map snd (lg_attempts (k_ledger k)))")
  case (Some a0)
  then have a0: "a0 \<in> set (attempts (k_ledger k))" "is_live a0"
    by (auto simp: find_Some_iff attempts_def)
  then have at: "attempt_at (k_ledger k) (at_id a0) = Some a0" using in_attempts [OF ok] by simp
  obtain t0 where t0: "task_at (k_ledger k) (at_task_id a0) = Some t0" by (rule ledger_ok_task_of [OF ok at])
  define a where "a = lose LR_ExitedWithoutReport now a0"
  define t where "t = (if waits_for_attempt (t_status t0) then task_after_loss (max_attempts_per_task limits) now t0 else t0)"
  have "ledger_ok own limits (k_ledger (put_task t (put_attempt a k)))"
    by (rule ledger_ok_settle [OF ok, where ?a0.0 = a0 and ?t0.0 = t0])
      (use at a0(2) t0 ledger_ok_task_id [OF ok t0] in \<open>simp_all add: a_def t_def settling_def task_after_loss_def\<close>)
  then show ?thesis unfolding a_def t_def using Some at t0
    by (auto simp: note_session_exit_def Let_def ledger_simps split: if_splits)
qed (use ok in \<open>simp add: note_session_exit_def\<close>)

lemma then_do_second [ledger_simps]:
  "(\<And>k. k_ledger (snd (n k)) = k_ledger k) \<Longrightarrow> k_ledger (snd (then_do m n k)) = k_ledger (snd (m k))"
  by (auto simp: then_do_def split: prod.split sum.split)

text \<open>The task is marked and the commit noted before anything is written.\<close>

lemma ledger_ok_mark:
  assumes ok: "ledger_ok own limits (k_ledger k)" and t: "task_at (k_ledger k) tid = Some t"
    and k2: "k2 = (case newest_attempt tid (k_ledger (put_task (decided TS_Integrated now t) k)) of
      None \<Rightarrow> put_task (decided TS_Integrated now t) k
    | Some a \<Rightarrow> put_attempt (a\<lparr>at_integrated_commit := commit\<rparr>) (put_task (decided TS_Integrated now t) k))"
  shows "ledger_ok own limits (k_ledger k2)" "task_at (k_ledger k2) tid = Some (decided TS_Integrated now t)"
proof -
  have id: "t_id t = tid" by (rule ledger_ok_task_id [OF ok t])
  let ?k1 = "put_task (decided TS_Integrated now t) k"
  have put: "ledger_ok own limits (k_ledger ?k1)"
    by (rule ledger_ok_move [OF ok, of _ t]) (use t id in \<open>auto simp: fits_def\<close>)
  show "ledger_ok own limits (k_ledger k2)"
  proof (cases "newest_attempt tid (k_ledger ?k1)")
    case (Some a)
    note n = newest_attempt_Some [OF put Some]
    obtain u where u: "task_at (k_ledger ?k1) (at_task_id a) = Some u" "fits u a" by (rule ledger_ok_task_of [OF put n(1)])
    have "ledger_ok own limits (k_ledger (put_attempt (a\<lparr>at_integrated_commit := commit\<rparr>) ?k1))"
      by (rule ledger_ok_put_attempt [OF put, of _ a u])
        (use n u in \<open>auto simp: fits_def is_live_def settling_def\<close>)
    with Some show ?thesis by (simp add: k2)
  qed (use put in \<open>simp add: k2\<close>)
  show "task_at (k_ledger k2) tid = Some (decided TS_Integrated now t)"
    using id by (auto simp: k2 ledger_simps split: option.split)
qed

lemma ledger_ok_integrated:
  assumes ok: "ledger_ok own limits (k_ledger k)"
  shows "ledger_ok own limits (k_ledger (snd (mark_integrated c f now tid commit k)))"
proof (cases "task_at (k_ledger k) tid")
  case (Some t)
  then show ?thesis using ledger_ok_write_promoted [OF ledger_ok_mark(1) [OF ok Some refl], of c f 0 "t_run_id t"]
    by (simp add: mark_integrated_def Let_def) (rule ledger_ok_section [OF refl]; simp add: ledger_simps)
qed (use ok in \<open>simp add: mark_integrated_def\<close>)

lemma ledger_ok_resume_pairs:
  "ledger_ok own limits (k_ledger k) \<Longrightarrow>
    (\<And>i tid. (i, tid) \<in> set ps \<Longrightarrow> \<exists>a. attempt_at (k_ledger k) i = Some a \<and> at_task_id a = tid \<and> settling a) \<Longrightarrow>
    ledger_ok own limits (k_ledger (snd (resume_pairs c f now n ps k)))"
proof (induction ps arbitrary: n k)
  case (Cons p ps)
  obtain i tid where p: "p = (i, tid)" by (cases p)
  obtain a0 where a0: "attempt_at (k_ledger k) i = Some a0" "at_task_id a0 = tid" "settling a0"
    using Cons.prems(2) [of i tid] p by auto
  obtain t0 where t0: "task_at (k_ledger k) tid = Some t0" "fits t0 a0"
    using ledger_ok_task_of [OF Cons.prems(1) a0(1)] a0(2) by auto
  have ids: "at_id a0 = i" "t_id t0 = tid"
    using work_okD(2) [OF ledger_okD(2) [OF Cons.prems(1)] a0(1)] ledger_ok_task_id [OF Cons.prems(1) t0(1)] by auto
  define a where "a = a0\<lparr>at_phase := AP_Running, at_settled_at := None\<rparr>"
  define t where "t = decided TS_Active now t0"
  have new: "at_id a = i" "at_task_id a = tid" "settling a" "t_id t = tid" "is_live a"
    using ids a0 by (simp_all add: a_def t_def settling_def is_live_def live_phase_def)
  have put: "ledger_ok own limits (k_ledger (put_task t k))"
    by (rule ledger_ok_move [OF Cons.prems(1), of _ t0]) (use t0 new in \<open>auto simp: fits_def t_def\<close>)
  have newest: "at_n b \<le> at_n a0" if "attempt_at (k_ledger k) j = Some b" "at_task_id b = at_task_id a0" for j b
    using work_okD(4) [OF ledger_okD(2) [OF Cons.prems(1)] a0(1) that(1)] a0 that by simp
  have "ledger_ok own limits (k_ledger (put_attempt a (put_task t k)))"
    by (rule ledger_ok_put_attempt [OF put, of _ a0 t])
      (use a0 t0 new newest ids in \<open>auto simp: ledger_simps a_def t_def\<close>)
  then have ok: "ledger_ok own limits (k_ledger (put_task t (put_attempt a k)))" by (simp add: put_commute)
  let ?w = "then_do (persist_attempt c (f n) a) (persist_task c (f (Suc n)) t) (put_task t (put_attempt a k))"
  have w: "k_ledger (snd ?w) = k_ledger (put_task t (put_attempt a k))" by (simp add: ledger_simps)
  obtain r k3 where r: "?w = (r, k3)" by fastforce
  then have k3: "k_ledger k3 = k_ledger (put_task t (put_attempt a k))" using w by simp
  have eq: "resume_pairs c f now n (p # ps) k = (case ?w of (Inl e, k3) \<Rightarrow> (Inl e, k3)
      | (Inr _, k3) \<Rightarrow> (case resume_pairs c f now (Suc (Suc n)) ps k3 of
           (Inl e, k4) \<Rightarrow> (Inl e, k4) | (Inr rs, k4) \<Rightarrow> (Inr ((t, a) # rs), k4)))"
    unfolding a_def t_def using p a0 t0 by (simp add: Let_def ledger_simps)
  have "ledger_ok own limits (k_ledger (snd (resume_pairs c f now (Suc (Suc n)) ps k3)))"
  proof (rule Cons.IH)
    show "ledger_ok own limits (k_ledger k3)" using ok k3 by simp
    fix i' tid' assume "(i', tid') \<in> set ps"
    then obtain a' where a': "attempt_at (k_ledger k) i' = Some a'" "at_task_id a' = tid'" "settling a'"
      using Cons.prems(2) [of i' tid'] by auto
    show "\<exists>a'. attempt_at (k_ledger k3) i' = Some a' \<and> at_task_id a' = tid' \<and> settling a'"
      using a' k3 new a0 by (cases "i' = i") (auto simp: ledger_simps)
  qed
  then show ?case unfolding eq r using ok k3 by (auto split: sum.split prod.split)
qed simp

lemma ledger_ok_resume:
  assumes ok: "ledger_ok own limits (k_ledger k)"
  shows "ledger_ok own limits (k_ledger (snd (resume_blocked c f now ss k)))"
  unfolding resume_blocked_def Let_def
  by (rule ledger_ok_resume_pairs [OF ok]) (use in_attempts [OF ok] in \<open>auto simp: settling_def\<close>)

lemma ledger_ok_new_task:
  assumes ok: "ledger_ok own limits (k_ledger k)" and fresh: "task_at (k_ledger k) (t_id t) = None"
    and t: "t_attempts_used t = 0"
  shows "ledger_ok own limits (k_ledger (put_task t k))"
proof (rule ledger_okI)
  show "keys_ok (k_ledger (put_task t k))" by (rule put_keys_ok(1) [OF ledger_okD(1) [OF ok]])
  show "work_ok (task_at (k_ledger (put_task t k))) (attempt_at (k_ledger (put_task t k)))"
    using ledger_okD(2) [OF ok] fresh unfolding work_ok_def ledger_simps by (auto; metis option.distinct(1))
  show "owned own (attempt_at (k_ledger (put_task t k)))" using ledger_okD(4) [OF ok] by (simp add: ledger_simps)
  show "t_attempts_used u \<le> max_attempts_per_task limits" if "task_at (k_ledger (put_task t k)) i = Some u" for i u
    using that ledger_okD(3) [OF ok] t by (auto simp: ledger_simps split: if_splits)
qed

lemma created_task:
  assumes "ledger_ok own limits lg" "task_at lg i = None" "t_id t0 = i"
  shows "\<exists>st. (case find (\<lambda>t. t_id t = i) (promote_ready (tasks_of rid lg @ [t0])) of Some t \<Rightarrow> t | None \<Rightarrow> t0)
    = t0\<lparr>t_status := st\<rparr>"
proof (cases "find (\<lambda>t. t_id t = i) (promote_ready (tasks_of rid lg @ [t0]))")
  case None
  then show ?thesis by (auto intro: exI [of _ "t_status t0"])
next
  case (Some t)
  then have "t \<in> set (promote_ready (tasks_of rid lg @ [t0]))" "t_id t = i" by (auto simp: find_Some_iff)
  then obtain t1 where t1: "t1 \<in> set (tasks_of rid lg @ [t0])" "t = t1 \<or> t = t1\<lparr>t_status := TS_Ready\<rparr>"
    using promote_ready_mem by blast
  have "t_id t1 = i" using t1(2) \<open>t_id t = i\<close> by auto
  then have "t1 = t0" using t1(1) assms in_tasks_of [OF assms(1)] by auto
  then show ?thesis using Some t1(2) by (auto intro: exI [of _ "t_status t0"])
qed

lemma create_task_cases:
  assumes ok: "ledger_ok own limits (k_ledger k)" and fresh: "task_at (k_ledger k) i = None"
  obtains (refused) e where "fst (create_task c f ko limits' now i caller rid ti sp ac after mode sub k) = Inl e"
      "k_ledger (snd (create_task c f ko limits' now i caller rid ti sp ac after mode sub k)) = k_ledger k"
  | (created) st where "fst (create_task c f ko limits' now i caller rid ti sp ac after mode sub k) = Inr i"
      "create_task_check ko limits' caller rid i (fst (clamp_text ti MAX_TITLE_BYTES)) after (k_ledger k) = Inr ()"
      "k_ledger (snd (create_task c f ko limits' now i caller rid ti sp ac after mode sub k)) = k_ledger (put_task
        ((new_task i rid (fst (clamp_text ti MAX_TITLE_BYTES)) (fst (clamp_text sp MAX_SPEC_BYTES))
           (fst (clamp_text ac MAX_ACCEPTANCE_BYTES)) after mode sub now)\<lparr>t_status := st\<rparr>) k)"
proof (cases "create_task_check ko limits' caller rid i (fst (clamp_text ti MAX_TITLE_BYTES)) after (k_ledger k)")
  case (Inl e)
  then show thesis using refused by (simp add: create_task_def Let_def)
next
  case (Inr u)
  define t0 where "t0 = new_task i rid (fst (clamp_text ti MAX_TITLE_BYTES)) (fst (clamp_text sp MAX_SPEC_BYTES))
    (fst (clamp_text ac MAX_ACCEPTANCE_BYTES)) after mode sub now"
  define t where "t = (case find (\<lambda>t. t_id t = i) (promote_ready (tasks_of rid (k_ledger k) @ [t0])) of Some t \<Rightarrow> t | None \<Rightarrow> t0)"
  have id: "t_id t0 = i" by (simp add: t0_def new_task_def)
  obtain st where st: "t = t0\<lparr>t_status := st\<rparr>" using created_task [OF ok fresh id] t_def by blast
  then have idt: "t_id t = i" using id by simp
  have eq: "create_task c f ko limits' now i caller rid ti sp ac after mode sub k = (case run_db (insert_task c (f 0) t) k of
      (Inl e, k1) \<Rightarrow> (Inl e, k1) | (Inr _, k1) \<Rightarrow> (Inr (t_id t), broadcast [TaskUpdated t] (put_task t k1)))"
    unfolding t_def t0_def using Inr by (simp add: create_task_def Let_def)
  show thesis
  proof (cases rule: run_db_cases [of "insert_task c (f 0) t" k])
    case (failed e db)
    then show thesis using refused eq by simp
  next
    case (written db)
    have "k_ledger (put_task t (k\<lparr>k_db := db\<rparr>)) = k_ledger (put_task t k)" by (simp add: put_task_def)
    then show thesis using created [of st] eq written Inr idt st by (simp add: ledger_simps t0_def)
  qed
qed

lemma ledger_ok_create_task:
  assumes ok: "ledger_ok own limits (k_ledger k)" and fresh: "task_at (k_ledger k) i = None"
  shows "ledger_ok own limits (k_ledger (snd (create_task c f ko limits' now i caller rid ti sp ac after mode sub k)))"
proof (cases rule: create_task_cases [OF ok fresh, of c f ko limits' now caller rid ti sp ac after mode sub])
  case 1
  then show ?thesis using ok by simp
next
  case (2 st)
  show ?thesis unfolding 2(3) by (rule ledger_ok_new_task [OF ok]) (use fresh in \<open>simp_all add: new_task_def\<close>)
qed

subsection \<open>Forgetting\<close>

definition forgotten :: "timestamp \<Rightarrow> session_id \<Rightarrow> attempt \<Rightarrow> attempt" where
  "forgotten now sid a =
    (if at_session_id a \<noteq> Some sid then a
     else let a1 = a\<lparr>at_session_id := None\<rparr> in if is_live a1 then lose LR_ExitedWithoutReport now a1 else a1)"

definition lost_by :: "session_id \<Rightarrow> attempt \<Rightarrow> bool" where
  "lost_by sid a \<longleftrightarrow> at_session_id a = Some sid \<and> is_live a"

definition task_lost :: "timestamp \<Rightarrow> u32 \<Rightarrow> task \<Rightarrow> task" where
  "task_lost now mx t = (if waits_for_attempt (t_status t) then task_after_loss mx now t else t)"

lemma forgotten_fields [simp]:
  "at_id (forgotten now sid a) = at_id a" "at_task_id (forgotten now sid a) = at_task_id a"
  "at_n (forgotten now sid a) = at_n a"
  "is_live (forgotten now sid a) \<longleftrightarrow> is_live a \<and> at_session_id a \<noteq> Some sid"
  "at_session_id (forgotten now sid a) = (if at_session_id a = Some sid then None else at_session_id a)"
  by (auto simp: forgotten_def Let_def lose_def is_live_def live_phase_def)

lemma forgotten_settling: "settling (forgotten now sid a) \<Longrightarrow> settling a"
  by (auto simp: forgotten_def Let_def settling_def lose_def is_live_def live_phase_def split: if_splits)

text \<open>
  As long as no two of the lost attempts are of the same task, forgetting changes every attempt and
  every task of a lost attempt once.
\<close>

lemma forget_attempts_exact:
  assumes "distinct (map at_task_id (filter (lost_by sid) (map snd as)))"
    and "tasks' = fst (snd (forget_attempts now mx sid as tasks))"
  shows "\<exists>ats ts. forget_attempts now mx sid as tasks = (map (\<lambda>(i, a). (i, forgotten now sid a)) as, tasks', ats, ts) \<and>
      (\<forall>i. map_of tasks' i = (if i \<in> at_task_id ` set (filter (lost_by sid) (map snd as))
          then map_option (task_lost now mx) (map_of tasks i) else map_of tasks i))
      \<and> (distinct (map fst tasks) \<longrightarrow> distinct (map fst tasks'))"
  using assms
proof (induction as arbitrary: tasks tasks')
  case (Cons p rest)
  obtain j a where p: "p = (j, a)" by (cases p)
  show ?case
  proof (cases "at_session_id a = Some sid")
    case False
    then have nl: "\<not> lost_by sid a" by (simp add: lost_by_def)
    have fa: "forgotten now sid a = a" using False by (simp add: forgotten_def)
    obtain ats ts where IH: "forget_attempts now mx sid rest tasks = (map (\<lambda>(i, a). (i, forgotten now sid a)) rest, tasks', ats, ts)"
        "\<forall>i. map_of tasks' i = (if i \<in> at_task_id ` set (filter (lost_by sid) (map snd rest))
          then map_option (task_lost now mx) (map_of tasks i) else map_of tasks i)"
        "distinct (map fst tasks) \<longrightarrow> distinct (map fst tasks')"
      using Cons.IH [of tasks' tasks] Cons.prems p nl False by (auto split: prod.splits)
    then show ?thesis using p False nl fa by simp
  next
    case True
    define changed where "changed = (if is_live a then (case map_of tasks (at_task_id a) of
        None \<Rightarrow> None | Some t \<Rightarrow> if waits_for_attempt (t_status t) then Some (task_after_loss mx now t) else None) else None)"
    define tasks1 where "tasks1 = (case changed of None \<Rightarrow> tasks | Some t \<Rightarrow> AList.update (at_task_id a) t tasks)"
    have tasks1: "map_of tasks1 i = (if lost_by sid a \<and> i = at_task_id a then map_option (task_lost now mx) (map_of tasks i)
        else map_of tasks i)" for i
      using True by (auto simp: tasks1_def changed_def lost_by_def task_lost_def update_conv' split: option.splits)
    have dist1: "distinct (map fst tasks) \<Longrightarrow> distinct (map fst tasks1)"
      by (simp add: tasks1_def distinct_update split: option.split)
    have live: "is_live (a\<lparr>at_session_id := None\<rparr>) = is_live a" by (simp add: is_live_def)
    have eq: "forget_attempts now mx sid ((j, a) # rest) tasks = (case forget_attempts now mx sid rest tasks1 of
        (rest', tasks', as, ts) \<Rightarrow> ((j, forgotten now sid a) # rest', tasks', forgotten now sid a # as,
          (case changed of None \<Rightarrow> ts | Some t \<Rightarrow> t # ts)))"
      unfolding tasks1_def changed_def using True by (simp add: Let_def forgotten_def live cong: if_cong)
    obtain ats ts where IH: "forget_attempts now mx sid rest tasks1 = (map (\<lambda>(i, a). (i, forgotten now sid a)) rest, tasks', ats, ts)"
        "\<forall>i. map_of tasks' i = (if i \<in> at_task_id ` set (filter (lost_by sid) (map snd rest))
          then map_option (task_lost now mx) (map_of tasks1 i) else map_of tasks1 i)"
        "distinct (map fst tasks1) \<longrightarrow> distinct (map fst tasks')"
      using Cons.IH [of tasks' tasks1] Cons.prems p eq by (auto split: prod.splits if_splits)
    have "map_of tasks' i = (if i \<in> at_task_id ` set (filter (lost_by sid) (map snd (p # rest)))
        then map_option (task_lost now mx) (map_of tasks i) else map_of tasks i)" for i
      using IH(2) [rule_format, of i] tasks1 [of i] Cons.prems(1) p by (auto split: if_splits)
    then show ?thesis using IH(1,3) eq p dist1 by (cases changed) simp_all
  qed
qed simp

lemma work_ok_map_tasks:
  assumes ok: "work_ok T A" and T': "\<And>i. T' i = map_option (g i) (T i)"
    and g: "\<And>i t. T i = Some t \<Longrightarrow> t_id (g i t) = t_id t"
      "\<And>i t j a. T i = Some t \<Longrightarrow> A j = Some a \<Longrightarrow> at_task_id a = i \<Longrightarrow> fits t a \<Longrightarrow> fits (g i t) a"
  shows "work_ok T' A"
  unfolding work_ok_def
proof (intro conjI allI impI)
  fix i t' assume "T' i = Some t'"
  then show "t_id t' = i" using T' work_okD(1) [OF ok] g(1) by auto
next
  fix i a assume a: "A i = Some a"
  show "at_id a = i" by (rule work_okD(2) [OF ok a])
  obtain t where "T (at_task_id a) = Some t" "fits t a" using work_okD(3) [OF ok a] by blast
  then show "\<exists>t. T' (at_task_id a) = Some t \<and> fits t a" using T' g(2) [OF _ a refl] by auto
qed (use work_okD(4,5) [OF ok] in blast)+

lemma fold_ledger: "(\<And>x k. k_ledger (g x k) = k_ledger k) \<Longrightarrow> k_ledger (fold g xs k) = k_ledger k"
  by (induction xs arbitrary: k) simp_all

lemma persist_forgotten_ledger [ledger_simps]:
  "lg_tasks (k_ledger (persist_forgotten c f rs ts as k)) = lg_tasks (k_ledger k)"
  "lg_attempts (k_ledger (persist_forgotten c f rs ts as k)) = lg_attempts (k_ledger k)"
  "lg_runs (k_ledger (persist_forgotten c f rs ts as k)) = lg_runs (k_ledger k)"
  "lg_pointer (k_ledger (persist_forgotten c f rs ts as k)) = lg_pointer (k_ledger k)"
proof -
  have a: "k_ledger (fold (\<lambda>(n, r). attempt_write (run_db (update_run c (f n) r))) xs k) = k_ledger k" for xs k
    by (rule fold_ledger) (auto simp: ledger_simps)
  have b: "k_ledger (fold (\<lambda>(n, t). attempt_write (persist_task c (f n) t)) xs k) = k_ledger k" for xs k
    by (rule fold_ledger) (auto simp: ledger_simps)
  have d: "k_ledger (fold (\<lambda>(n, t). attempt_write (persist_attempt c (f n) t)) xs k) = k_ledger k" for xs k
    by (rule fold_ledger) (auto simp: ledger_simps)
  show "lg_tasks (k_ledger (persist_forgotten c f rs ts as k)) = lg_tasks (k_ledger k)"
    "lg_attempts (k_ledger (persist_forgotten c f rs ts as k)) = lg_attempts (k_ledger k)"
    "lg_runs (k_ledger (persist_forgotten c f rs ts as k)) = lg_runs (k_ledger k)"
    "lg_pointer (k_ledger (persist_forgotten c f rs ts as k)) = lg_pointer (k_ledger k)"
    by (simp_all add: persist_forgotten_def Let_def a b d)
qed

lemma attempts_distinct:
  assumes "ledger_ok own limits lg" shows "distinct (map at_id (attempts lg))"
proof -
  have "at_id (snd p) = fst p" if "p \<in> set (lg_attempts lg)" for p
  proof -
    have "(fst p, snd p) \<in> set (lg_attempts lg)" using that by simp
    then have "attempt_at lg (fst p) = Some (snd p)" using ledger_okD(1) [OF assms] by (simp add: keys_ok_def)
    then show ?thesis by (rule work_okD(2) [OF ledger_okD(2) [OF assms]])
  qed
  then have "map at_id (attempts lg) = map fst (lg_attempts lg)"
    unfolding attempts_def map_map by (intro map_cong) auto
  then show ?thesis using ledger_okD(1) [OF assms] by (simp add: keys_ok_def)
qed

lemma lost_tasks_distinct:
  assumes ok: "ledger_ok own limits lg"
  shows "distinct (map at_task_id (filter (lost_by sid) (map snd (lg_attempts lg))))"
proof -
  have "inj_on at_task_id (set (filter (lost_by sid) (attempts lg)))"
  proof (rule inj_onI)
    fix a b assume "a \<in> set (filter (lost_by sid) (attempts lg))" "b \<in> set (filter (lost_by sid) (attempts lg))"
      "at_task_id a = at_task_id b"
    then have "attempt_at lg (at_id a) = Some a" "attempt_at lg (at_id b) = Some b" "settling a" "settling b"
      using in_attempts [OF ok] by (auto simp: lost_by_def settling_def)
    then show "a = b" using settling_unique [OF ledger_okD(2) [OF ok]] \<open>at_task_id a = at_task_id b\<close>
      by (metis option.inject)
  qed
  moreover have "distinct (attempts lg)" using attempts_distinct [OF ok] by (simp add: distinct_map)
  ultimately show ?thesis by (simp add: distinct_map attempts_def)
qed

lemma forget_session_ledger:
  assumes ok: "ledger_ok own limits (k_ledger k)" and lg': "lg' = k_ledger (forget_session c f now sid k)"
  shows "lg_attempts lg' = map (\<lambda>(i, a). (i, forgotten now sid a)) (lg_attempts (k_ledger k))"
    and "task_at lg' i = (if \<exists>a \<in> set (attempts (k_ledger k)). lost_by sid a \<and> at_task_id a = i
           then map_option (task_lost now (lg_max_attempts_per_task (k_ledger k))) (task_at (k_ledger k) i)
           else task_at (k_ledger k) i)"
    and "distinct (map fst (lg_tasks lg'))"
    and "run_at lg' r = map_option (\<lambda>x. if run_controller x = Some sid then x\<lparr>run_controller := None\<rparr> else x) (run_at (k_ledger k) r)"
    and "lg_pointer lg' = AList.delete sid (lg_pointer (k_ledger k))"
proof -
  let ?lg = "k_ledger k"
  define ts' where "ts' = fst (snd (forget_attempts now (lg_max_attempts_per_task ?lg) sid (lg_attempts ?lg) (lg_tasks ?lg)))"
  obtain ats ts where fa: "forget_attempts now (lg_max_attempts_per_task ?lg) sid (lg_attempts ?lg) (lg_tasks ?lg)
        = (map (\<lambda>(i, a). (i, forgotten now sid a)) (lg_attempts ?lg), ts', ats, ts)"
      and m: "\<forall>i. map_of ts' i = (if i \<in> at_task_id ` set (filter (lost_by sid) (map snd (lg_attempts ?lg)))
          then map_option (task_lost now (lg_max_attempts_per_task ?lg)) (task_at ?lg i) else task_at ?lg i)"
      and d: "distinct (map fst (lg_tasks ?lg)) \<longrightarrow> distinct (map fst ts')"
    using forget_attempts_exact [OF lost_tasks_distinct [OF ok] ts'_def] by blast
  have eqs: "lg_attempts lg' = map (\<lambda>(i, a). (i, forgotten now sid a)) (lg_attempts ?lg)" "lg_tasks lg' = ts'"
    "lg_runs lg' = map (\<lambda>(i, r). (i, if run_controller r = Some sid then r\<lparr>run_controller := None\<rparr> else r)) (lg_runs ?lg)"
    "lg_pointer lg' = AList.delete sid (lg_pointer ?lg)"
    unfolding lg' forget_session_def Let_def fa by (simp_all add: ledger_simps)
  show "lg_attempts lg' = map (\<lambda>(i, a). (i, forgotten now sid a)) (lg_attempts ?lg)" by (rule eqs)
  show "lg_pointer lg' = AList.delete sid (lg_pointer ?lg)" by (rule eqs)
  show "task_at lg' i = (if \<exists>a \<in> set (attempts ?lg). lost_by sid a \<and> at_task_id a = i
      then map_option (task_lost now (lg_max_attempts_per_task ?lg)) (task_at ?lg i) else task_at ?lg i)"
    using m by (auto simp: eqs(2) attempts_def)
  show "distinct (map fst (lg_tasks lg'))" using d eqs(2) ledger_okD(1) [OF ok] by (simp add: keys_ok_def)
  show "run_at lg' r = map_option (\<lambda>x. if run_controller x = Some sid then x\<lparr>run_controller := None\<rparr> else x) (run_at ?lg r)"
    by (simp add: eqs(3) map_of_map_snd)
qed

lemma ledger_ok_forget_session:
  assumes ok: "ledger_ok own limits (k_ledger k)"
  shows "ledger_ok own limits (k_ledger (forget_session c f now sid k))"
proof -
  let ?lg = "k_ledger k"
  define lg' where "lg' = k_ledger (forget_session c f now sid k)"
  note f = forget_session_ledger [OF ok lg'_def]
  have A': "attempt_at lg' j = map_option (forgotten now sid) (attempt_at ?lg j)" for j
    by (simp add: f(1) map_of_map_snd)
  have w: "work_ok (task_at ?lg) (attempt_at lg')"
    by (rule work_ok_weaken [OF ledger_okD(2) [OF ok], where g = "\<lambda>_. forgotten now sid"])
      (use A' forgotten_settling in auto)
  have idle: "\<not> settling b" if a: "a \<in> set (attempts ?lg)" "lost_by sid a" and b: "attempt_at lg' j = Some b"
      "at_task_id b = at_task_id a" for a b j
  proof
    assume s: "settling b"
    obtain b0 where b0: "attempt_at ?lg j = Some b0" "b = forgotten now sid b0" using b(1) A' by auto
    have "attempt_at ?lg (at_id a) = Some a" using a(1) in_attempts [OF ok] by simp
    then have "j = at_id a"
      using settling_unique [OF ledger_okD(2) [OF ok] b0(1), of "at_id a" a] b(2) b0(2) s a(2)
        forgotten_settling [of now sid b0] by (simp add: settling_def lost_by_def)
    then have "b0 = a" using b0(1) \<open>attempt_at ?lg (at_id a) = Some a\<close> by simp
    then show False using s b0(2) a(2) by (auto simp: lost_by_def forgotten_def Let_def is_live_def)
  qed
  show ?thesis unfolding lg'_def [symmetric]
  proof (rule ledger_okI)
    show "keys_ok lg'" using f(3) ledger_okD(1) [OF ok] by (simp add: keys_ok_def f(1) comp_def case_prod_unfold)
    show "work_ok (task_at lg') (attempt_at lg')"
    proof (rule work_ok_map_tasks [OF w, where g = "\<lambda>i t. if \<exists>a \<in> set (attempts ?lg). lost_by sid a \<and> at_task_id a = i
          then task_lost now (lg_max_attempts_per_task ?lg) t else t"])
      show "task_at lg' i = map_option (\<lambda>t. if \<exists>a \<in> set (attempts ?lg). lost_by sid a \<and> at_task_id a = i
          then task_lost now (lg_max_attempts_per_task ?lg) t else t) (task_at ?lg i)" for i
        by (cases "task_at ?lg i") (auto simp: f(2))
    next
      fix i t j b assume b: "attempt_at lg' j = Some b" "at_task_id b = i" "fits t b"
      show "fits (if \<exists>a \<in> set (attempts ?lg). lost_by sid a \<and> at_task_id a = i
          then task_lost now (lg_max_attempts_per_task ?lg) t else t) b"
      proof (cases "\<exists>a \<in> set (attempts ?lg). lost_by sid a \<and> at_task_id a = i")
        case True
        then have "\<not> settling b" using idle b by metis
        then show ?thesis using b(3) by (simp add: fits_def settling_def task_lost_def task_after_loss_def)
      qed (use b in auto)
    qed (simp add: task_lost_def task_after_loss_def)
    show "owned own (attempt_at lg')"
      unfolding owned_def A' using ledger_okD(5) [OF ok] by auto
    show "t_attempts_used t \<le> max_attempts_per_task limits" if "task_at lg' i = Some t" for i t
      using that ledger_okD(3) [OF ok]
      by (auto simp: f(2) task_lost_def task_after_loss_def split: if_splits)
  qed
qed

lemma ledger_ok_forget_workspace:
  assumes ok: "ledger_ok own limits (k_ledger k)"
  shows "ledger_ok own limits (k_ledger (forget_workspace c f wid k))"
proof -
  let ?g = "\<lambda>a. if at_workspace_id a = Some wid then a\<lparr>at_workspace_id := None\<rparr> else a"
  have "ledger_ok own limits ((k_ledger k)\<lparr>lg_attempts := map (\<lambda>(i, a). (i, ?g a)) (lg_attempts (k_ledger k))\<rparr>)"
    by (rule ledger_ok_map_attempts [OF ok]) (auto simp: is_live_def settling_def)
  then show ?thesis by (rule ledger_ok_same) (simp_all add: forget_workspace_def Let_def ledger_simps)
qed

lemma map_of_filter_fst: "map_of (filter (\<lambda>(i, _). i \<notin> S) xs) j = (if j \<in> S then None else map_of xs j)"
  by (induction xs) auto

lemma map_of_filter_snd:
  "distinct (map fst xs) \<Longrightarrow> map_of (filter (\<lambda>(_, x). P x) xs) j = (case map_of xs j of None \<Rightarrow> None | Some x \<Rightarrow> if P x then Some x else None)"
proof (induction xs)
  case (Cons p xs)
  obtain i x where p: "p = (i, x)" by (cases p)
  have "map_of xs i = None" using Cons.prems p by (simp add: map_of_eq_None_iff)
  then show ?case using Cons p by (auto split: option.split)
qed simp

lemma ledger_ok_forget_project:
  assumes ok: "ledger_ok own limits lg"
  shows "ledger_ok own limits (forget_project pid lg)"
proof -
  define gone where "gone = set (map t_id (filter (\<lambda>t. t_run_id t \<in> set (map run_id
      (filter (\<lambda>r. run_project_id r = pid) (map snd (lg_runs lg))))) (map snd (lg_tasks lg))))"
  have d: "distinct (map fst (lg_tasks lg))" "distinct (map fst (lg_attempts lg))"
    using ledger_okD(1) [OF ok] by (simp_all add: keys_ok_def)
  have eqs: "lg_tasks (forget_project pid lg) = filter (\<lambda>(i, _). i \<notin> gone) (lg_tasks lg)"
    "lg_attempts (forget_project pid lg) = filter (\<lambda>(_, a). at_task_id a \<notin> gone) (lg_attempts lg)"
    by (simp_all add: forget_project_def Let_def gone_def)
  have T: "task_at (forget_project pid lg) i = (if i \<in> gone then None else task_at lg i)" for i
    by (simp add: eqs map_of_filter_fst)
  have A: "attempt_at (forget_project pid lg) j = (case attempt_at lg j of None \<Rightarrow> None
      | Some a \<Rightarrow> if at_task_id a \<notin> gone then Some a else None)" for j
    by (simp add: eqs map_of_filter_snd [OF d(2)])
  note w = ledger_okD(2) [OF ok]
  show ?thesis
  proof (rule ledger_okI)
    show "keys_ok (forget_project pid lg)" using d by (simp add: keys_ok_def eqs distinct_map_filter)
    show "work_ok (task_at (forget_project pid lg)) (attempt_at (forget_project pid lg))"
      unfolding work_ok_def T A using work_okD(1-3) [OF w] work_okD(4,5) [OF w]
      by (auto split: option.splits if_splits)
    show "owned own (attempt_at (forget_project pid lg))"
      using ledger_okD(4) [OF ok] by (auto simp: owned_def A split: option.splits if_splits)
  qed (use ledger_okD(3) [OF ok] in \<open>auto simp: T split: if_splits\<close>)
qed

end
