(* ===== verification/Orch_System.thy ===== *)
theory Orch_System
  imports Orch_Invariant
begin

text \<open>
  The system the handlers run in: the kernel under its lock, and the threads that released the lock
  between the sections of a report or of a start. Every step is one critical section, taken by any
  thread with any arguments, any failing statement and any clock; the reachable systems are the
  interleavings of the handlers.
\<close>

section \<open>Steps\<close>

record system =
  y_kernel :: kernel
  y_reports :: "(attempt_id \<times> task_id \<times> u32) set"
  y_starts :: "(run_id \<times> task) set"

abbreviation y_ledger :: "system \<Rightarrow> ledger" where "y_ledger y \<equiv> k_ledger (y_kernel y)"

text \<open>Sections that leave tasks and attempts alone.\<close>

inductive side_step :: "kernel \<Rightarrow> kernel \<Rightarrow> bool" where
  side_create_run: "run_at (k_ledger k) (run_id r) = None \<Longrightarrow> side_step k (snd (create_run_commit c f r k))"
| side_brief: "side_step k (snd (update_brief c f now caller rid brief ex k))"
| side_close: "side_step k (snd (close_run_commit c f now rid cancel k))"
| side_announce: "side_step k (start_announce a k)"
| side_claim: "side_step k (snd (resume_claim caller rid k))"
| side_resume: "side_step k (snd (resume_commit c f now rid sid k))"
| side_release: "side_step k (resume_release rid k)"
| side_conflict: "side_step k (set_conflict rid k)"
| side_clear: "side_step k (clear_conflict rid k)"
| side_flush: "side_step k (flush_events k)"
| side_sessions: "side_step k (k\<lparr>k_inner := inn\<rparr>)"

inductive step :: "codec \<Rightarrow> orchestration_limits \<Rightarrow> system \<Rightarrow> system \<Rightarrow> bool" for c limits where
  side: "side_step (y_kernel y) k' \<Longrightarrow> step c limits y (y\<lparr>y_kernel := k'\<rparr>)"
| create_task: "task_at (y_ledger y) i = None \<Longrightarrow>
    step c limits y (y\<lparr>y_kernel := snd (create_task c f order limits now i caller rid title spec acceptance after
      mode allow_subruns (y_kernel y))\<rparr>)"
| plan_start: "start_plan limits caller tid placement (y_kernel y) = Inr (t, r, w) \<Longrightarrow>
    step c limits y (y\<lparr>y_starts := insert (run_id r, t) (y_starts y)\<rparr>)"
| commit_start: "(rid, t) \<in> y_starts y \<Longrightarrow> attempt_at (y_ledger y) i = None \<Longrightarrow> i \<notin> fst ` y_reports y \<Longrightarrow>
    step c limits y (y\<lparr>y_kernel := snd (start_commit c f limits now rid sid w
      (new_attempt i t sid w branch base provider profile created) (y_kernel y))\<rparr>)"
| plan_report: "report_plan caller i summary (y_kernel y) = Inr (path, base, tid, used) \<Longrightarrow>
    step c limits y (y\<lparr>y_reports := insert (i, tid, used) (y_reports y)\<rparr>)"
| commit_report: "(i, tid, used) \<in> y_reports y \<Longrightarrow>
    step c limits y (y\<lparr>y_kernel := snd (report_commit c f limits now caller i rep tid used (y_kernel y))\<rparr>)"
| decide: "step c limits y (y\<lparr>y_kernel := snd (decide_task c f limits now caller tid ex d provider' profile' (y_kernel y))\<rparr>)"
| integrated: "step c limits y (y\<lparr>y_kernel := snd (mark_integrated c f now tid commit (y_kernel y))\<rparr>)"
| answered: "step c limits y (y\<lparr>y_kernel := snd (resume_blocked c f now sessions (y_kernel y))\<rparr>)"
| exited: "step c limits y (y\<lparr>y_kernel := note_session_exit c f limits now sid (y_kernel y)\<rparr>)"
| forget_session: "step c limits y (y\<lparr>y_kernel := forget_session c f now sid (y_kernel y)\<rparr>)"
| forget_workspace: "step c limits y (y\<lparr>y_kernel := forget_workspace c f wid (y_kernel y)\<rparr>)"
| forget_project: "step c limits y (y\<lparr>y_kernel := (y_kernel y)\<lparr>k_ledger := forget_project pid (y_ledger y)\<rparr>\<rparr>)"

text \<open>A system is in order when some ownership of attempts fits its ledger and its waiting reports.\<close>

definition system_ok :: "orchestration_limits \<Rightarrow> system \<Rightarrow> bool" where
  "system_ok limits y \<longleftrightarrow> (\<exists>own. ledger_ok own limits (y_ledger y)
     \<and> (\<forall>i tid used. (i, tid, used) \<in> y_reports y \<longrightarrow> own i = tid))"

definition same_work :: "kernel \<Rightarrow> kernel \<Rightarrow> bool" where
  "same_work k k' \<longleftrightarrow>
    lg_tasks (k_ledger k') = lg_tasks (k_ledger k) \<and> lg_attempts (k_ledger k') = lg_attempts (k_ledger k)"

lemma same_work_write:
  "same_work k (snd (case run_db op (put_run r k) of (Inl e, k1) \<Rightarrow> (Inl e, k1) | (Inr _, k1) \<Rightarrow> (Inr x, broadcast evs k1)))"
  by (cases rule: run_db_cases [of op "put_run r k"]) (simp_all add: same_work_def put_run_def broadcast_def)

lemma same_work_refl [simp]: "same_work k k"
  by (simp add: same_work_def)

lemma side_step_ledger: "side_step k k' \<Longrightarrow> same_work k k'"
proof (induction rule: side_step.induct)
  case (side_create_run k r c f)
  then show ?case
    by (cases rule: run_db_cases [of "insert_run c (f 0) r" k])
      (simp_all add: create_run_commit_def same_work_def put_run_def broadcast_def)
qed (auto simp: update_brief_def close_run_commit_def resume_commit_def Let_def same_work_write
    start_announce_def resume_claim_def resume_release_def set_conflict_def clear_conflict_def flush_events_def broadcast_def
    same_work_def [of _ "_\<lparr>k_ledger := _\<rparr>"] same_work_def [of _ "_\<lparr>k_inner := _\<rparr>"]
    same_work_def [of _ "_\<lparr>k_ledger := _, k_events := _\<rparr>"] same_work_def [of _ "_\<lparr>k_events := _\<rparr>"]
    split: option.split sum.split)

lemma ledger_ok_own:
  "ledger_ok own limits lg \<Longrightarrow> (\<And>i. attempt_at lg i \<noteq> None \<Longrightarrow> own' i = own i) \<Longrightarrow> ledger_ok own' limits lg"
  by (auto simp: ledger_ok_def owned_def)

lemma start_plan_task: "start_plan limits caller tid placement k = Inr (t, r, w) \<Longrightarrow> task_at (k_ledger k) tid = Some t
    \<and> run_at (k_ledger k) (t_run_id t) = Some r"
  by (auto simp: start_plan_def Let_def section_simps)

lemma report_plan_task:
  assumes ok: "ledger_ok own limits (k_ledger k)" and p: "report_plan caller i summary k = Inr (path, base, tid, used)"
  shows "own i = tid"
proof -
  obtain a t where a: "attempt_at (k_ledger k) i = Some a" "task_at (k_ledger k) (at_task_id a) = Some t" "tid = t_id t"
    using p by (auto simp: report_plan_def section_simps)
  then show ?thesis using ledger_ok_task_id [OF ok a(2)] ledger_okD(5) [OF ok a(1)] by simp
qed

lemmas decisions_ok = ledger_ok_accept ledger_ok_reopen ledger_ok_retry ledger_ok_cancel

lemma ledger_ok_decide:
  "ledger_ok own limits (k_ledger k) \<Longrightarrow>
    ledger_ok own limits (k_ledger (snd (decide_task c f limits now caller tid ex d p q k)))"
  by (cases d) (simp_all add: decide_task_def decisions_ok)

lemmas sections_ok = ledger_ok_create_task ledger_ok_decide
  ledger_ok_integrated ledger_ok_resume ledger_ok_exit ledger_ok_forget_session ledger_ok_forget_workspace
  ledger_ok_forget_project

lemma step_ok:
  assumes "step c limits y y'" "system_ok limits y"
  shows "system_ok limits y'"
proof -
  obtain own where own: "ledger_ok own limits (y_ledger y)" "\<forall>i tid used. (i, tid, used) \<in> y_reports y \<longrightarrow> own i = tid"
    using assms(2) by (auto simp: system_ok_def)
  have goal: "system_ok limits (y\<lparr>y_kernel := k'\<rparr>)" if "ledger_ok own limits (k_ledger k')" for k'
    using that own(2) by (auto simp: system_ok_def)
  show ?thesis using assms(1)
  proof cases
    case (side k')
    have "ledger_ok own limits (k_ledger k')"
      by (rule ledger_ok_same [OF own(1)]) (use side_step_ledger [OF side(2)] in \<open>auto simp: same_work_def\<close>)
    then show ?thesis unfolding side(1) by (rule goal)
  next
    case (plan_start caller tid placement t r w)
    then show ?thesis using own by (auto simp: system_ok_def)
  next
    case (commit_start rid t i f now sid w branch base provider profile created)
    define own' where "own' = own(i := t_id t)"
    have ok': "ledger_ok own' limits (y_ledger y)"
      by (rule ledger_ok_own [OF own(1)]) (use commit_start in \<open>auto simp: own'_def\<close>)
    have "ledger_ok own' limits (k_ledger (snd (start_commit c f limits now rid sid w
        (new_attempt i t sid w branch base provider profile created) (y_kernel y))))"
      by (rule ledger_ok_start [OF ok']) (use commit_start in \<open>simp_all add: new_attempt_def own'_def\<close>)
    then show ?thesis using commit_start own(2) unfolding system_ok_def
      by (intro exI [of _ own']) (force simp: own'_def)
  next
    case (plan_report caller i summary path base tid used)
    then show ?thesis using own report_plan_task [OF own(1) plan_report(2)] by (auto simp: system_ok_def)
  next
    case (commit_report i tid used f now caller rep)
    have "ledger_ok own limits (k_ledger (snd (report_commit c f limits now caller i rep tid used (y_kernel y))))"
      by (rule ledger_ok_report [OF own(1)]) (use own(2) commit_report ledger_okD(5) [OF own(1)] in auto)
    then show ?thesis unfolding commit_report(1) by (rule goal)
  qed (simp_all add: goal sections_ok own(1))
qed

lemma steps_ok: "(step c limits)\<^sup>*\<^sup>* y y' \<Longrightarrow> system_ok limits y \<Longrightarrow> system_ok limits y'"
  by (induction rule: rtranclp_induct) (auto intro: step_ok)

section \<open>Properties\<close>

text \<open>
  C3: However the handlers of any number of threads interleave, and whichever writes fail, an
  attempt is at a task of the ledger, numbered within the budget the task has used and the limit
  allows, no two attempts at a task share a number, and a task has at most one live attempt, its
  newest one, while the task is active (or marked as integrated).
\<close>

theorem one_live_attempt:
  assumes "(step c limits)\<^sup>*\<^sup>* y0 y" and "system_ok limits y0" and "attempt_at (y_ledger y) i = Some a"
  shows "\<exists>t. task_at (y_ledger y) (at_task_id a) = Some t \<and> 1 \<le> at_n a \<and> at_n a \<le> t_attempts_used t
      \<and> t_attempts_used t \<le> max_attempts_per_task limits
      \<and> (is_live a \<longrightarrow> t_status t = TS_Active \<or> t_status t = TS_Integrated)
      \<and> (\<forall>j b. attempt_at (y_ledger y) j = Some b \<and> at_task_id b = at_task_id a \<and> j \<noteq> i \<longrightarrow>
           at_n b \<noteq> at_n a \<and> (is_live a \<longrightarrow> \<not> is_live b \<and> at_n b < at_n a))"
proof -
  obtain own where ok: "ledger_ok own limits (y_ledger y)"
    using steps_ok [OF assms(1,2)] by (auto simp: system_ok_def)
  note w = ledger_okD(2) [OF ok]
  have others: "at_n b \<noteq> at_n a \<and> (is_live a \<longrightarrow> \<not> is_live b \<and> at_n b < at_n a)"
    if b: "attempt_at (y_ledger y) j = Some b" "at_task_id b = at_task_id a" "j \<noteq> i" for j b
  proof -
    have "at_n b \<noteq> at_n a" using work_okD(5) [OF w b(1) assms(3)] b by auto
    then show ?thesis
      using settling_unique [OF w assms(3) b(1)] work_okD(4) [OF w assms(3) b(1)] b by (auto simp: settling_def)
  qed
  obtain t where "task_at (y_ledger y) (at_task_id a) = Some t" "fits t a" by (rule ledger_ok_task_of [OF ok assms(3)])
  then show ?thesis using ledger_okD(3) [OF ok] others by (auto simp: fits_def)
qed

text \<open>A run with a ready task, and a thread that planned to start it.\<close>

definition demo_limits :: orchestration_limits where
  "demo_limits = \<lparr>max_active_attempts_per_run = 1, max_tasks_per_run = 32, max_run_depth = 2,
     max_attempts_per_task = 3, stall_after = 0, waiting_attention_after = 0, starting_attention_after = 0,
     agent_may_integrate = IP_None\<rparr>"

definition demo_run :: run where
  "demo_run = new_run (RunId 1) (ProjectId 1) ''objective'' None (Some (WorkspaceId 1)) None None UNIX_EPOCH"

definition demo_task :: task where
  "demo_task = (new_task (TaskId 1) (RunId 1) ''title'' [] [] [] WM_Write False UNIX_EPOCH)\<lparr>t_status := TS_Ready\<rparr>"

definition demo_ledger :: ledger where
  "demo_ledger = \<lparr>lg_runs = [(RunId 1, demo_run)], lg_tasks = [(TaskId 1, demo_task)], lg_attempts = [],
     lg_board = [], lg_pointer = [], lg_conflict = [], lg_max_attempts_per_task = 3, lg_resuming = {},
     lg_in_flight = {}, lg_outbox = []\<rparr>"

definition demo_kernel :: kernel where
  "demo_kernel = \<lparr>k_ledger = demo_ledger,
     k_db = \<lparr>od_runs = [], od_tasks = [], od_deps = [], od_attempts = [], od_receipts = []\<rparr>,
     k_inner = idle_inner [], k_events = []\<rparr>"

definition demo_system :: system where
  "demo_system = \<lparr>y_kernel = demo_kernel, y_reports = {}, y_starts = {(RunId 1, demo_task)}\<rparr>"

definition demo_attempt :: attempt where
  "demo_attempt = new_attempt (AttemptId 1) demo_task (SessionId 1) (WorkspaceId 1) None None (AgentProviderId ''a'') None UNIX_EPOCH"

lemma demo_ok: "ledger_ok own demo_limits demo_ledger"
  by (auto simp: ledger_ok_def keys_ok_def work_ok_def owned_def demo_ledger_def demo_task_def new_task_def)

lemma demo_refuse: "refuse_stale_start demo_ledger (RunId 1) (TaskId 1) w demo_limits = Inr 1"
  by (simp add: refuse_stale_start_def check_def require_def demo_ledger_def demo_task_def new_task_def demo_run_def
     new_run_def startable_def rail_error_def allow_start_def dependencies_met_def live_in_run_def attempts_def
     has_writer_def saturating_add_def demo_limits_def)

definition demo_started :: "(protocol_error + attempt) \<times> kernel" where
  "demo_started = start_commit plain_codec (\<lambda>_ _. None) demo_limits UNIX_EPOCH (RunId 1)
    (SessionId 1) (WorkspaceId 1) demo_attempt demo_kernel"

lemma demo_started: "lg_attempts (k_ledger (snd demo_started)) = [(AttemptId 1, demo_attempt)]"
    "fst demo_started = Inr demo_attempt"
  unfolding demo_started_def
  using demo_refuse [of "WorkspaceId 1"]
   apply (simp_all add: start_commit_def demo_attempt_def new_attempt_def demo_kernel_def demo_task_def new_task_def
     saturating_add_def Let_def set_base_commit_def idle_inner_def)
   apply (simp_all add: demo_ledger_def demo_task_def new_task_def run_db_def insert_attempt_def update_task_def
    attempt_values_def task_values_def insert_unique_def statement_def put_task_def put_attempt_def broadcast_def Let_def)
  done

theorem one_live_attempt_witness:
  "\<exists>y. (step plain_codec demo_limits)\<^sup>*\<^sup>* demo_system y \<and> attempt_at (y_ledger y) (AttemptId 1) = Some demo_attempt
    \<and> is_live demo_attempt
    \<and> (\<exists>t. task_at (y_ledger y) (TaskId 1) = Some t \<and> t_attempts_used t \<le> max_attempts_per_task demo_limits)"
proof -
  define y where "y = demo_system\<lparr>y_kernel := snd demo_started\<rparr>"
  have s: "step plain_codec demo_limits demo_system y"
    unfolding y_def demo_started_def demo_attempt_def
    using commit_start [of "RunId 1" demo_task demo_system "AttemptId 1" plain_codec demo_limits "\<lambda>_ _. None" UNIX_EPOCH
        "SessionId 1" "WorkspaceId 1" None None "AgentProviderId ''a''" None UNIX_EPOCH]
    by (simp add: demo_system_def demo_kernel_def demo_ledger_def)
  have ok: "system_ok demo_limits demo_system"
    using demo_ok [of "\<lambda>_. TaskId 1"] by (auto simp: system_ok_def demo_system_def demo_kernel_def)
  have a: "attempt_at (y_ledger y) (AttemptId 1) = Some demo_attempt" by (simp add: y_def demo_started)
  have "at_task_id demo_attempt = TaskId 1" "is_live demo_attempt"
    by (simp_all add: demo_attempt_def new_attempt_def demo_task_def new_task_def is_live_def live_phase_def)
  then show ?thesis using one_live_attempt [OF r_into_rtranclp [of "step plain_codec demo_limits", OF s] ok a] s a by auto
qed

lemma update_fresh: "k \<notin> fst ` set al \<Longrightarrow> AList.update k v al = al @ [(k, v)]"
  by (induction al) auto

text \<open>
  C4: A start that commits is within the rails at that moment, whatever happened since it was
  planned: the run is open, the task was ready with its dependencies met and budget left, the run
  has at most the allowed number of live attempts with the new one, and a writing task starts in a
  workspace without another live writer.
\<close>

theorem start_respects_rails:
  assumes ok: "ledger_ok own limits (k_ledger k)" and fresh: "attempt_at (k_ledger k) (at_id a0) = None"
    and started: "start_commit c f limits now rid sid w a0 k = (Inr a, k')"
  shows "\<exists>t r. task_at (k_ledger k) (at_task_id a0) = Some t \<and> run_at (k_ledger k) rid = Some r \<and> is_open (run_status r)
      \<and> (t_status t = TS_Ready \<or> t_status t = TS_Pending)
      \<and> dependencies_met (t_after t) (task_status_at (k_ledger k))
      \<and> at_n a = t_attempts_used t + 1 \<and> at_n a \<le> max_attempts_per_task limits
      \<and> live_in_run rid (k_ledger k') \<le> unat (max_active_attempts_per_run limits)
      \<and> (t_mode t = WM_Write \<longrightarrow> \<not> has_writer w (k_ledger k))"
proof (cases rule: start_commit_cases [of c f limits now rid sid w a0 k])
  case (started t n)
  note s = this
  note led = s(4) [unfolded \<open>start_commit c f limits now rid sid w a0 k = (Inr a, k')\<close>, simplified]
  have a: "a = a0\<lparr>at_n := n\<rparr>" using s(1) assms(3) by simp
  obtain r where r: "run_at (k_ledger k) rid = Some r" "is_open (run_status r)"
      "t_status t = TS_Ready \<or> t_status t = TS_Pending" "n = saturating_add (t_attempts_used t) 1"
      "dependencies_met (t_after t) (task_status_at (k_ledger k))"
      "live_in_run rid (k_ledger k) < unat (max_active_attempts_per_run limits)"
      "\<not> (t_mode t = WM_Write \<and> has_writer w (k_ledger k))"
    by (rule refuse_stale_start_ok [OF s(2)]) (use s(3) in auto)
  note b = start_budget [OF s(2,3)]
  have n: "n = t_attempts_used t + 1"
  proof -
    have "t_attempts_used t \<noteq> - 1" using b(1) by (auto simp: word_order.extremum_strict)
    then show ?thesis using r(4) saturating_add_one(1) by simp
  qed
  have id: "t_id t = at_task_id a0" by (rule ledger_ok_task_id [OF ok s(3)])
  let ?P = "\<lambda>lg b. is_live b \<and> (case task_at lg (at_task_id b) of None \<Rightarrow> False | Some t \<Rightarrow> t_run_id t = rid)"
  have at: "attempts (k_ledger k') = attempts (k_ledger k) @ [a]"
    using fresh a unfolding led by (simp add: attempts_def put_attempt_def put_task_def update_fresh map_of_eq_None_iff)
  have P: "?P (k_ledger k') b = ?P (k_ledger k) b" for b
    using id s(3) unfolding led by (auto simp: ledger_simps started_task_def)
  have "live_in_run rid (k_ledger k') \<le> live_in_run rid (k_ledger k) + 1"
    unfolding live_in_run_def at P by simp
  then show ?thesis using r b s(3) n a by (auto intro!: exI [of _ t] exI [of _ r])
qed (use assms(3) in auto)

theorem start_respects_rails_witness:
  "\<exists>k' a. demo_started = (Inr a, k') \<and> at_n a = 1
    \<and> live_in_run (RunId 1) (k_ledger k') \<le> unat (max_active_attempts_per_run demo_limits)"
proof -
  obtain k' where s: "demo_started = (Inr demo_attempt, k')" using demo_started(2) by (metis prod.collapse)
  have "attempt_at (k_ledger demo_kernel) (at_id demo_attempt) = None"
    by (simp add: demo_kernel_def demo_ledger_def)
  moreover have "ledger_ok (\<lambda>_. TaskId 1) demo_limits (k_ledger demo_kernel)"
    using demo_ok by (simp add: demo_kernel_def)
  ultimately have "live_in_run (RunId 1) (k_ledger k') \<le> unat (max_active_attempts_per_run demo_limits)"
    using start_respects_rails [OF _ _ s [unfolded demo_started_def], of "\<lambda>_. TaskId 1"] by blast
  moreover have "at_n demo_attempt = 1"
    by (simp add: demo_attempt_def new_attempt_def demo_task_def new_task_def saturating_add_def)
  ultimately show ?thesis using s by blast
qed

text \<open>What a decision does to the revision of its task.\<close>

lemma promotes_revision:
  "promotes (k_ledger k) (t # ts) \<Longrightarrow>
    map_option t_revision (task_at (k_ledger (put_task t k)) i) = map_option t_revision (task_at (k_ledger k) i)"
  by (auto simp: promotes_def ledger_simps)

lemma write_tasks_revision:
  "promotes (k_ledger k) ts \<Longrightarrow> distinct (map t_id ts) \<Longrightarrow>
    map_option t_revision (task_at (k_ledger (snd (write_tasks c f n ts k))) i) = map_option t_revision (task_at (k_ledger k) i)"
proof (induction ts arbitrary: n k)
  case (Cons t ts)
  obtain r k' where r: "persist_task c (f n) t k = (r, k')" by fastforce
  then have k': "k_ledger k' = k_ledger k" using persist_ledger(1) [of c "f n" t k] by simp
  have "promotes (k_ledger (put_task t k')) ts" using Cons.prems k' promotes_put [of k' t ts] by auto
  moreover have "map_option t_revision (task_at (k_ledger (put_task t k')) i) = map_option t_revision (task_at (k_ledger k) i)"
    using Cons.prems(1) k' promotes_revision [of k' t ts i] by simp
  ultimately show ?case using Cons r k' by (cases r) auto
qed simp

text \<open>Either a decision leaves its task as it was, or it wrote it at the revision it expected.\<close>

definition decided_at :: "task_id \<Rightarrow> u64 \<Rightarrow> ledger \<Rightarrow> ledger \<Rightarrow> bool" where
  "decided_at tid ex lg lg' \<longleftrightarrow> task_at lg' tid = task_at lg tid
    \<or> map_option t_revision (task_at lg' tid) = Some (saturating_add ex 1)"

lemma decided_at_refl [simp]: "decided_at tid ex lg lg"
  by (simp add: decided_at_def)

lemma decided_at_section:
  assumes "k_ledger (snd r) = L" "decided_at tid ex lg L"
    and "\<And>u k1. k_ledger k1 = L \<Longrightarrow> k_ledger (snd (h u k1)) = L"
  shows "decided_at tid ex lg (k_ledger (snd (case r of (Inl e, k1) \<Rightarrow> (Inl e, k1) | (Inr u, k1) \<Rightarrow> h u k1)))"
  using assms by (cases r) (auto split: sum.split)

lemma map_prod_kernel [simp]: "k_ledger (snd (map_prod g id r)) = k_ledger (snd r)"
  by (cases r) simp

lemma decide_revision:
  assumes ok: "ledger_ok own limits' (k_ledger k)"
  shows "decided_at tid ex (k_ledger k) (k_ledger (snd (decide_task c f limits now caller tid ex d p q k)))"
proof (cases "check_decision (k_ledger k) caller tid ex d")
  case (Inl e)
  then show ?thesis
    by (cases d) (auto simp: decide_task_def decide_accept_def decide_reopen_def decide_retry_def decide_cancel_def Let_def)
next
  case (Inr u)
  then obtain t where t: "task_at (k_ledger k) tid = Some t" "t_revision t = ex" by (rule check_decision_ok)
  have id: "t_id t = tid" by (rule ledger_ok_task_id [OF ok t(1)])
  show ?thesis
  proof (cases d)
    case (TD_Accept nt)
    have st: "t_status t = TS_Review \<or> t_status t = TS_Blocked"
      by (rule check_decision_ok [OF Inr]) (use t TD_Accept in auto)
    let ?k1 = "put_task (decided TS_Accepted now t) k"
    have ok1: "ledger_ok own limits' (k_ledger ?k1)"
      by (rule ledger_ok_move [OF ok, of _ t]) (use t id st in \<open>auto simp: fits_def\<close>)
    let ?w = "write_tasks c f 0 (promote_ready (tasks_of (t_run_id t) (k_ledger ?k1))) ?k1"
    have "map_option t_revision (task_at (k_ledger (snd ?w)) tid) = Some (saturating_add ex 1)"
      using write_tasks_revision [OF promotes_ready [OF ok1] promoted_distinct [OF ok1]] t id
      by (simp add: ledger_simps)
    then have "decided_at tid ex (k_ledger k) (k_ledger (snd ?w))" by (simp add: decided_at_def)
    then show ?thesis using Inr t TD_Accept
      by (simp add: decide_task_def decide_accept_def Let_def) (rule decided_at_section [OF refl]; simp add: ledger_simps)
  next
    case (TD_Reject fb retry)
    show ?thesis
    proof (cases retry)
      case False
      show ?thesis
      proof (cases "session_live k (Option.bind (newest_attempt tid (k_ledger k)) at_session_id)")
        case True
        then obtain a where "newest_attempt tid (k_ledger k) = Some a" using session_live_attempt by blast
        then show ?thesis using Inr t id TD_Reject True False
          by (simp add: decide_task_def decide_reopen_def Let_def newest_attempt_put_task)
            (rule decided_at_section [OF refl]; auto simp: ledger_simps decided_at_def)
      qed (use Inr t TD_Reject False in \<open>simp add: decide_task_def decide_reopen_def Let_def\<close>)
    next
      case True
      show ?thesis
      proof (cases "t_attempts_used t \<ge> max_attempts_per_task limits")
        case spent: True
        then show ?thesis using Inr t id TD_Reject True
          by (simp add: decide_task_def decide_retry_def Let_def)
            (rule decided_at_section [OF refl]; auto simp: ledger_simps decided_at_def)
      next
        case False
        then show ?thesis using Inr t id TD_Reject True
          by (cases "newest_attempt tid (k_ledger k)"; simp add: decide_task_def decide_retry_def Let_def newest_attempt_put_task)
            (intro conjI impI decided_at_section [OF refl]; auto simp: ledger_simps decided_at_def split: option.split)+
      qed
    qed
  next
    case (TD_Cancel kill)
    then show ?thesis using Inr t id
      by (simp add: decide_task_def decide_cancel_def Let_def)
        (intro conjI impI decided_at_section [OF refl]; auto simp: ledger_simps decided_at_def)
  qed (use Inr in \<open>simp add: check_decision_def section_simps\<close>)
qed

text \<open>
  C23: Of two decisions made at one revision of a task, the second finds the first: once a decision
  changed its task, every other decision for that revision, of whatever kind and by whomever, is
  refused and changes nothing, also when the first one ended with an error of the database.
\<close>

theorem one_decision_per_revision:
  assumes ok: "ledger_ok own limits' (k_ledger k)" and ex: "ex \<noteq> - 1"
    and first: "decide_task c f limits now caller tid ex d p q k = (r, k1)"
    and changed: "task_at (k_ledger k1) tid \<noteq> task_at (k_ledger k) tid"
  shows "\<exists>e. decide_task c f' limits'' now' caller' tid ex d' p' q' k1 = (Inl e, k1)"
proof -
  have "map_option t_revision (task_at (k_ledger k1) tid) = Some (saturating_add ex 1)"
    using decide_revision [OF ok, of tid ex c f limits now caller d p q] first changed by (simp add: decided_at_def)
  moreover have "saturating_add ex 1 \<noteq> ex" using saturating_add_one_strict [OF ex] by auto
  ultimately have "check_decision (k_ledger k1) caller' tid ex d \<noteq> Inr u" for d u
    by (auto elim!: check_decision_ok)
  then have "\<exists>e. check_decision (k_ledger k1) caller' tid ex d = Inl e" for d
    by (cases "check_decision (k_ledger k1) caller' tid ex d") auto
  then obtain e where "check_decision (k_ledger k1) caller' tid ex d' = Inl e" by blast
  then show ?thesis
    by (cases d') (auto simp: decide_task_def decide_accept_def decide_reopen_def decide_retry_def decide_cancel_def Let_def)
qed

theorem one_decision_per_revision_witness:
  "\<exists>r k1. decide_task plain_codec (\<lambda>_ _. None) demo_limits UNIX_EPOCH None (TaskId 1) 1 (TD_Cancel False) None None demo_kernel = (r, k1)
    \<and> (\<exists>e. decide_task plain_codec (\<lambda>_ _. None) demo_limits UNIX_EPOCH None (TaskId 1) 1 (TD_Accept None) None None k1 = (Inl e, k1))"
proof -
  obtain r k1 where d: "decide_task plain_codec (\<lambda>_ _. None) demo_limits UNIX_EPOCH None (TaskId 1) 1 (TD_Cancel False) None None
      demo_kernel = (r, k1)" by fastforce
  have "k_ledger k1 = k_ledger (snd (decide_task plain_codec (\<lambda>_ _. None) demo_limits UNIX_EPOCH None (TaskId 1) 1
      (TD_Cancel False) None None demo_kernel))" using d by simp
  also have "lg_tasks \<dots> = [(TaskId 1, decided TS_Cancelled UNIX_EPOCH demo_task)]"
    by (simp add: decide_task_def decide_cancel_def check_decision_def check_def require_def demo_kernel_def demo_ledger_def
        demo_task_def new_task_def demo_run_def new_run_def allow_controller_def rail_error_def Let_def then_do_def persist_task_def
        run_db_def update_task_def task_values_def statement_def put_task_def broadcast_def attempts_def decided_def)
  finally have "lg_tasks (k_ledger k1) = [(TaskId 1, decided TS_Cancelled UNIX_EPOCH demo_task)]" .
  then have "task_at (k_ledger k1) (TaskId 1) \<noteq> task_at (k_ledger demo_kernel) (TaskId 1)"
    by (simp add: demo_kernel_def demo_ledger_def demo_task_def new_task_def decided_def)
  then show ?thesis
    using one_decision_per_revision [OF _ _ d, of "\<lambda>_. TaskId 1" demo_limits] d demo_ok [of "\<lambda>_. TaskId 1"]
    by (simp add: demo_kernel_def)
qed


lemma demo_started_ledger: "k_ledger (snd demo_started) =
    demo_ledger\<lparr>lg_tasks := [(TaskId 1, started_task 1 UNIX_EPOCH demo_task)], lg_attempts := [(AttemptId 1, demo_attempt)]\<rparr>"
proof -
  have id: "fst (start_commit plain_codec (\<lambda>_ _. None) demo_limits UNIX_EPOCH (RunId 1) (SessionId 1) (WorkspaceId 1)
      demo_attempt demo_kernel) = Inr demo_attempt" using demo_started(2) by (simp add: demo_started_def)
  show ?thesis
  proof (cases rule: start_commit_cases [of plain_codec "\<lambda>_ _. None" demo_limits UNIX_EPOCH "RunId 1" "SessionId 1"
        "WorkspaceId 1" demo_attempt demo_kernel])
    case (started t n)
    have "n = 1" "t = demo_task" using started(2,3) demo_refuse
      by (simp_all add: demo_kernel_def demo_attempt_def new_attempt_def demo_task_def new_task_def demo_ledger_def)
    then show ?thesis using started(4)
      by (simp add: demo_started_def put_attempt_def put_task_def demo_kernel_def demo_ledger_def started_task_def
          demo_attempt_def new_attempt_def demo_task_def new_task_def saturating_add_def)
  qed (use id in simp_all)
qed

lemma demo_started_ok: "ledger_ok (\<lambda>_. TaskId 1) demo_limits (k_ledger (snd demo_started))"
  unfolding demo_started_def
  by (rule ledger_ok_start) (use demo_ok in
    \<open>simp_all add: demo_kernel_def demo_attempt_def new_attempt_def demo_task_def new_task_def demo_ledger_def\<close>)

definition demo_report :: attempt_report where
  "demo_report = \<lparr>rep_outcome = RO_Done, rep_summary = ''ok'', rep_verification = None, rep_result_path = None,
     rep_reported_head = None, rep_dirty_at_report = False, rep_files_changed = []\<rparr>"

lemma demo_report_commits: "fst (report_commit plain_codec (\<lambda>_ _. None) demo_limits UNIX_EPOCH (Some (SessionId 1)) (AttemptId 1)
    demo_report (TaskId 1) 1 (snd demo_started)) = Inr ()"
  by (simp add: report_commit_def demo_started_ledger Let_def settle_check_def settle_report_def newer_exists_def attempts_def
      demo_attempt_def new_attempt_def demo_task_def new_task_def live_phase_def saturating_add_def then_do_def persist_attempt_def
      persist_task_def run_db_def update_attempt_def update_task_def attempt_values_def task_values_def statement_def
      demo_report_def started_task_def task_status_after_report_def put_task_def put_attempt_def
      split: prod.split)


text \<open>
  C25: Once a session is forgotten, no attempt, no run and no queued pointer of the ledger names it, every
  attempt that was live in it is lost, every other attempt keeps its phase, and nothing else about the
  numbering of attempts changed. (A board entry it wrote keeps its name as the author.)
\<close>

theorem forgotten_session_is_gone:
  assumes ok: "ledger_ok own limits (k_ledger k)"
  shows "(\<forall>i a. attempt_at (k_ledger k) i = Some a \<longrightarrow>
        (\<exists>a'. attempt_at (k_ledger (forget_session c f now sid k)) i = Some a' \<and> at_session_id a' \<noteq> Some sid
          \<and> at_task_id a' = at_task_id a \<and> at_n a' = at_n a
          \<and> at_phase a' = (if at_session_id a = Some sid \<and> is_live a then AP_Lost else at_phase a)))
      \<and> (\<forall>r x. run_at (k_ledger (forget_session c f now sid k)) r = Some x \<longrightarrow> run_controller x \<noteq> Some sid)
      \<and> map_of (lg_pointer (k_ledger (forget_session c f now sid k))) sid = None
      \<and> ledger_ok own limits (k_ledger (forget_session c f now sid k))"
proof -
  let ?lg = "k_ledger (forget_session c f now sid k)"
  note f = forget_session_ledger [OF ok refl, of c f now sid]
  have phase: "at_phase (forgotten now sid a) = (if at_session_id a = Some sid \<and> is_live a then AP_Lost else at_phase a)"
    and rest: "at_session_id (forgotten now sid a) \<noteq> Some sid" "at_task_id (forgotten now sid a) = at_task_id a"
      "at_n (forgotten now sid a) = at_n a" for a
    by (simp_all add: forgotten_def Let_def lose_def is_live_def)
  have at: "attempt_at ?lg i = map_option (forgotten now sid) (attempt_at (k_ledger k) i)" for i
    by (simp add: f(1) map_of_map_snd)
  have runs: "run_controller x \<noteq> Some sid" if "run_at ?lg r = Some x" for r x
    using that unfolding f(4) by (cases "run_at (k_ledger k) r") (auto split: if_splits)
  have ptr: "map_of (lg_pointer ?lg) sid = None" unfolding f(5) by (simp add: delete_conv)
  show ?thesis using ledger_ok_forget_session [OF ok, of c f now sid] ptr runs phase rest by (simp add: at)
qed

theorem forgotten_session_is_gone_witness:
  "\<exists>a. attempt_at (k_ledger (forget_session plain_codec (\<lambda>_ _. None) UNIX_EPOCH (SessionId 1) (snd demo_started))) (AttemptId 1) = Some a
    \<and> at_phase a = AP_Lost \<and> at_session_id a \<noteq> Some (SessionId 1)"
  using forgotten_session_is_gone [OF demo_started_ok, of plain_codec "\<lambda>_ _. None" UNIX_EPOCH "SessionId 1",
      THEN conjunct1, rule_format, of "AttemptId 1" demo_attempt]
  by (simp add: demo_started_ledger demo_attempt_def new_attempt_def is_live_def live_phase_def, blast)

end
