(* ===== verification/Orch_Integrate.thy ===== *)
theory Orch_Integrate
  imports Orch_System
begin

text \<open>
  Integrating a task into the branch of its run (\<open>integrate_task\<close> of \<open>orchestration/mod.rs\<close>). The handler
  works on git between its critical sections; what git answered is an argument, the ledger work is the code's.
\<close>

section \<open>Integrating a task\<close>

datatype integrate_how = IH_Merge bool | IH_Continue | IH_Abort | IH_Unrecognized

text \<open>
  The answers of git in the integration checkout: whether a stopped operation ran to its end, whether
  it was aborted, whether the merge succeeded, the squashed commit, the head and the paths in conflict.
\<close>

record git_work =
  gw_continue :: "string + bool"
  gw_abort :: "string + unit"
  gw_merge :: "string + bool"
  gw_commit :: "string + string"
  gw_head :: "string option"
  gw_conflicts :: "string list"

record integration_result =
  ir_state :: string
  ir_commit :: "string option"
  ir_conflicts :: "string list"

definition git_err :: "string \<Rightarrow> protocol_error" where
  "git_err m = protocol_error_new GitError m"

text \<open>The end both a finished continuation and a merge reach.\<close>

definition integrated_with ::
  "codec \<Rightarrow> writes \<Rightarrow> timestamp \<Rightarrow> run_id \<Rightarrow> task_id \<Rightarrow> string option \<Rightarrow> kernel
    \<Rightarrow> (protocol_error + integration_result) \<times> kernel" where
  "integrated_with c f now rid tid head k =
    (case mark_integrated c f now tid head k of
       (Inl e, k1) \<Rightarrow> (Inl e, k1)
     | (Inr _, k1) \<Rightarrow>
         (Inr \<lparr>ir_state = ''integrated'', ir_commit = head, ir_conflicts = []\<rparr>, clear_conflict rid k1))"

definition stopped_with ::
  "run_id \<Rightarrow> string list \<Rightarrow> kernel \<Rightarrow> (protocol_error + integration_result) \<times> kernel" where
  "stopped_with rid paths k =
    (Inr \<lparr>ir_state = ''conflict'', ir_commit = None, ir_conflicts = paths\<rparr>, set_conflict rid k)"

definition integrate_task ::
  "codec \<Rightarrow> writes \<Rightarrow> orchestration_limits \<Rightarrow> timestamp \<Rightarrow> session_id option \<Rightarrow> task_id \<Rightarrow> integrate_how
    \<Rightarrow> git_work \<Rightarrow> kernel \<Rightarrow> (protocol_error + integration_result) \<times> kernel" where
  "integrate_task c f limits now caller tid how g k =
    (case integrate_check limits caller tid (k_ledger k) of
       Inl e \<Rightarrow> (Inl e, k)
     | Inr (r, branch, w) \<Rightarrow>
         if in_workspaces (k_inner k) w = None then (Inl (not_found ''workspace''), k)
         else (case how of
           IH_Continue \<Rightarrow>
             (case gw_continue g of
                Inl m \<Rightarrow> (Inl (git_err m), k)
              | Inr ended \<Rightarrow>
                  if ended then integrated_with c f now (run_id r) tid (gw_head g) k
                  else stopped_with (run_id r) (gw_conflicts g) k)
         | IH_Abort \<Rightarrow>
             (case gw_abort g of
                Inl m \<Rightarrow> (Inl (git_err m), k)
              | Inr _ \<Rightarrow> (Inr \<lparr>ir_state = ''aborted'', ir_commit = None, ir_conflicts = []\<rparr>,
                  clear_conflict (run_id r) k))
         | IH_Merge squash \<Rightarrow>
             (case merge_check tid branch (k_ledger k) of
                Inl e \<Rightarrow> (Inl e, k)
              | Inr b \<Rightarrow>
                  (case gw_merge g of
                     Inl m \<Rightarrow> (Inl (git_err m), k)
                   | Inr False \<Rightarrow> stopped_with (run_id r) (gw_conflicts g) k
                   | Inr True \<Rightarrow>
                       (case (if squash then map_sum git_err Some (gw_commit g) else Inr (gw_head g)) of
                          Inl e \<Rightarrow> (Inl e, k)
                        | Inr head \<Rightarrow> integrated_with c f now (run_id r) tid head k)))
         | IH_Unrecognized \<Rightarrow> (Inl (invalid_request ''integrate how''), k)))"

section \<open>What it leaves\<close>

lemma case_section:
  assumes "\<And>u k1. k_ledger (snd (h u k1)) = k_ledger k1"
  shows "k_ledger (snd (case r of (Inl e, k1) \<Rightarrow> (Inl e, k1) | (Inr u, k1) \<Rightarrow> h u k1)) = k_ledger (snd r)"
  using assms by (cases r) (auto split: sum.split)

lemma write_tasks_kept:
  "promotes (k_ledger k) ts \<Longrightarrow> distinct (map t_id ts) \<Longrightarrow> task_at (k_ledger k) i = Some t \<Longrightarrow> t_status t \<noteq> TS_Pending \<Longrightarrow>
    task_at (k_ledger (snd (write_tasks c f n ts k))) i = Some t"
proof (induction ts arbitrary: n k)
  case (Cons u ts)
  obtain r k' where r: "persist_task c (f n) u k = (r, k')" by fastforce
  then have k': "k_ledger k' = k_ledger k" using persist_ledger(1) [of c "f n" u k] by simp
  have p: "promotes (k_ledger (put_task u k')) ts" using Cons.prems k' promotes_put [of k' u ts] by auto
  have "task_at (k_ledger (put_task u k')) i = Some t"
    using Cons.prems(1,3,4) k' by (auto simp: promotes_def ledger_simps)
  then show ?case using Cons p r k' by (cases r) auto
qed simp

lemma mark_integrated_task:
  assumes ok: "ledger_ok own limits (k_ledger k)" and t: "task_at (k_ledger k) tid = Some t"
  shows "task_at (k_ledger (snd (mark_integrated c f now tid commit k))) tid = Some (decided TS_Integrated now t)"
proof -
  let ?k1 = "put_task (decided TS_Integrated now t) k"
  define k2 where "k2 = (case newest_attempt tid (k_ledger ?k1) of
      None \<Rightarrow> ?k1 | Some a \<Rightarrow> put_attempt (a\<lparr>at_integrated_commit := commit\<rparr>) ?k1)"
  note m = ledger_ok_mark [OF ok t k2_def]
  let ?w = "write_tasks c f 0 (promote_ready (tasks_of (t_run_id t) (k_ledger k2)))"
  have "task_at (k_ledger (snd (?w k2))) tid = Some (decided TS_Integrated now t)"
    by (rule write_tasks_kept [OF promotes_ready [OF m(1)] promoted_distinct [OF m(1)] m(2)]) simp
  then have w: "task_at (k_ledger (snd (then_do ?w (write_attempts c f m as) k2))) tid = Some (decided TS_Integrated now t)"
    for m as by (simp add: ledger_simps)
  show ?thesis using t w
    by (simp add: mark_integrated_def Let_def case_section ledger_simps flip: k2_def)
qed

lemma integrate_check_ok:
  "integrate_check limits caller tid lg = Inr (r, b, w) \<Longrightarrow> \<exists>t. task_at lg tid = Some t \<and> run_at lg (t_run_id t) = Some r"
  by (auto simp: integrate_check_def section_simps)

text \<open>
  C40: Merging asks for an accepted task, continuing a stopped merge asks for nothing: with a task in any
  other status a merge request fails and changes nothing, while a request that continues what stopped in
  the run's checkout, whichever task stopped there, marks the task it names as integrated.
\<close>

theorem continue_integrates_any_task:
  assumes ok: "ledger_ok own limits' (k_ledger k)" and t: "task_at (k_ledger k) tid = Some t" "t_status t \<noteq> TS_Accepted"
    and chk: "integrate_check limits caller tid (k_ledger k) = Inr (r, b, w)" "in_workspaces (k_inner k) w \<noteq> None"
    and git: "gw_continue g = Inr True"
  shows "(\<exists>e. integrate_task c f limits now caller tid (IH_Merge squash) g k = (Inl e, k))
    \<and> map_option t_status (task_at (k_ledger (snd (integrate_task c f limits now caller tid IH_Continue g k))) tid)
        = Some TS_Integrated"
proof
  show "\<exists>e. integrate_task c f limits now caller tid (IH_Merge squash) g k = (Inl e, k)"
    using chk t by (auto simp: integrate_task_def merge_check_def check_def task_status_at_def)
  have "lg_tasks (k_ledger (snd (integrated_with c f now (run_id r) tid (gw_head g) k)))
      = lg_tasks (k_ledger (snd (mark_integrated c f now tid (gw_head g) k)))"
    by (auto simp: integrated_with_def clear_conflict_def split: prod.split sum.split)
  then show "map_option t_status (task_at (k_ledger (snd (integrate_task c f limits now caller tid IH_Continue g k))) tid)
      = Some TS_Integrated"
    using mark_integrated_task [OF ok t(1), of c f now "gw_head g"] chk git by (auto simp: integrate_task_def)
qed

text \<open>A task that was cancelled.\<close>

definition cancelled_kernel :: kernel where
  "cancelled_kernel = demo_kernel\<lparr>k_ledger := demo_ledger\<lparr>lg_tasks := [(TaskId 1, demo_task\<lparr>t_status := TS_Cancelled\<rparr>)]\<rparr>,
     k_inner := (idle_inner [])\<lparr>in_workspaces := [WorkspaceId 1 \<mapsto>
       \<lparr>ws_id = WorkspaceId 1, ws_project_id = ProjectId 1, ws_path = []\<rparr>]\<rparr>\<rparr>"

definition git_done :: git_work where
  "git_done = \<lparr>gw_continue = Inr True, gw_abort = Inr (), gw_merge = Inr True, gw_commit = Inr ''c'',
     gw_head = Some ''h'', gw_conflicts = []\<rparr>"

theorem continue_integrates_any_task_witness:
  "task_status_at (k_ledger (snd (integrate_task plain_codec (\<lambda>_ _. None) demo_limits UNIX_EPOCH None (TaskId 1) IH_Continue
      git_done cancelled_kernel))) (TaskId 1) = Some TS_Integrated"
proof -
  have "ledger_ok (\<lambda>_. TaskId 1) demo_limits (k_ledger cancelled_kernel)"
    by (auto simp: ledger_ok_def keys_ok_def work_ok_def owned_def cancelled_kernel_def demo_ledger_def demo_task_def new_task_def)
  moreover have "integrate_check demo_limits None (TaskId 1) (k_ledger cancelled_kernel)
      = Inr (demo_run, None, WorkspaceId 1)"
    by (simp add: integrate_check_def require_def rail_error_def allow_controller_def cancelled_kernel_def demo_ledger_def
        demo_task_def new_task_def demo_run_def new_run_def newest_attempt_def attempts_def)
  moreover have "task_at (k_ledger cancelled_kernel) (TaskId 1) = Some (demo_task\<lparr>t_status := TS_Cancelled\<rparr>)"
      "in_workspaces (k_inner cancelled_kernel) (WorkspaceId 1) \<noteq> None"
    by (simp_all add: cancelled_kernel_def demo_ledger_def)
  ultimately show ?thesis
    using continue_integrates_any_task [of "\<lambda>_. TaskId 1" demo_limits cancelled_kernel "TaskId 1"
        "demo_task\<lparr>t_status := TS_Cancelled\<rparr>" demo_limits None demo_run None "WorkspaceId 1" git_done]
    by (simp add: task_status_at_def git_done_def)
qed

end
