(* ===== verification/Orch_Close.thy ===== *)
theory Orch_Close
  imports Orch_Integrate
begin

text \<open>
  Closing a run (\<open>close_run\<close> of \<open>daemon/src/orchestration/mod.rs\<close>). The handler lists the tasks under
  the lock and releases it; it reads the revision of each task in one section and cancels the task at that
  revision in another, cleans up, and closes the run in a last section. Between any two of them every other
  handler may run.
\<close>

section \<open>A settled task stays settled\<close>

text \<open>A task is settled when it is final and nobody works at it.\<close>

definition settled :: "ledger \<Rightarrow> task_id \<Rightarrow> bool" where
  "settled lg i \<longleftrightarrow> (\<forall>t. task_at lg i = Some t \<longrightarrow> is_final (t_status t))
     \<and> (\<forall>j a. attempt_at lg j = Some a \<and> at_task_id a = i \<longrightarrow> \<not> is_live a)"

lemma settledD:
  assumes "settled lg i"
  shows "task_at lg i = Some t \<Longrightarrow> is_final (t_status t)" "attempt_at lg j = Some a \<Longrightarrow> is_live a \<Longrightarrow> at_task_id a \<noteq> i"
  using assms by (auto simp: settled_def)

lemma settledI:
  "(\<And>t. task_at lg i = Some t \<Longrightarrow> is_final (t_status t)) \<Longrightarrow>
    (\<And>j a. attempt_at lg j = Some a \<Longrightarrow> is_live a \<Longrightarrow> at_task_id a \<noteq> i) \<Longrightarrow> settled lg i"
  by (auto simp: settled_def)

lemma settled_same: "settled lg i \<Longrightarrow> lg_tasks lg' = lg_tasks lg \<Longrightarrow> lg_attempts lg' = lg_attempts lg \<Longrightarrow> settled lg' i"
  by (rule settledI) (auto dest: settledD)

lemma settled_put_task:
  "settled (k_ledger k) i \<Longrightarrow> (t_id t = i \<Longrightarrow> is_final (t_status t)) \<Longrightarrow> settled (k_ledger (put_task t k)) i"
  by (auto simp: settled_def ledger_simps)

lemma settled_put_attempt:
  "settled (k_ledger k) i \<Longrightarrow> (is_live a \<Longrightarrow> at_task_id a \<noteq> i) \<Longrightarrow> settled (k_ledger (put_attempt a k)) i"
  by (auto simp: settled_def ledger_simps split: if_splits)

lemma settled_map_attempts:
  assumes "settled lg i" "\<And>a. at_task_id (g a) = at_task_id a \<and> (is_live (g a) \<longrightarrow> is_live a)"
  shows "settled (lg\<lparr>lg_attempts := map (\<lambda>(j, a). (j, g a)) (lg_attempts lg)\<rparr>) i"
  using assms(1) by (simp add: settled_def map_of_map_snd) (metis assms(2))

lemma settled_section:
  assumes "k_ledger (snd r) = L" "settled L i" and "\<And>u k1. k_ledger k1 = L \<Longrightarrow> k_ledger (snd (h u k1)) = L"
  shows "settled (k_ledger (snd (case r of (Inl e, k1) \<Rightarrow> (Inl e, k1) | (Inr u, k1) \<Rightarrow> h u k1))) i"
  using assms by (cases r) (auto split: sum.split)

lemma settled_write_tasks:
  "settled (k_ledger k) i \<Longrightarrow> promotes (k_ledger k) ts \<Longrightarrow> distinct (map t_id ts) \<Longrightarrow>
    settled (k_ledger (snd (write_tasks c f n ts k))) i"
proof (induction ts arbitrary: n k)
  case (Cons t ts)
  obtain r k' where r: "persist_task c (f n) t k = (r, k')" by fastforce
  then have k': "k_ledger k' = k_ledger k" using persist_ledger(1) [of c "f n" t k] by simp
  have "settled (k_ledger (put_task t k')) i"
    by (rule settled_put_task) (use Cons.prems k' in \<open>auto simp: promotes_def settled_def\<close>)
  moreover have "promotes (k_ledger (put_task t k')) ts" using Cons.prems k' promotes_put [of k' t ts] by auto
  ultimately show ?case using Cons r k' by (cases r) auto
qed simp

lemma settled_accept:
  assumes ok: "ledger_ok own limits (k_ledger k)" and s: "settled (k_ledger k) i"
  shows "settled (k_ledger (snd (decide_accept c f now caller tid ex note k))) i"
proof (cases "check_decision (k_ledger k) caller tid ex (TD_Accept note)")
  case (Inr u)
  then obtain t r where t: "task_at (k_ledger k) tid = Some t" "t_status t = TS_Review \<or> t_status t = TS_Blocked"
    by (rule check_decision_ok) auto
  have id: "t_id t = tid" by (rule ledger_ok_task_id [OF ok t(1)])
  have ne: "tid \<noteq> i" using settledD(1) [OF s] t by auto
  let ?k1 = "put_task (decided TS_Accepted now t) k"
  have put: "ledger_ok own limits (k_ledger ?k1)"
    by (rule ledger_ok_move [OF ok, of _ t]) (use t id in \<open>auto simp: fits_def\<close>)
  have "settled (k_ledger ?k1) i" by (rule settled_put_task [OF s]) (use id ne in auto)
  then have "settled (k_ledger (snd (write_tasks c f 0 (promote_ready (tasks_of (t_run_id t) (k_ledger ?k1))) ?k1))) i"
    by (rule settled_write_tasks) (intro promotes_ready [OF put] promoted_distinct [OF put])+
  then show ?thesis using Inr t(1)
    by (simp add: decide_accept_def Let_def) (rule settled_section [OF refl]; simp add: ledger_simps)
qed (use s in \<open>simp add: decide_accept_def\<close>)

lemma settled_reopen:
  assumes ok: "ledger_ok own limits (k_ledger k)" and s: "settled (k_ledger k) i"
  shows "settled (k_ledger (snd (decide_reopen c f now caller tid ex fb k))) i"
proof (cases "check_decision (k_ledger k) caller tid ex (TD_Reject fb False)")
  case (Inr u)
  then obtain t0 r where t0: "task_at (k_ledger k) tid = Some t0" "t_status t0 = TS_Review \<or> t_status t0 = TS_Blocked"
    by (rule check_decision_ok) auto
  show ?thesis
  proof (cases "session_live k (Option.bind (newest_attempt tid (k_ledger k)) at_session_id)")
    case True
    then obtain a0 where a0: "newest_attempt tid (k_ledger k) = Some a0" using session_live_attempt by blast
    define t where "t = (decided TS_Active now t0)\<lparr>t_feedback := Some (fst (clamp_text fb MAX_MESSAGE_BYTES))\<rparr>"
    define a where "a = a0\<lparr>at_phase := AP_Running, at_outcome := None, at_settled_at := None\<rparr>"
    have ne: "tid \<noteq> i" using settledD(1) [OF s] t0 by auto
    have id: "t_id t = tid" using ledger_ok_task_id [OF ok t0(1)] by (simp add: t_def)
    have "at_task_id a = tid" using newest_attempt_Some(2) [OF ok a0] by (simp add: a_def)
    then have "settled (k_ledger (put_attempt a (put_task t k))) i"
      using id ne by (intro settled_put_attempt settled_put_task [OF s]) auto
    then show ?thesis using Inr t0(1) True a0
      by (simp add: decide_reopen_def Let_def newest_attempt_put_task flip: t_def a_def)
        (rule settled_section; simp add: ledger_simps)
  qed (use s Inr in \<open>simp add: decide_reopen_def Let_def\<close>)
qed (use s in \<open>simp add: decide_reopen_def Let_def\<close>)

lemma settled_retry:
  assumes ok: "ledger_ok own limits (k_ledger k)" and s: "settled (k_ledger k) i"
  shows "settled (k_ledger (snd (decide_retry c f limits' now caller tid ex fb rp rf k))) i"
proof (cases "check_decision (k_ledger k) caller tid ex (TD_Reject fb True)")
  case (Inr u)
  then obtain t0 r where t0: "task_at (k_ledger k) tid = Some t0" "t_status t0 = TS_Review \<or> t_status t0 = TS_Blocked"
    by (rule check_decision_ok) auto
  have id: "t_id t0 = tid" by (rule ledger_ok_task_id [OF ok t0(1)])
  have ne: "tid \<noteq> i" using settledD(1) [OF s] t0 by auto
  define t where "t = (decided TS_Ready now t0)\<lparr>t_feedback := Some (fst (clamp_text fb MAX_MESSAGE_BYTES))\<rparr>"
  show ?thesis
  proof (cases "t_attempts_used t0 \<ge> max_attempts_per_task limits'")
    case True
    have "settled (k_ledger (put_task (decided TS_Failed now t0) k)) i" by (rule settled_put_task [OF s]) simp
    then show ?thesis using Inr t0(1) True
      by (simp add: decide_retry_def Let_def) (rule settled_section; simp add: ledger_simps)
  next
    case False
    have put: "settled (k_ledger (put_task t k)) i" by (rule settled_put_task [OF s]) (use id ne in \<open>simp add: t_def\<close>)
    show ?thesis
    proof (cases "newest_attempt tid (k_ledger k)")
      case None
      then show ?thesis using Inr t0(1) False put
        by (simp add: decide_retry_def Let_def newest_attempt_put_task flip: t_def)
          (intro conjI impI settled_section; auto simp: ledger_simps split: option.split)
    next
      case (Some a0)
      define a where "a = a0\<lparr>at_phase := AP_Rejected, at_settled_at := Some now\<rparr>"
      have "settled (k_ledger (put_attempt a (put_task t k))) i"
        by (rule settled_put_attempt [OF put]) (simp add: a_def is_live_def live_phase_def)
      then show ?thesis using Inr t0(1) False Some
        by (simp add: decide_retry_def Let_def newest_attempt_put_task flip: t_def a_def)
          (intro conjI impI settled_section; auto simp: ledger_simps split: option.split)
    qed
  qed
qed (use s in \<open>simp add: decide_retry_def Let_def\<close>)

text \<open>Cancelling settles its task.\<close>

definition cancelled_ledger :: "timestamp \<Rightarrow> task \<Rightarrow> ledger \<Rightarrow> ledger" where
  "cancelled_ledger now t lg = lg\<lparr>lg_tasks := AList.update (t_id t) (decided TS_Cancelled now t) (lg_tasks lg),
     lg_attempts := map (\<lambda>(j, a). (j, if at_task_id a = t_id t \<and> is_live a then lose LR_Cancelled now a else a)) (lg_attempts lg)\<rparr>"

lemma decide_cancel_ledger:
  assumes ok: "ledger_ok own limits (k_ledger k)" and t: "task_at (k_ledger k) tid = Some t"
    and chk: "check_decision (k_ledger k) caller tid ex (TD_Cancel kill) = Inr ()"
  shows "k_ledger (snd (decide_cancel c f now caller tid ex kill k)) = cancelled_ledger now t (k_ledger k)"
proof -
  note id = ledger_ok_task_id [OF ok t]
  show ?thesis using chk t id
    by (simp add: decide_cancel_def Let_def case_section ledger_simps cancelled_ledger_def put_task_def)
qed

lemma settled_cancelled:
  assumes "settled lg i \<or> t_id t = i" shows "settled (cancelled_ledger now t lg) i"
  using assms by (simp add: settled_def cancelled_ledger_def map_of_map_snd update_conv') (metis (full_types) lose_fields(4) lose_fields(2))

lemma settled_cancel:
  assumes ok: "ledger_ok own limits (k_ledger k)" and s: "settled (k_ledger k) i"
  shows "settled (k_ledger (snd (decide_cancel c f now caller tid ex kill k))) i"
proof (cases "check_decision (k_ledger k) caller tid ex (TD_Cancel kill)")
  case (Inr u)
  then obtain t where t: "task_at (k_ledger k) tid = Some t" by (rule check_decision_ok)
  show ?thesis using decide_cancel_ledger [OF ok t, of caller ex kill c f now] Inr settled_cancelled s by simp
qed (use s in \<open>simp add: decide_cancel_def\<close>)

lemma settled_decide:
  assumes "ledger_ok own limits (k_ledger k)" "settled (k_ledger k) i"
  shows "settled (k_ledger (snd (decide_task c f limits' now caller tid ex d p q k))) i"
  using assms settled_accept settled_reopen settled_retry settled_cancel by (cases d) (simp_all add: decide_task_def)

lemma settled_report:
  assumes ok: "ledger_ok own limits (k_ledger k)" and s: "settled (k_ledger k) i"
    and tid: "\<And>a. attempt_at (k_ledger k) j = Some a \<Longrightarrow> at_task_id a = tid"
  shows "settled (k_ledger (snd (report_commit c f limits' now caller j rep tid used k))) i"
proof (cases "attempt_at (k_ledger k) j")
  case (Some a0)
  show ?thesis
  proof (cases "settle_check caller a0 (k_ledger k)")
    case (Inr u)
    define a where "a = a0\<lparr>at_phase := AP_Reported, at_outcome := Some (rep_outcome rep),
      at_settled_at := Some now, at_report := Some rep\<rparr>"
    obtain t0 where t0: "task_at (k_ledger k) (at_task_id a0) = Some t0" by (rule ledger_ok_task_of [OF ok Some])
    define t where "t = t0\<lparr>t_status := task_status_after_report (rep_outcome rep) used (max_attempts_per_task limits'),
      t_updated_at := now, t_revision := saturating_add (t_revision t0) 1\<rparr>"
    have "at_task_id a0 \<noteq> i" using settledD(2) [OF s Some] settle_check_live [OF Inr] by simp
    then have "settled (k_ledger (put_task t (put_attempt a k))) i"
      using ledger_ok_task_id [OF ok t0] by (intro settled_put_task settled_put_attempt [OF s]) (auto simp: a_def t_def)
    then show ?thesis using Some Inr t0 tid [OF Some]
      by (simp add: report_commit_def Let_def flip: a_def t_def) (rule settled_section; simp add: ledger_simps)
  qed (use s Some in \<open>simp add: report_commit_def\<close>)
qed (use s in \<open>simp add: report_commit_def\<close>)

lemma settled_start:
  assumes ok: "ledger_ok own limits (k_ledger k)" and s: "settled (k_ledger k) i"
  shows "settled (k_ledger (snd (start_commit c f limits' now rid sid w a0 k))) i"
proof -
  have key: "settled (k_ledger (put_task (started_task n now t) k)) i \<and> at_task_id a0 \<noteq> i"
    if "refuse_stale_start (k_ledger k) rid (at_task_id a0) w limits' = Inr n" "task_at (k_ledger k) (at_task_id a0) = Some t" for n t
  proof -
    have ne: "at_task_id a0 \<noteq> i" using start_budget(4) [OF that] settledD(1) [OF s] that(2) by auto
    then show ?thesis using ledger_ok_task_id [OF ok that(2)]
      by (auto intro!: settled_put_task [OF s] simp: started_task_def)
  qed
  show ?thesis
  proof (cases rule: start_commit_cases [of c f limits' now rid sid w a0 k])
    case (failed e t n)
    then show ?thesis using key by simp
  next
    case (started t n)
    then show ?thesis using key [OF started(2,3)] by (auto intro!: settled_put_attempt)
  qed (use s in simp)
qed

lemma settled_integrated:
  assumes ok: "ledger_ok own limits (k_ledger k)" and s: "settled (k_ledger k) i"
  shows "settled (k_ledger (snd (mark_integrated c f now tid commit k))) i"
proof (cases "task_at (k_ledger k) tid")
  case (Some t)
  let ?k1 = "put_task (decided TS_Integrated now t) k"
  define k2 where "k2 = (case newest_attempt tid (k_ledger ?k1) of
      None \<Rightarrow> ?k1 | Some a \<Rightarrow> put_attempt (a\<lparr>at_integrated_commit := commit\<rparr>) ?k1)"
  note m = ledger_ok_mark [OF ok Some k2_def]
  have s1: "settled (k_ledger ?k1) i" by (rule settled_put_task [OF s]) simp
  have live: "is_live a \<Longrightarrow> at_task_id a \<noteq> i" if n: "newest_attempt tid (k_ledger ?k1) = Some a" for a
    using newest_attempt_Some(1) [OF ok, of tid a] n settledD(2) [OF s] by (auto simp: newest_attempt_put_task)
  have "settled (k_ledger k2) i"
    using s1 live by (auto simp: k2_def is_live_def split: option.split intro!: settled_put_attempt)
  then have "settled (k_ledger (snd (write_tasks c f 0 (promote_ready (tasks_of (t_run_id t) (k_ledger k2))) k2))) i"
    by (rule settled_write_tasks) (intro promotes_ready [OF m(1)] promoted_distinct [OF m(1)])+
  then show ?thesis using Some
    by (simp add: mark_integrated_def Let_def flip: k2_def) (rule settled_section [OF refl]; simp add: ledger_simps)
qed (use s in \<open>simp add: mark_integrated_def\<close>)

lemma settled_resume_pairs:
  "settled (k_ledger k) i \<Longrightarrow> (\<And>j t. task_at (k_ledger k) j = Some t \<Longrightarrow> t_id t = j) \<Longrightarrow>
    (\<And>j tid. (j, tid) \<in> set ps \<Longrightarrow> tid \<noteq> i \<and> (\<forall>a. attempt_at (k_ledger k) j = Some a \<longrightarrow> at_id a = j \<and> at_task_id a \<noteq> i)) \<Longrightarrow>
    settled (k_ledger (snd (resume_pairs c f now n ps k))) i"
proof (induction ps arbitrary: n k)
  case (Cons p ps)
  obtain j tid where p: "p = (j, tid)" by (cases p)
  note ps = Cons.prems(3) [OF list.set_intros(2)]
  show ?case
  proof (cases "attempt_at (k_ledger k) j")
    case None
    then show ?thesis using Cons.IH [OF Cons.prems(1,2) ps] p by simp
  next
    case (Some a0)
    define a where "a = a0\<lparr>at_phase := AP_Running, at_settled_at := None\<rparr>"
    have ne: "tid \<noteq> i" "at_task_id a \<noteq> i" "at_id a = j" using Cons.prems(3) [of j tid] p Some by (auto simp: a_def)
    let ?k1 = "put_attempt a k"
    have s1: "settled (k_ledger ?k1) i" by (rule settled_put_attempt [OF Cons.prems(1)]) (rule ne)
    have keyed1: "task_at (k_ledger ?k1) j' = Some t \<Longrightarrow> t_id t = j'" for j' t using Cons.prems(2) by (simp add: ledger_simps)
    have ps1: "tid' \<noteq> i \<and> (\<forall>b. attempt_at (k_ledger ?k1) j' = Some b \<longrightarrow> at_id b = j' \<and> at_task_id b \<noteq> i)"
      if "(j', tid') \<in> set ps" for j' tid'
      using ps [OF that] ne by (simp add: ledger_simps)
    show ?thesis
    proof (cases "task_at (k_ledger ?k1) tid")
      case None
      then show ?thesis using Cons.IH [OF s1 keyed1 ps1, of n] p Some by (simp add: Let_def flip: a_def)
    next
      case t0: (Some t0)
      define t where "t = decided TS_Active now t0"
      let ?w = "then_do (persist_attempt c (f n) a) (persist_task c (f (Suc n)) t) (put_task t ?k1)"
      obtain r k3 where w: "?w = (r, k3)" by fastforce
      have "k_ledger (snd ?w) = k_ledger (put_task t ?k1)" by (simp add: ledger_simps)
      then have k3: "k_ledger k3 = k_ledger (put_task t ?k1)" using w by simp
      have id: "t_id t = tid" using keyed1 [OF t0] by (simp add: t_def)
      have s3: "settled (k_ledger k3) i" unfolding k3 by (rule settled_put_task [OF s1]) (use id ne in simp)
      have keyed3: "task_at (k_ledger k3) j' = Some u \<Longrightarrow> t_id u = j'" for j' u
        using keyed1 id unfolding k3 by (auto simp: ledger_simps split: if_splits)
      have ps3: "tid' \<noteq> i \<and> (\<forall>b. attempt_at (k_ledger k3) j' = Some b \<longrightarrow> at_id b = j' \<and> at_task_id b \<noteq> i)"
        if "(j', tid') \<in> set ps" for j' tid'
      proof -
        have "attempt_at (k_ledger k3) = attempt_at (k_ledger ?k1)" unfolding k3 by (simp only: ledger_simps)
        then show ?thesis using ps1 [OF that] by metis
      qed
      have eq: "resume_pairs c f now n (p # ps) k = (case ?w of (Inl e, k3) \<Rightarrow> (Inl e, k3)
          | (Inr _, k3) \<Rightarrow> (case resume_pairs c f now (Suc (Suc n)) ps k3 of
               (Inl e, k4) \<Rightarrow> (Inl e, k4) | (Inr rs, k4) \<Rightarrow> (Inr ((t, a) # rs), k4)))"
        unfolding t_def using p Some t0 by (simp add: Let_def flip: a_def)
      have "settled (k_ledger (snd (resume_pairs c f now (Suc (Suc n)) ps k3))) i" by (rule Cons.IH [OF s3 keyed3 ps3])
      then show ?thesis unfolding eq w using s3
        by (cases r; cases "resume_pairs c f now (Suc (Suc n)) ps k3"; cases "fst (resume_pairs c f now (Suc (Suc n)) ps k3)")
          simp_all
    qed
  qed
qed simp

lemma settled_answered:
  assumes ok: "ledger_ok own limits (k_ledger k)" and s: "settled (k_ledger k) i"
  shows "settled (k_ledger (snd (resume_blocked c f now ss k))) i"
  unfolding resume_blocked_def Let_def
proof (rule settled_resume_pairs [OF s ledger_ok_task_id [OF ok]])
  fix j tid
  assume "(j, tid) \<in> set (map (\<lambda>a. (at_id a, at_task_id a)) (filter (\<lambda>a.
      (case at_session_id a of None \<Rightarrow> False | Some s \<Rightarrow> s \<in> set ss) \<and> at_phase a = AP_Reported
      \<and> at_outcome a = Some RO_Blocked \<and> task_status_at (k_ledger k) (at_task_id a) = Some TS_Blocked) (attempts (k_ledger k))))"
  then obtain a where a: "a \<in> set (attempts (k_ledger k))" "j = at_id a" "tid = at_task_id a"
    "task_status_at (k_ledger k) tid = Some TS_Blocked" by auto
  have at: "attempt_at (k_ledger k) j = Some a" using a in_attempts [OF ok] by simp
  have "tid \<noteq> i" using a(4) settledD(1) [OF s] by (auto simp: task_status_at_def)
  then show "tid \<noteq> i \<and> (\<forall>b. attempt_at (k_ledger k) j = Some b \<longrightarrow> at_id b = j \<and> at_task_id b \<noteq> i)"
    using at a by simp
qed

lemma settled_exit:
  assumes ok: "ledger_ok own limits (k_ledger k)" and s: "settled (k_ledger k) i"
  shows "settled (k_ledger (note_session_exit c f limits' now sid k)) i"
proof (cases "find (\<lambda>a. at_session_id a = Some sid \<and> is_live a) (map snd (lg_attempts (k_ledger k)))")
  case (Some a0)
  then have a0: "a0 \<in> set (attempts (k_ledger k))" "is_live a0" by (auto simp: find_Some_iff attempts_def)
  then have at: "attempt_at (k_ledger k) (at_id a0) = Some a0" using in_attempts [OF ok] by simp
  obtain t0 where t0: "task_at (k_ledger k) (at_task_id a0) = Some t0" by (rule ledger_ok_task_of [OF ok at])
  have ne: "at_task_id a0 \<noteq> i" using settledD(2) [OF s at a0(2)] .
  define a where "a = lose LR_ExitedWithoutReport now a0"
  define t where "t = (if waits_for_attempt (t_status t0) then task_after_loss (max_attempts_per_task limits') now t0 else t0)"
  have "settled (k_ledger (put_task t (put_attempt a k))) i"
    using ledger_ok_task_id [OF ok t0] ne
    by (intro settled_put_task settled_put_attempt [OF s]) (auto simp: a_def t_def task_after_loss_def)
  then show ?thesis unfolding a_def t_def using Some at t0 settled_put_attempt [OF s, of a]
    by (auto simp: note_session_exit_def Let_def ledger_simps a_def split: if_splits)
qed (use s in \<open>simp add: note_session_exit_def\<close>)

lemma settled_forget_session:
  assumes ok: "ledger_ok own limits (k_ledger k)" and s: "settled (k_ledger k) i"
  shows "settled (k_ledger (forget_session c f now sid k)) i"
proof -
  note f = forget_session_ledger [OF ok refl, of c f now sid]
  have n: "\<not> (\<exists>a \<in> set (attempts (k_ledger k)). lost_by sid a \<and> at_task_id a = i)"
    using settledD(2) [OF s] in_attempts [OF ok] by (auto simp: lost_by_def)
  have "task_at (k_ledger (forget_session c f now sid k)) i = task_at (k_ledger k) i" unfolding f(2) if_not_P [OF n] ..
  then have t: "is_final (t_status t)" if "task_at (k_ledger (forget_session c f now sid k)) i = Some t" for t
    using settledD(1) [OF s] that by simp
  have "at_task_id a \<noteq> i" if "attempt_at (k_ledger (forget_session c f now sid k)) j = Some a" "is_live a" for j a
  proof -
    have "map_option (forgotten now sid) (attempt_at (k_ledger k) j) = Some a" using that(1) by (simp add: f(1) map_of_map_snd)
    then obtain z where "attempt_at (k_ledger k) j = Some z" "a = forgotten now sid z" by auto
    then show ?thesis using settledD(2) [OF s, of j z] that(2) by simp
  qed
  then show ?thesis using t by (intro settledI)
qed

lemma settled_forget_workspace:
  assumes "settled (k_ledger k) i" shows "settled (k_ledger (forget_workspace c f wid k)) i"
proof -
  let ?g = "\<lambda>a. if at_workspace_id a = Some wid then a\<lparr>at_workspace_id := None\<rparr> else a"
  have "settled ((k_ledger k)\<lparr>lg_attempts := map (\<lambda>(i, a). (i, ?g a)) (lg_attempts (k_ledger k))\<rparr>) i"
    by (rule settled_map_attempts [OF assms]) (simp add: is_live_def)
  then show ?thesis by (rule settled_same) (simp_all add: forget_workspace_def Let_def ledger_simps)
qed

lemma settled_forget_project:
  assumes ok: "ledger_ok own limits lg" and s: "settled lg i"
  shows "settled (forget_project pid lg) i"
proof -
  have "task_at (forget_project pid lg) i = None \<or> task_at (forget_project pid lg) i = task_at lg i"
    by (auto simp: forget_project_def Let_def map_of_filter_fst)
  moreover have "attempt_at (forget_project pid lg) j = Some a \<Longrightarrow> attempt_at lg j = Some a" for j a
    using ledger_okD(1) [OF ok]
    by (auto simp: forget_project_def Let_def keys_ok_def map_of_filter_snd split: option.splits if_splits)
  ultimately show ?thesis by (intro settledI) (use settledD [OF s] in \<open>metis option.distinct(1)\<close>)+
qed

text \<open>Unless a new task takes its id, no step of any handler works at a settled task again.\<close>

lemma settled_step:
  assumes st: "step c limits y y'" and sys: "system_ok limits y" and s: "settled (y_ledger y) i"
    and fresh: "task_at (y_ledger y) i = None \<Longrightarrow> task_at (y_ledger y') i = None"
  shows "settled (y_ledger y') i"
proof -
  obtain own where own: "ledger_ok own limits (y_ledger y)" "\<forall>i tid used. (i, tid, used) \<in> y_reports y \<longrightarrow> own i = tid"
    using sys by (auto simp: system_ok_def)
  show ?thesis using st
  proof cases
    case (side k')
    then show ?thesis using settled_same [OF s] side_step_ledger [OF side(2)] by (simp add: same_work_def)
  next
    case (create_task j f order now caller rid title spec acceptance after mode allow_subruns)
    show ?thesis
    proof (cases rule: create_task_cases [OF own(1) create_task(2), of c f order limits now caller rid title spec acceptance
          after mode allow_subruns])
      case 1
      then show ?thesis using s create_task by simp
    next
      case (2 st)
      then have "j \<noteq> i" using fresh create_task by (auto simp: ledger_simps new_task_def)
      then show ?thesis using create_task 2 by (auto intro!: settled_put_task [OF s] simp: new_task_def)
    qed
  next
    case (commit_report j tid used f now caller rep)
    then show ?thesis using settled_report [OF own(1) s, of j tid] own(2) ledger_okD(5) [OF own(1)] by auto
  qed (use s own(1) in \<open>simp_all add: settled_start settled_decide settled_integrated settled_answered settled_exit
      settled_forget_session settled_forget_workspace settled_forget_project\<close>)
qed

section \<open>The handler\<close>

definition close_run_check ::
  "orchestration_limits \<Rightarrow> session_id option \<Rightarrow> run_id \<Rightarrow> bool \<Rightarrow> ledger
    \<Rightarrow> protocol_error + (task_id list \<times> workspace_id option)" where
  "close_run_check limits caller rid pull_request lg =
    try_bind (require (run_at lg rid) (not_found ''run'')) (\<lambda>r.
    try_bind (rail_error (allow_controller caller (run_controller r))) (\<lambda>_.
    try_bind (if caller \<noteq> None \<and> pull_request
              then rail_error (allow_agent_integrate True (agent_may_integrate limits)) else Inr ()) (\<lambda>_.
    Inr (map t_id (tasks_of rid lg), run_integration_workspace r))))"

text \<open>
  Where the thread of a close is between two sections: before the list, before reading the revision of the
  next task, between reading one and deciding at it, before and after the clean-up and the pull request,
  and at its answer. \<open>cl_checks\<close> records what the check of each cancellation said.
\<close>

datatype close_stage =
    CloseList
  | CloseRead "task_id list"
  | CloseDecide task_id u64 "task_id list"
  | CloseClean
  | CloseCommit
  | CloseDone "protocol_error + unit"

record closer =
  cl_stage :: close_stage
  cl_tasks :: "task_id list"
  cl_integration :: "workspace_id option"
  cl_checks :: "(task_id \<times> (protocol_error + unit)) list"

definition close_start :: closer where
  "close_start = \<lparr>cl_stage = CloseList, cl_tasks = [], cl_integration = None, cl_checks = []\<rparr>"

definition close_list ::
  "orchestration_limits \<Rightarrow> session_id option \<Rightarrow> run_id \<Rightarrow> bool \<Rightarrow> bool \<Rightarrow> ledger \<Rightarrow> closer \<Rightarrow> closer" where
  "close_list limits caller rid cancel pull_request lg cl =
    (case close_run_check limits caller rid pull_request lg of
       Inl e \<Rightarrow> cl\<lparr>cl_stage := CloseDone (Inl e)\<rparr>
     | Inr (ids, ws) \<Rightarrow> cl\<lparr>cl_stage := (if cancel then CloseRead ids else CloseClean), cl_tasks := ids, cl_integration := ws\<rparr>)"

definition close_read :: "ledger \<Rightarrow> task_id \<Rightarrow> task_id list \<Rightarrow> closer \<Rightarrow> closer" where
  "close_read lg i ids cl =
    cl\<lparr>cl_stage := (case task_at lg i of None \<Rightarrow> CloseRead ids | Some t \<Rightarrow> CloseDecide i (t_revision t) ids)\<rparr>"

text \<open>The answer of the decision is ignored.\<close>

definition close_decide ::
  "codec \<Rightarrow> writes \<Rightarrow> orchestration_limits \<Rightarrow> timestamp \<Rightarrow> session_id option \<Rightarrow> task_id \<Rightarrow> u64 \<Rightarrow> task_id list
    \<Rightarrow> kernel \<Rightarrow> closer \<Rightarrow> kernel \<times> closer" where
  "close_decide c f limits now caller i seen ids k cl =
    (snd (decide_task c f limits now caller i seen (TD_Cancel True) None None k),
     cl\<lparr>cl_stage := CloseRead ids,
        cl_checks := cl_checks cl @ [(i, check_decision (k_ledger k) caller i seen (TD_Cancel True))]\<rparr>)"

text \<open>\<open>created\<close> is the answer of the service when a pull request is asked for.\<close>

definition close_pull_request :: "(protocol_error + unit) option \<Rightarrow> closer \<Rightarrow> closer" where
  "close_pull_request created cl =
    cl\<lparr>cl_stage :=
      (case created of
         None \<Rightarrow> CloseCommit
       | Some answer \<Rightarrow>
           if cl_integration cl = None
           then CloseDone (Inl (precondition_failed ''run has no integration workspace to open a PR from''))
           else (case answer of Inl e \<Rightarrow> CloseDone (Inl e) | Inr _ \<Rightarrow> CloseCommit))\<rparr>"

text \<open>
  One close among the other handlers. What its clean-up does to the ledger, sessions that end and are removed
  and workspaces that go, is among the steps of the others. The ids of new tasks are fresh.
\<close>

inductive close_step ::
  "codec \<Rightarrow> orchestration_limits \<Rightarrow> session_id option \<Rightarrow> run_id \<Rightarrow> bool \<Rightarrow> bool
    \<Rightarrow> system \<times> closer \<Rightarrow> system \<times> closer \<Rightarrow> bool"
  for c limits caller rid cancel pull_request where
  close_other: "step c limits y y' \<Longrightarrow>
    (\<forall>i \<in> set (cl_tasks cl). task_at (y_ledger y) i = None \<longrightarrow> task_at (y_ledger y') i = None) \<Longrightarrow>
    close_step c limits caller rid cancel pull_request (y, cl) (y', cl)"
| close_lists: "cl_stage cl = CloseList \<Longrightarrow>
    close_step c limits caller rid cancel pull_request (y, cl)
      (y, close_list limits caller rid cancel pull_request (y_ledger y) cl)"
| close_reads: "cl_stage cl = CloseRead (i # ids) \<Longrightarrow>
    close_step c limits caller rid cancel pull_request (y, cl) (y, close_read (y_ledger y) i ids cl)"
| close_decides: "cl_stage cl = CloseDecide i seen ids \<Longrightarrow>
    close_decide c f limits now caller i seen ids (y_kernel y) cl = (k', cl') \<Longrightarrow>
    close_step c limits caller rid cancel pull_request (y, cl) (y\<lparr>y_kernel := k'\<rparr>, cl')"
| close_decided: "cl_stage cl = CloseRead [] \<Longrightarrow>
    close_step c limits caller rid cancel pull_request (y, cl) (y, cl\<lparr>cl_stage := CloseClean\<rparr>)"
| close_cleans: "cl_stage cl = CloseClean \<Longrightarrow> pull_request = (created \<noteq> None) \<Longrightarrow>
    close_step c limits caller rid cancel pull_request (y, cl) (y, close_pull_request created cl)"
| close_commits: "cl_stage cl = CloseCommit \<Longrightarrow> close_run_commit c f now rid cancel (y_kernel y) = (r, k') \<Longrightarrow>
    close_step c limits caller rid cancel pull_request (y, cl) (y\<lparr>y_kernel := k'\<rparr>, cl\<lparr>cl_stage := CloseDone r\<rparr>)"

section \<open>What a close leaves\<close>

lemma close_decide_ledger:
  assumes ok: "ledger_ok own limits' (k_ledger k)"
    and d: "close_decide c f limits now caller i seen ids k cl = (k', cl')"
  shows "check_decision (k_ledger k) caller i seen (TD_Cancel True) = Inr () \<Longrightarrow> settled (k_ledger k') i"
    and "task_at (k_ledger k) j = None \<Longrightarrow> task_at (k_ledger k') j = None"
proof -
  have k': "k' = snd (decide_task c f limits now caller i seen (TD_Cancel True) None None k)"
    using d by (simp add: close_decide_def)
  show "settled (k_ledger k') i" if chk: "check_decision (k_ledger k) caller i seen (TD_Cancel True) = Inr ()"
  proof -
    obtain t where t: "task_at (k_ledger k) i = Some t" using chk by (rule check_decision_ok)
    then show ?thesis using decide_cancel_ledger [OF ok t chk] settled_cancelled ledger_ok_task_id [OF ok t]
      by (simp add: k' decide_task_def)
  qed
  show "task_at (k_ledger k') j = None" if j: "task_at (k_ledger k) j = None"
  proof (cases "check_decision (k_ledger k) caller i seen (TD_Cancel True)")
    case (Inl e)
    then show ?thesis using j by (simp add: k' decide_task_def decide_cancel_def)
  next
    case (Inr u)
    then obtain t where t: "task_at (k_ledger k) i = Some t" by (rule check_decision_ok)
    then show ?thesis using decide_cancel_ledger [OF ok t, of caller seen True] Inr j ledger_ok_task_id [OF ok t]
      by (auto simp: k' decide_task_def cancelled_ledger_def update_conv')
  qed
qed

text \<open>The tasks whose turn has yet to come.\<close>

fun turns_left :: "close_stage \<Rightarrow> task_id list" where
  "turns_left (CloseRead ids) = ids"
| "turns_left (CloseDecide i seen ids) = i # ids"
| "turns_left _ = []"

definition closer_ok :: "orchestration_limits \<Rightarrow> system \<Rightarrow> closer \<Rightarrow> bool" where
  "closer_ok limits y cl \<longleftrightarrow> system_ok limits y
     \<and> (cl_stage cl = CloseList \<longrightarrow> cl_tasks cl = [])
     \<and> (\<exists>past. cl_tasks cl = past @ turns_left (cl_stage cl)
           \<and> (\<forall>i \<in> set past. task_at (y_ledger y) i = None \<or> i \<in> fst ` set (cl_checks cl)))
     \<and> (\<forall>i. (i, Inr ()) \<in> set (cl_checks cl) \<longrightarrow> settled (y_ledger y) i \<and> i \<in> set (cl_tasks cl))"

lemma closer_okI:
  assumes "system_ok limits y" "cl_stage cl = CloseList \<Longrightarrow> cl_tasks cl = []" "cl_tasks cl = past @ turns_left (cl_stage cl)"
    "\<And>i. i \<in> set past \<Longrightarrow> task_at (y_ledger y) i = None \<or> i \<in> fst ` set (cl_checks cl)"
    "\<And>i. (i, Inr ()) \<in> set (cl_checks cl) \<Longrightarrow> settled (y_ledger y) i \<and> i \<in> set (cl_tasks cl)"
  shows "closer_ok limits y cl"
  using assms unfolding closer_ok_def by blast

lemma closer_okE:
  assumes "closer_ok limits y cl"
  obtains past own where "system_ok limits y" "cl_stage cl = CloseList \<Longrightarrow> cl_tasks cl = []"
    "cl_tasks cl = past @ turns_left (cl_stage cl)"
    "\<And>i. i \<in> set past \<Longrightarrow> task_at (y_ledger y) i = None \<or> i \<in> fst ` set (cl_checks cl)"
    "\<And>i. (i, Inr ()) \<in> set (cl_checks cl) \<Longrightarrow> settled (y_ledger y) i \<and> i \<in> set (cl_tasks cl)"
    "ledger_ok own limits (y_ledger y)"
  using assms unfolding closer_ok_def system_ok_def by metis

lemma close_step_ok:
  assumes "close_step c limits caller rid True pr (y, cl) (y', cl')" "closer_ok limits y cl"
  shows "closer_ok limits y' cl'"
proof -
  obtain past own where ok: "system_ok limits y" "cl_stage cl = CloseList \<Longrightarrow> cl_tasks cl = []"
    "cl_tasks cl = past @ turns_left (cl_stage cl)"
    "\<And>i. i \<in> set past \<Longrightarrow> task_at (y_ledger y) i = None \<or> i \<in> fst ` set (cl_checks cl)"
    "\<And>i. (i, Inr ()) \<in> set (cl_checks cl) \<Longrightarrow> settled (y_ledger y) i \<and> i \<in> set (cl_tasks cl)"
    and own: "ledger_ok own limits (y_ledger y)" using assms(2) by (rule closer_okE) blast
  show ?thesis using assms(1)
  proof cases
    case close_other
    show ?thesis unfolding \<open>cl' = cl\<close>
    proof (rule closer_okI [OF step_ok [OF close_other(2) ok(1)] ok(2,3)])
      fix i assume "i \<in> set past"
      then show "task_at (y_ledger y') i = None \<or> i \<in> fst ` set (cl_checks cl)" using ok(3) ok(4) close_other(3) by auto
    next
      fix i assume "(i, Inr ()) \<in> set (cl_checks cl)"
      then show "settled (y_ledger y') i \<and> i \<in> set (cl_tasks cl)"
        using settled_step [OF close_other(2) ok(1)] ok(5) close_other(3) by blast
    qed
  next
    case close_lists
    have "cl_tasks cl = []" "past = []" using ok(2,3) close_lists by auto
    then have n: "(i, Inr ()) \<notin> set (cl_checks cl)" for i using ok(5) by auto
    show ?thesis unfolding close_lists(1,2)
      by (rule closer_okI [where past = "[]"])
        (use ok(1) n \<open>cl_tasks cl = []\<close> in \<open>auto simp: close_list_def split: sum.splits prod.splits\<close>)
  next
    case (close_reads i ids)
    show ?thesis
    proof (cases "task_at (y_ledger y) i")
      case None
      show ?thesis unfolding close_reads(1,2)
        by (rule closer_okI [where past = "past @ [i]"]) (use ok close_reads(3) None in \<open>auto simp: close_read_def\<close>)
    next
      case (Some t)
      show ?thesis unfolding close_reads(1,2)
        by (rule closer_okI [where past = "past"]) (use ok close_reads(3) Some in \<open>auto simp: close_read_def\<close>)
    qed
  next
    case (close_decides i seen ids f now k')
    note led = close_decide_ledger [OF own close_decides(3)]
    have cl': "cl' = cl\<lparr>cl_stage := CloseRead ids,
        cl_checks := cl_checks cl @ [(i, check_decision (y_ledger y) caller i seen (TD_Cancel True))]\<rparr>"
      and k': "k' = snd (decide_task c f limits now caller i seen (TD_Cancel True) None None (y_kernel y))"
      using close_decides(3) by (simp_all add: close_decide_def)
    have st: "step c limits y y'" unfolding close_decides(1) k' by (rule decide)
    show ?thesis
    proof (rule closer_okI [where past = "past @ [i]"])
      show "system_ok limits y'" by (rule step_ok [OF st ok(1)])
      show "cl_tasks cl' = (past @ [i]) @ turns_left (cl_stage cl')" using ok(3) close_decides(2) by (simp add: cl')
      show "task_at (y_ledger y') j = None \<or> j \<in> fst ` set (cl_checks cl')" if "j \<in> set (past @ [i])" for j
        using that ok(4) [of j] led(2) by (auto simp: cl' close_decides(1))
      show "settled (y_ledger y') j \<and> j \<in> set (cl_tasks cl')" if "(j, Inr ()) \<in> set (cl_checks cl')" for j
      proof (cases "(j, Inr ()) \<in> set (cl_checks cl)")
        case True
        then show ?thesis using settled_step [OF st ok(1)] ok(5) led(2) by (auto simp: cl' close_decides(1))
      next
        case False
        then show ?thesis using that led(1) ok(3) close_decides(2) by (auto simp: cl' close_decides(1))
      qed
    qed (simp add: cl')
  next
    case close_decided
    show ?thesis unfolding close_decided(1,2)
      by (rule closer_okI [where past = "past"]) (use ok close_decided(3) in auto)
  next
    case (close_cleans created)
    show ?thesis unfolding close_cleans(1,2)
      by (rule closer_okI [where past = "past"])
        (use ok close_cleans(3) in \<open>auto simp: close_pull_request_def split: option.splits sum.splits if_splits\<close>)
  next
    case (close_commits f now r k')
    have k': "k' = snd (close_run_commit c f now rid True (y_kernel y))" using close_commits(4) by simp
    have s: "side_step (y_kernel y) k'" unfolding k' by (rule side_close)
    then have st: "step c limits y y'" unfolding close_commits(1) by (rule side)
    have led: "lg_tasks (k_ledger k') = lg_tasks (y_ledger y)" using side_step_ledger [OF s] by (simp add: same_work_def)
    show ?thesis unfolding close_commits(2)
    proof (rule closer_okI [where past = "past"])
      show "system_ok limits y'" by (rule step_ok [OF st ok(1)])
      show "settled (y_ledger y') j \<and> j \<in> set (cl_tasks (cl\<lparr>cl_stage := CloseDone r\<rparr>))"
        if "(j, Inr ()) \<in> set (cl_checks (cl\<lparr>cl_stage := CloseDone r\<rparr>))" for j
        using that settled_step [OF st ok(1)] ok(5) led by (auto simp: close_commits(1))
    qed (use ok close_commits(3) led in \<open>auto simp: close_commits(1)\<close>)
  qed
qed

lemma close_steps_ok:
  "(close_step c limits caller rid True pr)\<^sup>*\<^sup>* (y0, cl0) (y, cl) \<Longrightarrow> closer_ok limits y0 cl0 \<Longrightarrow> closer_ok limits y cl"
  by (induction rule: rtranclp_induct2) (auto intro: close_step_ok)

lemma close_start_ok: "system_ok limits y \<Longrightarrow> closer_ok limits y close_start"
  by (rule closer_okI [where past = "[]"]) (simp_all add: close_start_def)

text \<open>Every run is kept under its own id.\<close>

definition runs_keyed :: "ledger \<Rightarrow> bool" where
  "runs_keyed lg \<longleftrightarrow> (\<forall>(i, r) \<in> set (lg_runs lg). run_id r = i)"

lemma runs_keyedD: "runs_keyed lg \<Longrightarrow> run_at lg i = Some r \<Longrightarrow> run_id r = i"
  by (auto simp: runs_keyed_def dest!: map_of_SomeD)

lemma set_update_subset: "set (AList.update i x al) \<subseteq> insert (i, x) (set al)"
  by (induction al) auto

lemma put_runs: "lg_runs (k_ledger (put_task t k)) = lg_runs (k_ledger k)" "lg_runs (k_ledger (put_attempt a k)) = lg_runs (k_ledger k)"
  by (simp_all add: put_task_def put_attempt_def)

lemma write_tasks_runs: "lg_runs (k_ledger (snd (write_tasks c f n ts k))) = lg_runs (k_ledger k)"
proof (induction ts arbitrary: n k)
  case (Cons t ts)
  obtain r k' where r: "persist_task c (f n) t k = (r, k')" by fastforce
  then have "k_ledger k' = k_ledger k" using persist_ledger(1) [of c "f n" t k] by simp
  then show ?case using Cons r by (cases r) (auto simp: put_runs)
qed simp

lemmas runs_simps = case_section ledger_simps put_runs write_tasks_runs Let_def

lemma decide_runs: "lg_runs (k_ledger (snd (decide_task c f limits now caller tid ex d p q k))) = lg_runs (k_ledger k)"
proof (cases d)
  case (TD_Accept nt)
  then show ?thesis by (simp add: decide_task_def decide_accept_def runs_simps split: sum.split option.split)
next
  case (TD_Reject fb retry)
  then show ?thesis
    by (simp add: decide_task_def decide_reopen_def decide_retry_def runs_simps split: sum.split option.split)
next
  case (TD_Cancel kill)
  then show ?thesis by (simp add: decide_task_def decide_cancel_def runs_simps split: sum.split option.split)
qed (simp add: decide_task_def)

lemma report_runs: "lg_runs (k_ledger (snd (report_commit c f limits now caller i rep tid used k))) = lg_runs (k_ledger k)"
  by (simp add: report_commit_def runs_simps split: sum.split option.split)

lemma start_runs: "lg_runs (k_ledger (snd (start_commit c f limits now rid sid w a k))) = lg_runs (k_ledger k)"
  by (cases rule: start_commit_cases [of c f limits now rid sid w a k]) (simp_all add: put_runs)

lemma integrated_runs: "lg_runs (k_ledger (snd (mark_integrated c f now tid commit k))) = lg_runs (k_ledger k)"
  by (simp add: mark_integrated_def runs_simps split: sum.split option.split)

lemma exit_runs: "lg_runs (k_ledger (note_session_exit c f lim now sid k)) = lg_runs (k_ledger k)"
  by (simp add: note_session_exit_def runs_simps split: option.split)

lemma case_runs:
  assumes "\<And>u k1. lg_runs (k_ledger (snd (h u k1))) = lg_runs (k_ledger k1)"
  shows "lg_runs (k_ledger (snd (case r of (Inl e, k1) \<Rightarrow> (Inl e, k1) | (Inr u, k1) \<Rightarrow> h u k1))) = lg_runs (k_ledger (snd r))"
  using assms by (cases r) (auto split: sum.split)

lemma create_task_runs: "lg_runs (k_ledger (snd (create_task c f ko limits now i caller rid ti sp ac after mode sub k))) = lg_runs (k_ledger k)"
  unfolding create_task_def Let_def by (simp add: case_runs ledger_simps put_runs split: sum.split)

lemma resume_runs: "lg_runs (k_ledger (snd (resume_pairs c f now n ps k))) = lg_runs (k_ledger k)"
proof (induction ps arbitrary: n k)
  case (Cons p ps)
  obtain i tid where p: "p = (i, tid)" by (cases p)
  have h: "lg_runs (k_ledger (snd (case resume_pairs c f now (Suc (Suc n)) ps k3 of
      (Inl e, k4) \<Rightarrow> (Inl e, k4) | (Inr rs, k4) \<Rightarrow> (Inr ((t, a) # rs), k4)))) = lg_runs (k_ledger k3)" for k3 t a
    using case_runs [of "\<lambda>rs k4. (Inr ((t, a) # rs), k4)" "resume_pairs c f now (Suc (Suc n)) ps k3"] Cons.IH [of "Suc (Suc n)" k3] by simp
  have w: "lg_runs (k_ledger (snd (then_do (persist_attempt c x a) (persist_task c y t) (put_task t (put_attempt a k))))) = lg_runs (k_ledger k)"
    for a t x y by (simp add: ledger_simps put_runs)
  show ?case using Cons.IH
    by (auto simp: p Let_def put_runs case_runs [OF h] w split: option.split)
qed simp

lemma answered_runs: "lg_runs (k_ledger (snd (resume_blocked c f now ss k))) = lg_runs (k_ledger k)"
  unfolding resume_blocked_def Let_def by (rule resume_runs)

lemma keyed_same: "runs_keyed lg \<Longrightarrow> lg_runs lg' = lg_runs lg \<Longrightarrow> runs_keyed lg'"
  by (simp add: runs_keyed_def)

lemma keyed_put_run: "runs_keyed (k_ledger k) \<Longrightarrow> runs_keyed (k_ledger (put_run r k))"
  using set_update_subset [of "run_id r" r "lg_runs (k_ledger k)"] by (auto simp: runs_keyed_def put_run_def)

lemma keyed_case:
  assumes "runs_keyed (k_ledger (snd r))" "\<And>u k1. runs_keyed (k_ledger k1) \<Longrightarrow> runs_keyed (k_ledger (snd (h u k1)))"
  shows "runs_keyed (k_ledger (snd (case r of (Inl e, k1) \<Rightarrow> (Inl e, k1) | (Inr u, k1) \<Rightarrow> h u k1)))"
  using assms by (cases r) (auto split: sum.split)

lemma keyed_side: "side_step k k' \<Longrightarrow> runs_keyed (k_ledger k) \<Longrightarrow> runs_keyed (k_ledger k')"
proof (induction rule: side_step.induct)
  case (side_brief k c f now caller rid brief ex)
  then show ?case
    by (auto simp: update_brief_def Let_def ledger_simps keyed_put_run intro!: keyed_case split: option.split sum.split)
next
  case (side_resume k c f now rid sid)
  then show ?case
    by (auto simp: resume_commit_def Let_def ledger_simps keyed_put_run intro!: keyed_case split: option.split sum.split)
next
  case (side_close k c f now rid cancel)
  then show ?case
    by (auto simp: close_run_commit_def Let_def ledger_simps keyed_put_run intro!: keyed_case split: option.split sum.split)
next
  case (side_create_run k r c f)
  then show ?case
    by (auto simp: create_run_commit_def Let_def ledger_simps keyed_put_run intro!: keyed_case split: option.split sum.split)
qed (auto simp: start_announce_def resume_claim_def resume_release_def set_conflict_def clear_conflict_def flush_events_def broadcast_def Let_def
    runs_keyed_def split: option.splits sum.splits)

lemma keyed_forget_session:
  assumes "ledger_ok own limits (k_ledger k)" "runs_keyed (k_ledger k)"
  shows "runs_keyed (k_ledger (forget_session c f now sid k))"
proof -
  have "lg_runs (k_ledger (forget_session c f now sid k)) =
      map (\<lambda>(i, r). (i, if run_controller r = Some sid then r\<lparr>run_controller := None\<rparr> else r)) (lg_runs (k_ledger k))"
    by (simp add: forget_session_def Let_def ledger_simps split: prod.split)
  then show ?thesis using assms(2) by (auto simp: runs_keyed_def)
qed

lemma keyed_step:
  assumes st: "step c limits y y'" and sys: "system_ok limits y" and k: "runs_keyed (y_ledger y)"
  shows "runs_keyed (y_ledger y')"
proof -
  obtain own where own: "ledger_ok own limits (y_ledger y)" using sys by (auto simp: system_ok_def)
  show ?thesis using st
  proof cases
    case (side k')
    then show ?thesis using keyed_side k by simp
  next
    case (forget_session f now sid)
    then show ?thesis using keyed_forget_session [OF own k] by simp
  next
    case (forget_project pid)
    then show ?thesis using k by (auto simp: forget_project_def Let_def runs_keyed_def)
  next
    case (forget_workspace f wid)
    then show ?thesis using k by (auto simp: forget_workspace_def Let_def ledger_simps runs_keyed_def)
  qed (use k in \<open>auto intro!: keyed_same [OF k] simp: create_task_runs start_runs report_runs decide_runs integrated_runs
      answered_runs exit_runs\<close>)
qed

lemma close_step_keyed:
  assumes "close_step c limits caller rid cancel pr (y, cl) (y', cl')" "system_ok limits y" "runs_keyed (y_ledger y)"
  shows "runs_keyed (y_ledger y')"
  using assms(1)
proof cases
  case close_other
  then show ?thesis using keyed_step assms(2,3) by blast
next
  case (close_decides i seen ids f now k')
  have "lg_runs (k_ledger k') = lg_runs (y_ledger y)" using close_decides(3) decide_runs by (auto simp: close_decide_def)
  then show ?thesis using keyed_same [OF assms(3)] close_decides(1) by simp
next
  case (close_commits f now r k')
  then have "side_step (y_kernel y) k'" using side_close [of "y_kernel y" c f now rid cancel] by simp
  then show ?thesis using keyed_side assms(3) close_commits(1) by simp
qed (use assms(3) in auto)

lemma close_steps_keyed:
  "(close_step c limits caller rid True pr)\<^sup>*\<^sup>* (y0, cl0) (y, cl) \<Longrightarrow> closer_ok limits y0 cl0 \<Longrightarrow> runs_keyed (y_ledger y0) \<Longrightarrow>
    runs_keyed (y_ledger y)"
proof (induction rule: rtranclp_induct2)
  case (step y1 cl1 y2 cl2)
  have "system_ok limits y1" using close_steps_ok [OF step.hyps(1) step.prems(1)] by (simp add: closer_ok_def)
  then show ?case using close_step_keyed [OF step.hyps(2)] step by blast
qed

text \<open>What a cancellation is refused for.\<close>

definition cancel_refusal :: "protocol_error \<Rightarrow> bool" where
  "cancel_refusal e \<longleftrightarrow> e = not_found ''task'' \<or> e = not_found ''run'' \<or> (\<exists>r. e = policy r)
     \<or> (\<exists>v. e = version_conflict v) \<or> e = precondition_failed ''task is already final''"

lemma check_refusal: "check_decision lg caller i seen (TD_Cancel True) = Inl e \<Longrightarrow> cancel_refusal e"
  by (auto simp: cancel_refusal_def check_decision_def require_def check_def rail_error_def try_bind_def
      split: option.splits sum.splits if_splits)

lemma close_step_refusals:
  assumes "close_step c limits caller rid cancel pr (y, cl) (y', cl')" "\<And>i e. (i, Inl e) \<in> set (cl_checks cl) \<Longrightarrow> cancel_refusal e"
    "(i, Inl e) \<in> set (cl_checks cl')"
  shows "cancel_refusal e"
  using assms(1)
proof cases
  case (close_decides i' seen ids f now k')
  then show ?thesis using assms(2,3) check_refusal by (auto simp: close_decide_def)
qed (use assms(2,3) in \<open>auto simp: close_list_def close_read_def close_pull_request_def split: sum.splits option.splits\<close>)

lemma close_steps_refusals:
  "(close_step c limits caller rid cancel pr)\<^sup>*\<^sup>* (y0, close_start) (y, cl) \<Longrightarrow> (i, Inl e) \<in> set (cl_checks cl) \<Longrightarrow> cancel_refusal e"
proof (induction arbitrary: i e rule: rtranclp_induct2)
  case refl
  then show ?case by (simp add: close_start_def)
next
  case (step y1 cl1 y2 cl2)
  then show ?case using close_step_refusals [OF step.hyps(2)] by blast
qed


text \<open>A close of the run with one live attempt, whose session ends while the close cleans up.\<close>

definition demo_working :: system where
  "demo_working = demo_system\<lparr>y_kernel := snd demo_started\<rparr>"

definition demo_cancelled :: kernel where
  "demo_cancelled = snd (decide_task plain_codec (\<lambda>_ _. None) demo_limits UNIX_EPOCH None (TaskId 1) 2 (TD_Cancel True) None None
     (snd demo_started))"

definition demo_ended :: system where
  "demo_ended = demo_working\<lparr>y_kernel := note_session_exit plain_codec (\<lambda>_ _. None) demo_limits UNIX_EPOCH (SessionId 1) demo_cancelled\<rparr>"

definition demo_closer :: "close_stage \<Rightarrow> (task_id \<times> (protocol_error + unit)) list \<Rightarrow> closer" where
  "demo_closer st checks = \<lparr>cl_stage = st, cl_tasks = [TaskId 1], cl_integration = Some (WorkspaceId 1), cl_checks = checks\<rparr>"

lemma demo_working_ok: "system_ok demo_limits demo_working" "runs_keyed (y_ledger demo_working)"
proof -
  show "system_ok demo_limits demo_working"
    unfolding system_ok_def demo_working_def using demo_started_ok by (intro exI [of _ "\<lambda>_. TaskId 1"]) (simp add: demo_system_def)
  show "runs_keyed (y_ledger demo_working)"
    by (simp add: demo_working_def runs_keyed_def demo_started_ledger demo_ledger_def demo_run_def new_run_def)
qed

lemma demo_check: "check_decision (k_ledger (snd demo_started)) None (TaskId 1) 2 (TD_Cancel True) = Inr ()"
  by (simp add: check_decision_def check_def require_def rail_error_def allow_controller_def demo_started_ledger started_task_def
      demo_task_def new_task_def demo_ledger_def demo_run_def new_run_def saturating_add_def)

lemma demo_close_run:
  "(close_step plain_codec demo_limits None (RunId 1) True False)\<^sup>*\<^sup>* (demo_working, close_start)
     (demo_ended, demo_closer CloseCommit [(TaskId 1, Inr ())])"
proof -
  let ?step = "close_step plain_codec demo_limits None (RunId 1) True False"
  let ?y1 = "demo_working\<lparr>y_kernel := demo_cancelled\<rparr>"
  have lists: "?step (demo_working, close_start) (demo_working, demo_closer (CloseRead [TaskId 1]) [])"
    using close_lists [of close_start plain_codec demo_limits None "RunId 1" True False demo_working]
    by (simp add: close_list_def close_run_check_def require_def rail_error_def allow_controller_def demo_working_def
        demo_started_ledger demo_ledger_def demo_run_def new_run_def close_start_def demo_closer_def tasks_of_def started_task_def
        demo_task_def new_task_def)
  have reads: "?step (demo_working, demo_closer (CloseRead [TaskId 1]) []) (demo_working, demo_closer (CloseDecide (TaskId 1) 2 []) [])"
    using close_reads [of "demo_closer (CloseRead [TaskId 1]) []" "TaskId 1" "[]" plain_codec demo_limits None "RunId 1" True False demo_working]
    by (simp add: demo_closer_def close_read_def demo_working_def demo_started_ledger started_task_def demo_task_def new_task_def
        saturating_add_def)
  have decides: "?step (demo_working, demo_closer (CloseDecide (TaskId 1) 2 []) []) (?y1, demo_closer (CloseRead []) [(TaskId 1, Inr ())])"
  proof (rule close_decides [where f = "\<lambda>_ _. None" and now = UNIX_EPOCH])
    have "y_kernel demo_working = snd demo_started" by (simp add: demo_working_def)
    then show "close_decide plain_codec (\<lambda>_ _. None) demo_limits UNIX_EPOCH None (TaskId 1) 2 [] (y_kernel demo_working)
        (demo_closer (CloseDecide (TaskId 1) 2 []) []) = (demo_cancelled, demo_closer (CloseRead []) [(TaskId 1, Inr ())])"
      by (simp only: close_decide_def demo_check demo_cancelled_def) (simp add: demo_closer_def)
  qed (simp add: demo_closer_def)
  have decided: "?step (?y1, demo_closer (CloseRead []) [(TaskId 1, Inr ())]) (?y1, demo_closer CloseClean [(TaskId 1, Inr ())])"
    using close_decided [of "demo_closer (CloseRead []) [(TaskId 1, Inr ())]" plain_codec demo_limits None "RunId 1" True False ?y1]
    by (simp add: demo_closer_def)
  have some: "task_at (k_ledger demo_cancelled) (TaskId 1) \<noteq> None"
    using decide_cancel_ledger [OF demo_started_ok _ demo_check, of "started_task 1 UNIX_EPOCH demo_task"]
    by (simp add: demo_cancelled_def decide_task_def demo_started_ledger cancelled_ledger_def started_task_def demo_task_def new_task_def)
  have ended: "?step (?y1, demo_closer CloseClean [(TaskId 1, Inr ())]) (demo_ended, demo_closer CloseClean [(TaskId 1, Inr ())])"
  proof (rule close_other)
    show "step plain_codec demo_limits ?y1 demo_ended"
      using exited [of plain_codec demo_limits ?y1 "\<lambda>_ _. None" UNIX_EPOCH "SessionId 1"] by (simp add: demo_ended_def)
  qed (use some in \<open>auto simp: demo_closer_def\<close>)
  have cleans: "?step (demo_ended, demo_closer CloseClean [(TaskId 1, Inr ())]) (demo_ended, demo_closer CloseCommit [(TaskId 1, Inr ())])"
    using close_cleans [of "demo_closer CloseClean [(TaskId 1, Inr ())]" False None plain_codec demo_limits None "RunId 1" True demo_ended]
    by (simp add: demo_closer_def close_pull_request_def)
  show ?thesis using lists reads decides decided ended cleans by (meson converse_rtranclp_into_rtranclp rtranclp.rtrancl_refl)
qed


lemma report_commit_ledger:
  assumes "attempt_at (k_ledger k) i = Some a0" "settle_check reporter a0 (k_ledger k) = Inr ()" "task_at (k_ledger k) tid = Some t0"
  shows "k_ledger (snd (report_commit c f limits now reporter i rep tid used k)) =
    k_ledger (put_task (t0\<lparr>t_status := task_status_after_report (rep_outcome rep) used (max_attempts_per_task limits),
        t_updated_at := now, t_revision := saturating_add (t_revision t0) 1\<rparr>)
      (put_attempt (a0\<lparr>at_phase := AP_Reported, at_outcome := Some (rep_outcome rep), at_settled_at := Some now,
        at_report := Some rep\<rparr>) k))"
  using assms by (simp add: report_commit_def Let_def case_section ledger_simps)

text \<open>
  C33: What slips through: a report that comes in between the reading of a task's revision and the decision to
  cancel it makes the cancellation a conflict, which the handler ignores. The close then succeeds all the same
  and leaves the task awaiting its review in a cancelled run.
\<close>

theorem cancel_overtaken_by_report:
  assumes ok: "ledger_ok own limits' (k_ledger k)" "tid = own i" "runs_keyed (k_ledger k)"
    and seen: "close_read (k_ledger k) tid ids cl = cl1" "cl_stage cl1 = CloseDecide tid seen ids" "seen \<noteq> - 1"
    and report: "report_commit c f limits now reporter i rep tid used k = (Inr (), k1)" "rep_outcome rep = RO_Done"
    and run: "task_at (k_ledger k1) tid = Some t1" "t_run_id t1 = rid" "run_at (k_ledger k1) rid = Some r"
      "allow_controller caller (run_controller r) = Inr ()"
    and decide: "close_decide c g limits now' caller tid seen ids k1 cl1 = (k2, cl2)"
    and closed: "close_run_commit c h now'' rid True k2 = (Inr (), k3)"
  shows "k2 = k1 \<and> cl_checks cl2 = cl_checks cl1 @ [(tid, Inl (version_conflict (seen + 1)))]
    \<and> (\<exists>r. run_at (k_ledger k3) rid = Some r \<and> run_status r = RS_Cancelled)
    \<and> map_option t_status (task_at (k_ledger k3) tid) = Some TS_Review"
proof -
  obtain t0 where t0: "task_at (k_ledger k) tid = Some t0" "t_revision t0 = seen"
    using seen by (auto simp: close_read_def split: option.splits)
  obtain a0 where a0: "attempt_at (k_ledger k) i = Some a0" "settle_check reporter a0 (k_ledger k) = Inr ()"
    using report(1) by (auto simp: report_commit_def Let_def split: option.splits sum.splits)
  note id = ledger_ok_task_id [OF ok(1) t0(1)]
  have "task_status_after_report RO_Done used (max_attempts_per_task limits) = TS_Review" by (simp add: task_status_after_report_def)
  then have led: "k_ledger k1 = k_ledger (put_task (t0\<lparr>t_status := TS_Review,
      t_updated_at := now, t_revision := saturating_add (t_revision t0) 1\<rparr>) (put_attempt (a0\<lparr>at_phase := AP_Reported,
      at_outcome := Some RO_Done, at_settled_at := Some now, at_report := Some rep\<rparr>) k))"
    using report_commit_ledger [OF a0 t0(1), of c f limits now rep used] report by simp
  have sat: "saturating_add seen 1 = seen + 1" "seen + 1 \<noteq> seen" using saturating_add_one(1) [OF seen(3)] by simp_all
  then have t1: "t_revision t1 = seen + 1" "t_status t1 = TS_Review"
    using run(1) id t0(2) unfolding led by (auto simp: ledger_simps)
  have chk: "check_decision (k_ledger k1) caller tid seen (TD_Cancel True) = Inl (version_conflict (seen + 1))"
    using run t1 sat by (simp add: check_decision_def require_def check_def rail_error_def)
  have k2: "k2 = k1" "cl_checks cl2 = cl_checks cl1 @ [(tid, Inl (version_conflict (seen + 1)))]"
    using decide chk by (auto simp: close_decide_def decide_task_def decide_cancel_def)
  have "lg_runs (k_ledger k1) = lg_runs (k_ledger k)" using report_runs [of c f limits now reporter i rep tid used k] report(1) by simp
  then have rid: "run_id r = rid" using runs_keyedD [OF keyed_same [OF ok(3)]] run(3) by blast
  define q where "q = r\<lparr>run_status := RS_Cancelled, run_closed_at := Some now'', run_updated_at := now'',
      run_revision := saturating_add (run_revision r) 1\<rparr>"
  have "k_ledger (snd (close_run_commit c h now'' rid True k1)) = k_ledger (put_run q k1)"
    using run(3) by (simp add: close_run_commit_def Let_def case_section ledger_simps flip: q_def)
  then have k3: "k_ledger k3 = k_ledger (put_run q k1)" using closed k2 by simp
  have "run_at (k_ledger k3) rid = Some q" using rid unfolding k3 by (simp add: put_run_def update_conv' q_def)
  then show ?thesis using k2 run(1) t1 unfolding k3 by (auto simp: q_def ledger_simps)
qed

theorem cancel_overtaken_by_report_witness:
  "\<exists>k1 k3. report_commit plain_codec (\<lambda>_ _. None) demo_limits UNIX_EPOCH (Some (SessionId 1)) (AttemptId 1) demo_report
       (TaskId 1) 1 (snd demo_started) = (Inr (), k1)
    \<and> close_run_commit plain_codec (\<lambda>_ _. None) UNIX_EPOCH (RunId 1) True k1 = (Inr (), k3)
    \<and> (\<exists>r. run_at (k_ledger k3) (RunId 1) = Some r \<and> run_status r = RS_Cancelled)
    \<and> map_option t_status (task_at (k_ledger k3) (TaskId 1)) = Some TS_Review"
proof -
  let ?cl = "demo_closer (CloseRead [TaskId 1]) []"
  let ?cl1 = "demo_closer (CloseDecide (TaskId 1) 2 []) []"
  obtain k1 where r: "report_commit plain_codec (\<lambda>_ _. None) demo_limits UNIX_EPOCH (Some (SessionId 1)) (AttemptId 1) demo_report
      (TaskId 1) 1 (snd demo_started) = (Inr (), k1)" using demo_report_commits by (metis prod.collapse)
  have led: "k_ledger k1 = k_ledger (snd (report_commit plain_codec (\<lambda>_ _. None) demo_limits UNIX_EPOCH (Some (SessionId 1))
      (AttemptId 1) demo_report (TaskId 1) 1 (snd demo_started)))" using r by simp
  obtain k2 cl2 where d: "close_decide plain_codec (\<lambda>_ _. None) demo_limits UNIX_EPOCH None (TaskId 1) 2 [] k1 ?cl1 = (k2, cl2)"
    by fastforce
  then have k2: "k2 = snd (decide_task plain_codec (\<lambda>_ _. None) demo_limits UNIX_EPOCH None (TaskId 1) 2 (TD_Cancel True) None None k1)"
    by (simp add: close_decide_def)
  have "lg_runs (k_ledger k1) = [(RunId 1, demo_run)]"
    unfolding led report_runs by (simp add: demo_started_ledger demo_ledger_def)
  then have run: "run_at (k_ledger k1) (RunId 1) = Some demo_run" "run_at (k_ledger k2) (RunId 1) = Some demo_run"
    unfolding k2 decide_runs by simp_all
  obtain k3 where c: "close_run_commit plain_codec (\<lambda>_ _. None) UNIX_EPOCH (RunId 1) True k2 = (Inr (), k3)"
    using run(2) by (simp add: close_run_commit_def Let_def run_db_def update_run_def run_values_def statement_def demo_run_def new_run_def)
  have a: "attempt_at (k_ledger (snd demo_started)) (AttemptId 1) = Some demo_attempt"
      "settle_check (Some (SessionId 1)) demo_attempt (k_ledger (snd demo_started)) = Inr ()"
      "task_at (k_ledger (snd demo_started)) (TaskId 1) = Some (started_task 1 UNIX_EPOCH demo_task)"
    by (simp_all add: demo_started_ledger settle_check_def settle_report_def newer_exists_def attempts_def demo_attempt_def
        new_attempt_def demo_task_def new_task_def live_phase_def)
  obtain t1 where t1: "task_at (k_ledger k1) (TaskId 1) = Some t1" "t_run_id t1 = RunId 1"
    unfolding led report_commit_ledger [OF a] by (simp add: ledger_simps started_task_def demo_task_def new_task_def)
  have seen: "close_read (k_ledger (snd demo_started)) (TaskId 1) [] ?cl = ?cl1" "cl_stage ?cl1 = CloseDecide (TaskId 1) 2 []"
    by (simp_all add: demo_closer_def close_read_def demo_started_ledger started_task_def demo_task_def new_task_def saturating_add_def)
  have al: "allow_controller None (run_controller demo_run) = Inr ()" by (simp add: allow_controller_def)
  have fin: "rep_outcome demo_report = RO_Done" by (simp add: demo_report_def)
  have keyed: "runs_keyed (k_ledger (snd demo_started))" using demo_working_ok(2) by (simp add: demo_working_def)
  show ?thesis
    using cancel_overtaken_by_report [OF demo_started_ok refl keyed seen _ r fin t1 run(1) al d c] r c by auto
qed

end
