(* ===== verification/Orch_Faults.thy ===== *)
theory Orch_Faults
  imports Orch_Integrate
begin

text \<open>
  What the orchestration handlers do when something goes wrong between their steps: a statement that
  fails after memory changed, an agent that exits before its attempt exists, a task that comes back to a
  full run, and what a row does not remember.
\<close>

section \<open>Starts\<close>

lemma run_db_failed: "op (k_db k) = (Inl e, k_db k) \<Longrightarrow> run_db op k = (Inl (db_err (db_error_text e)), k)"
  by (simp add: run_db_def)

text \<open>
  C38: When the first write of a start fails, the request is answered with an error and the table keeps
  the task as it was, but memory has it active and one attempt poorer, with no attempt that is live or
  awaits a decision: it can be neither started, accepted nor rejected any more, only cancelled.
\<close>

theorem failed_start_strands_task:
  assumes ok: "ledger_ok own limits' (k_ledger k)"
    and fresh: "refuse_stale_start (k_ledger k) rid (at_task_id a0) w limits = Inr n"
    and fault: "f 0 0 = Some m"
  shows "\<exists>e k' t. start_commit c f limits now rid sid w a0 k = (Inl e, k') \<and> k_db k' = k_db k
    \<and> task_at (k_ledger k') (at_task_id a0) = Some t \<and> t_status t = TS_Active \<and> t_attempts_used t = n
    \<and> (\<forall>j a. attempt_at (k_ledger k') j = Some a \<and> at_task_id a = at_task_id a0 \<longrightarrow> \<not> settling a)
    \<and> (\<forall>rid' w' lim. \<exists>e. refuse_stale_start (k_ledger k') rid' (at_task_id a0) w' lim = Inl e)
    \<and> (\<forall>caller ex d. (\<forall>b. d \<noteq> TD_Cancel b) \<longrightarrow> (\<exists>e. check_decision (k_ledger k') caller (at_task_id a0) ex d = Inl e))"
proof -
  obtain t0 where t0: "task_at (k_ledger k) (at_task_id a0) = Some t0" by (rule refuse_stale_start_ok [OF fresh])
  define t where "t = started_task n now t0"
  note b = start_budget [OF fresh t0]
  have id: "t_id t = at_task_id a0" using ledger_ok_task_id [OF ok t0] by (simp add: t_def started_task_def)
  let ?k2 = "put_task t (set_base_commit sid (at_base_commit a0) k)"
  have db: "k_db ?k2 = k_db k" by (simp add: put_task_def set_base_commit_def split: option.split)
  have "\<exists>e. insert_attempt c (f 0) a x = (Inl e, x)" for a x
    using fault by (auto simp: insert_attempt_def insert_unique_def statement_def split: sum.split)
  then obtain e where e: "run_db (insert_attempt c (f 0) (a0\<lparr>at_n := n\<rparr>)) ?k2 = (Inl e, ?k2)"
    using run_db_failed by metis
  have eq: "start_commit c f limits now rid sid w a0 k = (Inl e, ?k2)"
    using fresh t0 e unfolding t_def started_task_def by (simp add: start_commit_def Let_def ledger_simps)
  have t: "task_at (k_ledger ?k2) (at_task_id a0) = Some t" using id by (simp add: ledger_simps)
  have st: "t_status t = TS_Active" by (simp add: t_def started_task_def)
  have none: "\<not> settling a" if "attempt_at (k_ledger ?k2) j = Some a" "at_task_id a = at_task_id a0" for j a
    using pending_unattempted(1) [OF ok t0 b(4)] that by (simp add: ledger_simps)
  have refused: "\<exists>e. refuse_stale_start (k_ledger ?k2) rid' (at_task_id a0) w' lim = Inl e" for rid' w' lim
    by (cases "refuse_stale_start (k_ledger ?k2) rid' (at_task_id a0) w' lim")
      (use t st in \<open>auto elim: refuse_stale_start_ok\<close>)
  have undecided: "\<exists>e. check_decision (k_ledger ?k2) caller (at_task_id a0) ex d = Inl e" if "\<forall>b. d \<noteq> TD_Cancel b" for caller ex d
    by (cases "check_decision (k_ledger ?k2) caller (at_task_id a0) ex d")
      (use t st that in \<open>auto elim: check_decision_ok\<close>)
  have "t_attempts_used t = n" by (simp add: t_def started_task_def)
  then show ?thesis using eq t st none refused undecided db by (intro exI conjI) blast+
qed

theorem failed_start_strands_task_witness:
  "\<exists>e k'. start_commit plain_codec (\<lambda>_ _. Some ''disk I/O error'') demo_limits UNIX_EPOCH (RunId 1) (SessionId 1)
      (WorkspaceId 1) demo_attempt demo_kernel = (Inl e, k')
    \<and> k_db k' = k_db demo_kernel \<and> task_status_at (k_ledger k') (TaskId 1) = Some TS_Active"
proof -
  have "at_task_id demo_attempt = TaskId 1" by (simp add: demo_attempt_def new_attempt_def demo_task_def new_task_def)
  then show ?thesis
    using failed_start_strands_task [of "\<lambda>_. TaskId 1" demo_limits demo_kernel "RunId 1" demo_attempt "WorkspaceId 1"
        demo_limits 1 "\<lambda>_ _. Some ''disk I/O error''" "''disk I/O error''" plain_codec UNIX_EPOCH "SessionId 1"]
      demo_ok [of "\<lambda>_. TaskId 1"] demo_refuse [of "WorkspaceId 1"]
    by (simp add: demo_kernel_def task_status_at_def) blast
qed

text \<open>
  An agent that exits before the section that records its attempt is not noticed: the handler of the
  exit finds no attempt and changes nothing, and the start then commits an attempt that is live in a
  session that has ended.
\<close>

theorem early_exit_leaves_attempt_live:
  assumes unknown: "\<forall>a \<in> set (attempts (k_ledger k)). at_session_id a \<noteq> Some sid"
    and ended: "in_sessions (k_inner k) sid = Some s" "is_terminal (s_state s)"
    and a0: "at_session_id a0 = Some sid" "at_phase a0 = AP_Running"
    and started: "start_commit c f limits now rid sid w a0 (note_session_exit c g limits now' sid k) = (Inr a, k')"
  shows "note_session_exit c g limits now' sid k = k
    \<and> attempt_at (k_ledger k') (at_id a) = Some a \<and> is_live a \<and> \<not> session_live k' (at_session_id a)"
proof -
  have none: "note_session_exit c g limits now' sid k = k"
  proof -
    have "find (\<lambda>a. at_session_id a = Some sid \<and> is_live a) (map snd (lg_attempts (k_ledger k))) = None"
      using unknown by (auto simp: find_None_iff attempts_def)
    then show ?thesis by (simp add: note_session_exit_def)
  qed
  show ?thesis
  proof (cases rule: start_commit_cases [of c f limits now rid sid w a0 k])
    case (started t n)
    have s: "start_commit c f limits now rid sid w a0 k = (Inr a, k')" using assms(6) none by simp
    then have a: "a = a0\<lparr>at_n := n\<rparr>" using started(1) by simp
    have led: "k_ledger k' = k_ledger (put_attempt (a0\<lparr>at_n := n\<rparr>) (put_task (started_task n now t) k))" using started(4) s by simp
    have "k_inner (snd (start_commit c f limits now rid sid w a0 k)) = k_inner (set_base_commit sid (at_base_commit a0) k)"
      using started(2,3) s
      by (auto simp: start_commit_def Let_def ledger_simps run_db_def put_attempt_def put_task_def broadcast_def
          split: prod.splits sum.splits)
    then have "\<not> session_live k' (Some sid)"
      using ended s by (auto simp: session_live_def set_base_commit_def)
    then show ?thesis using none led a a0 by (simp add: ledger_simps is_live_def live_phase_def)
  qed (use started none in auto)
qed

definition ended_session :: session where
  "ended_session = (new_session (SessionId 1) (WorkspaceId 1) SK_Agent Generic None None None None None None UNIX_EPOCH)
     \<lparr>s_state := Exited (Some 0) None\<rparr>"

theorem early_exit_leaves_attempt_live_witness:
  "\<exists>a k'. start_commit plain_codec (\<lambda>_ _. None) demo_limits UNIX_EPOCH (RunId 1) (SessionId 1) (WorkspaceId 1) demo_attempt
      (note_session_exit plain_codec (\<lambda>_ _. None) demo_limits UNIX_EPOCH (SessionId 1)
        (demo_kernel\<lparr>k_inner := idle_inner [ended_session]\<rparr>)) = (Inr a, k')
    \<and> is_live a \<and> \<not> session_live k' (at_session_id a)"
proof -
  let ?k = "demo_kernel\<lparr>k_inner := idle_inner [ended_session]\<rparr>"
  let ?s = "start_commit plain_codec (\<lambda>_ _. None) demo_limits UNIX_EPOCH (RunId 1) (SessionId 1) (WorkspaceId 1) demo_attempt"
  have none: "attempts (k_ledger ?k) = []" by (simp add: demo_kernel_def demo_ledger_def attempts_def)
  have exit: "note_session_exit plain_codec (\<lambda>_ _. None) demo_limits UNIX_EPOCH (SessionId 1) ?k = ?k"
    by (simp add: note_session_exit_def demo_kernel_def demo_ledger_def)
  have "\<exists>a k'. ?s ?k = (Inr a, k')"
    using demo_refuse [of "WorkspaceId 1"]
    by (simp add: start_commit_def Let_def demo_kernel_def demo_attempt_def new_attempt_def demo_task_def new_task_def
        ledger_simps demo_ledger_def run_db_def insert_attempt_def attempt_values_def insert_unique_def statement_def
        update_task_def task_values_def set_base_commit_def put_task_def idle_inner_def ended_session_def new_session_def
        saturating_add_def)
  then obtain a k' where s: "?s (note_session_exit plain_codec (\<lambda>_ _. None) demo_limits UNIX_EPOCH (SessionId 1) ?k) = (Inr a, k')"
    using exit by auto
  have "is_live a \<and> \<not> session_live k' (at_session_id a)"
    using early_exit_leaves_attempt_live [OF _ _ _ _ _ s, of ended_session] none
    by (simp add: idle_inner_def ended_session_def new_session_def demo_attempt_def new_attempt_def)
  then show ?thesis using s by blast
qed

section \<open>Reports\<close>

text \<open>
  A report whose outcome this build does not know, or whose first write fails, is answered with an
  error and leaves the table and the clients as they were, yet its attempt is reported in memory: the agent
  that tries again, with whatever report, is refused as well.
\<close>

theorem failed_report_half_settles:
  assumes at: "attempt_at (k_ledger k) i = Some a0" "at_id a0 = i" and settle: "settle_check caller a0 (k_ledger k) = Inr ()"
    and t: "task_at (k_ledger k) tid = Some t"
    and bad: "rep_outcome rep = RO_Unrecognized \<or> f 0 0 = Some m"
  shows "\<exists>e k' a. report_commit c f limits now caller i rep tid used k = (Inl e, k') \<and> k_db k' = k_db k \<and> k_events k' = k_events k
    \<and> attempt_at (k_ledger k') i = Some a \<and> at_phase a = AP_Reported
    \<and> (\<forall>c f limits now caller rep tid used. \<exists>e. report_commit c f limits now caller i rep tid used k' = (Inl e, k'))"
proof -
  define a where "a = a0\<lparr>at_phase := AP_Reported, at_outcome := Some (rep_outcome rep),
    at_settled_at := Some now, at_report := Some rep\<rparr>"
  define t' where "t' = t\<lparr>t_status := task_status_after_report (rep_outcome rep) used (max_attempts_per_task limits),
    t_updated_at := now, t_revision := saturating_add (t_revision t) 1\<rparr>"
  let ?k2 = "put_task t' (put_attempt a k)"
  have "\<exists>e. update_attempt c (f 0) a x = (Inl e, x)" for x
  proof (cases "attempt_values c a")
    case (Inr w)
    then have "rep_outcome rep \<noteq> RO_Unrecognized"
      by (auto simp: attempt_values_def a_def section_simps try_opt_def)
    then show ?thesis using Inr bad by (auto simp: update_attempt_def statement_def)
  qed (simp add: update_attempt_def)
  then obtain e where e: "persist_attempt c (f 0) a ?k2 = (Inl e, ?k2)"
    using run_db_failed unfolding persist_attempt_def by metis
  have "report_commit c f limits now caller i rep tid used k = (Inl e, ?k2)"
    using at settle t e unfolding a_def t'_def by (simp add: report_commit_def Let_def then_do_def)
  moreover have "k_db ?k2 = k_db k" "k_events ?k2 = k_events k" by (simp_all add: put_task_def put_attempt_def)
  moreover have r: "attempt_at (k_ledger ?k2) i = Some a" "at_phase a = AP_Reported"
    using at(2) by (simp_all add: ledger_simps a_def)
  moreover have "\<exists>e. report_commit c f limits now caller i rep tid used ?k2 = (Inl e, ?k2)" for c f limits now caller rep tid used
  proof -
    have "\<exists>e. settle_check caller a (k_ledger ?k2) = Inl e"
      using r(2) by (auto simp: settle_check_def settle_report_def live_phase_def split: sum.split)
    then show ?thesis using r(1) by (auto simp: report_commit_def)
  qed
  ultimately show ?thesis by blast
qed

theorem failed_report_half_settles_witness:
  "\<exists>e k'. report_commit plain_codec (\<lambda>_ _. None) demo_limits UNIX_EPOCH (Some (SessionId 1)) (AttemptId 1)
      (demo_report\<lparr>rep_outcome := RO_Unrecognized\<rparr>) (TaskId 1) 1 (snd demo_started) = (Inl e, k')
    \<and> k_db k' = k_db (snd demo_started)
    \<and> (\<exists>e'. report_commit plain_codec (\<lambda>_ _. None) demo_limits UNIX_EPOCH (Some (SessionId 1)) (AttemptId 1)
          demo_report (TaskId 1) 1 k' = (Inl e', k'))"
proof -
  have "settle_check (Some (SessionId 1)) demo_attempt (k_ledger (snd demo_started)) = Inr ()"
    by (simp add: settle_check_def settle_report_def newer_exists_def attempts_def demo_started_ledger demo_attempt_def
        new_attempt_def demo_task_def new_task_def live_phase_def)
  moreover have "attempt_at (k_ledger (snd demo_started)) (AttemptId 1) = Some demo_attempt"
    "task_at (k_ledger (snd demo_started)) (TaskId 1) = Some (started_task 1 UNIX_EPOCH demo_task)"
    "at_id demo_attempt = AttemptId 1"
    by (simp_all add: demo_started_ledger demo_attempt_def new_attempt_def)
  ultimately show ?thesis
    using failed_report_half_settles [of "snd demo_started" "AttemptId 1" demo_attempt "Some (SessionId 1)" "TaskId 1"
        "started_task 1 UNIX_EPOCH demo_task" "demo_report\<lparr>rep_outcome := RO_Unrecognized\<rparr>" "\<lambda>_ _. None" _ plain_codec
        demo_limits UNIX_EPOCH 1]
    by simp blast
qed

section \<open>Tasks\<close>

lemma insert_deps_repeats:
  "\<not> distinct as \<or> (\<exists>a \<in> set as. (co_id c (uuid_of_task t), co_id c (uuid_of_task a)) \<in> set (od_deps db)) \<Longrightarrow>
    \<exists>e db'. insert_deps c (\<lambda>_. None) n t as db = (Inl e, db') \<and> od_tasks db' = od_tasks db"
proof (induction as arbitrary: n db)
  case (Cons a as)
  let ?p = "\<lambda>a. (co_id c (uuid_of_task t), co_id c (uuid_of_task a))"
  show ?case
  proof (cases "?p a \<in> set (od_deps db)")
    case False
    let ?db = "db\<lparr>od_deps := od_deps db @ [?p a]\<rparr>"
    have "\<not> distinct as \<or> (\<exists>b \<in> set as. ?p b \<in> set (od_deps ?db))" using Cons.prems False by auto
    then show ?thesis using Cons.IH [of ?db "Suc n"] False by (auto simp: insert_unique_def statement_def)
  qed (simp add: insert_unique_def)
qed simp

lemma created_status:
  assumes "ledger_ok own limits lg" "task_at lg i = None" "t_id t0 = i" "t_status t0 = TS_Pending"
  shows "\<exists>st. (case find (\<lambda>t. t_id t = i) (promote_ready (tasks_of rid lg @ [t0])) of Some t \<Rightarrow> t | None \<Rightarrow> t0)
    = t0\<lparr>t_status := st\<rparr> \<and> (st = TS_Pending \<or> st = TS_Ready)"
proof (cases "find (\<lambda>t. t_id t = i) (promote_ready (tasks_of rid lg @ [t0]))")
  case None
  have "t0 = t0\<lparr>t_status := TS_Pending\<rparr>" using assms(4) by simp
  then show ?thesis using None by (metis option.simps(4))
next
  case (Some t)
  then have "t \<in> set (promote_ready (tasks_of rid lg @ [t0]))" "t_id t = i" by (auto simp: find_Some_iff)
  then obtain t1 where t1: "t1 \<in> set (tasks_of rid lg @ [t0])" "t = t1 \<or> t = t1\<lparr>t_status := TS_Ready\<rparr>"
    using promote_ready_mem by blast
  have "t_id t1 = i" using t1(2) \<open>t_id t = i\<close> by auto
  then have "t1 = t0" using t1(1) assms(2) in_tasks_of [OF assms(1)] by auto
  moreover have "t0 = t0\<lparr>t_status := TS_Pending\<rparr>" using assms(4) by simp
  ultimately show ?thesis using Some t1(2) by (metis option.simps(5))
qed

text \<open>
  A task that names a dependency twice is refused by its table of dependencies after its own row went
  in: the request is answered with an error and the ledger has no such task, but its row stays, so the next
  start of the daemon has a task nobody was told of.
\<close>

theorem repeated_dependency_leaves_row:
  assumes ok: "ledger_ok own limits' (k_ledger k)" and fresh: "task_at (k_ledger k) i = None"
    and chk: "create_task_check key_order limits caller rid i (fst (clamp_text title MAX_TITLE_BYTES)) after (k_ledger k) = Inr ()"
    and mode: "mode \<noteq> WM_Unrecognized" and new: "\<forall>w \<in> set (od_tasks (k_db k)). tw_id w \<noteq> co_id c (uuid_of_task i)"
    and repeated: "\<not> distinct after"
  shows "\<exists>e k'. create_task c (\<lambda>_ _. None) key_order limits now i caller rid title spec acceptance after mode sub k = (Inl e, k')
    \<and> k_ledger k' = k_ledger k \<and> k_events k' = k_events k
    \<and> (\<exists>w. od_tasks (k_db k') = od_tasks (k_db k) @ [w] \<and> tw_id w = co_id c (uuid_of_task i))"
proof -
  define t0 where "t0 = new_task i rid (fst (clamp_text title MAX_TITLE_BYTES)) (fst (clamp_text spec MAX_SPEC_BYTES))
    (fst (clamp_text acceptance MAX_ACCEPTANCE_BYTES)) after mode sub now"
  have f0: "t_id t0 = i" "t_status t0 = TS_Pending" "t_after t0 = after" "t_mode t0 = mode"
    by (simp_all add: t0_def new_task_def)
  define t where "t = (case find (\<lambda>t. t_id t = i) (promote_ready (tasks_of rid (k_ledger k) @ [t0])) of Some t \<Rightarrow> t | None \<Rightarrow> t0)"
  obtain st where st: "t = t0\<lparr>t_status := st\<rparr>" "st = TS_Pending \<or> st = TS_Ready"
    using created_status [OF ok fresh f0(1,2)] unfolding t_def by blast
  obtain w where w: "task_values c t = Inr w" "tw_id w = co_id c (uuid_of_task i)"
    using st(2) mode f0 by (cases mode) (auto simp: task_values_def st(1))
  let ?db = "(k_db k)\<lparr>od_tasks := od_tasks (k_db k) @ [w]\<rparr>"
  obtain e db' where d: "insert_deps c (\<lambda>_. None) 1 i after ?db = (Inl e, db')" "od_tasks db' = od_tasks ?db"
    using insert_deps_repeats [of after c i ?db 1] repeated by blast
  have "tw_id w \<notin> tw_id ` set (od_tasks (k_db k))" using new w(2) by fastforce
  then have ins: "insert_task c (\<lambda>_. None) t (k_db k) = (Inl e, db')"
    using w(1) d(1) f0 by (simp add: insert_task_def insert_unique_def statement_def st(1))
  have "create_task c (\<lambda>_ _. None) key_order limits now i caller rid title spec acceptance after mode sub k
      = (case run_db (insert_task c (\<lambda>_. None) t) k of
         (Inl e, k1) \<Rightarrow> (Inl e, k1) | (Inr _, k1) \<Rightarrow> (Inr (t_id t), broadcast [TaskUpdated t] (put_task t k1)))"
    unfolding create_task_def Let_def t0_def [symmetric] t_def using chk by simp
  then have "create_task c (\<lambda>_ _. None) key_order limits now i caller rid title spec acceptance after mode sub k
      = (Inl (db_err (db_error_text e)), k\<lparr>k_db := db'\<rparr>)"
    by (simp add: run_db_def ins)
  then show ?thesis using d(2) w(2) by simp
qed

definition done_kernel :: kernel where
  "done_kernel = demo_kernel\<lparr>k_ledger := demo_ledger\<lparr>lg_tasks := [(TaskId 1, demo_task\<lparr>t_status := TS_Accepted\<rparr>)]\<rparr>\<rparr>"

theorem repeated_dependency_leaves_row_witness:
  "\<exists>e k' w. create_task plain_codec (\<lambda>_ _. None) id demo_limits UNIX_EPOCH (TaskId 2) None (RunId 1) ''t'' [] [] [TaskId 1, TaskId 1]
      WM_Write False done_kernel = (Inl e, k')
    \<and> task_at (k_ledger k') (TaskId 2) = None \<and> od_tasks (k_db k') = [w]"
proof -
  have ok: "ledger_ok (\<lambda>_. TaskId 1) demo_limits (k_ledger done_kernel)"
    by (auto simp: ledger_ok_def keys_ok_def work_ok_def owned_def done_kernel_def demo_ledger_def demo_task_def new_task_def)
  have acyclic: "\<not> dependency_cycle id [] (TaskId 2) [TaskId 1, TaskId 1]"
    by (simp add: dependency_cycle_def graph_of_def graph_extend_def Let_def walk.simps)
  have title: "trim ''t'' \<noteq> []" by code_simp
  have "fst (clamp_text ''t'' MAX_TITLE_BYTES) = ''t''" by (simp add: clamp_text_def MAX_TITLE_BYTES_def)
  then have "create_task_check id demo_limits None (RunId 1) (TaskId 2) (fst (clamp_text ''t'' MAX_TITLE_BYTES)) [TaskId 1, TaskId 1]
      (k_ledger done_kernel) = Inr ()"
    using acyclic title by (simp add: create_task_check_def require_def check_def rail_error_def allow_controller_def allow_new_task_def done_kernel_def
        demo_ledger_def demo_run_def new_run_def demo_task_def new_task_def tasks_of_def demo_limits_def task_edges_def)
  then show ?thesis
    using repeated_dependency_leaves_row [OF ok, of "TaskId 2" id demo_limits None "RunId 1" "''t''" "[TaskId 1, TaskId 1]"
       WM_Write plain_codec UNIX_EPOCH "[]" "[]" False]
    by (auto simp: done_kernel_def demo_kernel_def demo_ledger_def)
qed

section \<open>Reopening\<close>

lemma count_update:
  "distinct (map fst al) \<Longrightarrow> map_of al i = Some v \<Longrightarrow> \<not> P v \<Longrightarrow> P v' \<Longrightarrow>
    length (filter P (map snd (AList.update i v' al))) = Suc (length (filter P (map snd al)))"
  by (induction al) (auto simp: map_of_eq_None_iff)

lemma in_update: "v \<in> set (map snd (AList.update i v al))"
  by (induction al) auto

text \<open>
  Sending a task back to its session looks at no rail: whatever the limits, the run gets one more live
  attempt, and when the attempt writes, its workspace has a live writer, whoever was writing there.
\<close>

theorem reopen_ignores_rails:
  assumes ok: "ledger_ok own limits (k_ledger k)"
    and chk: "check_decision (k_ledger k) caller tid ex (TD_Reject feedback False) = Inr ()"
    and t: "task_at (k_ledger k) tid = Some t"
    and a: "newest_attempt tid (k_ledger k) = Some a" "at_phase a = AP_Reported" "session_live k (at_session_id a)"
  shows "live_in_run (t_run_id t) (k_ledger (snd (decide_reopen c f now caller tid ex feedback k)))
      = Suc (live_in_run (t_run_id t) (k_ledger k))
    \<and> (\<forall>w. at_workspace_id a = Some w \<and> \<not> at_read_only a \<longrightarrow>
         has_writer w (k_ledger (snd (decide_reopen c f now caller tid ex feedback k))))"
proof -
  define a' where "a' = a\<lparr>at_phase := AP_Running, at_outcome := None, at_settled_at := None\<rparr>"
  define t' where "t' = (decided TS_Active now t)\<lparr>t_feedback := Some (fst (clamp_text feedback MAX_MESSAGE_BYTES))\<rparr>"
  have id: "t_id t = tid" by (rule ledger_ok_task_id [OF ok t])
  have "k_ledger (snd (decide_reopen c f now caller tid ex feedback k)) = k_ledger (put_attempt a' (put_task t' k))"
    using chk t a by (simp add: decide_reopen_def Let_def newest_attempt_put_task case_section ledger_simps flip: a'_def t'_def)
  moreover have at: "attempts (k_ledger (put_attempt a' (put_task t' k)))
      = map snd (AList.update (at_id a) a' (lg_attempts (k_ledger k)))"
    by (simp add: attempts_def put_attempt_def put_task_def a'_def)
  moreover have "live_in_run (t_run_id t) (k_ledger (put_attempt a' (put_task t' k))) = Suc (live_in_run (t_run_id t) (k_ledger k))"
  proof -
    let ?P = "\<lambda>lg b. is_live b \<and> (case task_at lg (at_task_id b) of None \<Rightarrow> False | Some u \<Rightarrow> t_run_id u = t_run_id t)"
    note n = newest_attempt_Some [OF ok a(1)]
    have P: "?P (k_ledger (put_attempt a' (put_task t' k))) b = ?P (k_ledger k) b" for b
      using t id by (auto simp: ledger_simps t'_def)
    have "\<not> ?P (k_ledger k) a" "?P (k_ledger k) a'"
      using a(2) n(2) t by (simp_all add: is_live_def live_phase_def a'_def)
    then show ?thesis using count_update [OF _ n(1)] ledger_okD(1) [OF ok]
      unfolding live_in_run_def P at by (simp add: attempts_def keys_ok_def)
  qed
  moreover have "has_writer w (k_ledger (put_attempt a' (put_task t' k)))" if "at_workspace_id a = Some w" "\<not> at_read_only a" for w
    unfolding has_writer_def list_ex_iff at
    by (rule bexI [OF _ in_update]) (use that in \<open>simp add: a'_def is_live_def live_phase_def\<close>)
  ultimately show ?thesis by simp
qed

text \<open>
  The only attempt the limits allow runs at the second task; the first one was reported from the same
  workspace and its session is alive.
\<close>

definition full_kernel :: kernel where
  "full_kernel = demo_kernel\<lparr>
     k_ledger := demo_ledger\<lparr>
       lg_tasks := [(TaskId 1, demo_task\<lparr>t_status := TS_Review, t_attempts_used := 1\<rparr>),
                    (TaskId 2, demo_task\<lparr>t_id := TaskId 2, t_status := TS_Active, t_attempts_used := 1\<rparr>)],
       lg_attempts := [(AttemptId 1, demo_attempt\<lparr>at_phase := AP_Reported\<rparr>),
                       (AttemptId 2, demo_attempt\<lparr>at_id := AttemptId 2, at_task_id := TaskId 2,
                          at_session_id := Some (SessionId 2)\<rparr>)]\<rparr>,
     k_inner := idle_inner [ended_session\<lparr>s_state := Running\<rparr>]\<rparr>"

lemma full_kernel_ok:
  "ledger_ok (\<lambda>i. if i = AttemptId 1 then TaskId 1 else TaskId 2) demo_limits (k_ledger full_kernel)"
  by (auto simp: saturating_add_def ledger_ok_def keys_ok_def work_ok_def owned_def fits_def settling_def full_kernel_def
      demo_ledger_def demo_task_def new_task_def demo_attempt_def new_attempt_def is_live_def live_phase_def demo_limits_def split: if_splits)

theorem reopen_ignores_rails_witness:
  "\<exists>k'. k' = snd (decide_task plain_codec (\<lambda>_ _. None) demo_limits UNIX_EPOCH None (TaskId 1) 1 (TD_Reject ''more'' False) None None
      full_kernel)
    \<and> live_in_run (RunId 1) (k_ledger full_kernel) = unat (max_active_attempts_per_run demo_limits)
    \<and> live_in_run (RunId 1) (k_ledger k') > unat (max_active_attempts_per_run demo_limits)"
proof -
  have "live_in_run (RunId 1) (k_ledger full_kernel) = 1"
    by (simp add: live_in_run_def attempts_def full_kernel_def demo_ledger_def demo_task_def new_task_def demo_attempt_def
        new_attempt_def is_live_def live_phase_def)
  moreover have "check_decision (k_ledger full_kernel) None (TaskId 1) 1 (TD_Reject ''more'' False) = Inr ()"
    by (simp add: check_decision_def require_def check_def rail_error_def allow_controller_def full_kernel_def demo_ledger_def
        demo_run_def new_run_def demo_task_def new_task_def)
  moreover have "newest_attempt (TaskId 1) (k_ledger full_kernel) = Some (demo_attempt\<lparr>at_phase := AP_Reported\<rparr>)"
    by (simp add: newest_attempt_def attempts_def full_kernel_def demo_ledger_def demo_attempt_def new_attempt_def demo_task_def
        new_task_def)
  moreover have "session_live full_kernel (at_session_id demo_attempt)"
    by (simp add: session_live_def full_kernel_def idle_inner_def ended_session_def new_session_def demo_attempt_def new_attempt_def)
  moreover have "task_at (k_ledger full_kernel) (TaskId 1) = Some (demo_task\<lparr>t_status := TS_Review, t_attempts_used := 1\<rparr>)"
    "t_run_id demo_task = RunId 1" "max_active_attempts_per_run demo_limits = 1"
    by (simp_all add: full_kernel_def demo_task_def new_task_def demo_limits_def)
  ultimately show ?thesis
    using reopen_ignores_rails [OF full_kernel_ok, of None "TaskId 1" 1 "''more''" _
        "demo_attempt\<lparr>at_phase := AP_Reported\<rparr>" plain_codec "\<lambda>_ _. None" UNIX_EPOCH]
    by (simp add: decide_task_def)
qed

section \<open>A restart\<close>

text \<open>
  An attempt written to its row and read back is the attempt, except for the outcome of its report,
  which has no column: it becomes the outcome of the attempt, and done when the attempt has none, as one
  has that was sent back to its session.
\<close>

theorem attempt_survives_restart:
  assumes "codec_ok c" and "attempt_values c a = Inr w"
  shows "attempt_from_row c w = Inr (outcome_restored a)
    \<and> (outcome_restored a = a \<longleftrightarrow>
        (\<forall>r. at_report a = Some r \<longrightarrow> rep_outcome r = (case at_outcome a of None \<Rightarrow> RO_Done | Some x \<Rightarrow> x)))"
proof
  show "attempt_from_row c w = Inr (outcome_restored a)" by (rule attempt_row_round_trip [OF assms])
  show "outcome_restored a = a \<longleftrightarrow>
      (\<forall>r. at_report a = Some r \<longrightarrow> rep_outcome r = (case at_outcome a of None \<Rightarrow> RO_Done | Some x \<Rightarrow> x))"
  proof (cases "at_report a")
    case (Some r)
    have "at_report (outcome_restored a) = at_report a \<Longrightarrow> outcome_restored a = a"
      by (simp add: outcome_restored_def)
    then have "outcome_restored a = a \<longleftrightarrow> at_report (outcome_restored a) = at_report a" by metis
    also have "\<dots> \<longleftrightarrow> rep_outcome r = (case at_outcome a of None \<Rightarrow> RO_Done | Some x \<Rightarrow> x)"
      using Some by (cases r) (auto simp: outcome_restored_def)
    finally show ?thesis using Some by simp
  qed (simp add: outcome_restored_def)
qed

theorem attempt_survives_restart_witness:
  "\<exists>w a'. attempt_values plain_codec (demo_attempt\<lparr>at_report := Some (demo_report\<lparr>rep_outcome := RO_Failed\<rparr>)\<rparr>) = Inr w
    \<and> attempt_from_row plain_codec w = Inr a' \<and> map_option rep_outcome (at_report a') = Some RO_Done"
proof -
  obtain w where w: "attempt_values plain_codec (demo_attempt\<lparr>at_report := Some (demo_report\<lparr>rep_outcome := RO_Failed\<rparr>)\<rparr>) = Inr w"
    by (simp add: attempt_values_def demo_attempt_def new_attempt_def try_opt_def)
  show ?thesis using attempt_survives_restart [OF plain_codec_ok w] w
    by (simp add: outcome_restored_def demo_attempt_def new_attempt_def)
qed

end
