(* ===== verification/Orch_Receipts.thy ===== *)
theory Orch_Receipts
  imports Orch_System
begin

text \<open>
  Requests that carry an id, from \<open>handle\<close> of \<open>orchestration/mod.rs\<close>: a receipt of the response is kept for
  a day, and a request whose twin is still running is refused. The threads of the daemon run the
  stages of \<open>handle\<close> interleaved; the work of \<open>dispatch\<close>, and everything else the daemon does, leaves the
  receipts and the set of running requests alone.
\<close>

section \<open>Receipts\<close>

text \<open>How a response is written to a receipt and read from it.\<close>

record 'r wire =
  wi_enc :: "'r \<Rightarrow> string + string"
  wi_dec :: "string \<Rightarrow> string + 'r"

definition wire_ok :: "'r wire \<Rightarrow> bool" where
  "wire_ok wi \<longleftrightarrow> (\<forall>r b. wi_enc wi r = Inr b \<longrightarrow> wi_dec wi b = Inr r)"

text \<open>In nanoseconds.\<close>

definition RECEIPT_TTL :: int where
  "RECEIPT_TTL = 24 * 60 * 60 * 1000000000"

definition caller_key :: "codec \<Rightarrow> session_id option \<Rightarrow> string" where
  "caller_key c caller = (case caller of None \<Rightarrow> ''human'' | Some s \<Rightarrow> co_id c (uuid_of_session s))"

definition load_receipt ::
  "codec \<Rightarrow> 'r wire \<Rightarrow> faults \<Rightarrow> timestamp \<Rightarrow> string \<Rightarrow> session_id option \<Rightarrow> kernel \<Rightarrow> protocol_error + 'r option" where
  "load_receipt c wi f now request_id caller k =
    (case get_receipt c f request_id (caller_key c caller) (k_db k) of
       Inl e \<Rightarrow> Inl (db_err (db_error_text e))
     | Inr None \<Rightarrow> Inr None
     | Inr (Some (bytes, at)) \<Rightarrow>
         if as_offset now - as_offset at > RECEIPT_TTL then Inr None
         else (case wi_dec wi bytes of Inl m \<Rightarrow> Inl (internal m) | Inr r \<Rightarrow> Inr (Some r)))"

definition store_receipt ::
  "codec \<Rightarrow> 'r wire \<Rightarrow> faults \<Rightarrow> timestamp \<Rightarrow> string \<Rightarrow> session_id option \<Rightarrow> 'r \<Rightarrow> kernel
    \<Rightarrow> (protocol_error + unit) \<times> kernel" where
  "store_receipt c wi f now request_id caller response k =
    (case wi_enc wi response of
       Inl m \<Rightarrow> (Inl (internal m), k)
     | Inr bytes \<Rightarrow> run_db (put_receipt c f request_id (caller_key c caller) bytes now) k)"

definition claim :: "string \<times> string \<Rightarrow> kernel \<Rightarrow> (protocol_error + unit) \<times> kernel" where
  "claim key k =
    (if key \<in> lg_in_flight (k_ledger k)
     then (Inl (protocol_error_new Conflict ''a request with this id is still in progress; retry once it finishes''), k)
     else (Inr (), k\<lparr>k_ledger := (k_ledger k)\<lparr>lg_in_flight := insert key (lg_in_flight (k_ledger k))\<rparr>\<rparr>))"

definition release :: "string \<times> string \<Rightarrow> kernel \<Rightarrow> kernel" where
  "release key k = k\<lparr>k_ledger := (k_ledger k)\<lparr>lg_in_flight := lg_in_flight (k_ledger k) - {key}\<rparr>\<rparr>"

section \<open>The stages of a request\<close>

datatype 'r stage =
    AtFirst
  | AtClaim
  | AtSecond
  | AtDispatch
  | AtStore 'r
  | AtRelease "protocol_error + 'r"
  | Answered "protocol_error + 'r"

record 'r thread =
  th_request_id :: string
  th_caller :: "session_id option"
  th_stage :: "'r stage"

text \<open>The log holds every dispatch that succeeded; \<open>de_unstored\<close> the ids whose receipt was not written.\<close>

record 'r desk =
  de_kernel :: kernel
  de_threads :: "nat \<rightharpoonup> 'r thread"
  de_log :: "((string \<times> string) \<times> 'r) list"
  de_unstored :: "(string \<times> string) set"

abbreviation thread_key :: "codec \<Rightarrow> 'r thread \<Rightarrow> string \<times> string" where
  "thread_key c t \<equiv> (th_request_id t, caller_key c (th_caller t))"

definition first_look :: "protocol_error + 'r option \<Rightarrow> 'r stage" where
  "first_look found =
    (case found of Inl e \<Rightarrow> Answered (Inl e) | Inr (Some r) \<Rightarrow> Answered (Inr r) | Inr None \<Rightarrow> AtClaim)"

definition second_look :: "protocol_error + 'r option \<Rightarrow> 'r stage" where
  "second_look found =
    (case found of Inl e \<Rightarrow> AtRelease (Inl e) | Inr (Some r) \<Rightarrow> AtRelease (Inr r) | Inr None \<Rightarrow> AtDispatch)"

definition move :: "nat \<Rightarrow> 'r thread \<Rightarrow> 'r stage \<Rightarrow> 'r desk \<Rightarrow> 'r desk" where
  "move i t st d = d\<lparr>de_threads := (de_threads d)(i \<mapsto> t\<lparr>th_stage := st\<rparr>)\<rparr>"

text \<open>\<open>clock\<close> holds the instants at which the threads look at the clock.\<close>

inductive desk_step :: "codec \<Rightarrow> 'r wire \<Rightarrow> timestamp set \<Rightarrow> 'r desk \<Rightarrow> 'r desk \<Rightarrow> bool" for c wi clock where
  desk_other: "lg_in_flight (k_ledger k') = lg_in_flight (k_ledger (de_kernel d)) \<Longrightarrow>
    od_receipts (k_db k') = od_receipts (k_db (de_kernel d)) \<Longrightarrow> desk_step c wi clock d (d\<lparr>de_kernel := k'\<rparr>)"
| desk_arrive: "de_threads d i = None \<Longrightarrow>
    desk_step c wi clock d (d\<lparr>de_threads := (de_threads d)(i \<mapsto> \<lparr>th_request_id = rid, th_caller = caller, th_stage = AtFirst\<rparr>)\<rparr>)"
| desk_first: "de_threads d i = Some t \<Longrightarrow> th_stage t = AtFirst \<Longrightarrow> now \<in> clock \<Longrightarrow>
    desk_step c wi clock d
      (move i t (first_look (load_receipt c wi f now (th_request_id t) (th_caller t) (de_kernel d))) d)"
| desk_claim: "de_threads d i = Some t \<Longrightarrow> th_stage t = AtClaim \<Longrightarrow> claim (thread_key c t) (de_kernel d) = (res, k') \<Longrightarrow>
    desk_step c wi clock d
      (move i t (case res of Inl e \<Rightarrow> Answered (Inl e) | Inr _ \<Rightarrow> AtSecond) (d\<lparr>de_kernel := k'\<rparr>))"
| desk_second: "de_threads d i = Some t \<Longrightarrow> th_stage t = AtSecond \<Longrightarrow> now \<in> clock \<Longrightarrow>
    desk_step c wi clock d
      (move i t (second_look (load_receipt c wi f now (th_request_id t) (th_caller t) (de_kernel d))) d)"
| desk_dispatched: "de_threads d i = Some t \<Longrightarrow> th_stage t = AtDispatch \<Longrightarrow>
    desk_step c wi clock d (move i t (AtStore r) (d\<lparr>de_log := (thread_key c t, r) # de_log d\<rparr>))"
| desk_refused: "de_threads d i = Some t \<Longrightarrow> th_stage t = AtDispatch \<Longrightarrow>
    desk_step c wi clock d (move i t (AtRelease (Inl e)) d)"
| desk_stored: "de_threads d i = Some t \<Longrightarrow> th_stage t = AtStore r \<Longrightarrow> now \<in> clock \<Longrightarrow>
    store_receipt c wi f now (th_request_id t) (th_caller t) r (de_kernel d) = (res, k') \<Longrightarrow>
    desk_step c wi clock d (move i t (AtRelease (Inr r)) (d\<lparr>de_kernel := k',
      de_unstored := (case res of Inl _ \<Rightarrow> insert (thread_key c t) (de_unstored d) | Inr _ \<Rightarrow> de_unstored d)\<rparr>))"
| desk_release: "de_threads d i = Some t \<Longrightarrow> th_stage t = AtRelease res \<Longrightarrow>
    desk_step c wi clock d (move i t (Answered res) (d\<lparr>de_kernel := release (thread_key c t) (de_kernel d)\<rparr>))"

definition opened :: "kernel \<Rightarrow> 'r desk" where
  "opened k = \<lparr>de_kernel = k, de_threads = Map.empty, de_log = [], de_unstored = {}\<rparr>"

section \<open>The invariant\<close>

abbreviation receipts :: "'r desk \<Rightarrow> string \<times> string \<Rightarrow> (string \<times> string) option" where
  "receipts d \<equiv> map_of (od_receipts (k_db (de_kernel d)))"

abbreviation in_flight :: "'r desk \<Rightarrow> (string \<times> string) set" where
  "in_flight d \<equiv> lg_in_flight (k_ledger (de_kernel d))"

fun holding :: "'r stage \<Rightarrow> bool" where
  "holding AtSecond = True"
| "holding AtDispatch = True"
| "holding (AtStore r) = True"
| "holding (AtRelease res) = True"
| "holding _ = False"

text \<open>The response a thread has for its request.\<close>

fun response :: "'r stage \<Rightarrow> 'r option" where
  "response (AtStore r) = Some r"
| "response (AtRelease (Inr r)) = Some r"
| "response (Answered (Inr r)) = Some r"
| "response _ = None"

text \<open>What a thread relies on: its claim, an empty log before it dispatches, and a response from the log.\<close>

definition thread_ok :: "codec \<Rightarrow> 'r desk \<Rightarrow> 'r thread \<Rightarrow> bool" where
  "thread_ok c d t \<longleftrightarrow> (holding (th_stage t) \<longrightarrow> thread_key c t \<in> in_flight d)
     \<and> (th_stage t = AtDispatch \<longrightarrow> thread_key c t \<notin> de_unstored d \<longrightarrow> (\<forall>r. (thread_key c t, r) \<notin> set (de_log d)))
     \<and> (\<forall>r. response (th_stage t) = Some r \<longrightarrow> (thread_key c t, r) \<in> set (de_log d))"

definition alone :: "codec \<Rightarrow> 'r desk \<Rightarrow> bool" where
  "alone c d \<longleftrightarrow> (\<forall>i j t u. de_threads d i = Some t \<longrightarrow> de_threads d j = Some u \<longrightarrow> holding (th_stage t) \<longrightarrow>
     holding (th_stage u) \<longrightarrow> thread_key c t = thread_key c u \<longrightarrow> i = j)"

definition receipts_ok :: "codec \<Rightarrow> 'r wire \<Rightarrow> timestamp set \<Rightarrow> 'r desk \<Rightarrow> bool" where
  "receipts_ok c wi clock d \<longleftrightarrow> (\<forall>key b s. receipts d key = Some (b, s) \<longrightarrow>
     (\<exists>r at. wi_dec wi b = Inr r \<and> s = co_ts c at \<and> at \<in> clock \<and> (key, r) \<in> set (de_log d)))"

text \<open>A logged dispatch has its receipt, or the thread that made it is about to write it.\<close>

definition log_ok :: "codec \<Rightarrow> 'r desk \<Rightarrow> bool" where
  "log_ok c d \<longleftrightarrow> (\<forall>key r. (key, r) \<in> set (de_log d) \<longrightarrow> key \<notin> de_unstored d \<longrightarrow>
     receipts d key \<noteq> None \<or> (\<exists>i t. de_threads d i = Some t \<and> thread_key c t = key \<and> th_stage t = AtStore r))"

definition once :: "'r desk \<Rightarrow> bool" where
  "once d \<longleftrightarrow> (\<forall>key. key \<notin> de_unstored d \<longrightarrow> length (filter (\<lambda>x. fst x = key) (de_log d)) \<le> 1)"

definition desk_ok :: "codec \<Rightarrow> 'r wire \<Rightarrow> timestamp set \<Rightarrow> 'r desk \<Rightarrow> bool" where
  "desk_ok c wi clock d \<longleftrightarrow> (\<forall>i t. de_threads d i = Some t \<longrightarrow> thread_ok c d t)
     \<and> alone c d \<and> receipts_ok c wi clock d \<and> log_ok c d \<and> once d"

text \<open>Inside a window no wider than the lifetime of a receipt, a look finds exactly what was logged.\<close>

definition window :: "timestamp set \<Rightarrow> bool" where
  "window clock \<longleftrightarrow> (\<forall>a \<in> clock. \<forall>b \<in> clock. as_offset a - as_offset b \<le> RECEIPT_TTL)"

lemma load_receipt_found:
  assumes c: "codec_ok c" and ok: "desk_ok c wi clock d"
    and l: "load_receipt c wi f now rid caller (de_kernel d) = Inr (Some r)"
  shows "((rid, caller_key c caller), r) \<in> set (de_log d)"
proof -
  obtain b s at where b: "receipts d (rid, caller_key c caller) = Some (b, s)" "co_parse_ts c s = Inr at" "wi_dec wi b = Inr r"
    using l by (auto simp: load_receipt_def get_receipt_def ts_from_str_def try_opt_def try_bind_Inr
        split: option.splits sum.splits if_splits)
  then show ?thesis using ok by (fastforce simp: desk_ok_def receipts_ok_def)
qed

lemma load_receipt_missing:
  assumes c: "codec_ok c" and w: "window clock" and ok: "desk_ok c wi clock d" and now: "now \<in> clock"
    and l: "load_receipt c wi f now rid caller (de_kernel d) = Inr None"
  shows "receipts d (rid, caller_key c caller) = None"
proof (rule ccontr)
  assume "receipts d (rid, caller_key c caller) \<noteq> None"
  then obtain b s where b: "receipts d (rid, caller_key c caller) = Some (b, s)" by auto
  then obtain r at where r: "wi_dec wi b = Inr r" "s = co_ts c at" "at \<in> clock"
    using ok by (fastforce simp: desk_ok_def receipts_ok_def)
  then have "\<not> as_offset now - as_offset at > RECEIPT_TTL" using w now by (force simp: window_def)
  then show False using l b r c
    by (auto simp: load_receipt_def get_receipt_def ts_from_str_def codec_ok_def try_opt_def split: option.splits)
qed

lemma desk_okI:
  "(\<And>i t. de_threads d i = Some t \<Longrightarrow> thread_ok c d t) \<Longrightarrow> alone c d \<Longrightarrow> receipts_ok c wi clock d \<Longrightarrow> log_ok c d \<Longrightarrow> once d
    \<Longrightarrow> desk_ok c wi clock d"
  by (simp add: desk_ok_def)

lemma desk_okD:
  assumes "desk_ok c wi clock d"
  shows "de_threads d i = Some t \<Longrightarrow> thread_ok c d t" "alone c d" "receipts_ok c wi clock d" "log_ok c d" "once d"
  using assms by (auto simp: desk_ok_def)

lemma aloneD:
  "alone c d \<Longrightarrow> de_threads d i = Some t \<Longrightarrow> de_threads d j = Some u \<Longrightarrow> holding (th_stage t) \<Longrightarrow> holding (th_stage u) \<Longrightarrow>
    thread_key c t = thread_key c u \<Longrightarrow> i = j"
  by (simp add: alone_def)

lemma log_okD:
  "log_ok c d \<Longrightarrow> (key, r) \<in> set (de_log d) \<Longrightarrow> key \<notin> de_unstored d \<Longrightarrow>
    receipts d key \<noteq> None \<or> (\<exists>i t. de_threads d i = Some t \<and> thread_key c t = key \<and> th_stage t = AtStore r)"
  unfolding log_ok_def by blast

lemma onceD: "once d \<Longrightarrow> key \<notin> de_unstored d \<Longrightarrow> length (filter (\<lambda>x. fst x = key) (de_log d)) \<le> 1"
  unfolding once_def by blast

lemma move_fields [simp]:
  "de_kernel (move i t st d) = de_kernel d" "de_log (move i t st d) = de_log d" "de_unstored (move i t st d) = de_unstored d"
  "de_threads (move i t st d) = (de_threads d)(i \<mapsto> t\<lparr>th_stage := st\<rparr>)"
  by (simp_all add: move_def)

text \<open>A thread that neither claims, dispatches, stores nor releases.\<close>

lemma desk_ok_quiet:
  assumes ok: "desk_ok c wi clock d" and t: "de_threads d i = Some t"
    and st: "holding st \<longrightarrow> holding (th_stage t)" "\<forall>r. th_stage t \<noteq> AtStore r"
    and dispatch: "st = AtDispatch \<longrightarrow> thread_key c t \<notin> de_unstored d \<longrightarrow> (\<forall>r. (thread_key c t, r) \<notin> set (de_log d))"
    and resp: "\<forall>r. response st = Some r \<longrightarrow> (thread_key c t, r) \<in> set (de_log d)"
  shows "desk_ok c wi clock (move i t st d)"
proof (rule desk_okI)
  note old = desk_okD [OF ok]
  show "thread_ok c (move i t st d) u" if "de_threads (move i t st d) j = Some u" for j u
    using that old(1) [OF t] old(1) [of j u] st(1) dispatch resp
    by (auto simp: move_def thread_ok_def split: if_splits)
  show "alone c (move i t st d)"
    using old(2) t st(1) unfolding alone_def move_def by (auto split: if_splits)
  show "receipts_ok c wi clock (move i t st d)" using old(3) by (simp add: receipts_ok_def move_def)
  show "once (move i t st d)" using old(5) by (simp add: once_def move_def)
  show "log_ok c (move i t st d)"
    unfolding log_ok_def
  proof (intro allI impI)
    fix key r assume a: "(key, r) \<in> set (de_log (move i t st d))" "key \<notin> de_unstored (move i t st d)"
    have "receipts d key \<noteq> None \<or> (\<exists>j u. de_threads d j = Some u \<and> thread_key c u = key \<and> th_stage u = AtStore r)"
      by (rule log_okD [OF old(4)]) (use a in simp_all)
    then show "receipts (move i t st d) key \<noteq> None
        \<or> (\<exists>j u. de_threads (move i t st d) j = Some u \<and> thread_key c u = key \<and> th_stage u = AtStore r)"
    proof
      assume "\<exists>j u. de_threads d j = Some u \<and> thread_key c u = key \<and> th_stage u = AtStore r"
      then obtain j u where u: "de_threads d j = Some u" "thread_key c u = key" "th_stage u = AtStore r" by blast
      then have "j \<noteq> i" using t st(2) by auto
      then show ?thesis using u by (auto simp: move_def)
    qed (simp add: move_def)
  qed
qed

lemma desk_ok_look:
  assumes c: "codec_ok c" and w: "window clock" and ok: "desk_ok c wi clock d" and t: "de_threads d i = Some t"
    and now: "now \<in> clock" and found: "found = load_receipt c wi f now (th_request_id t) (th_caller t) (de_kernel d)"
  shows "th_stage t = AtFirst \<Longrightarrow> desk_ok c wi clock (move i t (first_look found) d)"
    and "th_stage t = AtSecond \<Longrightarrow> desk_ok c wi clock (move i t (second_look found) d)"
proof -
  have hit: "(thread_key c t, r) \<in> set (de_log d)" if "found = Inr (Some r)" for r
    using load_receipt_found [OF c ok] that unfolding found by blast
  have miss: "receipts d (thread_key c t) = None" if "found = Inr None"
    using load_receipt_missing [OF c w ok now] that unfolding found by blast
  show "desk_ok c wi clock (move i t (first_look found) d)" if "th_stage t = AtFirst"
    by (rule desk_ok_quiet [OF ok t]) (use that hit in \<open>auto simp: first_look_def split: sum.splits option.splits\<close>)
  assume st: "th_stage t = AtSecond"
  have fresh: "(thread_key c t, r) \<notin> set (de_log d)" if m: "found = Inr None" "thread_key c t \<notin> de_unstored d" for r
  proof
    assume "(thread_key c t, r) \<in> set (de_log d)"
    then obtain j u where u: "de_threads d j = Some u" "thread_key c u = thread_key c t" "th_stage u = AtStore r"
      using desk_okD(4) [OF ok] m(2) miss [OF m(1)] unfolding log_ok_def by blast
    then have "i = j" using aloneD [OF desk_okD(2) [OF ok] t u(1)] st by simp
    then show False using u t st by simp
  qed
  show "desk_ok c wi clock (move i t (second_look found) d)"
    by (rule desk_ok_quiet [OF ok t]) (use st hit fresh in \<open>auto simp: second_look_def split: sum.splits option.splits\<close>)
qed

lemma desk_ok_claim:
  assumes ok: "desk_ok c wi clock d" and t: "de_threads d i = Some t" "th_stage t = AtClaim"
    and cl: "claim (thread_key c t) (de_kernel d) = (res, k')"
  shows "desk_ok c wi clock (move i t (case res of Inl e \<Rightarrow> Answered (Inl e) | Inr _ \<Rightarrow> AtSecond) (d\<lparr>de_kernel := k'\<rparr>))"
proof (cases res)
  case (Inl e)
  then have "k' = de_kernel d" using cl by (auto simp: claim_def split: if_splits)
  then have d: "d\<lparr>de_kernel := k'\<rparr> = d" by simp
  show ?thesis unfolding d using Inl by simp (rule desk_ok_quiet [OF ok t(1)]; use t(2) in simp)
next
  case (Inr u)
  then have free: "thread_key c t \<notin> in_flight d" and k': "k' = (de_kernel d)\<lparr>k_ledger := (k_ledger (de_kernel d))
      \<lparr>lg_in_flight := insert (thread_key c t) (in_flight d)\<rparr>\<rparr>"
    using cl by (auto simp: claim_def split: if_splits)
  note old = desk_okD [OF ok]
  let ?d = "move i t AtSecond (d\<lparr>de_kernel := k'\<rparr>)"
  have other: "thread_key c u \<noteq> thread_key c t" if "de_threads d j = Some u" "holding (th_stage u)" for j u
    using old(1) [OF that(1)] that(2) free by (auto simp: thread_ok_def)
  have "desk_ok c wi clock ?d"
  proof (rule desk_okI)
    show "thread_ok c ?d u" if "de_threads ?d j = Some u" for j u
      using that old(1) [of j u] by (auto simp: move_def thread_ok_def k' split: if_splits)
    show "alone c ?d"
      using old(2) other unfolding alone_def move_def by (auto split: if_splits) metis+
    show "receipts_ok c wi clock ?d" using old(3) by (simp add: receipts_ok_def move_def k')
    show "once ?d" using old(5) by (simp add: once_def move_def)
    show "log_ok c ?d"
      using old(4) t unfolding log_ok_def by (simp add: move_def k') (metis option.inject stage.distinct)
  qed
  then show ?thesis using Inr by simp
qed

lemma desk_ok_dispatched:
  assumes ok: "desk_ok c wi clock d" and t: "de_threads d i = Some t" "th_stage t = AtDispatch"
  shows "desk_ok c wi clock (move i t (AtStore r) (d\<lparr>de_log := (thread_key c t, r) # de_log d\<rparr>))"
proof (rule desk_okI)
  note old = desk_okD [OF ok]
  note mine = old(1) [OF t(1)]
  let ?d = "move i t (AtStore r) (d\<lparr>de_log := (thread_key c t, r) # de_log d\<rparr>)"
  have holds: "holding (th_stage t)" using t(2) by simp
  have other: "thread_key c u \<noteq> thread_key c t" if "de_threads d j = Some u" "holding (th_stage u)" "j \<noteq> i" for j u
    using aloneD [OF old(2) t(1) that(1) holds that(2)] that(3) by auto
  show "thread_ok c ?d u" if u: "de_threads ?d j = Some u" for j u
  proof (cases "j = i")
    case True
    then show ?thesis using u mine t(2) by (auto simp: move_def thread_ok_def)
  next
    case False
    then have v: "de_threads d j = Some u" using u by (simp add: move_def)
    show ?thesis using old(1) [OF v] other [OF v _ False] by (auto simp: move_def thread_ok_def)
  qed
  show "alone c ?d"
    using old(2) t other unfolding alone_def move_def by (auto split: if_splits)
  show "receipts_ok c wi clock ?d" using old(3) by (fastforce simp: receipts_ok_def move_def)
  show "once ?d"
    unfolding once_def
  proof (intro allI impI)
    fix key assume key: "key \<notin> de_unstored ?d"
    have "filter (\<lambda>x. fst x = key) (de_log d) = []" if "key = thread_key c t"
      using mine t(2) key that by (auto simp: thread_ok_def move_def filter_empty_conv)
    then show "length (filter (\<lambda>x. fst x = key) (de_log ?d)) \<le> 1"
      using onceD [OF old(5), of key] key by auto
  qed
  show "log_ok c ?d"
    unfolding log_ok_def
  proof (intro allI impI)
    fix key s assume a: "(key, s) \<in> set (de_log ?d)" "key \<notin> de_unstored ?d"
    show "receipts ?d key \<noteq> None \<or> (\<exists>j u. de_threads ?d j = Some u \<and> thread_key c u = key \<and> th_stage u = AtStore s)"
    proof (cases "(key, s) = (thread_key c t, r)")
      case False
      then consider "receipts d key \<noteq> None" | j u where "de_threads d j = Some u" "thread_key c u = key" "th_stage u = AtStore s"
        using log_okD [OF old(4), of key s] a by auto
      then show ?thesis
      proof cases
        case (2 j u)
        then have "j \<noteq> i" using t by auto
        then show ?thesis using 2 by (auto simp: move_def)
      qed (simp add: move_def)
    qed (auto simp: move_def)
  qed
qed

lemma store_receipt_result:
  assumes "wire_ok wi" "store_receipt c wi f now rid caller r k = (res, k')"
  obtains (failed) e where "res = Inl e" "k_ledger k' = k_ledger k" "k_db k' = k_db k"
  | (stored) b where "res = Inr ()" "k_ledger k' = k_ledger k" "wi_dec wi b = Inr r"
      "map_of (od_receipts (k_db k')) = (map_of (od_receipts (k_db k)))((rid, caller_key c caller) \<mapsto> (b, co_ts c now))"
proof (cases "wi_enc wi r")
  case (Inl m)
  then show thesis using failed assms(2) by (auto simp: store_receipt_def)
next
  case (Inr b)
  have d: "wi_dec wi b = Inr r" using assms(1) Inr by (simp add: wire_ok_def)
  have m: "map_of (filter (\<lambda>p. fst p \<noteq> key) al) = (map_of al)(key := None)" for key :: "string \<times> string" and al :: "((string \<times> string) \<times> string \<times> string) list"
    by (induction al) (auto simp: fun_eq_iff)
  show thesis
  proof (cases "f 0")
    case None
    then have "res = Inr ()" "k' = k\<lparr>k_db := (k_db k)\<lparr>od_receipts := ((rid, caller_key c caller), b, co_ts c now)
        # filter (\<lambda>p. fst p \<noteq> (rid, caller_key c caller)) (od_receipts (k_db k))\<rparr>\<rparr>"
      using assms(2) Inr by (simp_all add: store_receipt_def run_db_def put_receipt_def statement_def Let_def)
    then show thesis using stored [OF _ _ d] by (simp add: m)
  next
    case (Some e)
    then show thesis using failed assms(2) Inr by (auto simp: store_receipt_def run_db_def put_receipt_def statement_def)
  qed
qed

lemma receipts_okD:
  "receipts_ok c wi clock d \<Longrightarrow> receipts d key = Some (b, s) \<Longrightarrow>
    \<exists>r at. wi_dec wi b = Inr r \<and> s = co_ts c at \<and> at \<in> clock \<and> (key, r) \<in> set (de_log d)"
  unfolding receipts_ok_def by blast

lemma desk_ok_stored:
  assumes wi: "wire_ok wi" and ok: "desk_ok c wi clock d" and t: "de_threads d i = Some t" "th_stage t = AtStore r"
    and now: "now \<in> clock" and st: "store_receipt c wi f now (th_request_id t) (th_caller t) r (de_kernel d) = (res, k')"
  shows "desk_ok c wi clock (move i t (AtRelease (Inr r)) (d\<lparr>de_kernel := k',
      de_unstored := (case res of Inl _ \<Rightarrow> insert (thread_key c t) (de_unstored d) | Inr _ \<Rightarrow> de_unstored d)\<rparr>))"
    (is "desk_ok c wi clock ?d")
proof -
  note old = desk_okD [OF ok]
  have holds: "holding (th_stage t)" using t(2) by simp
  have mine: "(thread_key c t, r) \<in> set (de_log d)" using old(1) [OF t(1)] t(2) by (simp add: thread_ok_def)
  have led: "k_ledger k' = k_ledger (de_kernel d)" by (rule store_receipt_result [OF wi st]) simp_all
  have unst: "key \<notin> de_unstored ?d \<Longrightarrow> key \<notin> de_unstored d" for key by (auto split: sum.splits)
  have thread: "thread_ok c ?d u" if u: "de_threads ?d j = Some u" for j u
  proof (cases "j = i")
    case True
    then have eq: "u = t\<lparr>th_stage := AtRelease (Inr r)\<rparr>" using u by simp
    show ?thesis using mine old(1) [OF t(1)] t(2) by (simp add: thread_ok_def led eq)
  next
    case False
    then have v: "de_threads d j = Some u" using u by simp
    show ?thesis using old(1) [OF v] unst by (simp add: thread_ok_def led del: move_fields(3))
  qed
  have alone: "alone c ?d" using old(2) t holds unfolding alone_def by (auto split: if_splits)
  have once: "once ?d"
    unfolding once_def
  proof (intro allI impI)
    fix key assume "key \<notin> de_unstored ?d"
    from onceD [OF old(5) unst [OF this]] show "length (filter (\<lambda>x. fst x = key) (de_log ?d)) \<le> 1" by simp
  qed
  have here: "receipts ?d key \<noteq> None \<or> (\<exists>j u. de_threads ?d j = Some u \<and> thread_key c u = key \<and> th_stage u = AtStore s)"
    if l: "(key, s) \<in> set (de_log d)" and n: "key \<notin> de_unstored ?d" and k: "receipts d key \<noteq> None \<Longrightarrow> receipts ?d key \<noteq> None"
      and own: "key = thread_key c t \<Longrightarrow> receipts ?d key \<noteq> None" for key s
  proof -
    from log_okD [OF old(4) l unst [OF n]] show ?thesis
    proof
      assume "\<exists>j u. de_threads d j = Some u \<and> thread_key c u = key \<and> th_stage u = AtStore s"
      then obtain j u where u: "de_threads d j = Some u" "thread_key c u = key" "th_stage u = AtStore s" by blast
      show ?thesis
      proof (cases "j = i")
        case True
        then show ?thesis using own u t by simp
      qed (use u in auto)
    qed (use k in simp)
  qed
  show ?thesis
  proof (rule store_receipt_result [OF wi st])
    fix e assume f: "res = Inl e" "k_db k' = k_db (de_kernel d)"
    have "receipts_ok c wi clock ?d" using old(3) f unfolding receipts_ok_def by simp
    moreover have "log_ok c ?d" unfolding log_ok_def
    proof (intro allI impI)
      fix key s assume "(key, s) \<in> set (de_log ?d)" "key \<notin> de_unstored ?d"
      then show "receipts ?d key \<noteq> None \<or> (\<exists>j u. de_threads ?d j = Some u \<and> thread_key c u = key \<and> th_stage u = AtStore s)"
        by (intro here) (use f in auto)
    qed
    ultimately show ?thesis using thread alone once by (intro desk_okI)
  next
    fix b assume s: "res = Inr ()" "wi_dec wi b = Inr r"
      and m: "map_of (od_receipts (k_db k')) = (receipts d)(thread_key c t \<mapsto> (b, co_ts c now))"
    have "receipts_ok c wi clock ?d"
      unfolding receipts_ok_def
    proof (intro allI impI)
      fix key b' s' assume "receipts ?d key = Some (b', s')"
      then show "\<exists>r at. wi_dec wi b' = Inr r \<and> s' = co_ts c at \<and> at \<in> clock \<and> (key, r) \<in> set (de_log ?d)"
        using receipts_okD [OF old(3), of key b' s'] s(2) now mine by (auto simp: m split: if_splits)
    qed
    moreover have "log_ok c ?d" unfolding log_ok_def
    proof (intro allI impI)
      fix key s' assume "(key, s') \<in> set (de_log ?d)" "key \<notin> de_unstored ?d"
      then show "receipts ?d key \<noteq> None \<or> (\<exists>j u. de_threads ?d j = Some u \<and> thread_key c u = key \<and> th_stage u = AtStore s')"
        by (intro here) (auto simp: m)
    qed
    ultimately show ?thesis using thread alone once by (intro desk_okI)
  qed
qed

lemma desk_ok_release:
  assumes ok: "desk_ok c wi clock d" and t: "de_threads d i = Some t" "th_stage t = AtRelease res"
  shows "desk_ok c wi clock (move i t (Answered res) (d\<lparr>de_kernel := release (thread_key c t) (de_kernel d)\<rparr>))"
    (is "desk_ok c wi clock ?d")
proof (rule desk_okI)
  note old = desk_okD [OF ok]
  have holds: "holding (th_stage t)" using t(2) by simp
  have rel: "receipts ?d = receipts d" "in_flight ?d = in_flight d - {thread_key c t}" by (simp_all add: release_def)
  show "thread_ok c ?d u" if u: "de_threads ?d j = Some u" for j u
  proof (cases "j = i")
    case True
    then have eq: "u = t\<lparr>th_stage := Answered res\<rparr>" using u by simp
    show ?thesis using old(1) [OF t(1)] t(2) unfolding thread_ok_def eq by (cases res) auto
  next
    case False
    then have v: "de_threads d j = Some u" using u by simp
    have "holding (th_stage u) \<longrightarrow> thread_key c u \<noteq> thread_key c t"
      using aloneD [OF old(2) t(1) v holds] False by auto
    then show ?thesis using old(1) [OF v] by (simp add: thread_ok_def release_def)
  qed
  show "alone c ?d" using old(2) t holds unfolding alone_def by (auto split: if_splits)
  show "receipts_ok c wi clock ?d" using old(3) unfolding receipts_ok_def rel by simp
  show "once ?d" using old(5) unfolding once_def by simp
  show "log_ok c ?d"
    unfolding log_ok_def rel
  proof (intro allI impI)
    fix key s assume "(key, s) \<in> set (de_log ?d)" "key \<notin> de_unstored ?d"
    then consider "receipts d key \<noteq> None" | j u where "de_threads d j = Some u" "thread_key c u = key" "th_stage u = AtStore s"
      using log_okD [OF old(4), of key s] by auto
    then show "receipts d key \<noteq> None \<or> (\<exists>j u. de_threads ?d j = Some u \<and> thread_key c u = key \<and> th_stage u = AtStore s)"
    proof cases
      case (2 j u)
      then have "j \<noteq> i" using t by auto
      then show ?thesis using 2 by auto
    qed simp
  qed
qed

lemma desk_ok_same:
  assumes ok: "desk_ok c wi clock d" and k': "lg_in_flight (k_ledger k') = in_flight d"
    "od_receipts (k_db k') = od_receipts (k_db (de_kernel d))"
  shows "desk_ok c wi clock (d\<lparr>de_kernel := k'\<rparr>)"
proof (rule desk_okI)
  note old = desk_okD [OF ok]
  show "thread_ok c (d\<lparr>de_kernel := k'\<rparr>) u" if "de_threads (d\<lparr>de_kernel := k'\<rparr>) j = Some u" for j u
    using that old(1) [of j u] k' by (simp add: thread_ok_def)
qed (use ok k' in \<open>simp_all add: desk_ok_def alone_def receipts_ok_def log_ok_def once_def\<close>)

lemma desk_ok_arrive:
  assumes ok: "desk_ok c wi clock d" and i: "de_threads d i = None"
  shows "desk_ok c wi clock (d\<lparr>de_threads := (de_threads d)(i \<mapsto> \<lparr>th_request_id = rid, th_caller = caller, th_stage = AtFirst\<rparr>)\<rparr>)"
    (is "desk_ok c wi clock ?d")
proof (rule desk_okI)
  note old = desk_okD [OF ok]
  show "thread_ok c ?d u" if "de_threads ?d j = Some u" for j u
    using that old(1) [of j u] by (auto simp: thread_ok_def split: if_splits)
  show "alone c ?d" using old(2) unfolding alone_def by auto
  show "receipts_ok c wi clock ?d" "once ?d" using old(3,5) by (simp_all add: receipts_ok_def once_def)
  show "log_ok c ?d"
    unfolding log_ok_def
  proof (intro allI impI)
    fix key s assume "(key, s) \<in> set (de_log ?d)" "key \<notin> de_unstored ?d"
    then consider "receipts d key \<noteq> None" | j u where "de_threads d j = Some u" "thread_key c u = key" "th_stage u = AtStore s"
      using log_okD [OF old(4), of key s] by auto
    then show "receipts ?d key \<noteq> None \<or> (\<exists>j u. de_threads ?d j = Some u \<and> thread_key c u = key \<and> th_stage u = AtStore s)"
    proof cases
      case (2 j u)
      then have "j \<noteq> i" using i by auto
      then show ?thesis using 2 by auto
    qed simp
  qed
qed

lemma desk_step_ok:
  assumes c: "codec_ok c" and wi: "wire_ok wi" and w: "window clock"
    and step: "desk_step c wi clock d d'" and ok: "desk_ok c wi clock d"
  shows "desk_ok c wi clock d'"
  using step
proof cases
  case (desk_other k')
  show ?thesis unfolding desk_other(1) by (rule desk_ok_same [OF ok desk_other(2,3)])
next
  case (desk_arrive i rid caller)
  show ?thesis unfolding desk_arrive(1) by (rule desk_ok_arrive [OF ok desk_arrive(2)])
next
  case (desk_first i t now f)
  show ?thesis unfolding desk_first(1) by (rule desk_ok_look(1) [OF c w ok desk_first(2,4) refl desk_first(3)])
next
  case (desk_claim i t res k')
  show ?thesis unfolding desk_claim(1) by (rule desk_ok_claim [OF ok desk_claim(2-4)])
next
  case (desk_second i t now f)
  show ?thesis unfolding desk_second(1) by (rule desk_ok_look(2) [OF c w ok desk_second(2,4) refl desk_second(3)])
next
  case (desk_dispatched i t r)
  show ?thesis unfolding desk_dispatched(1) by (rule desk_ok_dispatched [OF ok desk_dispatched(2,3)])
next
  case (desk_refused i t e)
  show ?thesis unfolding desk_refused(1) by (rule desk_ok_quiet [OF ok desk_refused(2)]) (simp_all add: desk_refused(3))
next
  case (desk_stored i t r now f res k')
  show ?thesis unfolding desk_stored(1) by (rule desk_ok_stored [OF wi ok desk_stored(2-5)])
next
  case (desk_release i t res)
  show ?thesis unfolding desk_release(1) by (rule desk_ok_release [OF ok desk_release(2,3)])
qed

lemma desk_steps_ok:
  assumes "(desk_step c wi clock)\<^sup>*\<^sup>* d d'" "codec_ok c" "wire_ok wi" "window clock" "desk_ok c wi clock d"
  shows "desk_ok c wi clock d'"
  using assms by (induction rule: rtranclp_induct) (auto intro: desk_step_ok)

lemma opened_ok: "od_receipts (k_db k) = [] \<Longrightarrow> desk_ok c wi clock (opened k)"
  by (simp add: desk_ok_def opened_def alone_def receipts_ok_def log_ok_def once_def)

text \<open>
  C5: However the threads of the daemon interleave, a request whose receipt could be written is carried out
  at most once in the lifetime of a receipt, and every answer to it, the first one and those of its retries,
  is the response of that one time; an attempt that was refused is not counted and may be retried.
\<close>

theorem request_dispatched_once:
  assumes "codec_ok c" "wire_ok wi" "window clock" and new: "od_receipts (k_db k) = []"
    and run: "(desk_step c wi clock)\<^sup>*\<^sup>* (opened k) d" and stored: "key \<notin> de_unstored d"
  shows "length (filter (\<lambda>x. fst x = key) (de_log d)) \<le> 1
    \<and> (\<forall>i j t u r s. de_threads d i = Some t \<longrightarrow> de_threads d j = Some u \<longrightarrow> thread_key c t = key \<longrightarrow> thread_key c u = key \<longrightarrow>
         response (th_stage t) = Some r \<longrightarrow> response (th_stage u) = Some s \<longrightarrow> r = s)"
proof -
  have ok: "desk_ok c wi clock d" by (rule desk_steps_ok [OF run assms(1-3) opened_ok [OF new]])
  have one: "length (filter (\<lambda>x. fst x = key) (de_log d)) \<le> 1" by (rule onceD [OF desk_okD(5) [OF ok] stored])
  have "r = s" if "de_threads d i = Some t" "de_threads d j = Some u" "thread_key c t = key" "thread_key c u = key"
    "response (th_stage t) = Some r" "response (th_stage u) = Some s" for i j t u r s
  proof -
    have "(key, r) \<in> set (filter (\<lambda>x. fst x = key) (de_log d))" "(key, s) \<in> set (filter (\<lambda>x. fst x = key) (de_log d))"
      using desk_okD(1) [OF ok that(1)] desk_okD(1) [OF ok that(2)] that(3-) by (auto simp: thread_ok_def)
    then show ?thesis using one by (cases "filter (\<lambda>x. fst x = key) (de_log d)") auto
  qed
  then show ?thesis using one by blast
qed

definition demo_wire :: "nat wire" where
  "demo_wire = \<lparr>wi_enc = (\<lambda>n. Inr (replicate n (CHR ''x''))), wi_dec = (\<lambda>s. Inr (length s))\<rparr>"

lemma demo_desk:
  "\<exists>d. (desk_step plain_codec demo_wire {UNIX_EPOCH})\<^sup>*\<^sup>* (opened demo_kernel) d
    \<and> de_log d = [((''id'', ''human''), 7)] \<and> de_unstored d = {}
    \<and> map_option th_stage (de_threads d 1) = Some (Answered (Inr 7))"
proof -
  let ?step = "desk_step plain_codec demo_wire {UNIX_EPOCH}"
  let ?th = "\<lambda>st. \<lparr>th_request_id = ''id'', th_caller = None, th_stage = st\<rparr> :: nat thread"
  let ?free = "demo_kernel\<lparr>k_ledger := demo_ledger\<lparr>lg_in_flight := {(''id'', ''human'')}\<rparr>\<rparr>"
  let ?kept = "?free\<lparr>k_db := (k_db demo_kernel)\<lparr>od_receipts := [((''id'', ''human''), replicate 7 (CHR ''x''), co_ts plain_codec UNIX_EPOCH)]\<rparr>\<rparr>"
  let ?d = "\<lambda>k st log. \<lparr>de_kernel = k, de_threads = [0 \<mapsto> ?th st], de_log = log, de_unstored = {}\<rparr>"
  have key: "caller_key plain_codec None = ''human''" by (simp add: caller_key_def)
  have miss: "load_receipt plain_codec demo_wire (\<lambda>_. None) UNIX_EPOCH ''id'' None k = Inr None" if "od_receipts (k_db k) = []" for k
    using that by (simp add: load_receipt_def get_receipt_def try_opt_def)
  have "?step (opened demo_kernel) (?d demo_kernel AtFirst [])"
    using desk_arrive [of "opened demo_kernel" 0 plain_codec demo_wire "{UNIX_EPOCH}" "''id''" None] by (simp add: opened_def)
  moreover have "?step (?d demo_kernel AtFirst []) (?d demo_kernel AtClaim [])"
    using desk_first [of "?d demo_kernel AtFirst []" 0 "?th AtFirst" UNIX_EPOCH "{UNIX_EPOCH}" plain_codec demo_wire "\<lambda>_. None"]
    by (simp add: miss move_def first_look_def demo_kernel_def)
  moreover have "?step (?d demo_kernel AtClaim []) (?d ?free AtSecond [])"
    using desk_claim [of "?d demo_kernel AtClaim []" 0 "?th AtClaim" plain_codec "Inr ()" ?free demo_wire "{UNIX_EPOCH}"]
    by (simp add: key claim_def move_def demo_kernel_def demo_ledger_def)
  moreover have "?step (?d ?free AtSecond []) (?d ?free AtDispatch [])"
    using desk_second [of "?d ?free AtSecond []" 0 "?th AtSecond" UNIX_EPOCH "{UNIX_EPOCH}" plain_codec demo_wire "\<lambda>_. None"]
    by (simp add: miss move_def second_look_def demo_kernel_def)
  moreover have "?step (?d ?free AtDispatch []) (?d ?free (AtStore 7) [((''id'', ''human''), 7)])"
    using desk_dispatched [of "?d ?free AtDispatch []" 0 "?th AtDispatch" plain_codec demo_wire "{UNIX_EPOCH}" 7]
    by (simp add: key move_def)
  moreover have "?step (?d ?free (AtStore 7) [((''id'', ''human''), 7)]) (?d ?kept (AtRelease (Inr 7)) [((''id'', ''human''), 7)])"
    using desk_stored [of "?d ?free (AtStore 7) [((''id'', ''human''), 7)]" 0 "?th (AtStore 7)" 7 UNIX_EPOCH "{UNIX_EPOCH}" plain_codec
        demo_wire "\<lambda>_. None" "Inr ()" ?kept]
    by (simp add: key move_def store_receipt_def demo_wire_def run_db_def put_receipt_def statement_def demo_kernel_def)
  moreover let ?e = "\<lambda>st. \<lparr>de_kernel = ?kept, de_threads = [0 \<mapsto> ?th (AtRelease (Inr 7)), 1 \<mapsto> ?th st],
      de_log = [((''id'', ''human''), 7)], de_unstored = {}\<rparr>"
  have "?step (?d ?kept (AtRelease (Inr 7)) [((''id'', ''human''), 7)]) (?e AtFirst)"
    using desk_arrive [of "?d ?kept (AtRelease (Inr 7)) [((''id'', ''human''), 7)]" 1 plain_codec demo_wire "{UNIX_EPOCH}" "''id''" None]
    by simp
  moreover have "load_receipt plain_codec demo_wire (\<lambda>_. None) UNIX_EPOCH ''id'' None ?kept = Inr (Some 7)"
    by (simp add: load_receipt_def get_receipt_def try_opt_def caller_key_def ts_from_str_def demo_wire_def RECEIPT_TTL_def
        plain_codec_def UNIX_EPOCH_def)
  then have "?step (?e AtFirst) (?e (Answered (Inr 7)))"
    using desk_first [of "?e AtFirst" 1 "?th AtFirst" UNIX_EPOCH "{UNIX_EPOCH}" plain_codec demo_wire "\<lambda>_. None"]
    by (simp add: move_def first_look_def)
  ultimately have "?step\<^sup>*\<^sup>* (opened demo_kernel) (?e (Answered (Inr 7)))" by (meson converse_rtranclp_into_rtranclp rtranclp.rtrancl_refl)
  then show ?thesis by (intro exI [of _ "?e (Answered (Inr 7))"]) simp
qed

theorem request_dispatched_once_witness:
  "\<exists>d. (desk_step plain_codec demo_wire {UNIX_EPOCH})\<^sup>*\<^sup>* (opened demo_kernel) d \<and> de_log d \<noteq> []
    \<and> length (filter (\<lambda>x. fst x = (''id'', ''human'')) (de_log d)) \<le> 1"
proof -
  obtain d where d: "(desk_step plain_codec demo_wire {UNIX_EPOCH})\<^sup>*\<^sup>* (opened demo_kernel) d" "de_log d = [((''id'', ''human''), 7)]"
      "de_unstored d = {}" using demo_desk by blast
  have "wire_ok demo_wire" "window {UNIX_EPOCH}" by (simp_all add: wire_ok_def demo_wire_def window_def RECEIPT_TTL_def)
  then show ?thesis
    using request_dispatched_once [OF plain_codec_ok _ _ _ d(1), of "(''id'', ''human'')"] d by (auto simp: demo_kernel_def)
qed

end
