(* ===== verification/Daemon_Delete.thy ===== *)
theory Daemon_Delete
  imports Orch_System Client_Store
begin

text \<open>
  Removing a session, \<open>close_session\<close>, \<open>kill_and_close_session\<close> and what they call in \<open>daemon/src/core.rs\<close>:
  the children are handed to the grandparent, the roots of their subtrees rewritten by a loop over a
  stack, the row deleted, the caches and the ledger cleaned, and the clients told. \<open>ids\<close> is the order in
  which the hash map of sessions is walked.
\<close>

section \<open>Rewriting the roots of a subtree\<close>

definition children_by_parent :: "session_id list \<Rightarrow> (session_id \<rightharpoonup> session) \<Rightarrow> (session_id \<times> session_id list) list" where
  "children_by_parent ids ss =
    foldl (\<lambda>m i. case ss i of
        None \<Rightarrow> m
      | Some s \<Rightarrow> (case s_parent s of
          None \<Rightarrow> m
        | Some p \<Rightarrow> AList.update p ((case map_of m p of None \<Rightarrow> [] | Some l \<Rightarrow> l) @ [s_id s]) m)) [] ids"

definition kids :: "(session_id \<times> session_id list) list \<Rightarrow> session_id \<Rightarrow> session_id list" where
  "kids m i = (case map_of m i of None \<Rightarrow> [] | Some l \<Rightarrow> l)"

text \<open>The state of the loop; the top of the stack is the head of the list.\<close>

record rewrite =
  rw_stack :: "session_id list"
  rw_seen :: "session_id set"
  rw_sessions :: "session_id \<rightharpoonup> session"
  rw_updated :: "session list"

definition rewrite_round :: "(session_id \<times> session_id list) list \<Rightarrow> session_id \<Rightarrow> rewrite \<Rightarrow> rewrite" where
  "rewrite_round m root st =
    (case rw_stack st of
       [] \<Rightarrow> st
     | i # stack \<Rightarrow>
         if i \<in> rw_seen st then st\<lparr>rw_stack := stack\<rparr>
         else
           let st1 = st\<lparr>rw_stack := rev (kids m i) @ stack, rw_seen := insert i (rw_seen st)\<rparr> in
           case rw_sessions st i of
             None \<Rightarrow> st1
           | Some s \<Rightarrow>
               if s_root s = root then st1
               else let s' = s\<lparr>s_root := root\<rparr> in
                 st1\<lparr>rw_sessions := (rw_sessions st)(i \<mapsto> s'), rw_updated := rw_updated st @ [s']\<rparr>)"

text \<open>A loop that never ends is \<open>None\<close>.\<close>

partial_function (option) rewrite_loop ::
  "(session_id \<times> session_id list) list \<Rightarrow> session_id \<Rightarrow> rewrite \<Rightarrow> rewrite option" where
  "rewrite_loop m root st = (if rw_stack st = [] then Some st else rewrite_loop m root (rewrite_round m root st))"

definition rewrite_subtree_root ::
  "session_id list \<Rightarrow> session_id \<Rightarrow> session_id \<Rightarrow> (session_id \<rightharpoonup> session) \<Rightarrow> ((session_id \<rightharpoonup> session) \<times> session list) option" where
  "rewrite_subtree_root ids start root ss =
    (let m = children_by_parent ids ss in
     map_option (\<lambda>st. (rw_sessions st, rw_updated st))
       (rewrite_loop m root \<lparr>rw_stack = rev (kids m start), rw_seen = {start}, rw_sessions = ss, rw_updated = []\<rparr>))"

section \<open>Deleting\<close>

fun adopt_children ::
  "session_id list \<Rightarrow> session_id option \<Rightarrow> session_id option \<Rightarrow> session_id list \<Rightarrow> (session_id \<rightharpoonup> session)
    \<Rightarrow> ((session_id \<rightharpoonup> session) \<times> session list) option" where
  "adopt_children ids grandparent new_root [] ss = Some (ss, [])"
| "adopt_children ids grandparent new_root (cid # cids) ss =
    (case ss cid of
       None \<Rightarrow> adopt_children ids grandparent new_root cids ss
     | Some child \<Rightarrow>
         let root = (case new_root of None \<Rightarrow> cid | Some r \<Rightarrow> r);
             child' = child\<lparr>s_parent := grandparent, s_root := root\<rparr> in
         Option.bind (rewrite_subtree_root ids cid root (ss(cid \<mapsto> child'))) (\<lambda>(ss1, ups).
         Option.bind (adopt_children ids grandparent new_root cids ss1) (\<lambda>(ss2, ups').
         Some (ss2, child' # ups @ ups'))))"

definition remove_session_cache :: "codec \<Rightarrow> writes \<Rightarrow> timestamp \<Rightarrow> session_id \<Rightarrow> kernel \<Rightarrow> kernel" where
  "remove_session_cache c f now sid k =
    (let k1 = forget_session c f now sid k; inn = k_inner k1 in
     k1\<lparr>k_inner := inn\<lparr>in_sessions := (in_sessions inn)(sid := None),
       in_close_on_exit := in_close_on_exit inn - {sid}, in_idle_warned := in_idle_warned inn - {sid},
       in_resumed_from := (in_resumed_from inn)(sid := None), in_read_only := in_read_only inn - {sid},
       in_launch_options := in_launch_options inn - {sid}, in_pending_prompts := (in_pending_prompts inn)(sid := None),
       in_prompt_gates := (in_prompt_gates inn)(sid := None)\<rparr>\<rparr>)"

text \<open>
  The errors of the upserts are ignored; \<open>kept\<close> says which of them wrote their row. An error of the
  delete returns at once.
\<close>

definition upsert_rows :: "(nat \<Rightarrow> bool) \<Rightarrow> session list \<Rightarrow> (session_id \<rightharpoonup> session_row) \<Rightarrow> session_id \<rightharpoonup> session_row" where
  "upsert_rows kept ss rows =
    foldl (\<lambda>r (n, s). if kept n then r(s_id s \<mapsto> session_row_of (s_state s) (s_ended_at s)) else r) rows (enumerate 0 ss)"

definition delete_session_locked ::
  "codec \<Rightarrow> writes \<Rightarrow> (nat \<Rightarrow> bool) \<Rightarrow> string option \<Rightarrow> timestamp \<Rightarrow> session_id list \<Rightarrow> session_id \<Rightarrow> kernel
    \<Rightarrow> ((protocol_error + session list) \<times> kernel) option" where
  "delete_session_locked c f kept fault now ids sid k =
    (let ss = in_sessions (k_inner k) in
     case ss sid of
       None \<Rightarrow> Some (Inr [], k)
     | Some s \<Rightarrow>
         let grandparent = s_parent s;
             new_root = Option.bind grandparent (\<lambda>gp. map_option s_root (ss gp));
             children = map s_id (filter (\<lambda>x. s_parent x = Some sid) (List.map_filter ss ids)) in
         Option.bind (adopt_children ids grandparent new_root children ss) (\<lambda>(ss', updated).
         let inn = (k_inner k)\<lparr>in_sessions := ss', in_db_sessions := upsert_rows kept updated (in_db_sessions (k_inner k))\<rparr>;
             k1 = k\<lparr>k_inner := inn\<rparr> in
         case fault of
           Some m \<Rightarrow> Some (Inl (db_err m), k1)
         | None \<Rightarrow> Some (Inr updated, remove_session_cache c f now sid
             (k1\<lparr>k_inner := inn\<lparr>in_db_sessions := (in_db_sessions inn)(sid := None)\<rparr>\<rparr>))))"

definition announce_removal :: "session list \<Rightarrow> session_id \<Rightarrow> kernel \<Rightarrow> kernel" where
  "announce_removal updated sid k = flush_events (broadcast (map SessionUpdated updated @ [SessionRemoved sid]) k)"

definition kill_and_close_session ::
  "codec \<Rightarrow> writes \<Rightarrow> (nat \<Rightarrow> bool) \<Rightarrow> string option \<Rightarrow> timestamp \<Rightarrow> session_id list \<Rightarrow> session_id \<Rightarrow> kernel
    \<Rightarrow> ((protocol_error + unit) \<times> kernel) option" where
  "kill_and_close_session c f kept fault now ids sid k =
    (if in_sessions (k_inner k) sid = None then Some (Inl (not_found ''session''), k)
     else map_option (\<lambda>r. case r of
         (Inl e, k1) \<Rightarrow> (Inl e, k1)
       | (Inr updated, k1) \<Rightarrow> (Inr (), announce_removal updated sid k1))
       (delete_session_locked c f kept fault now ids sid k))"

definition close_check :: "session_id \<Rightarrow> inner \<Rightarrow> protocol_error + unit" where
  "close_check sid inn =
    try_bind (require (in_sessions inn sid) (not_found ''session'')) (\<lambda>s.
    check (\<not> is_active (s_state s)) (precondition_failed ''session is active; kill it before closing''))"

text \<open>
  The check and the deletion are two sections under the lock: \<open>inn0\<close> is what the first one found, \<open>k\<close> what
  the second one finds. The second is the one of \<open>kill_and_close_session\<close>.
\<close>

definition close_session ::
  "codec \<Rightarrow> writes \<Rightarrow> (nat \<Rightarrow> bool) \<Rightarrow> string option \<Rightarrow> timestamp \<Rightarrow> session_id list \<Rightarrow> session_id \<Rightarrow> inner \<Rightarrow> kernel
    \<Rightarrow> ((protocol_error + unit) \<times> kernel) option" where
  "close_session c f kept fault now ids sid inn0 k =
    (case close_check sid inn0 of
       Inl e \<Rightarrow> Some (Inl e, k)
     | Inr _ \<Rightarrow> kill_and_close_session c f kept fault now ids sid k)"

section \<open>The loop\<close>

text \<open>The edges from a session to its children, and a table of sessions with the order it is walked in.\<close>

definition child_rel :: "(session_id \<rightharpoonup> session) \<Rightarrow> (session_id \<times> session_id) set" where
  "child_rel ss = {(p, i). \<exists>s. ss i = Some s \<and> s_parent s = Some p}"

definition keyed :: "session_id list \<Rightarrow> (session_id \<rightharpoonup> session) \<Rightarrow> bool" where
  "keyed ids ss \<longleftrightarrow> set ids = dom ss \<and> (\<forall>i s. ss i = Some s \<longrightarrow> s_id s = i)"

definition upserted :: "session list \<Rightarrow> (session_id \<rightharpoonup> session) \<Rightarrow> session_id \<rightharpoonup> session" where
  "upserted ups ss = foldl (\<lambda>m s. m(s_id s \<mapsto> s)) ss ups"

lemma upserted_simps [simp]:
  "upserted [] ss = ss" "upserted (s # ups) ss = upserted ups (ss(s_id s \<mapsto> s))"
  "upserted (ups @ ups') ss = upserted ups' (upserted ups ss)"
  by (simp_all add: upserted_def)

lemma in_child_rel: "(p, i) \<in> child_rel ss \<longleftrightarrow> parent_of ss i = Some p"
  by (cases "ss i") (auto simp: child_rel_def)

lemma kids_table:
  "kids (children_by_parent ids ss) p = map s_id (filter (\<lambda>s. s_parent s = Some p) (List.map_filter ss ids))"
proof -
  let ?f = "\<lambda>m i. case ss i of None \<Rightarrow> m | Some s \<Rightarrow> (case s_parent s of None \<Rightarrow> m
    | Some p \<Rightarrow> AList.update p ((case map_of m p of None \<Rightarrow> [] | Some l \<Rightarrow> l) @ [s_id s]) m)"
  have "kids (foldl ?f m ids) p = kids m p @ map s_id (filter (\<lambda>s. s_parent s = Some p) (List.map_filter ss ids))" for m
  proof (induction ids arbitrary: m)
    case (Cons i ids)
    have "kids (?f m i) p = kids m p @ map s_id (filter (\<lambda>s. s_parent s = Some p) (List.map_filter ss [i]))"
      by (auto simp: kids_def update_conv' List.map_filter_simps split: option.split)
    then show ?case using Cons.IH [of "?f m i"] by (cases "ss i") (auto simp: List.map_filter_simps)
  qed (simp add: List.map_filter_simps)
  from this [of "[]"] show ?thesis by (simp add: children_by_parent_def kids_def)
qed

lemma set_kids: "keyed ids ss \<Longrightarrow> set (kids (children_by_parent ids ss) p) = child_rel ss `` {p}"
  unfolding kids_table child_rel_def keyed_def
  by (auto simp: List.map_filter_def image_iff) (metis domI option.sel)+

text \<open>Every round takes a session off the stack or sees one more of those with children.\<close>

definition rounds_left :: "(session_id \<times> session_id list) list \<Rightarrow> rewrite \<Rightarrow> nat \<times> nat" where
  "rounds_left m st = (card (fst ` set m - rw_seen st), length (rw_stack st))"

lemma rewrite_round_decreases:
  assumes "rw_stack st \<noteq> []"
  shows "(rounds_left m (rewrite_round m root st), rounds_left m st) \<in> less_than <*lex*> less_than"
proof -
  obtain i stack where st: "rw_stack st = i # stack" using assms by (cases "rw_stack st") auto
  show ?thesis
  proof (cases "i \<in> rw_seen st \<or> i \<notin> fst ` set m")
    case True
    then have "i \<notin> rw_seen st \<Longrightarrow> map_of m i = None" by (simp add: map_of_eq_None_iff)
    then have "i \<notin> rw_seen st \<Longrightarrow> kids m i = []" by (simp add: kids_def)
    then have "rw_stack (rewrite_round m root st) = stack" "fst ` set m - rw_seen (rewrite_round m root st) = fst ` set m - rw_seen st"
      using st True by (auto simp: rewrite_round_def Let_def split: option.split)
    then show ?thesis using st by (simp add: rounds_left_def)
  next
    case False
    then have "rw_seen (rewrite_round m root st) = insert i (rw_seen st)" "i \<in> fst ` set m - rw_seen st"
      using st by (auto simp: rewrite_round_def Let_def split: option.split)
    then have "card (fst ` set m - rw_seen (rewrite_round m root st)) < card (fst ` set m - rw_seen st)"
      by (intro psubset_card_mono) auto
    then show ?thesis by (simp add: rounds_left_def)
  qed
qed

lemma rewrite_loop_rule:
  assumes "I st" "\<And>st. I st \<Longrightarrow> rw_stack st \<noteq> [] \<Longrightarrow> I (rewrite_round m root st)"
  obtains st' where "rewrite_loop m root st = Some st'" "I st'" "rw_stack st' = []"
proof -
  have "wf (inv_image (less_than <*lex*> less_than) (rounds_left m))" by auto
  then have "I st \<longrightarrow> (\<exists>st'. rewrite_loop m root st = Some st' \<and> I st' \<and> rw_stack st' = [])"
  proof (induction st rule: wf_induct_rule)
    case (less st)
    show ?case
    proof (cases "rw_stack st = []")
      case False
      then show ?thesis using less [of "rewrite_round m root st"] rewrite_round_decreases [OF False, of m root] assms(2) [of st]
        by (subst rewrite_loop.simps) auto
    qed (simp add: rewrite_loop.simps)
  qed
  then show thesis using that assms(1) by blast
qed

text \<open>The sessions below \<open>start\<close> get the root, all others stay as they are.\<close>

definition rooted :: "session_id set \<Rightarrow> session_id \<Rightarrow> (session_id \<rightharpoonup> session) \<Rightarrow> session_id \<rightharpoonup> session" where
  "rooted A root ss = (\<lambda>j. if j \<in> A then map_option (\<lambda>s. s\<lparr>s_root := root\<rparr>) (ss j) else ss j)"

definition loop_inv ::
  "(session_id \<rightharpoonup> session) \<Rightarrow> session_id \<Rightarrow> session_id \<Rightarrow> rewrite \<Rightarrow> bool" where
  "loop_inv ss start root st \<longleftrightarrow> start \<in> rw_seen st
     \<and> set (rw_stack st) \<union> rw_seen st \<subseteq> (child_rel ss)\<^sup>* `` {start}
     \<and> child_rel ss `` rw_seen st \<subseteq> rw_seen st \<union> set (rw_stack st)
     \<and> rw_sessions st = rooted (rw_seen st - {start}) root ss
     \<and> upserted (rw_updated st) ss = rw_sessions st"

lemma loop_inv_round:
  assumes k: "keyed ids ss" and inv: "loop_inv ss start root st" and ne: "rw_stack st \<noteq> []"
  shows "loop_inv ss start root (rewrite_round (children_by_parent ids ss) root st)"
proof -
  obtain i stack where st: "rw_stack st = i # stack" using ne by (cases "rw_stack st") auto
  note old = inv [unfolded loop_inv_def]
  have i: "(start, i) \<in> (child_rel ss)\<^sup>*" using old st by auto
  show ?thesis
  proof (cases "i \<in> rw_seen st")
    case True
    then show ?thesis using old st by (auto simp: loop_inv_def rewrite_round_def)
  next
    case False
    define st' where "st' = rewrite_round (children_by_parent ids ss) root st"
    have seen: "rw_seen st' = insert i (rw_seen st)" and stack: "set (rw_stack st') = child_rel ss `` {i} \<union> set stack"
      using st False by (auto simp: st'_def rewrite_round_def Let_def set_kids [OF k] split: option.split)
    have "i \<noteq> start" using False old by auto
    have here: "rw_sessions st i = ss i" using old False by (simp add: rooted_def)
    have sessions: "rw_sessions st' = rooted (rw_seen st' - {start}) root ss" (is "_ = ?r")
      and upserted: "upserted (rw_updated st') ss = rw_sessions st'"
    proof -
      have eq: "rooted (insert i A) root ss = (rooted A root ss)(i := map_option (\<lambda>s. s\<lparr>s_root := root\<rparr>) (ss i))" for A
        by (auto simp: rooted_def)
      have "rw_seen st' - {start} = insert i (rw_seen st - {start})" using seen \<open>i \<noteq> start\<close> by auto
      then have r: "?r = (rw_sessions st)(i := map_option (\<lambda>s. s\<lparr>s_root := root\<rparr>) (ss i))" using old eq by simp
      show "rw_sessions st' = ?r"
        unfolding r using st False here
        by (auto simp: st'_def rewrite_round_def Let_def fun_eq_iff split: option.split)
      have "s_id s = i" if "ss i = Some s" for s using k that by (simp add: keyed_def)
      then show "upserted (rw_updated st') ss = rw_sessions st'"
        using old st False here unfolding st'_def by (auto simp: rewrite_round_def Let_def split: option.split)
    qed
    have "child_rel ss `` {i} \<subseteq> (child_rel ss)\<^sup>* `` {start}" using i by (auto intro: rtrancl_into_rtrancl)
    then show ?thesis using old seen stack sessions upserted st i unfolding loop_inv_def st'_def [symmetric] by auto
  qed
qed

lemma rewrite_subtree_rooted:
  assumes k: "keyed ids ss"
  obtains ups where "rewrite_subtree_root ids start root ss = Some (rooted ((child_rel ss)\<^sup>* `` {start} - {start}) root ss, ups)"
    "upserted ups ss = rooted ((child_rel ss)\<^sup>* `` {start} - {start}) root ss"
proof -
  let ?m = "children_by_parent ids ss"
  let ?st = "\<lparr>rw_stack = rev (kids ?m start), rw_seen = {start}, rw_sessions = ss, rw_updated = []\<rparr>"
  have "loop_inv ss start root ?st" by (auto simp: loop_inv_def set_kids [OF k] rooted_def)
  then obtain st where st: "rewrite_loop ?m root ?st = Some st" "loop_inv ss start root st" "rw_stack st = []"
    by (rule rewrite_loop_rule [where I = "loop_inv ss start root"]) (rule loop_inv_round [OF k])
  have "j \<in> rw_seen st" if "(start, j) \<in> (child_rel ss)\<^sup>*" for j
    using that by (induction rule: rtrancl_induct) (use st(2,3) in \<open>auto simp: loop_inv_def\<close>)
  then have "rw_seen st = (child_rel ss)\<^sup>* `` {start}" using st(2) by (auto simp: loop_inv_def)
  then show thesis using that [of "rw_updated st"] st(1,2) by (simp add: rewrite_subtree_root_def loop_inv_def)
qed

lemma rewrite_subtree_returns: "\<exists>r. rewrite_subtree_root ids start root ss = Some r"
proof -
  let ?m = "children_by_parent ids ss"
  obtain st where "rewrite_loop ?m root \<lparr>rw_stack = rev (kids ?m start), rw_seen = {start}, rw_sessions = ss, rw_updated = []\<rparr> = Some st"
    by (rule rewrite_loop_rule [where I = "\<lambda>_. True"]) simp_all
  then show ?thesis by (simp add: rewrite_subtree_root_def)
qed

text \<open>
  C19: Rewriting the roots of a subtree ends whatever the table of sessions holds, cycles and dangling
  parents included, and when the rows carry their own ids it gives the new root to exactly the sessions
  below the one it starts from, each of them whether or not a cycle leads back, and reports exactly what it
  changed.
\<close>

theorem rewrite_subtree_ends:
  "\<exists>ss' ups. rewrite_subtree_root ids start root ss = Some (ss', ups)
    \<and> (keyed ids ss \<longrightarrow> upserted ups ss = ss'
        \<and> (\<forall>j. ss' j = (if (start, j) \<in> (child_rel ss)\<^sup>* \<and> j \<noteq> start
             then map_option (\<lambda>s. s\<lparr>s_root := root\<rparr>) (ss j) else ss j)))"
proof (cases "keyed ids ss")
  case True
  obtain ups where "rewrite_subtree_root ids start root ss = Some (rooted ((child_rel ss)\<^sup>* `` {start} - {start}) root ss, ups)"
    "upserted ups ss = rooted ((child_rel ss)\<^sup>* `` {start} - {start}) root ss" by (rule rewrite_subtree_rooted [OF True])
  then show ?thesis by (auto simp: rooted_def)
next
  case False
  then show ?thesis using rewrite_subtree_returns [of ids start root ss] by auto
qed

definition loop_session :: "nat \<Rightarrow> nat \<Rightarrow> session" where
  "loop_session i p = (new_session (SessionId (of_nat i)) (WorkspaceId 1) SK_Agent Generic (Some (SessionId (of_nat p))) None None None
     None None UNIX_EPOCH)"

theorem rewrite_subtree_ends_witness:
  "\<exists>ss' ups. rewrite_subtree_root [SessionId 1, SessionId 2] (SessionId 1) (SessionId 7)
      [SessionId 1 \<mapsto> loop_session 1 2, SessionId 2 \<mapsto> loop_session 2 1] = Some (ss', ups)
    \<and> map_option s_root (ss' (SessionId 1)) = Some (SessionId 1) \<and> map_option s_root (ss' (SessionId 2)) = Some (SessionId 7)"
proof -
  let ?ss = "[SessionId 1 \<mapsto> loop_session 1 2, SessionId 2 \<mapsto> loop_session 2 1]"
  have "keyed [SessionId 1, SessionId 2] ?ss" by (auto simp: keyed_def loop_session_def new_session_def)
  moreover have "(SessionId 1, SessionId 2) \<in> child_rel ?ss" by (simp add: child_rel_def loop_session_def new_session_def)
  ultimately show ?thesis
    using rewrite_subtree_ends [of "[SessionId 1, SessionId 2]" "SessionId 1" "SessionId 7" ?ss]
    by (auto simp: loop_session_def new_session_def)
qed

section \<open>Adopting the children\<close>

text \<open>Edges into \<open>c\<close> do not matter to a session that reaches none of their sources.\<close>

lemma reach_redirect:
  assumes agree: "\<And>x y. y \<noteq> c \<Longrightarrow> (x, y) \<in> R \<longleftrightarrow> (x, y) \<in> R'"
    and into: "\<And>x. (x, c) \<in> R \<Longrightarrow> (a, x) \<notin> R\<^sup>*" "\<And>x. (x, c) \<in> R' \<Longrightarrow> (a, x) \<notin> R\<^sup>*"
  shows "(a, j) \<in> R'\<^sup>* \<longleftrightarrow> (a, j) \<in> R\<^sup>*"
proof
  show "(a, j) \<in> R\<^sup>*" if "(a, j) \<in> R'\<^sup>*"
    using that
  proof (induction rule: rtrancl_induct)
    case (step y z)
    then have "z \<noteq> c" using into(2) by auto
    then show ?case using step agree by (metis rtrancl.rtrancl_into_rtrancl)
  qed simp
  show "(a, j) \<in> R'\<^sup>*" if "(a, j) \<in> R\<^sup>*"
    using that
  proof (induction rule: rtrancl_induct)
    case (step y z)
    then have "z \<noteq> c" using into(1) by auto
    then show ?case using step agree by (metis rtrancl.rtrancl_into_rtrancl)
  qed simp
qed

text \<open>Two sessions above a third one are above one another: a session has one parent.\<close>

lemma above_linear:
  assumes "(a, j) \<in> (child_rel ss)\<^sup>*" "(b, j) \<in> (child_rel ss)\<^sup>*"
  shows "(a, b) \<in> (child_rel ss)\<^sup>* \<or> (b, a) \<in> (child_rel ss)\<^sup>*"
  using assms
proof (induction rule: rtrancl_induct)
  case (step y z)
  show ?case
  proof (cases "b = z")
    case True
    then show ?thesis using step.hyps by (blast intro: rtrancl_into_rtrancl)
  next
    case False
    then obtain x where "(b, x) \<in> (child_rel ss)\<^sup>*" "(x, z) \<in> child_rel ss" using step.prems by (blast elim: rtranclE)
    moreover have "x = y" using calculation(2) step.hyps(2) by (simp add: in_child_rel)
    ultimately show ?thesis using step.IH by simp
  qed
qed simp

definition adopted :: "session_id option \<Rightarrow> (session_id \<Rightarrow> session_id) \<Rightarrow> session_id \<Rightarrow> session_id \<Rightarrow> session \<Rightarrow> session" where
  "adopted gp r c j s = s\<lparr>s_root := r c, s_parent := (if j = c then gp else s_parent s)\<rparr>"

lemma adopt_children_exact:
  assumes "keyed ids ss" "distinct cids"
    and "\<And>c. c \<in> set cids \<Longrightarrow> (sid, c) \<in> child_rel ss \<and> (c, sid) \<notin> (child_rel ss)\<^sup>* \<and> (\<forall>g. gp = Some g \<longrightarrow> (c, g) \<notin> (child_rel ss)\<^sup>*)"
  shows "\<exists>ss' ups. adopt_children ids gp nr cids ss = Some (ss', ups) \<and> upserted ups ss = ss' \<and> keyed ids ss'
    \<and> (\<forall>c \<in> set cids. \<forall>j. (c, j) \<in> (child_rel ss)\<^sup>* \<longrightarrow>
         ss' j = map_option (adopted gp (\<lambda>c. case nr of None \<Rightarrow> c | Some r \<Rightarrow> r) c j) (ss j))
    \<and> (\<forall>j. (\<forall>c \<in> set cids. (c, j) \<notin> (child_rel ss)\<^sup>*) \<longrightarrow> ss' j = ss j)"
  using assms
proof (induction cids arbitrary: ss)
  case (Cons c cids)
  let ?r = "\<lambda>c. case nr of None \<Rightarrow> c | Some r \<Rightarrow> r"
  let ?E = "child_rel ss"
  note c = Cons.prems(3) [of c, simplified]
  obtain child where child: "ss c = Some child" "s_parent child = Some sid" using c by (auto simp: child_rel_def)
  have idc: "s_id child = c" using Cons.prems(1) child by (simp add: keyed_def)
  define child' where "child' = child\<lparr>s_parent := gp, s_root := ?r c\<rparr>"
  define ss1 where "ss1 = ss(c \<mapsto> child')"
  have k1: "keyed ids ss1" using Cons.prems(1) child idc by (auto simp: keyed_def ss1_def child'_def)
  have agree: "(x, y) \<in> ?E \<longleftrightarrow> (x, y) \<in> child_rel ss1" if "y \<noteq> c" for x y using that by (simp add: in_child_rel ss1_def)
  have reach: "(a, j) \<in> (child_rel ss1)\<^sup>* \<longleftrightarrow> (a, j) \<in> ?E\<^sup>*" if "a \<in> set (c # cids)" for a j
  proof (rule reach_redirect [OF agree])
    show "(a, x) \<notin> ?E\<^sup>*" if "(x, c) \<in> ?E" for x
      using that child Cons.prems(3) [OF \<open>a \<in> set (c # cids)\<close>] by (simp add: in_child_rel)
    show "(a, x) \<notin> ?E\<^sup>*" if "(x, c) \<in> child_rel ss1" for x
      using that Cons.prems(3) [OF \<open>a \<in> set (c # cids)\<close>] by (simp add: in_child_rel ss1_def child'_def)
  qed
  define ss2 where "ss2 = rooted ((child_rel ss1)\<^sup>* `` {c} - {c}) (?r c) ss1"
  obtain ups where ups: "rewrite_subtree_root ids c (?r c) ss1 = Some (ss2, ups)" "upserted ups ss1 = ss2"
    using rewrite_subtree_rooted [OF k1, of c "?r c"] unfolding ss2_def by blast
  have par: "parent_of ss2 j = parent_of ss1 j" for j
    by (cases "ss1 j") (simp_all add: ss2_def rooted_def)
  then have E2: "child_rel ss2 = child_rel ss1" by (auto simp: set_eq_iff in_child_rel)
  have k2: "keyed ids ss2" using k1 by (auto simp: keyed_def ss2_def rooted_def dom_def)
  have apart: "(c', j) \<notin> ?E\<^sup>*" if "c' \<in> set cids" "(c, j) \<in> ?E\<^sup>*" for c' j
  proof
    assume j: "(c', j) \<in> ?E\<^sup>*"
    have c': "(sid, c') \<in> ?E" "(c', sid) \<notin> ?E\<^sup>*" "c' \<noteq> c" using Cons.prems(2,3) that(1) by auto
    have up: "(x, sid) \<in> ?E\<^sup>*" if "(x, y) \<in> ?E\<^sup>*" "x \<noteq> y" "(sid, y) \<in> ?E" for x y
      using that by (auto elim: rtranclE simp: in_child_rel)
    have "(c, c') \<in> ?E\<^sup>* \<or> (c', c) \<in> ?E\<^sup>*" using above_linear [OF that(2) j] .
    then show False using up [of c c'] up [of c' c] c c' by auto
  qed
  have "\<exists>ss' ups'. adopt_children ids gp nr cids ss2 = Some (ss', ups') \<and> upserted ups' ss2 = ss' \<and> keyed ids ss'
    \<and> (\<forall>d \<in> set cids. \<forall>j. (d, j) \<in> (child_rel ss2)\<^sup>* \<longrightarrow> ss' j = map_option (adopted gp ?r d j) (ss2 j))
    \<and> (\<forall>j. (\<forall>d \<in> set cids. (d, j) \<notin> (child_rel ss2)\<^sup>*) \<longrightarrow> ss' j = ss2 j)"
  proof (rule Cons.IH [OF k2])
    show "distinct cids" using Cons.prems(2) by simp
    fix d assume d: "d \<in> set cids"
    then have "d \<noteq> c" using Cons.prems(2) by auto
    then show "(sid, d) \<in> child_rel ss2 \<and> (d, sid) \<notin> (child_rel ss2)\<^sup>* \<and> (\<forall>g. gp = Some g \<longrightarrow> (d, g) \<notin> (child_rel ss2)\<^sup>*)"
      using Cons.prems(3) [of d] d agree reach unfolding E2 by auto
  qed
  then obtain ss' ups' where rest: "adopt_children ids gp nr cids ss2 = Some (ss', ups')" "upserted ups' ss2 = ss'" "keyed ids ss'"
    "\<forall>d \<in> set cids. \<forall>j. (d, j) \<in> (child_rel ss2)\<^sup>* \<longrightarrow> ss' j = map_option (adopted gp ?r d j) (ss2 j)"
    "\<forall>j. (\<forall>d \<in> set cids. (d, j) \<notin> (child_rel ss2)\<^sup>*) \<longrightarrow> ss' j = ss2 j" by blast
  have eq: "adopt_children ids gp nr (c # cids) ss = Some (ss', child' # ups @ ups')"
    using child ups rest(1) unfolding ss1_def child'_def by (simp add: Let_def)
  have "upserted (child' # ups @ ups') ss = ss'" using idc ups(2) rest(2) by (simp add: ss1_def child'_def)
  moreover have below: "ss2 j = map_option (adopted gp ?r c j) (ss j)" if "(c, j) \<in> ?E\<^sup>*" for j
  proof (cases "j = c")
    case True
    then show ?thesis using child by (simp add: ss2_def rooted_def ss1_def child'_def adopted_def)
  next
    case False
    then show ?thesis using that reach [of c j]
      by (cases "ss j") (auto simp: ss2_def rooted_def ss1_def adopted_def)
  qed
  moreover have beside: "ss2 j = ss j" if "(c, j) \<notin> ?E\<^sup>*" for j
  proof -
    have "j \<noteq> c" using that by auto
    then show ?thesis using that reach [of c j] by (simp add: ss2_def rooted_def ss1_def)
  qed
  moreover have "ss' j = map_option (adopted gp ?r c j) (ss j)" if "(c, j) \<in> ?E\<^sup>*" for j
    using rest(5) apart [OF _ that] reach below [OF that] unfolding E2 by simp
  moreover have "ss' j = map_option (adopted gp ?r d j) (ss j)" if "d \<in> set cids" "(d, j) \<in> ?E\<^sup>*" for d j
  proof -
    have "ss2 j = ss j" using beside [of j] apart [OF that(1), of j] that(2) by blast
    moreover have "(d, j) \<in> (child_rel ss2)\<^sup>*" using reach [of d j] that unfolding E2 by simp
    ultimately show ?thesis using rest(4) that(1) by auto
  qed
  moreover have "ss' j = ss j" if "\<forall>d \<in> set (c # cids). (d, j) \<notin> ?E\<^sup>*" for j
    using rest(5) that reach beside [of j] unfolding E2 by simp
  ultimately show ?case using eq rest(3) by auto
qed simp

section \<open>What a removal leaves\<close>

lemma run_db_inner: "k_inner (snd (run_db op k)) = k_inner k"
  by (simp add: run_db_def split: prod.split sum.split)

lemma fold_inner: "(\<And>x k. k_inner (g x k) = k_inner k) \<Longrightarrow> k_inner (fold g xs k) = k_inner k"
  by (induction xs arbitrary: k) auto

lemma forget_session_inner: "k_inner (forget_session c f now sid k) = k_inner k"
  by (auto simp: forget_session_def persist_forgotten_def Let_def attempt_write_def persist_task_def persist_attempt_def
      run_db_inner fold_inner split: prod.split)

lemma children_list:
  "keyed ids ss \<Longrightarrow> map s_id (filter (\<lambda>x. s_parent x = Some p) (List.map_filter ss ids)) = filter (\<lambda>i. parent_of ss i = Some p) ids"
proof -
  have "set xs \<subseteq> dom ss \<Longrightarrow> \<forall>i s. ss i = Some s \<longrightarrow> s_id s = i \<Longrightarrow>
      map s_id (filter (\<lambda>x. s_parent x = Some p) (List.map_filter ss xs)) = filter (\<lambda>i. parent_of ss i = Some p) xs" for xs
    by (induction xs) (auto simp: List.map_filter_simps split: option.split)
  then show "keyed ids ss \<Longrightarrow> ?thesis" by (simp add: keyed_def)
qed

lemma graph_depth_above:
  "(a, b) \<in> (child_rel ss)\<^sup>* \<Longrightarrow> graph_depth ss a d \<Longrightarrow> \<exists>e \<ge> d. graph_depth ss b e"
proof (induction rule: rtrancl_induct)
  case (step y z)
  then obtain e where "e \<ge> d" "graph_depth ss y e" by blast
  then show ?case using step.hyps(2) by (auto simp: in_child_rel intro!: exI [of _ "Suc e"] depth_child)
qed auto

text \<open>A child is above neither its parent nor its grandparent.\<close>

lemma graph_ok_child:
  assumes ok: "graph_ok ss" and e: "(p, c) \<in> child_rel ss"
  shows "(c, p) \<notin> (child_rel ss)\<^sup>*" and "parent_of ss p = Some g \<Longrightarrow> (c, g) \<notin> (child_rel ss)\<^sup>*"
proof -
  obtain s where s: "ss c = Some s" "s_parent s = Some p" using e by (auto simp: child_rel_def)
  obtain d where d: "graph_depth ss c d" using graph_okD(1) [OF ok s(1)] by blast
  have par: "parent_of ss c = Some p" using s by simp
  then obtain d0 where d0: "d = Suc d0" "graph_depth ss p d0" using d by (auto elim: graph_depth_elim)
  show np: "(c, p) \<notin> (child_rel ss)\<^sup>*"
  proof
    assume "(c, p) \<in> (child_rel ss)\<^sup>*"
    then obtain e where "e \<ge> d" "graph_depth ss p e" using graph_depth_above [OF _ d] by blast
    then show False using graph_depth_unique [OF d0(2)] d0(1) by auto
  qed
  assume "parent_of ss p = Some g"
  then have "(g, p) \<in> child_rel ss" by (simp add: in_child_rel)
  then show "(c, g) \<notin> (child_rel ss)\<^sup>*" using np by (blast intro: rtrancl_into_rtrancl)
qed

lemma below_parent:
  "(c, j) \<in> (child_rel ss)\<^sup>* \<Longrightarrow> c \<noteq> j \<Longrightarrow> (p, j) \<in> child_rel ss \<Longrightarrow> (c, p) \<in> (child_rel ss)\<^sup>*"
  by (erule rtranclE) (auto simp: in_child_rel)

text \<open>The adopted table without the session is a session graph again.\<close>

lemma graph_ok_adopted:
  assumes ok: "graph_ok ss" and sid: "ss sid = Some s"
    and nr: "nr = Option.bind (s_parent s) (\<lambda>g. map_option s_root (ss g))"
    and low: "\<And>c j. (sid, c) \<in> child_rel ss \<Longrightarrow> (c, j) \<in> (child_rel ss)\<^sup>* \<Longrightarrow>
        ss' j = map_option (adopted (s_parent s) (\<lambda>c. case nr of None \<Rightarrow> c | Some r \<Rightarrow> r) c j) (ss j)"
    and rest: "\<And>j. (\<And>c. (sid, c) \<in> child_rel ss \<Longrightarrow> (c, j) \<notin> (child_rel ss)\<^sup>*) \<Longrightarrow> ss' j = ss j"
  shows "graph_ok (ss'(sid := None))"
proof -
  let ?E = "child_rel ss"
  let ?r = "\<lambda>c. case nr of None \<Rightarrow> c | Some r \<Rightarrow> r"
  define n where "n = ss'(sid := None)"
  have parent: "parent_of n j = (if parent_of ss j = Some sid then s_parent s else parent_of ss j)" if "j \<noteq> sid" for j
  proof (cases "\<exists>c. (sid, c) \<in> ?E \<and> (c, j) \<in> ?E\<^sup>*")
    case True
    then obtain c where c: "(sid, c) \<in> ?E" "(c, j) \<in> ?E\<^sup>*" by blast
    have "parent_of ss j = Some sid \<longleftrightarrow> j = c"
      using c graph_ok_child(1) [OF ok c(1)] by (auto simp: in_child_rel elim: rtranclE)
    then show ?thesis using low [OF c] that by (cases "ss j") (auto simp: adopted_def n_def)
  next
    case False
    then have "ss' j = ss j" using rest by blast
    moreover have "parent_of ss j \<noteq> Some sid" using False by (auto simp: in_child_rel)
    ultimately show ?thesis using that by (simp add: n_def)
  qed
  have depth: "(j \<noteq> sid \<longrightarrow> (\<exists>e \<le> d. graph_depth n j e))
      \<and> (j = sid \<longrightarrow> (\<forall>g. s_parent s = Some g \<longrightarrow> (\<exists>e < d. graph_depth n g e)))" if "graph_depth ss j d" for j d
    using that
  proof (induction rule: graph_depth.induct)
    case (depth_root i)
    have "graph_depth n i (Suc 0)" if "i \<noteq> sid" using parent [OF that] depth_root by (auto intro: graph_depth.depth_root)
    then show ?case using depth_root sid by auto
  next
    case (depth_child i p d)
    show ?case
    proof (cases "i = sid")
      case True
      then have "p \<noteq> sid" "s_parent s = Some p"
        using depth_child.hyps(1) sid graph_ok_child(1) [OF ok, of p sid] by (auto simp: in_child_rel)
      then show ?thesis using depth_child.IH True by (auto simp: less_Suc_eq_le)
    next
      case False
      show ?thesis
      proof (cases "p = sid")
        case True
        then have par: "parent_of n i = s_parent s" using parent [OF False] depth_child.hyps(1) by simp
        show ?thesis
        proof (cases "s_parent s")
          case None
          then have "graph_depth n i (Suc 0)" using par by (auto intro: graph_depth.depth_root)
          then show ?thesis using False by auto
        next
          case (Some g)
          then obtain e where "e < d" "graph_depth n g e" using depth_child.IH True by blast
          then show ?thesis using par Some False by (auto intro!: exI [of _ "Suc e"] graph_depth.depth_child)
        qed
      next
        case p: False
        then obtain e where "e \<le> d" "graph_depth n p e" using depth_child.IH by blast
        moreover have "parent_of n i = Some p" using parent [OF False] depth_child.hyps(1) p by simp
        ultimately show ?thesis using False by (auto intro!: exI [of _ "Suc e"] graph_depth.depth_child)
      qed
    qed
  qed
  have "(\<exists>d \<le> MAX_GRAPH_DEPTH. graph_depth n j d)
      \<and> (case s_parent t of None \<Rightarrow> s_root t = j | Some p \<Rightarrow> (\<exists>q. n p = Some q \<and> s_root t = s_root q))"
    if t: "n j = Some t" for j t
  proof
    have j: "j \<noteq> sid" "ss' j = Some t" using t by (auto simp: n_def split: if_splits)
    have "\<exists>u. ss j = Some u"
      using low [of _ j] rest [of j] j(2) by (cases "ss j") force+
    then obtain u where u: "ss j = Some u" by blast
    show "\<exists>d \<le> MAX_GRAPH_DEPTH. graph_depth n j d"
      using graph_okD(1) [OF ok u] depth [of j] j(1) by (meson order_trans)
    have par: "s_parent t = (if s_parent u = Some sid then s_parent s else s_parent u)" using parent [OF j(1)] t u by simp
    have at: "s_root t = ?r c" if "(sid, c) \<in> ?E" "(c, j) \<in> ?E\<^sup>*" for c
      using low [OF that] j(2) u by (auto simp: adopted_def)
    have off: "t = u" if "\<And>c. (sid, c) \<in> ?E \<Longrightarrow> (c, j) \<notin> ?E\<^sup>*" using rest [OF that] j(2) u by simp
    show "case s_parent t of None \<Rightarrow> s_root t = j | Some p \<Rightarrow> (\<exists>q. n p = Some q \<and> s_root t = s_root q)"
    proof (cases "s_parent u")
      case None
      then have "(c, j) \<notin> ?E\<^sup>*" if "(sid, c) \<in> ?E" for c using that u by (auto simp: in_child_rel elim: rtranclE)
      then show ?thesis using off graph_okD(2) [OF ok u] None by simp
    next
      case (Some p)
      then have e: "(p, j) \<in> ?E" using u by (simp add: in_child_rel)
      show ?thesis
      proof (cases "p = sid")
        case True
        then have r: "s_root t = ?r j" "s_parent t = s_parent s" using at [of j] e par Some by simp_all
        show ?thesis
        proof (cases "s_parent s")
          case (Some g)
          obtain q where q: "ss g = Some q" using graph_okD(3) [OF ok sid Some] by blast
          have "parent_of ss sid = Some g" using sid Some by simp
          then have "ss' g = ss g" by (intro rest graph_ok_child(2) [OF ok])
          moreover have "g \<noteq> sid" using graph_ok_child(1) [OF ok, of g sid] sid Some by (auto simp: in_child_rel)
          ultimately show ?thesis using r q Some nr by (simp add: n_def)
        qed (use r nr in simp)
      next
        case False
        obtain q where q: "ss p = Some q" "s_root u = s_root q" using graph_okD(3) [OF ok u Some] by blast
        have "s_parent t = Some p" using par Some False by simp
        moreover have "\<exists>q'. ss' p = Some q' \<and> s_root t = s_root q'"
        proof (cases "\<exists>c. (sid, c) \<in> ?E \<and> (c, j) \<in> ?E\<^sup>*")
          case True
          then obtain c where c: "(sid, c) \<in> ?E" "(c, j) \<in> ?E\<^sup>*" by blast
          have "c \<noteq> j" using c(1) e False by (auto simp: in_child_rel)
          then have "(c, p) \<in> ?E\<^sup>*" using below_parent [OF c(2) _ e] by simp
          from low [OF c(1) this] show ?thesis using q at [OF c] by (simp add: adopted_def)
        next
          case below: False
          then have "(c, p) \<notin> ?E\<^sup>*" if "(sid, c) \<in> ?E" for c using that e by (blast intro: rtrancl_into_rtrancl)
          then have "ss' p = ss p" by (rule rest)
          moreover have "t = u" by (rule off) (use below in blast)
          ultimately show ?thesis using q by simp
        qed
        ultimately show ?thesis using False by (simp add: n_def)
      qed
    qed
  qed
  then show ?thesis by (simp add: graph_ok_def flip: n_def)
qed

lemma delete_session_adopts:
  assumes ok: "graph_ok (in_sessions (k_inner k))" and k: "keyed ids (in_sessions (k_inner k))" and d: "distinct ids"
    and s: "in_sessions (k_inner k) sid = Some s"
  obtains ss' updated where
    "\<And>fault. delete_session_locked c f kept fault now ids sid k = (let inn = (k_inner k)\<lparr>in_sessions := ss',
         in_db_sessions := upsert_rows kept updated (in_db_sessions (k_inner k))\<rparr> in
       case fault of Some m \<Rightarrow> Some (Inl (db_err m), k\<lparr>k_inner := inn\<rparr>)
       | None \<Rightarrow> Some (Inr updated, remove_session_cache c f now sid
           (k\<lparr>k_inner := inn\<lparr>in_db_sessions := (in_db_sessions inn)(sid := None)\<rparr>\<rparr>)))"
    "upserted updated (in_sessions (k_inner k)) = ss'" "graph_ok (ss'(sid := None))" "keyed ids ss'"
    "\<And>j t. in_sessions (k_inner k) j = Some t \<Longrightarrow> \<exists>r. ss' j =
       Some (t\<lparr>s_root := r, s_parent := (if s_parent t = Some sid then s_parent s else s_parent t)\<rparr>)"
proof -
  let ?ss = "in_sessions (k_inner k)"
  define nr where "nr = Option.bind (s_parent s) (\<lambda>gp. map_option s_root (?ss gp))"
  define cids where "cids = filter (\<lambda>i. parent_of ?ss i = Some sid) ids"
  have C: "set cids = child_rel ?ss `` {sid}"
    using k by (auto simp: cids_def keyed_def in_child_rel)
  have "distinct cids" using d by (simp add: cids_def)
  have pre: "(sid, c) \<in> child_rel ?ss \<and> (c, sid) \<notin> (child_rel ?ss)\<^sup>* \<and> (\<forall>g. s_parent s = Some g \<longrightarrow> (c, g) \<notin> (child_rel ?ss)\<^sup>*)"
    if "c \<in> set cids" for c
  proof -
    have e: "(sid, c) \<in> child_rel ?ss" using that C by simp
    show ?thesis using e graph_ok_child [OF ok e] s by simp
  qed
  obtain ss' updated where a: "adopt_children ids (s_parent s) nr cids ?ss = Some (ss', updated)" "upserted updated ?ss = ss'"
      "keyed ids ss'"
      "\<forall>c \<in> set cids. \<forall>j. (c, j) \<in> (child_rel ?ss)\<^sup>* \<longrightarrow>
         ss' j = map_option (adopted (s_parent s) (\<lambda>c. case nr of None \<Rightarrow> c | Some r \<Rightarrow> r) c j) (?ss j)"
      "\<forall>j. (\<forall>c \<in> set cids. (c, j) \<notin> (child_rel ?ss)\<^sup>*) \<longrightarrow> ss' j = ?ss j"
    using adopt_children_exact [OF k \<open>distinct cids\<close> pre] by blast
  have graph: "graph_ok (ss'(sid := None))"
    by (rule graph_ok_adopted [OF ok s nr_def]) (use a(4,5) C in auto)
  have shape: "\<exists>r. ss' j = Some (t\<lparr>s_root := r, s_parent := (if s_parent t = Some sid then s_parent s else s_parent t)\<rparr>)"
    if t: "?ss j = Some t" for j t
  proof (cases "\<exists>c. (sid, c) \<in> child_rel ?ss \<and> (c, j) \<in> (child_rel ?ss)\<^sup>*")
    case True
    then obtain c where c: "(sid, c) \<in> child_rel ?ss" "(c, j) \<in> (child_rel ?ss)\<^sup>*" by blast
    have "s_parent t = Some sid \<longleftrightarrow> j = c"
    proof
      assume "s_parent t = Some sid"
      then have "(sid, j) \<in> child_rel ?ss" using t by (simp add: in_child_rel)
      then show "j = c" using below_parent [OF c(2)] graph_ok_child(1) [OF ok c(1)] by blast
    next
      assume "j = c"
      then show "s_parent t = Some sid" using c(1) t by (simp add: in_child_rel)
    qed
    moreover have "ss' j = map_option (adopted (s_parent s) (\<lambda>c. case nr of None \<Rightarrow> c | Some r \<Rightarrow> r) c j) (?ss j)"
      using a(4) C c by blast
    ultimately show ?thesis using t by (auto simp: adopted_def)
  next
    case False
    then have "ss' j = ?ss j" using a(5) C by blast
    moreover have "s_parent t \<noteq> Some sid"
  proof
    assume "s_parent t = Some sid"
    then have "(sid, j) \<in> child_rel ?ss" using t by (simp add: in_child_rel)
    then show "False" using False by blast
  qed
    ultimately show ?thesis using t by (intro exI [of _ "s_root t"]) simp
  qed
  have "map s_id (filter (\<lambda>x. s_parent x = Some sid) (List.map_filter ?ss ids)) = cids"
    unfolding cids_def by (rule children_list [OF k])
  then have "delete_session_locked c f kept fault now ids sid k = (let inn = (k_inner k)\<lparr>in_sessions := ss',
         in_db_sessions := upsert_rows kept updated (in_db_sessions (k_inner k))\<rparr> in
       case fault of Some m \<Rightarrow> Some (Inl (db_err m), k\<lparr>k_inner := inn\<rparr>)
       | None \<Rightarrow> Some (Inr updated, remove_session_cache c f now sid
           (k\<lparr>k_inner := inn\<lparr>in_db_sessions := (in_db_sessions inn)(sid := None)\<rparr>\<rparr>)))" for fault
    using a(1) s by (cases fault) (simp_all add: delete_session_locked_def Let_def flip: nr_def)
  then show thesis by (rule that [OF _ a(2) graph a(3) shape])
qed

text \<open>
  C17: Deleting a session of a well-formed graph returns, removes that session and no other, hands its
  children to its parent, changes nothing but parents and roots of the others, and leaves a well-formed
  graph: every parent is there, every session has the root of its tree and no chain is longer than eight.
\<close>

theorem deleting_keeps_graph:
  assumes ok: "graph_ok (in_sessions (k_inner k))" and k: "keyed ids (in_sessions (k_inner k))" and d: "distinct ids"
    and s: "in_sessions (k_inner k) sid = Some s"
  shows "\<exists>updated k'. delete_session_locked c f kept None now ids sid k = Some (Inr updated, k')
    \<and> graph_ok (in_sessions (k_inner k')) \<and> dom (in_sessions (k_inner k')) = dom (in_sessions (k_inner k)) - {sid}
    \<and> (\<forall>j t. in_sessions (k_inner k) j = Some t \<and> j \<noteq> sid \<longrightarrow> (\<exists>r. in_sessions (k_inner k') j =
         Some (t\<lparr>s_root := r, s_parent := (if s_parent t = Some sid then s_parent s else s_parent t)\<rparr>)))"
proof -
  obtain ss' updated where r: "\<And>fault. delete_session_locked c f kept fault now ids sid k = (let inn = (k_inner k)\<lparr>in_sessions := ss',
         in_db_sessions := upsert_rows kept updated (in_db_sessions (k_inner k))\<rparr> in
       case fault of Some m \<Rightarrow> Some (Inl (db_err m), k\<lparr>k_inner := inn\<rparr>)
       | None \<Rightarrow> Some (Inr updated, remove_session_cache c f now sid
           (k\<lparr>k_inner := inn\<lparr>in_db_sessions := (in_db_sessions inn)(sid := None)\<rparr>\<rparr>)))"
    and a: "upserted updated (in_sessions (k_inner k)) = ss'" "graph_ok (ss'(sid := None))" "keyed ids ss'"
    and shape: "\<And>j t. in_sessions (k_inner k) j = Some t \<Longrightarrow> \<exists>r. ss' j =
       Some (t\<lparr>s_root := r, s_parent := (if s_parent t = Some sid then s_parent s else s_parent t)\<rparr>)"
    by (rule delete_session_adopts [OF ok k d s, of c f kept now]) blast
  define k' where "k' = remove_session_cache c f now sid (k\<lparr>k_inner := (k_inner k)\<lparr>in_sessions := ss',
     in_db_sessions := (upsert_rows kept updated (in_db_sessions (k_inner k)))(sid := None)\<rparr>\<rparr>)"
  have del: "delete_session_locked c f kept None now ids sid k = Some (Inr updated, k')"
    using r [of None] by (simp add: Let_def k'_def)
  have ss: "in_sessions (k_inner k') = ss'(sid := None)"
    by (simp add: k'_def remove_session_cache_def Let_def forget_session_inner)
  have "dom ss' = dom (in_sessions (k_inner k))" using k a(3) by (simp add: keyed_def)
  then show ?thesis using del a(2) shape by (intro exI [of _ updated] exI [of _ k']) (auto simp: ss)
qed

definition tree_child :: session where
  "tree_child = (loop_session 2 1)\<lparr>s_root := SessionId 1, s_state := Exited (Some 0) None\<rparr>"

definition tree_kernel :: kernel where
  "tree_kernel = demo_kernel\<lparr>k_inner := (idle_inner [])\<lparr>in_sessions :=
     [SessionId 1 \<mapsto> (loop_session 1 1)\<lparr>s_parent := None\<rparr>,
      SessionId 2 \<mapsto> tree_child,
      SessionId 3 \<mapsto> (loop_session 3 2)\<lparr>s_root := SessionId 1\<rparr>]\<rparr>\<rparr>"

lemma tree_kernel_ok:
  "graph_ok (in_sessions (k_inner tree_kernel))" "keyed [SessionId 3, SessionId 1, SessionId 2] (in_sessions (k_inner tree_kernel))"
proof -
  let ?ss = "in_sessions (k_inner tree_kernel)"
  have d1: "graph_depth ?ss (SessionId 1) (Suc 0)" by (rule depth_root) (simp add: tree_kernel_def)
  have d2: "graph_depth ?ss (SessionId 2) (Suc (Suc 0))"
    by (rule depth_child [OF _ d1]) (simp add: tree_kernel_def tree_child_def loop_session_def new_session_def)
  have d3: "graph_depth ?ss (SessionId 3) (Suc (Suc (Suc 0)))"
    by (rule depth_child [OF _ d2]) (simp add: tree_kernel_def tree_child_def loop_session_def new_session_def)
  have "\<exists>d \<le> MAX_GRAPH_DEPTH. graph_depth ?ss i d" if "?ss i = Some s" for i s
  proof -
    have "i = SessionId 1 \<or> i = SessionId 2 \<or> i = SessionId 3"
      using that by (auto simp: tree_kernel_def split: if_splits)
    then have "\<exists>d. d \<le> MAX_GRAPH_DEPTH \<and> graph_depth ?ss i d"
    proof (elim disjE)
      show "?thesis" if "i = SessionId 1" using d1 that by (intro exI [of _ "Suc 0"]) (simp add: MAX_GRAPH_DEPTH_def)
      show "?thesis" if "i = SessionId 2" using d2 that by (intro exI [of _ "Suc (Suc 0)"]) (simp add: MAX_GRAPH_DEPTH_def)
      show "?thesis" if "i = SessionId 3" using d3 that by (intro exI [of _ "Suc (Suc (Suc 0))"]) (simp add: MAX_GRAPH_DEPTH_def)
    qed
    then show ?thesis by blast
  qed
  then show "graph_ok ?ss"
    unfolding graph_ok_def by (auto simp: tree_kernel_def tree_child_def loop_session_def new_session_def split: if_splits)
  show "keyed [SessionId 3, SessionId 1, SessionId 2] ?ss"
    by (auto simp: keyed_def tree_kernel_def tree_child_def loop_session_def new_session_def split: if_splits)
qed

theorem deleting_keeps_graph_witness:
  "\<exists>updated k'. delete_session_locked plain_codec (\<lambda>_ _. None) (\<lambda>_. True) None UNIX_EPOCH [SessionId 3, SessionId 1, SessionId 2]
      (SessionId 2) tree_kernel = Some (Inr updated, k')
    \<and> graph_ok (in_sessions (k_inner k'))
    \<and> map_option s_parent (in_sessions (k_inner k') (SessionId 3)) = Some (Some (SessionId 1))"
proof -
  have s: "in_sessions (k_inner tree_kernel) (SessionId 2) = Some tree_child"
    and t: "in_sessions (k_inner tree_kernel) (SessionId 3) = Some ((loop_session 3 2)\<lparr>s_root := SessionId 1\<rparr>)"
    by (simp_all add: tree_kernel_def)
  have dd: "distinct [SessionId 3, SessionId 1, SessionId 2]" by simp
  obtain updated k' where k': "delete_session_locked plain_codec (\<lambda>_ _. None) (\<lambda>_. True) None UNIX_EPOCH
      [SessionId 3, SessionId 1, SessionId 2] (SessionId 2) tree_kernel = Some (Inr updated, k')"
    "graph_ok (in_sessions (k_inner k'))"
    and all: "\<forall>j t. in_sessions (k_inner tree_kernel) j = Some t \<and> j \<noteq> SessionId 2 \<longrightarrow>
      (\<exists>r. in_sessions (k_inner k') j = Some (t\<lparr>s_root := r, s_parent := (if s_parent t = Some (SessionId 2)
         then s_parent (tree_child) else s_parent t)\<rparr>))"
    using deleting_keeps_graph [OF tree_kernel_ok dd s, of plain_codec "\<lambda>_ _. None" "\<lambda>_. True" UNIX_EPOCH]
    by (elim exE conjE)
  have ne: "SessionId 3 \<noteq> SessionId 2" by simp
  obtain r where "in_sessions (k_inner k') (SessionId 3) = Some (((loop_session 3 2)\<lparr>s_root := SessionId 1\<rparr>)
      \<lparr>s_root := r, s_parent := (if s_parent ((loop_session 3 2)\<lparr>s_root := SessionId 1\<rparr>) = Some (SessionId 2)
         then s_parent (tree_child) else s_parent ((loop_session 3 2)\<lparr>s_root := SessionId 1\<rparr>))\<rparr>)"
    using all [rule_format, OF conjI [OF t ne]] by (elim exE)
  then have "map_option s_parent (in_sessions (k_inner k') (SessionId 3)) = Some (Some (SessionId 1))"
    by (simp add: tree_child_def loop_session_def new_session_def)
  then show ?thesis using k' by (intro exI [of _ updated] exI [of _ k']) simp
qed

section \<open>What the clients are told\<close>

text \<open>Events that a client's table of sessions depends on, and a client that takes a list of events.\<close>

definition about_sessions :: "'x daemon_event \<Rightarrow> bool" where
  "about_sessions ev = (case ev of SessionCreated _ \<Rightarrow> True | SessionUpdated _ \<Rightarrow> True | SessionRemoved _ \<Rightarrow> True
     | FactoryReset \<Rightarrow> True | _ \<Rightarrow> False)"

definition told :: "ledger_event list \<Rightarrow> unit store \<Rightarrow> unit store" where
  "told evs st = fold (\<lambda>ev st. snd (apply_event () ev st)) evs st"

lemma told_append: "told (evs @ evs') st = told evs' (told evs st)"
  by (simp add: told_def)

lemma told_quiet: "\<forall>ev \<in> set evs. \<not> about_sessions ev \<Longrightarrow> session_lookup (told evs st) = session_lookup st"
  unfolding told_def
  by (induction evs arbitrary: st) (simp_all add: lookup_event about_sessions_def split: daemon_event.splits)

lemma told_updates: "session_lookup (told (map SessionUpdated ups) st) = upserted ups (session_lookup st)"
  unfolding told_def by (induction ups arbitrary: st) (simp_all add: lookup_event del: apply_event.simps)

lemma told_removal: "session_lookup (told [SessionRemoved sid] st) = (session_lookup st)(sid := None)"
  by (simp add: told_def lookup_event del: apply_event.simps)

lemma fold_quiet:
  "(\<And>x k. k_ledger (g x k) = k_ledger k \<and> k_events (g x k) = k_events k) \<Longrightarrow>
    k_ledger (fold g xs k) = k_ledger k \<and> k_events (fold g xs k) = k_events k"
  by (induction xs arbitrary: k) auto

lemma write_quiet: "k_ledger (attempt_write (run_db op) k) = k_ledger k \<and> k_events (attempt_write (run_db op) k) = k_events k"
  by (simp add: attempt_write_def run_db_def split: prod.split sum.split)

lemma persist_forgotten_told:
  "k_events (persist_forgotten c f rs ts as k) = k_events k \<and>
   lg_outbox (k_ledger (persist_forgotten c f rs ts as k)) =
     lg_outbox (k_ledger k) @ map RunUpdated rs @ map TaskUpdated ts @ map AttemptUpdated as"
proof -
  have r: "k_ledger (fold (\<lambda>(n, r). attempt_write (run_db (update_run c (f n) r))) xs k) = k_ledger k \<and>
      k_events (fold (\<lambda>(n, r). attempt_write (run_db (update_run c (f n) r))) xs k) = k_events k" for xs k
    by (rule fold_quiet) (simp add: write_quiet split: prod.split)
  have t: "k_ledger (fold (\<lambda>(n, t). attempt_write (persist_task c (f n) t)) xs k) = k_ledger k \<and>
      k_events (fold (\<lambda>(n, t). attempt_write (persist_task c (f n) t)) xs k) = k_events k" for xs k
    by (rule fold_quiet) (simp add: write_quiet persist_task_def [abs_def] split: prod.split)
  have a: "k_ledger (fold (\<lambda>(n, a). attempt_write (persist_attempt c (f n) a)) xs k) = k_ledger k \<and>
      k_events (fold (\<lambda>(n, a). attempt_write (persist_attempt c (f n) a)) xs k) = k_events k" for xs k
    by (rule fold_quiet) (simp add: write_quiet persist_attempt_def [abs_def] split: prod.split)
  show ?thesis by (simp add: persist_forgotten_def Let_def r t a)
qed

lemma forget_session_told:
  "\<exists>evs. k_events (forget_session c f now sid k) = k_events k \<and>
     lg_outbox (k_ledger (forget_session c f now sid k)) = lg_outbox (k_ledger k) @ evs \<and> (\<forall>ev \<in> set evs. \<not> about_sessions ev)"
proof -
  obtain attempts' tasks' as ts where e: "forget_attempts now (lg_max_attempts_per_task (k_ledger k)) sid
      (lg_attempts (k_ledger k)) (lg_tasks (k_ledger k)) = (attempts', tasks', as, ts)"
    by (cases "forget_attempts now (lg_max_attempts_per_task (k_ledger k)) sid
      (lg_attempts (k_ledger k)) (lg_tasks (k_ledger k))") auto
  show ?thesis by (auto simp: forget_session_def Let_def e persist_forgotten_told about_sessions_def)
qed

text \<open>
  C18: Closing a session keeps the clients right, whatever happened since it was found to be inactive: a
  client that holds the daemon's sessions and takes the events of the close holds the daemon's sessions again.
\<close>

theorem closing_reaches_clients:
  assumes ok: "graph_ok (in_sessions (k_inner k))" and k: "keyed ids (in_sessions (k_inner k))" and d: "distinct ids"
    and s: "in_sessions (k_inner k) sid = Some s" and chk: "close_check sid inn0 = Inr ()"
    and out: "\<forall>ev \<in> set (lg_outbox (k_ledger k)). \<not> about_sessions ev"
    and st: "session_lookup st = in_sessions (k_inner k)"
  shows "\<exists>k' evs. close_session c f kept None now ids sid inn0 k = Some (Inr (), k') \<and> k_events k' = k_events k @ evs
    \<and> session_lookup (told evs st) = in_sessions (k_inner k')"
proof -
  obtain ss' updated where r: "\<And>fault. delete_session_locked c f kept fault now ids sid k = (let inn = (k_inner k)\<lparr>in_sessions := ss',
         in_db_sessions := upsert_rows kept updated (in_db_sessions (k_inner k))\<rparr> in
       case fault of Some m \<Rightarrow> Some (Inl (db_err m), k\<lparr>k_inner := inn\<rparr>)
       | None \<Rightarrow> Some (Inr updated, remove_session_cache c f now sid
           (k\<lparr>k_inner := inn\<lparr>in_db_sessions := (in_db_sessions inn)(sid := None)\<rparr>\<rparr>)))"
    and a: "upserted updated (in_sessions (k_inner k)) = ss'"
    by (rule delete_session_adopts [OF ok k d s, of c f kept now]) blast
  define k0 where "k0 = k\<lparr>k_inner := (k_inner k)\<lparr>in_sessions := ss',
     in_db_sessions := (upsert_rows kept updated (in_db_sessions (k_inner k)))(sid := None)\<rparr>\<rparr>"
  define k1 where "k1 = remove_session_cache c f now sid k0"
  have run: "close_session c f kept None now ids sid inn0 k = Some (Inr (), announce_removal updated sid k1)"
    using r [of None] s chk by (simp add: close_session_def kill_and_close_session_def Let_def k0_def k1_def)
  obtain evs where f: "k_events (forget_session c f now sid k0) = k_events k"
      "lg_outbox (k_ledger (forget_session c f now sid k0)) = lg_outbox (k_ledger k) @ evs" "\<forall>ev \<in> set evs. \<not> about_sessions ev"
    using forget_session_told [of c f now sid k0] by (auto simp: k0_def)
  have ss: "in_sessions (k_inner k1) = ss'(sid := None)"
    by (simp add: k1_def k0_def remove_session_cache_def Let_def forget_session_inner)
  let ?evs = "map SessionUpdated updated @ [SessionRemoved sid] @ lg_outbox (k_ledger k) @ evs"
  have e: "k_events (announce_removal updated sid k1) = k_events k @ ?evs"
    by (simp add: announce_removal_def flush_events_def broadcast_def k1_def remove_session_cache_def Let_def f(1,2))
  have i: "in_sessions (k_inner (announce_removal updated sid k1)) = ss'(sid := None)"
    by (simp add: announce_removal_def flush_events_def broadcast_def ss)
  have "session_lookup (told ?evs st) = session_lookup (told [SessionRemoved sid] (told (map SessionUpdated updated) st))"
    using out f(3) by (simp only: told_append) (simp add: told_quiet)
  also have "\<dots> = ss'(sid := None)" by (simp only: told_removal told_updates st a)
  finally show ?thesis using run e i by (intro exI [of _ "announce_removal updated sid k1"] exI [of _ ?evs]) simp
qed

text \<open>
  C39: Where the database refuses the delete the close ends with that error, but the children are already
  under the grandparent, and no event tells the clients so.
\<close>

theorem failed_close_moves_children:
  assumes ok: "graph_ok (in_sessions (k_inner k))" and k: "keyed ids (in_sessions (k_inner k))" and d: "distinct ids"
    and s: "in_sessions (k_inner k) sid = Some s" and chk: "close_check sid inn0 = Inr ()"
    and t: "in_sessions (k_inner k) j = Some t" "s_parent t = Some sid"
  shows "\<exists>k'. close_session c f kept (Some m) now ids sid inn0 k = Some (Inl (db_err m), k') \<and> k_events k' = k_events k
    \<and> in_sessions (k_inner k') sid \<noteq> None \<and> parent_of (in_sessions (k_inner k')) j = s_parent s"
proof -
  obtain ss' updated where r: "\<And>fault. delete_session_locked c f kept fault now ids sid k = (let inn = (k_inner k)\<lparr>in_sessions := ss',
         in_db_sessions := upsert_rows kept updated (in_db_sessions (k_inner k))\<rparr> in
       case fault of Some m \<Rightarrow> Some (Inl (db_err m), k\<lparr>k_inner := inn\<rparr>)
       | None \<Rightarrow> Some (Inr updated, remove_session_cache c f now sid
           (k\<lparr>k_inner := inn\<lparr>in_db_sessions := (in_db_sessions inn)(sid := None)\<rparr>\<rparr>)))"
    and shape: "\<And>j t. in_sessions (k_inner k) j = Some t \<Longrightarrow> \<exists>r. ss' j =
       Some (t\<lparr>s_root := r, s_parent := (if s_parent t = Some sid then s_parent s else s_parent t)\<rparr>)"
    by (rule delete_session_adopts [OF ok k d s, of c f kept now]) blast
  define k' where "k' = k\<lparr>k_inner := (k_inner k)\<lparr>in_sessions := ss',
         in_db_sessions := upsert_rows kept updated (in_db_sessions (k_inner k))\<rparr>\<rparr>"
  have "close_session c f kept (Some m) now ids sid inn0 k = Some (Inl (db_err m), k')"
    using r [of "Some m"] s chk by (simp add: close_session_def kill_and_close_session_def Let_def k'_def)
  moreover have "parent_of ss' j = s_parent s" using shape [OF t(1)] t(2) by auto
  moreover have "ss' sid \<noteq> None" using shape [OF s] by auto
  ultimately show ?thesis by (intro exI [of _ k']) (simp add: k'_def)
qed

definition tree_sessions :: "session list" where
  "tree_sessions = [(loop_session 3 2)\<lparr>s_root := SessionId 1\<rparr>, tree_child,
     (loop_session 1 1)\<lparr>s_parent := None\<rparr>]"

lemma tree_lookup: "session_lookup ((store_new ())\<lparr>sto_sessions := tree_sessions\<rparr>) = in_sessions (k_inner tree_kernel)"
  by (auto simp: fun_eq_iff session_lookup_def tree_sessions_def tree_kernel_def tree_child_def loop_session_def new_session_def)

lemma tree_at:
  "in_sessions (k_inner tree_kernel) (SessionId 2) = Some tree_child"
  "in_sessions (k_inner tree_kernel) (SessionId 3) = Some ((loop_session 3 2)\<lparr>s_root := SessionId 1\<rparr>)"
  "distinct [SessionId 3, SessionId 1, SessionId 2]"
  by (simp_all add: tree_kernel_def)

theorem closing_reaches_clients_witness:
  "\<exists>k' evs. close_session plain_codec (\<lambda>_ _. None) (\<lambda>_. True) None UNIX_EPOCH [SessionId 3, SessionId 1, SessionId 2]
      (SessionId 2) (k_inner tree_kernel) tree_kernel = Some (Inr (), k')
    \<and> session_lookup (told evs ((store_new ())\<lparr>sto_sessions := tree_sessions\<rparr>)) = in_sessions (k_inner k')"
proof -
  have idle: "close_check (SessionId 2) (k_inner tree_kernel) = Inr ()"
    using tree_at(1) by (simp add: close_check_def require_def check_def tree_child_def)
  have out: "\<forall>ev \<in> set (lg_outbox (k_ledger tree_kernel)). \<not> about_sessions ev"
    by (simp add: tree_kernel_def demo_kernel_def demo_ledger_def)
  show ?thesis
    using closing_reaches_clients [OF tree_kernel_ok tree_at(3) tree_at(1) idle out tree_lookup, of plain_codec "\<lambda>_ _. None"
        "\<lambda>_. True" UNIX_EPOCH] by blast
qed

theorem failed_close_moves_children_witness:
  "\<exists>k'. close_session plain_codec (\<lambda>_ _. None) (\<lambda>_. True) (Some ''locked'') UNIX_EPOCH
      [SessionId 3, SessionId 1, SessionId 2] (SessionId 2) (k_inner tree_kernel) tree_kernel = Some (Inl (db_err ''locked''), k')
    \<and> parent_of (in_sessions (k_inner k')) (SessionId 3) = Some (SessionId 1)"
proof -
  have idle: "close_check (SessionId 2) (k_inner tree_kernel) = Inr ()"
    using tree_at(1) by (simp add: close_check_def require_def check_def tree_child_def)
  have p: "s_parent ((loop_session 3 2)\<lparr>s_root := SessionId 1\<rparr>) = Some (SessionId 2)" "s_parent tree_child = Some (SessionId 1)"
    by (simp_all add: tree_child_def loop_session_def new_session_def)
  show ?thesis
    using failed_close_moves_children [OF tree_kernel_ok tree_at(3) tree_at(1) idle tree_at(2) p(1), of plain_codec
        "\<lambda>_ _. None" "\<lambda>_. True" "''locked''" UNIX_EPOCH] p(2) by auto
qed

end
