(* ===== verification/Daemon_Prompts.thy ===== *)
theory Daemon_Prompts
  imports Orch_Ledger
begin

text \<open>
  Text sent to the terminal of a session: prompts and shell commands (\<open>daemon/src/prompts.rs\<close>), the
  pointer line (\<open>daemon/src/orchestration/deliver.rs\<close>), the user's input (\<open>write_terminal_input\<close> of
  \<open>daemon/src/core.rs\<close>), and the activity the agents' hooks report (\<open>report_activity\<close> and
  \<open>note_user_input\<close> of \<open>daemon/src/orchestration/mod.rs\<close>), with the bytes of a paste
  (\<open>terminal-core/src/input.rs\<close>). Threads take the gate of a session, the writer of its terminal and the
  core lock in this order, and run interleaved.
\<close>

section \<open>The bytes\<close>

definition MAX_PROMPT_BYTES :: nat where "MAX_PROMPT_BYTES = 8192"

abbreviation LF :: char where "LF \<equiv> CHR 0x0A"
abbreviation TAB :: char where "TAB \<equiv> CHR 0x09"
abbreviation ESC :: char where "ESC \<equiv> CHR 0x1B"

text \<open>
  \<open>char::is_control\<close> holds of U+0000 to U+001F, of U+007F and, in two bytes of UTF-8, of U+0080 to
  U+009F.
\<close>

definition c0_control :: "char \<Rightarrow> bool" where
  "c0_control a \<longleftrightarrow> byte_of a < 32 \<or> byte_of a = 127"

definition c1_control :: "char \<Rightarrow> char \<Rightarrow> bool" where
  "c1_control a b \<longleftrightarrow> byte_of a = 194 \<and> 128 \<le> byte_of b \<and> byte_of b < 160"

fun without_controls :: "string \<Rightarrow> string" where
  "without_controls [] = []"
| "without_controls [a] = (if c0_control a \<and> a \<noteq> LF \<and> a \<noteq> TAB then [] else [a])"
| "without_controls (a # b # s) =
    (if c0_control a \<and> a \<noteq> LF \<and> a \<noteq> TAB then without_controls (b # s)
     else if c1_control a b then without_controls s
     else a # without_controls (b # s))"

fun has_control :: "string \<Rightarrow> bool" where
  "has_control [] = False"
| "has_control [a] = c0_control a"
| "has_control (a # b # s) = (c0_control a \<or> c1_control a b \<or> has_control (b # s))"

definition clean_text :: "string \<Rightarrow> protocol_error + string" where
  "clean_text text =
    (if length text > MAX_PROMPT_BYTES then Inl (invalid_request ''prompt exceeds 8 KiB'')
     else let cleaned = without_controls text in
       if trim cleaned = [] then Inl (invalid_request ''prompt is empty'') else Inr cleaned)"

definition clean_command :: "string \<Rightarrow> protocol_error + string" where
  "clean_command command =
    (if length command > MAX_PROMPT_BYTES then Inl (invalid_request ''command exceeds 8 KiB'')
     else if has_control command
       then Inl (invalid_request ''command must be one line without control characters'')
     else if trim command = [] then Inl (invalid_request ''command is empty'') else Inr command)"

definition PASTE_START :: string where "PASTE_START = ESC # ''[200~''"
definition PASTE_END :: string where "PASTE_END = ESC # ''[201~''"

text \<open>The loop of a bracketed paste: a byte is pushed, and a terminator it completes is cut off.\<close>

definition push_paste :: "string \<Rightarrow> char \<Rightarrow> string" where
  "push_paste v b = (let v' = v @ [b] in if suffix PASTE_END v' then take (length v' - 6) v' else v')"

definition paste :: "string \<Rightarrow> term_modes \<Rightarrow> string" where
  "paste text modes =
    (if tm_bracketed_paste modes then foldl push_paste PASTE_START text @ PASTE_END else text)"

definition prompt_bytes :: "string \<Rightarrow> term_modes \<Rightarrow> string" where
  "prompt_bytes text modes =
    paste (if tm_bracketed_paste modes then text
           else map (\<lambda>c. if c = LF \<or> c = TAB then CHR '' '' else c) text) modes"

lemma without_controls_clean:
  "c \<in> set (without_controls s) \<Longrightarrow> \<not> c0_control c \<or> c = LF \<or> c = TAB"
  by (induction s rule: without_controls.induct) (auto split: if_splits)

lemma without_controls_shorter: "length (without_controls s) \<le> length s"
  by (induction s rule: without_controls.induct) auto

lemma without_controls_same: "\<not> has_control s \<Longrightarrow> without_controls s = s"
  by (induction s rule: without_controls.induct) auto

lemma paste_end_bytes: "PASTE_END = ESC # ''[201~''" "hd PASTE_END = ESC" "length PASTE_END = 6" "PASTE_END \<noteq> []"
  "0 < i \<Longrightarrow> i < 6 \<Longrightarrow> PASTE_END ! i \<noteq> ESC"
proof -
  assume "0 < i" "i < 6"
  then have "i = 1 \<or> i = 2 \<or> i = 3 \<or> i = 4 \<or> i = 5" by linarith
  then show "PASTE_END ! i \<noteq> ESC" by (elim disjE) (simp_all add: PASTE_END_def numeral_eq_Suc)
qed (simp_all add: PASTE_END_def)

lemma sublist_snoc: "sublist p (v @ [b]) \<Longrightarrow> sublist p v \<or> suffix p (v @ [b])"
proof -
  assume "sublist p (v @ [b])"
  then obtain xs ys where e: "v @ [b] = xs @ p @ ys" by (auto simp: sublist_def)
  show ?thesis
  proof (cases ys rule: rev_cases)
    case Nil
    then show ?thesis using e by (auto simp: suffix_def)
  next
    case (snoc ys' y)
    then have "v = xs @ p @ ys'" using e by simp
    then show ?thesis by (auto simp: sublist_def)
  qed
qed

text \<open>The collected bytes keep the opening marker and hold no terminator.\<close>

definition paste_ok :: "string \<Rightarrow> bool" where
  "paste_ok v \<longleftrightarrow> prefix PASTE_START v \<and> \<not> sublist PASTE_END v"

lemma push_paste_ok:
  assumes "paste_ok v"
  shows "paste_ok (push_paste v b)"
proof (cases "suffix PASTE_END (v @ [b])")
  case True
  then obtain u where u: "v @ [b] = u @ PASTE_END" by (auto simp: suffix_def)
  obtain w where w: "v = PASTE_START @ w" using assms by (auto simp: paste_ok_def prefix_def)
  have len: "length u + 6 = length w + 7"
    using arg_cong [OF u, of length] w by (simp add: paste_end_bytes PASTE_START_def)
  have at: "(v @ [b]) ! length u = ESC" using u by (simp add: nth_append PASTE_END_def)
  have "6 \<le> length u"
  proof (rule ccontr)
    assume "\<not> 6 \<le> length u"
    then consider "length u = 1" | "length u = 2" | "length u = 3" | "length u = 4" | "length u = 5"
      using len by linarith
    then show "False" using at by cases (simp_all add: w PASTE_START_def numeral_eq_Suc)
  qed
  then have l: "length PASTE_START \<le> length u" by (simp add: PASTE_START_def)
  have "v = u @ butlast PASTE_END" using arg_cong [OF u, of butlast] by (simp add: butlast_append paste_end_bytes(4))
  then have v: "prefix u v" by (simp add: prefix_def)
  have "prefix PASTE_START v" using assms by (simp add: paste_ok_def)
  then have "prefix PASTE_START u" using v l by (rule prefix_length_prefix)
  moreover have "\<not> sublist PASTE_END u"
    using assms prefix_imp_sublist [OF v] sublist_order.order_trans [of PASTE_END u v] by (auto simp: paste_ok_def)
  moreover have "push_paste v b = u"
  proof -
    have "push_paste v b = take (length (v @ [b]) - 6) (v @ [b])" using True by (simp only: push_paste_def Let_def if_True)
    also have "\<dots> = u" unfolding u by (simp add: paste_end_bytes(3))
    finally show ?thesis .
  qed
  ultimately show ?thesis by (simp add: paste_ok_def)
next
  case False
  then show ?thesis using assms sublist_snoc [of PASTE_END v b] by (auto simp: paste_ok_def push_paste_def Let_def)
qed

lemma foldl_push_paste_ok: "paste_ok v \<Longrightarrow> paste_ok (foldl push_paste v s)"
  by (induction s arbitrary: v) (simp_all add: push_paste_ok)

lemma paste_start_ok: "paste_ok PASTE_START"
proof -
  have "\<not> sublist PASTE_END PASTE_START" by (simp add: PASTE_END_def PASTE_START_def sublist_Cons_right)
  then show ?thesis by (simp add: paste_ok_def)
qed

lemma terminator_at_end:
  assumes "paste_ok v" and e: "v @ PASTE_END = xs @ PASTE_END @ ys"
  shows "ys = []"
proof (rule ccontr)
  assume ne: "ys \<noteq> []"
  have len: "length v = length xs + length ys" using arg_cong [OF e, of length] by simp
  show "False"
  proof (cases "length xs + 6 \<le> length v")
    case True
    then have "v = xs @ PASTE_END @ take (length v - length xs - 6) ys"
      using arg_cong [OF e, of "take (length v)"] by (simp add: paste_end_bytes(3))
    then show "False" using assms(1) by (auto simp: paste_ok_def sublist_def)
  next
    case False
    let ?i = "length v - length xs"
    have i: "0 < ?i" "?i < 6" using len ne False by auto
    have "(v @ PASTE_END) ! length v = ESC" by (simp add: PASTE_END_def)
    then have "PASTE_END ! ?i = ESC" using i unfolding e by (simp add: nth_append paste_end_bytes(3))
    then show "False" using paste_end_bytes(5) [OF i] by simp
  qed
qed

lemma foldl_push_paste_text: "ESC \<notin> set s \<Longrightarrow> paste_ok v \<Longrightarrow> (\<forall>c \<in> set (take 5 (rev v)). c \<noteq> ESC) \<Longrightarrow> foldl push_paste v s = v @ s"
proof (induction s arbitrary: v)
  case (Cons b s)
  have "\<not> suffix PASTE_END (v @ [b])"
  proof
    assume "suffix PASTE_END (v @ [b])"
    then obtain u where "v @ [b] = u @ PASTE_END" by (auto simp: suffix_def)
    then have "v = u @ butlast PASTE_END" by (metis butlast_append butlast_snoc paste_end_bytes(4))
    then have "ESC \<in> set (take 5 (rev v))" by (simp add: PASTE_END_def)
    then show "False" using Cons.prems(3) by blast
  qed
  then have p: "push_paste v b = v @ [b]" by (simp only: push_paste_def Let_def if_False)
  moreover have "paste_ok (v @ [b])" using push_paste_ok [OF Cons.prems(2), of b] p by simp
  moreover have "\<forall>c \<in> set (take 5 (rev (v @ [b]))). c \<noteq> ESC"
    using Cons.prems(1,3) set_take_subset_set_take [of 4 5 "rev v"] by (auto simp: numeral_eq_Suc)
  ultimately show ?case using Cons.IH [of "v @ [b]"] Cons.prems(1) by simp
qed simp

text \<open>
  C29: Whatever is pasted, a program with bracketed paste on reads the whole of it as pasted text: the
  bytes start with the opening marker and hold the closing one only at their end.
\<close>

theorem paste_cannot_be_escaped:
  assumes "tm_bracketed_paste modes"
  shows "\<exists>body. paste text modes = PASTE_START @ body @ PASTE_END
    \<and> (\<forall>xs ys. paste text modes = xs @ PASTE_END @ ys \<longrightarrow> ys = [])"
proof -
  let ?v = "foldl push_paste PASTE_START text"
  have ok: "paste_ok ?v" by (rule foldl_push_paste_ok) (rule paste_start_ok)
  then obtain body where "?v = PASTE_START @ body" by (auto simp: paste_ok_def prefix_def)
  then show ?thesis using assms terminator_at_end [OF ok] by (intro exI [of _ body]) (simp add: paste_def)
qed

theorem paste_cannot_be_escaped_witness:
  "\<exists>body. paste (''a'' @ PASTE_END @ ''rm'') (term_modes_default\<lparr>tm_bracketed_paste := True\<rparr>) = PASTE_START @ body @ PASTE_END
    \<and> paste (''a'' @ PASTE_END @ ''rm'') (term_modes_default\<lparr>tm_bracketed_paste := True\<rparr>) = PASTE_START @ ''arm'' @ PASTE_END"
  using paste_cannot_be_escaped [of "term_modes_default\<lparr>tm_bracketed_paste := True\<rparr>" "''a'' @ PASTE_END @ ''rm''"]
  by (auto simp: paste_def push_paste_def Let_def PASTE_START_def PASTE_END_def suffix_def term_modes_default_def)

text \<open>In UTF-8 the byte 194 is followed by a continuation byte.\<close>

fun c2_followed :: "string \<Rightarrow> bool" where
  "c2_followed [] = True"
| "c2_followed [a] = (byte_of a \<noteq> 194)"
| "c2_followed (a # b # s) = ((byte_of a = 194 \<longrightarrow> is_cont b) \<and> c2_followed (b # s))"

lemma cont_not_c2: "is_cont b \<Longrightarrow> byte_of b \<noteq> 194"
  by (simp add: is_cont_def)

lemma utf8_c2_followed: "utf8_valid s \<Longrightarrow> c2_followed s"
proof (induction s rule: utf8_induct)
  case (Char a t s')
  have skip: "c2_followed (t' @ s')" if "list_all is_cont t'" for t'
    using that
  proof (induction t')
    case (Cons b t')
    then show ?case by (cases "t' @ s'") (auto dest: cont_not_c2)
  qed (simp add: Char.IH)
  have t: "list_all is_cont t" "utf8_valid (a # t)" using Char.hyps(1) by (auto dest: utf8_char_props)
  show ?case
  proof (cases "t @ s'")
    case Nil
    then have "byte_of a \<noteq> 194" using t(2) by (auto simp: utf8_valid.simps(2) Let_def)
    then show ?thesis using Nil by simp
  next
    case (Cons b r)
    have "is_cont b" if "byte_of a = 194"
      using t(2) that Cons by (cases t) (auto simp: utf8_valid.simps(2) Let_def)
    then show ?thesis using Cons skip [OF t(1)] by simp
  qed
qed simp

text \<open>What is left of the controls.\<close>

fun spaced :: "string \<Rightarrow> bool" where
  "spaced [] = True"
| "spaced [a] = (c0_control a \<longrightarrow> a = LF \<or> a = TAB)"
| "spaced (a # b # s) = ((c0_control a \<longrightarrow> a = LF \<or> a = TAB) \<and> \<not> c1_control a b \<and> spaced (b # s))"


lemma spaced_without_controls: "c2_followed s \<Longrightarrow> spaced (without_controls s)"
proof (induction s rule: without_controls.induct)
  case (3 a b s)
  consider (drop) "c0_control a \<and> a \<noteq> LF \<and> a \<noteq> TAB" | (pair) "\<not> (c0_control a \<and> a \<noteq> LF \<and> a \<noteq> TAB)" "c1_control a b"
    | (keep) "\<not> (c0_control a \<and> a \<noteq> LF \<and> a \<noteq> TAB)" "\<not> c1_control a b" by blast
  then show ?case
  proof cases
    case drop
    then show ?thesis using 3 by simp
  next
    case pair
    have "c2_followed s" using 3(4) by (cases s) simp_all
    then show ?thesis using 3(2) pair by auto
  next
    case keep
    have IH: "spaced (without_controls (b # s))" using 3(3,4) keep by simp
    have "spaced (a # without_controls (b # s))"
    proof (cases "byte_of a = 194")
      case True
      then have b: "is_cont b" using 3(4) by simp
      then have "\<not> c0_control b" "\<not> c1_control b c" for c by (auto simp: is_cont_def c0_control_def c1_control_def)
      then obtain r where "without_controls (b # s) = b # r" by (cases s) auto
      then show ?thesis using IH keep by simp
    next
      case False
      then have "\<not> c1_control a c" for c by (simp add: c1_control_def)
      then show ?thesis using IH keep by (cases "without_controls (b # s)") auto
    qed
    then show ?thesis using keep by auto
  qed
qed auto

lemma spaced_flat: "spaced s \<Longrightarrow> \<not> has_control (map (\<lambda>c. if c = LF \<or> c = TAB then CHR '' '' else c) s)"
  by (induction s rule: spaced.induct) (auto simp: c0_control_def c1_control_def)

lemma spaced_no_esc: "spaced s \<Longrightarrow> ESC \<notin> set s"
  by (induction s rule: spaced.induct) (auto simp: c0_control_def)

text \<open>
  C16: The bytes of an accepted prompt cannot press a key. Where the program takes bracketed pastes they are
  the prompt between the markers, without any escape character of its own; elsewhere they hold no control
  character at all, so the prompt cannot be submitted before its carriage return.
\<close>

theorem prompt_presses_no_key:
  assumes "utf8_valid raw" and "clean_text raw = Inr text"
  shows "if tm_bracketed_paste modes then prompt_bytes text modes = PASTE_START @ text @ PASTE_END \<and> ESC \<notin> set text
    else \<not> has_control (prompt_bytes text modes)"
proof -
  have "text = without_controls raw" using assms(2) by (auto simp: clean_text_def Let_def split: if_splits)
  then have s: "spaced text" using spaced_without_controls [OF utf8_c2_followed [OF assms(1)]] by simp
  have "foldl push_paste PASTE_START text = PASTE_START @ text"
    by (rule foldl_push_paste_text [OF spaced_no_esc [OF s] paste_start_ok]) (simp add: PASTE_START_def)
  then show ?thesis using spaced_flat [OF s] spaced_no_esc [OF s] by (simp add: prompt_bytes_def paste_def)
qed

theorem prompt_presses_no_key_witness:
  "clean_text (''ls'' @ [CHR 0x1B] @ ''[A'' @ [LF] @ ''pwd'') = Inr (''ls[A'' @ [LF] @ ''pwd'')
    \<and> \<not> has_control (prompt_bytes (''ls[A'' @ [LF] @ ''pwd'') term_modes_default)"
proof -
  have v: "utf8_valid (''ls'' @ [CHR 0x1B] @ ''[A'' @ [LF] @ ''pwd'')" by (simp add: utf8_valid.simps(2) Let_def)
  have c: "clean_text (''ls'' @ [CHR 0x1B] @ ''[A'' @ [LF] @ ''pwd'') = Inr (''ls[A'' @ [LF] @ ''pwd'')"
    by code_simp
  show ?thesis using c prompt_presses_no_key [OF v c, of term_modes_default] by (simp add: term_modes_default_def)
qed

section \<open>The critical sections\<close>

datatype prompt_delivery = DeliverNow | DeliverIfIdle | DeliverQueue | DeliverUnknown

datatype prompt_origin = FromRequest "session_id option" | FromQueue

text \<open>The arguments of one run of \<open>deliver\<close>; \<open>dv_pointer\<close> when a pointer line is due after it.\<close>

record delivery =
  dv_session :: session_id
  dv_pending :: pending_prompt
  dv_when :: prompt_delivery
  dv_origin :: prompt_origin
  dv_pointer :: bool

record delivered =
  dd_context :: context_id
  dd_delivered :: bool
  dd_queued :: bool
  dd_submitted :: bool

definition delivery_result :: "context_id \<Rightarrow> bool \<Rightarrow> bool \<Rightarrow> delivered" where
  "delivery_result c d s = \<lparr>dd_context = c, dd_delivered = d, dd_queued = \<not> d, dd_submitted = s\<rparr>"

text \<open>What the sections read of the prompt_runtime of a terminal.\<close>

record prompt_runtime =
  rtm_session :: session_id
  rtm_modes :: term_modes

definition prompt_idle :: "session \<Rightarrow> bool" where
  "prompt_idle s \<longleftrightarrow> act_state (s_activity s) = Act_Idle \<and> act_evidence (s_activity s) = Some Ev_Hook"

definition session_idle :: "inner \<Rightarrow> session_id \<Rightarrow> bool" where
  "session_idle inn sid = (case in_sessions inn sid of None \<Rightarrow> False | Some s \<Rightarrow> prompt_idle s)"

definition send :: "kernel \<Rightarrow> context_id \<Rightarrow> session_id option \<Rightarrow> session_id \<Rightarrow> string \<Rightarrow> bool \<Rightarrow> prompt_delivery
    \<Rightarrow> protocol_error + delivery" where
  "send k context caller sid raw submit wh =
    try_bind (clean_text raw) (\<lambda>text.
    try_bind (require (in_sessions (k_inner k) sid) (not_found ''session'')) (\<lambda>s.
    try_bind (require (s_terminal_id s) (precondition_failed ''target has no live terminal'')) (\<lambda>terminal.
    Inr \<lparr>dv_session = sid,
         dv_pending = \<lparr>pp_text = text, pp_submit = submit, pp_terminal = terminal, pp_context = context\<rparr>,
         dv_when = wh, dv_origin = FromRequest caller, dv_pointer = False\<rparr>)))"

definition is_new :: "delivery \<Rightarrow> bool" where
  "is_new d = (case dv_origin d of FromRequest _ \<Rightarrow> True | FromQueue \<Rightarrow> False)"

definition check_slot :: "inner \<Rightarrow> delivery \<Rightarrow> protocol_error + unit" where
  "check_slot inn d =
    (case in_pending_prompts inn (dv_session d) of
       Some slot \<Rightarrow> check (\<not> (is_new d \<or> pp_context slot \<noteq> pp_context (dv_pending d)))
         (protocol_error_new Conflict ''target already has a queued prompt'')
     | None \<Rightarrow> check (is_new d) (precondition_failed ''queued prompt was already consumed''))"

definition check_target :: "inner \<Rightarrow> delivery \<Rightarrow> protocol_error + terminal_id" where
  "check_target inn d =
    try_bind (require (in_sessions inn (dv_session d)) (not_found ''session'')) (\<lambda>s.
    try_bind (check (s_kind s = SK_Agent \<and> is_active (s_state s)) (precondition_failed ''target must be a live agent'')) (\<lambda>_.
    try_bind (require (s_terminal_id s) (precondition_failed ''agent has no terminal'')) (\<lambda>terminal.
    try_bind (check (terminal = pp_terminal (dv_pending d)) (precondition_failed ''prompt belongs to an ended terminal'')) (\<lambda>_.
    try_bind (check (prompt_idle s \<or> dv_when d \<noteq> DeliverIfIdle) (precondition_failed ''target is not hook-confirmed idle'')) (\<lambda>_.
    try_bind (check_slot inn d) (\<lambda>_.
    Inr terminal))))))"

text \<open>\<open>fresh\<close> names the gate that is made when the session has none.\<close>

definition deliver_admit :: "nat \<Rightarrow> delivery \<Rightarrow> kernel \<Rightarrow> (protocol_error + nat) \<times> kernel" where
  "deliver_admit fresh d k =
    (let inn = k_inner k in
     case try_bind (check (dv_when d \<noteq> DeliverUnknown) (invalid_request ''unknown prompt delivery policy''))
            (\<lambda>_. check_target inn d) of
       Inl e \<Rightarrow> (Inl e, k)
     | Inr _ \<Rightarrow>
         (case in_prompt_gates inn (dv_session d) of
            Some g \<Rightarrow> (Inr g, k)
          | None \<Rightarrow> (Inr fresh, k\<lparr>k_inner := inn\<lparr>in_prompt_gates := (in_prompt_gates inn)(dv_session d \<mapsto> fresh)\<rparr>\<rparr>)))"

definition caller_present :: "inner \<Rightarrow> session_id option \<Rightarrow> protocol_error + unit" where
  "caller_present inn caller =
    check (case caller of None \<Rightarrow> True | Some sid \<Rightarrow> in_sessions inn sid \<noteq> None) (not_found ''caller session'')"

definition deliver_choose :: "(terminal_id \<rightharpoonup> prompt_runtime) \<Rightarrow> delivery \<Rightarrow> kernel \<Rightarrow> protocol_error + terminal_id" where
  "deliver_choose terms d k =
    try_bind (case dv_origin d of FromRequest caller \<Rightarrow> caller_present (k_inner k) caller | FromQueue \<Rightarrow> Inr ()) (\<lambda>_.
    try_bind (check_target (k_inner k) d) (\<lambda>terminal.
    try_bind (require (terms terminal) (not_found ''terminal'')) (\<lambda>_.
    Inr terminal)))"

text \<open>Of the envelope that records a prompt, the fields that are not fixed.\<close>

record envelope =
  en_id :: context_id
  en_source :: "session_id option"
  en_target :: session_id
  en_summary :: string
  en_instructions :: string
  en_created_at :: timestamp

definition prompt_envelope :: "timestamp \<Rightarrow> session_id option \<Rightarrow> delivery \<Rightarrow> envelope" where
  "prompt_envelope now caller d =
    \<lparr>en_id = pp_context (dv_pending d), en_source = caller, en_target = dv_session d,
     en_summary = ''Session prompt (accepted, not proof of delivery)'', en_instructions = pp_text (dv_pending d),
     en_created_at = now\<rparr>"

definition same_terminal :: "inner \<Rightarrow> delivery \<Rightarrow> terminal_id \<Rightarrow> protocol_error + unit" where
  "same_terminal inn d terminal =
    try_bind (check_target inn d) (\<lambda>current. check (current = terminal) (precondition_failed ''target terminal changed''))"

definition enqueue :: "delivery \<Rightarrow> kernel \<Rightarrow> kernel" where
  "enqueue d k =
    k\<lparr>k_inner := (k_inner k)\<lparr>in_pending_prompts := (in_pending_prompts (k_inner k))(dv_session d \<mapsto> dv_pending d)\<rparr>\<rparr>"

abbreviation queued_answer :: "delivery \<Rightarrow> delivered" where
  "queued_answer d \<equiv> delivery_result (pp_context (dv_pending d)) False False"

text \<open>\<open>None\<close> when the delivery goes on to the writer.\<close>

definition deliver_park :: "delivery \<Rightarrow> terminal_id \<Rightarrow> kernel \<Rightarrow> (protocol_error + delivered option) \<times> kernel" where
  "deliver_park d terminal k =
    (case same_terminal (k_inner k) d terminal of
       Inl e \<Rightarrow> (Inl e, k)
     | Inr _ \<Rightarrow>
         if \<not> session_idle (k_inner k) (dv_session d) then (Inr (Some (queued_answer d)), enqueue d k)
         else (Inr None, k))"

definition store_session :: "session \<Rightarrow> session_id \<Rightarrow> kernel \<Rightarrow> kernel" where
  "store_session s sid k = k\<lparr>k_inner := (k_inner k)\<lparr>in_sessions := (in_sessions (k_inner k))(sid \<mapsto> s)\<rparr>\<rparr>"

text \<open>The last section before the bytes: the modes and whether a carriage return follows, or a queued answer.\<close>

definition deliver_commit :: "timestamp \<Rightarrow> timestamp \<Rightarrow> (terminal_id \<rightharpoonup> prompt_runtime) \<Rightarrow> delivery \<Rightarrow> terminal_id \<Rightarrow> kernel
    \<Rightarrow> (protocol_error + (delivered + term_modes \<times> bool)) \<times> kernel" where
  "deliver_commit now now' terms d terminal k =
    (case same_terminal (k_inner k) d terminal of
       Inl e \<Rightarrow> (Inl e, k)
     | Inr _ \<Rightarrow>
         let sid = dv_session d; idle = session_idle (k_inner k) sid in
         if \<not> idle \<and> dv_when d = DeliverQueue then (Inr (Inl (queued_answer d)), enqueue d k)
         else
           (case terms terminal of
              None \<Rightarrow> (Inl (not_found ''terminal''), k)
            | Some rt \<Rightarrow>
                let inn = k_inner k;
                    k1 = k\<lparr>k_inner := inn\<lparr>in_pending_prompts := (in_pending_prompts inn)(sid := None)\<rparr>\<rparr>;
                    k2 = (case in_sessions inn sid of
                       Some s \<Rightarrow>
                         if idle then
                           let s' = s\<lparr>s_activity := apply_activity (s_activity s) Input now, s_last_activity_at := now'\<rparr>
                           in broadcast [SessionUpdated s'] (store_session s' sid k1)
                         else k1
                     | None \<Rightarrow> k1)
                in (Inr (Inr (rtm_modes rt, pp_submit (dv_pending d) \<and> idle)), k2)))"

section \<open>Activity, input and the pointer line\<close>

definition note_user_input :: "timestamp \<Rightarrow> session_id \<Rightarrow> kernel \<Rightarrow> kernel" where
  "note_user_input now sid k =
    (case in_sessions (k_inner k) sid of
       None \<Rightarrow> k
     | Some s \<Rightarrow>
         let nxt = apply_activity (s_activity s) Input now in
         if act_state nxt = act_state (s_activity s) then k
         else
           let s' = s\<lparr>s_activity := nxt\<rparr>; k1 = store_session s' sid k; lg = k_ledger k1 in
           broadcast [SessionUpdated s'] (k1\<lparr>k_ledger := lg\<lparr>lg_pointer :=
             (case map_of (lg_pointer lg) sid of
                None \<Rightarrow> lg_pointer lg
              | Some slot \<Rightarrow> AList.update sid (slot\<lparr>ps_typed_this_idle := False\<rparr>) (lg_pointer lg))\<rparr>\<rparr>))"

definition pointer_slot_of :: "ledger \<Rightarrow> session_id \<Rightarrow> pointer_slot" where
  "pointer_slot_of lg sid =
    (case map_of (lg_pointer lg) sid of None \<Rightarrow> \<lparr>ps_queued = False, ps_typed_this_idle = False\<rparr> | Some slot \<Rightarrow> slot)"

definition set_pointer_slot :: "session_id \<Rightarrow> pointer_slot \<Rightarrow> kernel \<Rightarrow> kernel" where
  "set_pointer_slot sid slot k =
    k\<lparr>k_ledger := (k_ledger k)\<lparr>lg_pointer := AList.update sid slot (lg_pointer (k_ledger k))\<rparr>\<rparr>"

text \<open>
  What a hook reports, under the writer of the terminal: whether the session became idle, and whether a
  pointer line is queued.
\<close>

definition report_activity :: "timestamp \<Rightarrow> session_id \<Rightarrow> activity_state \<Rightarrow> kernel \<Rightarrow> (bool \<times> bool) \<times> kernel" where
  "report_activity now sid st k =
    (case in_sessions (k_inner k) sid of
       None \<Rightarrow> ((False, False), k)
     | Some s \<Rightarrow>
         let current = s_activity s; nxt = apply_activity current (Hook st) now;
             became_idle = (act_state nxt = Act_Idle \<and> act_state current \<noteq> Act_Idle);
             became_working = (act_state nxt = Act_Working \<and> act_state current \<noteq> Act_Working);
             s' = s\<lparr>s_activity := nxt\<rparr>;
             k1 = store_session s' sid k;
             k2 = (if act_state nxt \<noteq> act_state current
                   then k1\<lparr>k_inner := (k_inner k1)\<lparr>in_task_waiters := wake_waiters (in_task_waiters (k_inner k1))\<rparr>\<rparr>
                   else k1);
             k3 = (if became_working \<or> became_idle
                   then set_pointer_slot sid ((pointer_slot_of (k_ledger k2) sid)\<lparr>ps_typed_this_idle := False\<rparr>) k2
                   else k2);
             queued = (case map_of (lg_pointer (k_ledger k3)) sid of None \<Rightarrow> False | Some slot \<Rightarrow> ps_queued slot)
         in ((became_idle, queued), broadcast [SessionUpdated s'] k3))"

definition deliver_pending :: "bool \<Rightarrow> session_id \<Rightarrow> kernel \<Rightarrow> delivery option" where
  "deliver_pending pointer sid k =
    (if \<not> session_idle (k_inner k) sid then None
     else map_option (\<lambda>p. \<lparr>dv_session = sid, dv_pending = p, dv_when = DeliverQueue, dv_origin = FromQueue,
       dv_pointer = pointer\<rparr>) (in_pending_prompts (k_inner k) sid))"

definition consider_pointer :: "bool \<Rightarrow> session_id \<Rightarrow> kernel \<Rightarrow> bool \<times> kernel" where
  "consider_pointer watched sid k =
    (let st = (case in_sessions (k_inner k) sid of None \<Rightarrow> Act_Unknown | Some s \<Rightarrow> act_state (s_activity s));
         typed = (case map_of (lg_pointer (k_ledger k)) sid of None \<Rightarrow> False | Some slot \<Rightarrow> ps_typed_this_idle slot)
     in case pointer_decision st watched typed of
          PD_Type \<Rightarrow> (True, k)
        | PD_Queue \<Rightarrow> (False, set_pointer_slot sid ((pointer_slot_of (k_ledger k) sid)\<lparr>ps_queued := True\<rparr>) k)
        | PD_Suppress \<Rightarrow> (False, k))"

definition pointer_prepare :: "(terminal_id \<rightharpoonup> prompt_runtime) \<Rightarrow> session_id \<Rightarrow> kernel \<Rightarrow> terminal_id option" where
  "pointer_prepare terms sid k =
    Option.bind (in_sessions (k_inner k) sid) (\<lambda>s. Option.bind (s_terminal_id s) (\<lambda>t. if terms t = None then None else Some t))"

text \<open>Whether the line is typed.\<close>

definition pointer_commit :: "timestamp \<Rightarrow> bool \<Rightarrow> session_id \<Rightarrow> terminal_id \<Rightarrow> kernel \<Rightarrow> bool \<times> kernel" where
  "pointer_commit now watched sid terminal k =
    (if watched then (False, k)
     else case in_sessions (k_inner k) sid of
       None \<Rightarrow> (False, k)
     | Some s \<Rightarrow>
         if s_terminal_id s \<noteq> Some terminal then (False, k)
         else let slot = pointer_slot_of (k_ledger k) sid in
           if act_state (s_activity s) \<noteq> Act_Idle then (False, set_pointer_slot sid (slot\<lparr>ps_queued := True\<rparr>) k)
           else if ps_typed_this_idle slot then (False, k)
           else
             let s' = s\<lparr>s_activity := apply_activity (s_activity s) Input now\<rparr>
             in (True, broadcast [SessionUpdated s'] (store_session s' sid
                  (set_pointer_slot sid \<lparr>ps_queued = False, ps_typed_this_idle = True\<rparr> k))))"

section \<open>Shell commands\<close>

record shell_command =
  sh_session :: session_id
  sh_caller :: "session_id option"
  sh_command :: string
  sh_context :: context_id

definition shell_terminal :: "inner \<Rightarrow> session_id \<Rightarrow> protocol_error + terminal_id" where
  "shell_terminal inn sid =
    try_bind (require (in_sessions inn sid) (not_found ''session'')) (\<lambda>s.
    try_bind (check (s_kind s = SK_Shell \<and> is_active (s_state s)) (precondition_failed ''target must be a live shell'')) (\<lambda>_.
    require (s_terminal_id s) (precondition_failed ''shell has no terminal'')))"

text \<open>\<open>fg\<close> is the operating system's answer: the shell's own process group is in the foreground.\<close>

definition check_shell_prompt :: "bool \<Rightarrow> (terminal_id \<rightharpoonup> prompt_runtime) \<Rightarrow> terminal_id \<Rightarrow> protocol_error + unit" where
  "check_shell_prompt fg terms terminal =
    try_bind (require (terms terminal) (not_found ''terminal'')) (\<lambda>_.
    check fg (precondition_failed ''shell is running a foreground job''))"

definition shell_admit :: "bool \<Rightarrow> nat \<Rightarrow> (terminal_id \<rightharpoonup> prompt_runtime) \<Rightarrow> shell_command \<Rightarrow> kernel
    \<Rightarrow> (protocol_error + terminal_id \<times> nat) \<times> kernel" where
  "shell_admit fg fresh terms c k =
    (let inn = k_inner k; sid = sh_session c in
     case try_bind (caller_present inn (sh_caller c)) (\<lambda>_.
          try_bind (shell_terminal inn sid) (\<lambda>terminal.
          try_bind (check_shell_prompt fg terms terminal) (\<lambda>_. Inr terminal))) of
       Inl e \<Rightarrow> (Inl e, k)
     | Inr terminal \<Rightarrow>
         (case in_prompt_gates inn sid of
            Some g \<Rightarrow> (Inr (terminal, g), k)
          | None \<Rightarrow> (Inr (terminal, fresh), k\<lparr>k_inner := inn\<lparr>in_prompt_gates := (in_prompt_gates inn)(sid \<mapsto> fresh)\<rparr>\<rparr>)))"

definition shell_envelope :: "timestamp \<Rightarrow> shell_command \<Rightarrow> envelope" where
  "shell_envelope now c =
    \<lparr>en_id = sh_context c, en_source = sh_caller c, en_target = sh_session c,
     en_summary = ''Shell command (accepted, not proof of execution)'', en_instructions = sh_command c,
     en_created_at = now\<rparr>"

definition shell_commit :: "bool \<Rightarrow> (terminal_id \<rightharpoonup> prompt_runtime) \<Rightarrow> shell_command \<Rightarrow> terminal_id \<Rightarrow> kernel
    \<Rightarrow> protocol_error + string" where
  "shell_commit fg terms c terminal k =
    try_bind (shell_terminal (k_inner k) (sh_session c)) (\<lambda>current.
    try_bind (check (current = terminal) (precondition_failed ''target terminal changed'')) (\<lambda>_.
    try_bind (check_shell_prompt fg terms terminal) (\<lambda>_.
    try_bind (require (terms terminal) (not_found ''terminal'')) (\<lambda>rt.
    Inr (paste (sh_command c) (rtm_modes rt) @ [CHR 0x0D])))))"

section \<open>Threads\<close>

text \<open>
  A thread between two sections. A delivery holds its gate from \<open>AtRecord\<close>, \<open>AtPark\<close> or \<open>AtWriter\<close> on and the
  writer of its terminal from \<open>AtPaste\<close> on.
\<close>

datatype prompt_stage =
    Finished
  | AtAdmit delivery
  | AtGate delivery nat
  | AtRecord delivery nat terminal_id
  | AtPark delivery nat terminal_id
  | AtWriter delivery nat terminal_id
  | AtPaste delivery nat terminal_id term_modes bool
  | AtReturn delivery nat terminal_id
  | HookWriter session_id activity_state "terminal_id option"
  | HookPending session_id bool
  | PtrLook session_id
  | PtrWriter session_id terminal_id nat
  | PtrLine session_id terminal_id nat
  | PtrReturn session_id terminal_id
  | InWriter terminal_id string
  | InNote terminal_id session_id string
  | InSend terminal_id string
  | ShGate shell_command terminal_id nat
  | ShRecord shell_command terminal_id nat
  | ShWriter shell_command terminal_id nat
  | ShLine shell_command terminal_id nat string

fun writer_of :: "prompt_stage \<Rightarrow> terminal_id option" where
  "writer_of (AtPaste d g t modes sub) = Some t"
| "writer_of (AtReturn d g t) = Some t"
| "writer_of (PtrLine sid t n) = Some t"
| "writer_of (PtrReturn sid t) = Some t"
| "writer_of (InNote t sid bytes) = Some t"
| "writer_of (InSend t bytes) = Some t"
| "writer_of (ShLine c t g bytes) = Some t"
| "writer_of _ = None"

fun gate_of :: "prompt_stage \<Rightarrow> nat option" where
  "gate_of (AtRecord d g t) = Some g"
| "gate_of (AtPark d g t) = Some g"
| "gate_of (AtWriter d g t) = Some g"
| "gate_of (AtPaste d g t modes sub) = Some g"
| "gate_of (AtReturn d g t) = Some g"
| "gate_of (ShRecord c t g) = Some g"
| "gate_of (ShWriter c t g) = Some g"
| "gate_of (ShLine c t g bytes) = Some g"
| "gate_of _ = None"

text \<open>
  The log: prompts that were accepted, sessions that became idle by their hook, threads that found the
  session idle and took it (to submit, for the prompt with the context or the pointer line), prompts that
  were queued, what was written to a terminal, and the answers. A write that fails may have written some
  of its bytes.
\<close>

datatype chunk =
    PasteChunk context_id string
  | ReturnChunk context_id
  | PointerChunk session_id string
  | TypedChunk string
  | ReplyChunk string
  | ShellChunk context_id string

datatype mark =
    Accepted context_id session_id terminal_id string
  | WentIdle session_id
  | Took session_id "context_id option"
  | Enqueued context_id session_id
  | Wrote terminal_id chunk
  | Answered context_id "protocol_error + delivered"

record post =
  po_kernel :: kernel
  po_terms :: "terminal_id \<rightharpoonup> prompt_runtime"
  po_envelopes :: "envelope list"
  po_threads :: "nat \<rightharpoonup> prompt_stage"
  po_gates :: nat
  po_log :: "mark list"

abbreviation po_inner :: "post \<Rightarrow> inner" where "po_inner ps \<equiv> k_inner (po_kernel ps)"

definition goto :: "nat \<Rightarrow> prompt_stage \<Rightarrow> post \<Rightarrow> post" where
  "goto i st ps = ps\<lparr>po_threads := (po_threads ps)(i \<mapsto> st)\<rparr>"

definition writer_free :: "terminal_id \<Rightarrow> post \<Rightarrow> bool" where
  "writer_free t ps \<longleftrightarrow> (\<forall>j st. po_threads ps j = Some st \<longrightarrow> writer_of st \<noteq> Some t)"

definition gate_free :: "nat \<Rightarrow> post \<Rightarrow> bool" where
  "gate_free g ps \<longleftrightarrow> (\<forall>j st. po_threads ps j = Some st \<longrightarrow> gate_of st \<noteq> Some g)"

definition after_deliver :: "delivery \<Rightarrow> prompt_stage" where
  "after_deliver d = (if dv_pointer d then PtrLook (dv_session d) else Finished)"

text \<open>The answer goes to the caller; that of a queued prompt is only logged.\<close>

definition answers :: "delivery \<Rightarrow> protocol_error + delivered \<Rightarrow> mark list" where
  "answers d r = (case dv_origin d of FromRequest _ \<Rightarrow> [Answered (pp_context (dv_pending d)) r] | FromQueue \<Rightarrow> [])"

definition leave :: "nat \<Rightarrow> delivery \<Rightarrow> protocol_error + delivered \<Rightarrow> post \<Rightarrow> post" where
  "leave i d r ps = goto i (after_deliver d) (ps\<lparr>po_log := po_log ps @ answers d r\<rparr>)"

definition after_record :: "delivery \<Rightarrow> nat \<Rightarrow> terminal_id \<Rightarrow> prompt_stage" where
  "after_record d g t = (if dv_when d = DeliverQueue then AtPark d g t else AtWriter d g t)"

definition after_choose :: "delivery \<Rightarrow> nat \<Rightarrow> terminal_id \<Rightarrow> prompt_stage" where
  "after_choose d g t = (case dv_origin d of FromRequest _ \<Rightarrow> AtRecord d g t | FromQueue \<Rightarrow> after_record d g t)"

abbreviation dv_context :: "delivery \<Rightarrow> context_id" where "dv_context d \<equiv> pp_context (dv_pending d)"

definition enqueued_mark :: "delivery \<Rightarrow> mark" where
  "enqueued_mark d = Enqueued (dv_context d) (dv_session d)"

definition took_marks :: "post \<Rightarrow> delivery \<Rightarrow> mark list" where
  "took_marks ps d = (if session_idle (po_inner ps) (dv_session d) then [Took (dv_session d) (Some (dv_context d))] else [])"

definition admitted :: "nat \<Rightarrow> delivery \<Rightarrow> post \<Rightarrow> post" where
  "admitted i d ps =
    (case deliver_admit (po_gates ps) d (po_kernel ps) of
       (Inl e, k') \<Rightarrow> leave i d (Inl e) ps
     | (Inr g, k') \<Rightarrow> goto i (AtGate d g) (ps\<lparr>po_kernel := k', po_gates := Suc (po_gates ps)\<rparr>))"

definition chosen :: "nat \<Rightarrow> delivery \<Rightarrow> nat \<Rightarrow> post \<Rightarrow> post" where
  "chosen i d g ps =
    (case deliver_choose (po_terms ps) d (po_kernel ps) of
       Inl e \<Rightarrow> leave i d (Inl e) ps
     | Inr t \<Rightarrow> goto i (after_choose d g t) ps)"

text \<open>\<open>fault\<close> is the message of an insert that fails.\<close>

definition recorded :: "string option \<Rightarrow> timestamp \<Rightarrow> nat \<Rightarrow> delivery \<Rightarrow> nat \<Rightarrow> terminal_id \<Rightarrow> post \<Rightarrow> post" where
  "recorded fault now i d g t ps =
    (case fault of
       Some m \<Rightarrow> leave i d (Inl (internal m)) ps
     | None \<Rightarrow> goto i (after_record d g t) (ps\<lparr>po_envelopes := po_envelopes ps @
         [prompt_envelope now (case dv_origin d of FromRequest caller \<Rightarrow> caller | FromQueue \<Rightarrow> None) d]\<rparr>))"

definition parked :: "nat \<Rightarrow> delivery \<Rightarrow> nat \<Rightarrow> terminal_id \<Rightarrow> post \<Rightarrow> post" where
  "parked i d g t ps =
    (case deliver_park d t (po_kernel ps) of
       (Inl e, k') \<Rightarrow> leave i d (Inl e) ps
     | (Inr (Some r), k') \<Rightarrow> leave i d (Inr r) (ps\<lparr>po_kernel := k', po_log := po_log ps @ [enqueued_mark d]\<rparr>)
     | (Inr None, k') \<Rightarrow> goto i (AtWriter d g t) ps)"

definition committed :: "timestamp \<Rightarrow> timestamp \<Rightarrow> nat \<Rightarrow> delivery \<Rightarrow> nat \<Rightarrow> terminal_id \<Rightarrow> post \<Rightarrow> post" where
  "committed now now' i d g t ps =
    (case deliver_commit now now' (po_terms ps) d t (po_kernel ps) of
       (Inl e, k') \<Rightarrow> leave i d (Inl e) ps
     | (Inr (Inl r), k') \<Rightarrow> leave i d (Inr r) (ps\<lparr>po_kernel := k', po_log := po_log ps @ [enqueued_mark d]\<rparr>)
     | (Inr (Inr (modes, sub)), k') \<Rightarrow>
         goto i (AtPaste d g t modes sub) (ps\<lparr>po_kernel := k', po_log := po_log ps @ took_marks ps d\<rparr>))"

text \<open>The two writes; \<open>err\<close> is the message of one that fails, \<open>got\<close> what it wrote before it did.\<close>

definition io_error :: "string \<Rightarrow> protocol_error" where "io_error m = protocol_error_new IoError m"

definition wrote :: "terminal_id \<Rightarrow> chunk \<Rightarrow> post \<Rightarrow> post" where
  "wrote t ch ps = ps\<lparr>po_log := po_log ps @ [Wrote t ch]\<rparr>"

definition pasted :: "nat \<Rightarrow> delivery \<Rightarrow> nat \<Rightarrow> terminal_id \<Rightarrow> term_modes \<Rightarrow> bool \<Rightarrow> post \<Rightarrow> post" where
  "pasted i d g t modes sub ps =
    (let ps1 = wrote t (PasteChunk (dv_context d) (prompt_bytes (pp_text (dv_pending d)) modes)) ps in
     if sub then goto i (AtReturn d g t) ps1
     else leave i d (Inr (delivery_result (dv_context d) True False)) ps1)"

definition paste_failed :: "string \<Rightarrow> string \<Rightarrow> nat \<Rightarrow> delivery \<Rightarrow> terminal_id \<Rightarrow> post \<Rightarrow> post" where
  "paste_failed err got i d t ps = leave i d (Inl (io_error err)) (wrote t (PasteChunk (dv_context d) got) ps)"

definition returned :: "nat \<Rightarrow> delivery \<Rightarrow> terminal_id \<Rightarrow> post \<Rightarrow> post" where
  "returned i d t ps =
    leave i d (Inr (delivery_result (dv_context d) True True)) (wrote t (ReturnChunk (dv_context d)) ps)"

definition return_failed :: "string \<Rightarrow> bool \<Rightarrow> nat \<Rightarrow> delivery \<Rightarrow> terminal_id \<Rightarrow> post \<Rightarrow> post" where
  "return_failed err got i d t ps =
    leave i d (Inl (io_error err)) (if got then wrote t (ReturnChunk (dv_context d)) ps else ps)"

definition hooked :: "timestamp \<Rightarrow> nat \<Rightarrow> session_id \<Rightarrow> activity_state \<Rightarrow> post \<Rightarrow> post" where
  "hooked now i sid st ps =
    (case report_activity now sid st (po_kernel ps) of
       ((became_idle, queued), k') \<Rightarrow>
         goto i (if became_idle then HookPending sid queued else Finished)
           (ps\<lparr>po_kernel := k', po_log := po_log ps @ (if became_idle then [WentIdle sid] else [])\<rparr>))"

definition hook_writer :: "post \<Rightarrow> session_id \<Rightarrow> terminal_id option" where
  "hook_writer ps sid =
    Option.bind (in_sessions (po_inner ps) sid) (\<lambda>s. Option.bind (s_terminal_id s)
      (\<lambda>t. if po_terms ps t = None then None else Some t))"

definition pending_seen :: "nat \<Rightarrow> session_id \<Rightarrow> bool \<Rightarrow> post \<Rightarrow> post" where
  "pending_seen i sid queued ps =
    goto i (case deliver_pending queued sid (po_kernel ps) of
        Some d \<Rightarrow> AtAdmit d
      | None \<Rightarrow> if queued then PtrLook sid else Finished) ps"

text \<open>\<open>unread\<close> is what the database counted, when it could.\<close>

definition pointer_looked :: "bool \<Rightarrow> nat option \<Rightarrow> nat \<Rightarrow> session_id \<Rightarrow> post \<Rightarrow> post" where
  "pointer_looked watched unread i sid ps =
    goto i (if watched then Finished
      else case pointer_prepare (po_terms ps) sid (po_kernel ps) of
        None \<Rightarrow> Finished
      | Some t \<Rightarrow> PtrWriter sid t (max (case unread of None \<Rightarrow> 0 | Some n \<Rightarrow> n) 1)) ps"

definition pointer_committed :: "timestamp \<Rightarrow> bool \<Rightarrow> nat \<Rightarrow> session_id \<Rightarrow> terminal_id \<Rightarrow> nat \<Rightarrow> post \<Rightarrow> post" where
  "pointer_committed now watched i sid t n ps =
    (case pointer_commit now watched sid t (po_kernel ps) of
       (types, k') \<Rightarrow> goto i (if types then PtrLine sid t n else Finished)
         (ps\<lparr>po_kernel := k', po_log := po_log ps @ (if types then [Took sid None] else [])\<rparr>))"

text \<open>Input looks up the session of its terminal in one section and notes the input in another.\<close>

definition looked_up :: "nat \<Rightarrow> terminal_id \<Rightarrow> string \<Rightarrow> post \<Rightarrow> post" where
  "looked_up i t bytes ps =
    goto i (case po_terms ps t of None \<Rightarrow> InSend t bytes | Some rt \<Rightarrow> InNote t (rtm_session rt) bytes) ps"

definition typed :: "timestamp \<Rightarrow> nat \<Rightarrow> terminal_id \<Rightarrow> session_id \<Rightarrow> string \<Rightarrow> post \<Rightarrow> post" where
  "typed now i t sid bytes ps =
    goto i (InSend t bytes) (ps\<lparr>po_kernel := note_user_input now sid (po_kernel ps)\<rparr>)"

definition shell_admitted :: "bool \<Rightarrow> nat \<Rightarrow> shell_command \<Rightarrow> post \<Rightarrow> post" where
  "shell_admitted fg i c ps =
    (case shell_admit fg (po_gates ps) (po_terms ps) c (po_kernel ps) of
       (Inl e, k') \<Rightarrow> goto i Finished ps
     | (Inr (t, g), k') \<Rightarrow> goto i (ShGate c t g) (ps\<lparr>po_kernel := k', po_gates := Suc (po_gates ps)\<rparr>))"

definition shell_committed :: "bool \<Rightarrow> nat \<Rightarrow> shell_command \<Rightarrow> terminal_id \<Rightarrow> nat \<Rightarrow> post \<Rightarrow> post" where
  "shell_committed fg i c t g ps =
    goto i (case shell_commit fg (po_terms ps) c t (po_kernel ps) of
      Inl e \<Rightarrow> Finished | Inr bytes \<Rightarrow> ShLine c t g bytes) ps"

text \<open>
  What the rest of the daemon does between two sections: it may drop a queued prompt but not add one, it
  makes no session idle, a session keeps its terminal, kind and life while a prompt of that terminal waits
  for it, and a terminal that ended does not come back.
\<close>

definition live_target :: "inner \<Rightarrow> session_id \<Rightarrow> terminal_id \<Rightarrow> bool" where
  "live_target inn sid t =
    (case in_sessions inn sid of
       None \<Rightarrow> False
     | Some s \<Rightarrow> s_kind s = SK_Agent \<and> is_active (s_state s) \<and> s_terminal_id s = Some t)"

definition acts_idle :: "inner \<Rightarrow> session_id \<Rightarrow> bool" where
  "acts_idle inn sid = (case in_sessions inn sid of None \<Rightarrow> False | Some s \<Rightarrow> act_state (s_activity s) = Act_Idle)"

definition elsewhere :: "post \<Rightarrow> kernel \<Rightarrow> (terminal_id \<rightharpoonup> prompt_runtime) \<Rightarrow> bool" where
  "elsewhere ps k' terms' \<longleftrightarrow>
    (\<forall>sid p. in_pending_prompts (k_inner k') sid = Some p \<longrightarrow>
       in_pending_prompts (po_inner ps) sid = Some p
       \<and> (live_target (po_inner ps) sid (pp_terminal p) \<longrightarrow> live_target (k_inner k') sid (pp_terminal p))
       \<and> (po_terms ps (pp_terminal p) = None \<longrightarrow> terms' (pp_terminal p) = None))
    \<and> (\<forall>sid. acts_idle (k_inner k') sid \<longrightarrow> acts_idle (po_inner ps) sid)
    \<and> (\<forall>sid. session_idle (k_inner k') sid \<longrightarrow> session_idle (po_inner ps) sid)"

text \<open>A context id is fresh when no accepted prompt has it.\<close>

definition fresh_context :: "context_id \<Rightarrow> post \<Rightarrow> bool" where
  "fresh_context c ps \<longleftrightarrow> (\<forall>sid t text. Accepted c sid t text \<notin> set (po_log ps))"

text \<open>Stages that neither carry a prompt nor touch a session.\<close>

inductive side_thread :: "post \<Rightarrow> post \<Rightarrow> bool" where
  ps_hook: "po_threads ps i = None \<Longrightarrow> side_thread ps (goto i (HookWriter sid st (hook_writer ps sid)) ps)"
| ps_consider: "po_threads ps i = None \<Longrightarrow> consider_pointer watched sid (po_kernel ps) = (types, k') \<Longrightarrow>
    side_thread ps (goto i (if types then PtrLook sid else Finished) (ps\<lparr>po_kernel := k'\<rparr>))"
| ps_pointer_look: "po_threads ps i = Some (PtrLook sid) \<Longrightarrow> side_thread ps (pointer_looked watched unread i sid ps)"
| ps_pointer_line: "po_threads ps i = Some (PtrLine sid t n) \<Longrightarrow>
    side_thread ps (goto i (PtrReturn sid t) (wrote t (PointerChunk sid (pointer_line n)) ps))"
| ps_pointer_failed: "po_threads ps i = Some (PtrLine sid t n) \<Longrightarrow> prefix got (pointer_line n) \<Longrightarrow>
    side_thread ps (goto i Finished (wrote t (PointerChunk sid got) ps))"
| ps_pointer_return: "po_threads ps i = Some (PtrReturn sid t) \<Longrightarrow>
    side_thread ps (goto i Finished (if got then wrote t (PointerChunk sid [CHR 0x0D]) ps else ps))"
| ps_input: "po_threads ps i = None \<Longrightarrow> po_terms ps t = Some rt \<Longrightarrow> side_thread ps (goto i (InWriter t bytes) ps)"
| ps_look: "po_threads ps i = Some (InWriter t bytes) \<Longrightarrow> writer_free t ps \<Longrightarrow> side_thread ps (looked_up i t bytes ps)"
| ps_sent: "po_threads ps i = Some (InSend t bytes) \<Longrightarrow> prefix got bytes \<Longrightarrow>
    side_thread ps (goto i Finished (wrote t (TypedChunk got) ps))"
| ps_reply: "po_threads ps i = None \<Longrightarrow> writer_free t ps \<Longrightarrow> side_thread ps (goto i Finished (wrote t (ReplyChunk bytes) ps))"
| ps_shell: "po_threads ps i = None \<Longrightarrow> fresh_context (sh_context c) ps \<Longrightarrow> clean_command raw = Inr (sh_command c) \<Longrightarrow>
    side_thread ps (shell_admitted fg i c ps)"
| ps_shell_gate: "po_threads ps i = Some (ShGate c t g) \<Longrightarrow> gate_free g ps \<Longrightarrow> side_thread ps (goto i (ShRecord c t g) ps)"
| ps_shell_record: "po_threads ps i = Some (ShRecord c t g) \<Longrightarrow>
    side_thread ps (goto i (ShWriter c t g) (ps\<lparr>po_envelopes := po_envelopes ps @ [shell_envelope now c]\<rparr>))"
| ps_shell_unrecorded: "po_threads ps i = Some (ShRecord c t g) \<Longrightarrow> side_thread ps (goto i Finished ps)"
| ps_shell_commit: "po_threads ps i = Some (ShWriter c t g) \<Longrightarrow> writer_free t ps \<Longrightarrow>
    side_thread ps (shell_committed fg i c t g ps)"
| ps_shell_line: "po_threads ps i = Some (ShLine c t g bytes) \<Longrightarrow> prefix got bytes \<Longrightarrow>
    side_thread ps (goto i Finished (wrote t (ShellChunk (sh_context c) got) ps))"

inductive post_step :: "post \<Rightarrow> post \<Rightarrow> bool" where
  ps_side: "side_thread ps ps' \<Longrightarrow> post_step ps ps'"
| ps_elsewhere: "elsewhere ps k' terms' \<Longrightarrow> post_step ps (ps\<lparr>po_kernel := k', po_terms := terms'\<rparr>)"
| ps_send: "po_threads ps i = None \<Longrightarrow> fresh_context c ps \<Longrightarrow> send (po_kernel ps) c caller sid raw sub wh = Inr d \<Longrightarrow>
    post_step ps (goto i (AtAdmit d) (ps\<lparr>po_log := po_log ps @
      [Accepted c sid (pp_terminal (dv_pending d)) (pp_text (dv_pending d))]\<rparr>))"
| ps_admit: "po_threads ps i = Some (AtAdmit d) \<Longrightarrow> post_step ps (admitted i d ps)"
| ps_choose: "po_threads ps i = Some (AtGate d g) \<Longrightarrow> gate_free g ps \<Longrightarrow> post_step ps (chosen i d g ps)"
| ps_record: "po_threads ps i = Some (AtRecord d g t) \<Longrightarrow> post_step ps (recorded fault now i d g t ps)"
| ps_park: "po_threads ps i = Some (AtPark d g t) \<Longrightarrow> post_step ps (parked i d g t ps)"
| ps_commit: "po_threads ps i = Some (AtWriter d g t) \<Longrightarrow> writer_free t ps \<Longrightarrow> post_step ps (committed now now' i d g t ps)"
| ps_paste: "po_threads ps i = Some (AtPaste d g t modes sub) \<Longrightarrow> post_step ps (pasted i d g t modes sub ps)"
| ps_paste_failed: "po_threads ps i = Some (AtPaste d g t modes sub) \<Longrightarrow>
    prefix got (prompt_bytes (pp_text (dv_pending d)) modes) \<Longrightarrow> post_step ps (paste_failed err got i d t ps)"
| ps_return: "po_threads ps i = Some (AtReturn d g t) \<Longrightarrow> post_step ps (returned i d t ps)"
| ps_return_failed: "po_threads ps i = Some (AtReturn d g t) \<Longrightarrow> post_step ps (return_failed err got i d t ps)"
| ps_hooked: "po_threads ps i = Some (HookWriter sid st w) \<Longrightarrow> (\<And>t. w = Some t \<Longrightarrow> writer_free t ps) \<Longrightarrow>
    post_step ps (hooked now i sid st ps)"
| ps_pending: "po_threads ps i = Some (HookPending sid queued) \<Longrightarrow> post_step ps (pending_seen i sid queued ps)"
| ps_pointer_commit: "po_threads ps i = Some (PtrWriter sid t n) \<Longrightarrow> writer_free t ps \<Longrightarrow>
    post_step ps (pointer_committed now watched i sid t n ps)"
| ps_typed: "po_threads ps i = Some (InNote t sid bytes) \<Longrightarrow> post_step ps (typed now i t sid bytes ps)"

text \<open>The daemon starts without threads, queued prompts or log.\<close>

definition post_start :: "post \<Rightarrow> bool" where
  "post_start ps \<longleftrightarrow> po_threads ps = Map.empty \<and> in_pending_prompts (po_inner ps) = Map.empty \<and> po_log ps = []"

abbreviation post_run :: "post \<Rightarrow> post \<Rightarrow> bool" where "post_run \<equiv> post_step\<^sup>*\<^sup>*"

end
