(* ===== verification/Prompt_Delivery.thy ===== *)
theory Prompt_Delivery
  imports Daemon_Prompts Orch_System
begin

text \<open>
  What every interleaving of the threads of theory \<open>Daemon_Prompts\<close> keeps: a prompt is pasted at most once,
  a session is submitted to once for each time its hook reports it idle, nothing comes between a prompt and
  its carriage return, a queued prompt is not forgotten, and the locks are never taken in a cycle.
\<close>

section \<open>What the sections change\<close>

lemma check_target_iff:
  "check_target inn d = Inr t \<longleftrightarrow> live_target inn (dv_session d) t \<and> t = pp_terminal (dv_pending d)
    \<and> (session_idle inn (dv_session d) \<or> dv_when d \<noteq> DeliverIfIdle)
    \<and> (case in_pending_prompts inn (dv_session d) of
         None \<Rightarrow> is_new d | Some slot \<Rightarrow> \<not> is_new d \<and> pp_context slot = dv_context d)"
  by (auto simp: check_target_def check_slot_def require_def check_def live_target_def session_idle_def split: option.splits)

lemma same_terminal_iff:
  "same_terminal inn d t = Inr u \<longleftrightarrow> check_target inn d = Inr t"
  by (cases "check_target inn d") (auto simp: same_terminal_def check_def)

lemma deliver_admit_cases:
  obtains (refused) e where "deliver_admit fresh d k = (Inl e, k)" "dv_when d = DeliverUnknown \<or> (\<exists>e. check_target (k_inner k) d = Inl e)"
  | (gate) g k' t where "deliver_admit fresh d k = (Inr g, k')" "check_target (k_inner k) d = Inr t" "dv_when d \<noteq> DeliverUnknown"
      "in_pending_prompts (k_inner k') = in_pending_prompts (k_inner k)" "in_sessions (k_inner k') = in_sessions (k_inner k)"
proof (cases "dv_when d = DeliverUnknown")
  case True
  then show ?thesis using refused by (simp add: deliver_admit_def check_def)
next
  case False
  show ?thesis
  proof (cases "check_target (k_inner k) d")
    case (Inl e)
    then show ?thesis using refused False by (simp add: deliver_admit_def check_def)
  next
    case (Inr t)
    then show ?thesis using gate [OF _ Inr False] False
      by (cases "in_prompt_gates (k_inner k) (dv_session d)") (auto simp: deliver_admit_def check_def Let_def)
  qed
qed

lemma deliver_choose_Inr:
  "deliver_choose terms d k = Inr t \<Longrightarrow> check_target (k_inner k) d = Inr t \<and> terms t \<noteq> None"
  by (cases "check_target (k_inner k) d")
    (auto simp: deliver_choose_def require_def caller_present_def check_def split: prompt_origin.splits option.splits if_splits)

lemma deliver_park_cases:
  obtains (refused) e where "deliver_park d t k = (Inl e, k)" "\<exists>e. same_terminal (k_inner k) d t = Inl e"
  | (queued) "deliver_park d t k = (Inr (Some (queued_answer d)), enqueue d k)" "check_target (k_inner k) d = Inr t"
      "\<not> session_idle (k_inner k) (dv_session d)"
  | (on) "deliver_park d t k = (Inr None, k)" "check_target (k_inner k) d = Inr t" "session_idle (k_inner k) (dv_session d)"
  using same_terminal_iff [of "k_inner k" d t]
  by (cases "same_terminal (k_inner k) d t"; cases "session_idle (k_inner k) (dv_session d)") (auto simp: deliver_park_def)

lemma idle_sessions: "session_idle inn sid \<Longrightarrow> acts_idle inn sid"
  by (auto simp: session_idle_def acts_idle_def prompt_idle_def split: option.splits)

lemma input_not_idle: "act_state (apply_activity a Input now) \<noteq> Act_Idle"
  by (simp add: apply_activity_def Let_def)

text \<open>What a section leaves of the sessions: they live as before, and only the one it is about may have another activity.\<close>

definition only_activity :: "session_id \<Rightarrow> kernel \<Rightarrow> kernel \<Rightarrow> bool" where
  "only_activity sid k k' \<longleftrightarrow> (\<forall>j t. live_target (k_inner k') j t = live_target (k_inner k) j t)
    \<and> (\<forall>j. j \<noteq> sid \<longrightarrow> in_sessions (k_inner k') j = in_sessions (k_inner k) j)"

lemma only_activity_refl [simp]: "only_activity sid k k"
  by (simp add: only_activity_def)

lemma deliver_commit_cases:
  obtains (refused) e where "deliver_commit now now' terms d t k = (Inl e, k)"
      "(\<exists>e. same_terminal (k_inner k) d t = Inl e) \<or> terms t = None"
  | (queued) "deliver_commit now now' terms d t k = (Inr (Inl (queued_answer d)), enqueue d k)" "check_target (k_inner k) d = Inr t"
      "\<not> session_idle (k_inner k) (dv_session d)"
  | (paste) modes k' where "deliver_commit now now' terms d t k =
        (Inr (Inr (modes, pp_submit (dv_pending d) \<and> session_idle (k_inner k) (dv_session d))), k')"
      "check_target (k_inner k) d = Inr t"
      "in_pending_prompts (k_inner k') = (in_pending_prompts (k_inner k))(dv_session d := None)"
      "only_activity (dv_session d) k k'" "session_idle (k_inner k) (dv_session d) \<Longrightarrow> \<not> acts_idle (k_inner k') (dv_session d)"
      "\<not> session_idle (k_inner k) (dv_session d) \<Longrightarrow> in_sessions (k_inner k') = in_sessions (k_inner k)"
proof (cases "same_terminal (k_inner k) d t")
  case (Inl e)
  then show ?thesis using refused by (simp add: deliver_commit_def)
next
  case (Inr u)
  let ?sid = "dv_session d"
  have c: "check_target (k_inner k) d = Inr t" using Inr same_terminal_iff [of "k_inner k" d t] by simp
  then obtain s where s: "in_sessions (k_inner k) ?sid = Some s"
    by (cases "in_sessions (k_inner k) ?sid") (auto simp: check_target_iff live_target_def)
  consider (q) "\<not> session_idle (k_inner k) ?sid \<and> dv_when d = DeliverQueue"
    | (n) "\<not> (\<not> session_idle (k_inner k) ?sid \<and> dv_when d = DeliverQueue)" "terms t = None"
    | (p) rt where "\<not> (\<not> session_idle (k_inner k) ?sid \<and> dv_when d = DeliverQueue)" "terms t = Some rt"
    by (cases "terms t") auto
  then show ?thesis
  proof cases
    case q
    then show ?thesis using Inr queued c by (simp add: deliver_commit_def)
  next
    case n
    then show ?thesis using Inr refused by (auto simp: deliver_commit_def Let_def)
  next
    case p
    show ?thesis
    proof (rule paste [OF _ c])
      show "deliver_commit now now' terms d t k =
        (Inr (Inr (rtm_modes rt, pp_submit (dv_pending d) \<and> session_idle (k_inner k) ?sid)),
          snd (deliver_commit now now' terms d t k))"
        using Inr p by (auto simp: deliver_commit_def Let_def)
    qed (use Inr p s in \<open>auto simp: deliver_commit_def Let_def only_activity_def live_target_def store_session_def
        broadcast_def acts_idle_def input_not_idle split: option.splits\<close>)
  qed
qed

lemma note_user_input_inner:
  "in_pending_prompts (k_inner (note_user_input now sid k)) = in_pending_prompts (k_inner k)
   \<and> only_activity sid k (note_user_input now sid k)
   \<and> (\<forall>j. acts_idle (k_inner (note_user_input now sid k)) j \<longrightarrow> acts_idle (k_inner k) j)
   \<and> (\<forall>j. session_idle (k_inner (note_user_input now sid k)) j \<longrightarrow> session_idle (k_inner k) j)"
  by (auto simp: note_user_input_def Let_def store_session_def broadcast_def only_activity_def live_target_def acts_idle_def
      session_idle_def prompt_idle_def input_not_idle split: option.splits if_splits)

lemma set_pointer_slot_inner [simp]: "k_inner (set_pointer_slot sid slot k) = k_inner k"
  by (simp add: set_pointer_slot_def)

lemma report_activity_inner:
  assumes "report_activity now sid st k = ((b, q), k')"
  shows "in_pending_prompts (k_inner k') = in_pending_prompts (k_inner k)" "only_activity sid k k'"
    "\<not> b \<Longrightarrow> acts_idle (k_inner k') j \<Longrightarrow> acts_idle (k_inner k) j"
    "\<not> b \<Longrightarrow> session_idle (k_inner k') j \<Longrightarrow> session_idle (k_inner k) j"
    "b \<Longrightarrow> acts_idle (k_inner k') sid"
proof -
  have hook: "apply_activity a (Hook st) now = a" if "act_state a = Act_Idle" "act_state (apply_activity a (Hook st) now) = Act_Idle" for a
    using that by (auto simp: apply_activity_def Let_def split: if_splits)
  consider (gone) "in_sessions (k_inner k) sid = None" "k' = k" "\<not> b"
    | (there) s where "in_sessions (k_inner k) sid = Some s"
        "in_sessions (k_inner k') = (in_sessions (k_inner k))(sid \<mapsto> s\<lparr>s_activity := apply_activity (s_activity s) (Hook st) now\<rparr>)"
        "in_pending_prompts (k_inner k') = in_pending_prompts (k_inner k)"
        "b \<longleftrightarrow> act_state (apply_activity (s_activity s) (Hook st) now) = Act_Idle \<and> act_state (s_activity s) \<noteq> Act_Idle"
  proof (cases "in_sessions (k_inner k) sid")
    case None
    then show ?thesis using that(1) assms by (simp add: report_activity_def)
  next
    case (Some s)
    have "k_inner k' = k_inner (snd (report_activity now sid st k))" "b = fst (fst (report_activity now sid st k))"
      by (simp_all add: assms)
    then show ?thesis
      using that(2) [OF Some] Some by (simp add: report_activity_def Let_def store_session_def broadcast_def)
  qed
  note both = this
  show "in_pending_prompts (k_inner k') = in_pending_prompts (k_inner k)" by (cases rule: both) simp_all
  show "only_activity sid k k'" by (cases rule: both) (simp_all add: only_activity_def live_target_def)
  show "acts_idle (k_inner k) j" if "\<not> b" "acts_idle (k_inner k') j"
    using that by (cases rule: both) (auto simp: acts_idle_def split: if_splits)
  show "session_idle (k_inner k) j" if nb: "\<not> b" and i: "session_idle (k_inner k') j"
  proof (cases rule: both)
    case (there s)
    show ?thesis
    proof (cases "j = sid")
      case True
      then have "act_state (apply_activity (s_activity s) (Hook st) now) = Act_Idle"
        using i by (simp add: session_idle_def prompt_idle_def there(2))
      then have "apply_activity (s_activity s) (Hook st) now = s_activity s" using hook nb there(4) by blast
      then show ?thesis using i True there(1) by (simp add: session_idle_def prompt_idle_def there(2))
    qed (use i in \<open>simp add: session_idle_def there(2)\<close>)
  qed (use i in simp)
  show "acts_idle (k_inner k') sid" if b
    using that by (cases rule: both) (simp_all add: acts_idle_def)
qed

lemma pointer_commit_inner:
  assumes "pointer_commit now watched sid t k = (types, k')"
  shows "in_pending_prompts (k_inner k') = in_pending_prompts (k_inner k)" "only_activity sid k k'"
    "types \<Longrightarrow> acts_idle (k_inner k) sid \<and> \<not> acts_idle (k_inner k') sid"
    "\<not> types \<Longrightarrow> in_sessions (k_inner k') = in_sessions (k_inner k)"
  using assms by (auto simp: pointer_commit_def Let_def store_session_def broadcast_def only_activity_def live_target_def acts_idle_def
      input_not_idle split: option.splits if_splits)

lemma consider_pointer_inner:
  "consider_pointer watched sid k = (types, k') \<Longrightarrow> k_inner k' = k_inner k"
  by (auto simp: consider_pointer_def Let_def split: pointer_verdict.splits)

lemma shell_admit_inner:
  "shell_admit fg fresh terms c k = (r, k') \<Longrightarrow>
    in_pending_prompts (k_inner k') = in_pending_prompts (k_inner k) \<and> in_sessions (k_inner k') = in_sessions (k_inner k)"
  by (auto simp: shell_admit_def Let_def split: sum.splits option.splits)

fun delivery_of :: "prompt_stage \<Rightarrow> delivery option" where
  "delivery_of (AtAdmit d) = Some d"
| "delivery_of (AtGate d g) = Some d"
| "delivery_of (AtRecord d g t) = Some d"
| "delivery_of (AtPark d g t) = Some d"
| "delivery_of (AtWriter d g t) = Some d"
| "delivery_of (AtPaste d g t modes sub) = Some d"
| "delivery_of (AtReturn d g t) = Some d"
| "delivery_of _ = None"

lemmas move_defs = goto_def leave_def wrote_def

text \<open>What such a stage may do; it writes only with the writer of the terminal.\<close>

definition may_write :: "nat \<Rightarrow> terminal_id \<Rightarrow> post \<Rightarrow> bool" where
  "may_write i t ps \<longleftrightarrow> writer_free t ps \<or> Option.bind (po_threads ps i) writer_of = Some t"

fun other_chunk :: "mark \<Rightarrow> terminal_id option" where
  "other_chunk (Wrote t (PointerChunk sid bytes)) = Some t"
| "other_chunk (Wrote t (TypedChunk bytes)) = Some t"
| "other_chunk (Wrote t (ReplyChunk bytes)) = Some t"
| "other_chunk (Wrote t (ShellChunk c bytes)) = Some t"
| "other_chunk _ = None"

definition post_bystander :: "nat \<Rightarrow> prompt_stage \<Rightarrow> mark list \<Rightarrow> post \<Rightarrow> post \<Rightarrow> bool" where
  "post_bystander i st' ms ps ps' \<longleftrightarrow> po_threads ps' = (po_threads ps)(i \<mapsto> st') \<and> po_log ps' = po_log ps @ ms
    \<and> po_terms ps' = po_terms ps \<and> in_sessions (po_inner ps') = in_sessions (po_inner ps)
    \<and> in_pending_prompts (po_inner ps') = in_pending_prompts (po_inner ps)
    \<and> delivery_of st' = None \<and> Option.bind (po_threads ps i) delivery_of = None
    \<and> (\<forall>sid q. po_threads ps i \<noteq> Some (HookPending sid q))
    \<and> (\<forall>m \<in> set ms. \<exists>t. other_chunk m = Some t \<and> may_write i t ps)
    \<and> (\<forall>t. writer_of st' = Some t \<longrightarrow> may_write i t ps)"

lemmas bystander_intro = post_bystander_def [THEN iffD2]

lemma side_thread_bystander: "side_thread ps ps' \<Longrightarrow> \<exists>i st' ms. post_bystander i st' ms ps ps'"
proof (induction rule: side_thread.induct)
  case (ps_hook ps i sid st)
  then have "post_bystander i (HookWriter sid st (hook_writer ps sid)) [] ps (goto i (HookWriter sid st (hook_writer ps sid)) ps)"
    by (simp add: post_bystander_def move_defs)
  then show ?case by blast
next
  case (ps_consider ps i watched sid types k')
  then have "post_bystander i (if types then PtrLook sid else Finished) [] ps
      (goto i (if types then PtrLook sid else Finished) (ps\<lparr>po_kernel := k'\<rparr>))"
    by (simp add: post_bystander_def move_defs consider_pointer_inner)
  then show ?case by blast
next
  case (ps_pointer_look ps i sid watched unread)
  then have "post_bystander i (the (po_threads (pointer_looked watched unread i sid ps) i)) [] ps (pointer_looked watched unread i sid ps)"
    by (simp add: post_bystander_def pointer_looked_def move_defs split: option.split)
  then show ?case by blast
next
  case (ps_pointer_line ps i sid t n)
  then have "post_bystander i (PtrReturn sid t) [Wrote t (PointerChunk sid (pointer_line n))] ps
      (goto i (PtrReturn sid t) (wrote t (PointerChunk sid (pointer_line n)) ps))"
    by (simp add: post_bystander_def move_defs may_write_def)
  then show ?case by blast
next
  case (ps_pointer_failed ps i sid t n got)
  then have "post_bystander i Finished [Wrote t (PointerChunk sid got)] ps (goto i Finished (wrote t (PointerChunk sid got) ps))"
    by (simp add: post_bystander_def move_defs may_write_def)
  then show ?case by blast
next
  case (ps_pointer_return ps i sid t got)
  then have "post_bystander i Finished (if got then [Wrote t (PointerChunk sid [CHR 0x0D])] else []) ps
      (goto i Finished (if got then wrote t (PointerChunk sid [CHR 0x0D]) ps else ps))"
    by (simp add: post_bystander_def move_defs may_write_def)
  then show ?case by blast
next
  case (ps_input ps i t rt bytes)
  then have "post_bystander i (InWriter t bytes) [] ps (goto i (InWriter t bytes) ps)" by (simp add: post_bystander_def move_defs)
  then show ?case by blast
next
  case (ps_look ps i t bytes)
  then have "post_bystander i (the (po_threads (looked_up i t bytes ps) i)) [] ps (looked_up i t bytes ps)"
    by (simp add: post_bystander_def looked_up_def move_defs may_write_def split: option.split)
  then show ?case by blast
next
  case (ps_sent ps i t bytes got)
  then have "post_bystander i Finished [Wrote t (TypedChunk got)] ps (goto i Finished (wrote t (TypedChunk got) ps))"
    by (simp add: post_bystander_def move_defs may_write_def)
  then show ?case by blast
next
  case (ps_reply ps i t bytes)
  then have "post_bystander i Finished [Wrote t (ReplyChunk bytes)] ps (goto i Finished (wrote t (ReplyChunk bytes) ps))"
    by (simp add: post_bystander_def move_defs may_write_def)
  then show ?case by blast
next
  case (ps_shell ps i c raw fg)
  have "post_bystander i (the (po_threads (shell_admitted fg i c ps) i)) [] ps (shell_admitted fg i c ps)"
    using ps_shell by (cases "shell_admit fg (po_gates ps) (po_terms ps) c (po_kernel ps)")
      (auto simp: post_bystander_def shell_admitted_def move_defs dest: shell_admit_inner split: sum.split)
  then show ?case by blast
next
  case (ps_shell_gate ps i c t g)
  then have "post_bystander i (ShRecord c t g) [] ps (goto i (ShRecord c t g) ps)" by (simp add: post_bystander_def move_defs)
  then show ?case by blast
next
  case (ps_shell_record ps i c t g now)
  then have "post_bystander i (ShWriter c t g) [] ps
      (goto i (ShWriter c t g) (ps\<lparr>po_envelopes := po_envelopes ps @ [shell_envelope now c]\<rparr>))"
    by (simp add: post_bystander_def move_defs)
  then show ?case by blast
next
  case (ps_shell_unrecorded ps i c t g)
  then have "post_bystander i Finished [] ps (goto i Finished ps)" by (simp add: post_bystander_def move_defs)
  then show ?case by blast
next
  case (ps_shell_commit ps i c t g fg)
  then have "post_bystander i (the (po_threads (shell_committed fg i c t g ps) i)) [] ps (shell_committed fg i c t g ps)"
    by (auto simp: post_bystander_def shell_committed_def move_defs may_write_def split: sum.split)
  then show ?case by blast
next
  case (ps_shell_line ps i c t g bytes got)
  then have "post_bystander i Finished [Wrote t (ShellChunk (sh_context c) got)] ps (goto i Finished (wrote t (ShellChunk (sh_context c) got) ps))"
    by (simp add: post_bystander_def move_defs may_write_def)
  then show ?case by blast
qed

lemma other_chunk_quiet: "other_chunk m = Some t \<Longrightarrow> (\<exists>ch. m = Wrote t ch) \<and> (\<forall>t c. m \<noteq> Wrote t (ReturnChunk c)) \<and> (\<forall>t c b. m \<noteq> Wrote t (PasteChunk c b))"
  by (cases m rule: other_chunk.cases) auto

section \<open>Every prompt is pasted at most once\<close>

text \<open>A thread answers for a prompt while it carries the only copy that may be pasted.\<close>

fun carries :: "prompt_stage \<Rightarrow> context_id option" where
  "carries (AtPaste d g t modes sub) = Some (dv_context d)"
| "carries (AtReturn d g t) = None"
| "carries st = Option.bind (delivery_of st) (\<lambda>d. if is_new d then Some (dv_context d) else None)"

fun paste_of :: "mark \<Rightarrow> context_id option" where
  "paste_of (Wrote t (PasteChunk c bytes)) = Some c"
| "paste_of _ = None"

datatype place = InThread nat | InSlot session_id | InLog nat

fun at_place :: "post \<Rightarrow> context_id \<Rightarrow> place \<Rightarrow> bool" where
  "at_place ps c (InThread i) = (Option.bind (po_threads ps i) carries = Some c)"
| "at_place ps c (InSlot sid) = (map_option pp_context (in_pending_prompts (po_inner ps) sid) = Some c)"
| "at_place ps c (InLog n) = (n < length (po_log ps) \<and> paste_of (po_log ps ! n) = Some c)"

definition one_place :: "post \<Rightarrow> bool" where
  "one_place ps \<longleftrightarrow> (\<forall>c x y. at_place ps c x \<and> at_place ps c y \<longrightarrow> x = y)"

lemma one_place_sub: "one_place ps \<Longrightarrow> (\<And>c x. at_place ps' c x \<Longrightarrow> at_place ps c x) \<Longrightarrow> one_place ps'"
  unfolding one_place_def by blast

lemma one_place_moved:
  assumes "one_place ps" "at_place ps c0 old"
    "\<And>c x. at_place ps' c x \<Longrightarrow> at_place ps c x \<and> (c = c0 \<longrightarrow> x \<noteq> old) \<or> c = c0 \<and> x = new"
  shows "one_place ps'"
proof -
  have "x = y" if "at_place ps' c x" "at_place ps' c y" for c x y
    using assms(3) [OF that(1)] assms(3) [OF that(2)] assms(1,2) unfolding one_place_def by blast
  then show ?thesis unfolding one_place_def by blast
qed

lemma one_place_new:
  assumes "one_place ps" "\<And>x. \<not> at_place ps c0 x"
    "\<And>c x. at_place ps' c x \<Longrightarrow> at_place ps c x \<or> c = c0 \<and> x = new"
  shows "one_place ps'"
proof -
  have "x = y" if "at_place ps' c x" "at_place ps' c y" for c x y
    using assms(3) [OF that(1)] assms(3) [OF that(2)] assms(1,2) unfolding one_place_def by blast
  then show ?thesis unfolding one_place_def by blast
qed

text \<open>Who a prompt was accepted for.\<close>

definition accepted :: "post \<Rightarrow> session_id \<Rightarrow> pending_prompt \<Rightarrow> bool" where
  "accepted ps sid p \<longleftrightarrow> Accepted (pp_context p) sid (pp_terminal p) (pp_text p) \<in> set (po_log ps)"

fun stage_terminal :: "prompt_stage \<Rightarrow> terminal_id option" where
  "stage_terminal (AtRecord d g t) = Some t"
| "stage_terminal (AtPark d g t) = Some t"
| "stage_terminal (AtWriter d g t) = Some t"
| "stage_terminal (AtPaste d g t modes sub) = Some t"
| "stage_terminal (AtReturn d g t) = Some t"
| "stage_terminal _ = None"

definition stage_ok :: "post \<Rightarrow> prompt_stage \<Rightarrow> bool" where
  "stage_ok ps st \<longleftrightarrow> (\<forall>d. delivery_of st = Some d \<longrightarrow> accepted ps (dv_session d) (dv_pending d)
     \<and> (\<not> is_new d \<longrightarrow> dv_when d = DeliverQueue)
     \<and> (\<forall>t. stage_terminal st = Some t \<longrightarrow> t = pp_terminal (dv_pending d)))"

definition mark_ok :: "post \<Rightarrow> mark \<Rightarrow> bool" where
  "mark_ok ps m \<longleftrightarrow> (case m of
     Wrote t (PasteChunk c bytes) \<Rightarrow> (\<exists>sid text modes. Accepted c sid t text \<in> set (po_log ps) \<and> prefix bytes (prompt_bytes text modes))
   | _ \<Rightarrow> True)"

definition post_ok :: "post \<Rightarrow> bool" where
  "post_ok ps \<longleftrightarrow> one_place ps \<and> (\<forall>i st. po_threads ps i = Some st \<longrightarrow> stage_ok ps st)
    \<and> (\<forall>sid p. in_pending_prompts (po_inner ps) sid = Some p \<longrightarrow> accepted ps sid p)
    \<and> (\<forall>m \<in> set (po_log ps). mark_ok ps m)"

lemma stage_ok_mono: "stage_ok ps st \<Longrightarrow> set (po_log ps) \<subseteq> set (po_log ps') \<Longrightarrow> stage_ok ps' st"
  unfolding stage_ok_def accepted_def by blast

lemma mark_ok_mono: "mark_ok ps m \<Longrightarrow> set (po_log ps) \<subseteq> set (po_log ps') \<Longrightarrow> mark_ok ps' m"
  unfolding mark_ok_def by (cases m) (auto split: chunk.splits dest!: subsetD)

lemma mark_ok_quiet: "paste_of m = None \<Longrightarrow> mark_ok ps m"
  unfolding mark_ok_def by (cases m) (auto split: chunk.splits)

lemma post_okD:
  assumes "post_ok ps"
  shows "one_place ps" "po_threads ps i = Some st \<Longrightarrow> stage_ok ps st"
    "in_pending_prompts (po_inner ps) sid = Some p \<Longrightarrow> accepted ps sid p" "m \<in> set (po_log ps) \<Longrightarrow> mark_ok ps m"
  using assms unfolding post_ok_def by blast+

lemma post_ok_move:
  assumes ok: "post_ok ps" and th: "po_threads ps' = (po_threads ps)(i \<mapsto> st')" and lg: "po_log ps' = po_log ps @ ms"
    and one: "one_place ps'" and st: "stage_ok ps' st'" and ms: "\<forall>m \<in> set ms. mark_ok ps' m"
    and pend: "\<And>sid p. in_pending_prompts (po_inner ps') sid = Some p \<Longrightarrow> in_pending_prompts (po_inner ps) sid = Some p \<or> accepted ps' sid p"
  shows "post_ok ps'"
proof -
  have sub: "set (po_log ps) \<subseteq> set (po_log ps')" by (simp add: lg)
  have "stage_ok ps' st" if "po_threads ps' j = Some st" for j st
    using that st stage_ok_mono [OF post_okD(2) [OF ok] sub] by (cases "j = i") (auto simp: th)
  moreover have "accepted ps' sid p" if "in_pending_prompts (po_inner ps') sid = Some p" for sid p
    using pend [OF that] post_okD(3) [OF ok, of sid p] sub by (auto simp: accepted_def)
  moreover have "mark_ok ps' m" if "m \<in> set (po_log ps')" for m
    using that ms mark_ok_mono [OF post_okD(4) [OF ok] sub] by (auto simp: lg)
  ultimately show ?thesis using one unfolding post_ok_def by blast
qed

text \<open>Most steps leave every prompt where it is, or drop it.\<close>

lemma at_place_log_quiet:
  assumes "po_log ps' = po_log ps @ ms" "\<forall>m \<in> set ms. paste_of m = None" "at_place ps' c (InLog n)"
  shows "at_place ps c (InLog n)"
proof (cases "n < length (po_log ps)")
  case True
  then show ?thesis using assms by (simp add: nth_append)
next
  case False
  then have "n - length (po_log ps) < length ms" using assms(1,3) by auto
  then have "po_log ps' ! n \<in> set ms" using assms(1) False by (simp add: nth_append)
  then show ?thesis using assms(2,3) by auto
qed

lemma post_ok_quiet:
  assumes ok: "post_ok ps" and th: "po_threads ps' = (po_threads ps)(i \<mapsto> st')" and lg: "po_log ps' = po_log ps @ ms"
    and st: "stage_ok ps' st'" and ms: "\<forall>m \<in> set ms. paste_of m = None"
    and carry: "carries st' = None \<or> carries st' = Option.bind (po_threads ps i) carries"
    and pend: "\<And>sid p. in_pending_prompts (po_inner ps') sid = Some p \<Longrightarrow> in_pending_prompts (po_inner ps) sid = Some p"
  shows "post_ok ps'"
proof (rule post_ok_move [OF ok th lg _ st])
  have "at_place ps c x" if a: "at_place ps' c x" for c x
  proof (cases x)
    case (InThread j)
    then show ?thesis using a carry by (cases "j = i") (auto simp: th)
  next
    case (InSlot sid)
    then show ?thesis using a pend by auto
  next
    case (InLog n)
    then show ?thesis using a at_place_log_quiet [OF lg ms] by simp
  qed
  then show "one_place ps'" using one_place_sub [OF post_okD(1) [OF ok]] by blast
qed (use ms mark_ok_quiet pend in blast)+

lemma after_deliver_quiet [simp]: "carries (after_deliver d) = None" "delivery_of (after_deliver d) = None"
  by (simp_all add: after_deliver_def)

lemma stage_ok_none: "delivery_of st = None \<Longrightarrow> stage_ok ps st"
  by (simp add: stage_ok_def)

lemma answers_quiet: "m \<in> set (answers d r) \<Longrightarrow> paste_of m = None"
  by (auto simp: answers_def split: prompt_origin.splits)

lemma post_ok_leave:
  assumes "post_ok ps" "po_threads ps' = (po_threads ps)(i \<mapsto> after_deliver d)" "po_log ps' = po_log ps @ ms"
    "\<forall>m \<in> set ms. paste_of m = None"
    "\<And>sid p. in_pending_prompts (po_inner ps') sid = Some p \<Longrightarrow> in_pending_prompts (po_inner ps) sid = Some p"
  shows "post_ok ps'"
  by (rule post_ok_quiet [OF assms(1-3) _ assms(4) _ assms(5)]) (simp_all add: stage_ok_none)

text \<open>The delivery keeps its thread.\<close>

lemma post_ok_on:
  assumes ok: "post_ok ps" and at: "po_threads ps i = Some st" and d: "delivery_of st = Some d" "delivery_of st' = Some d"
    and th: "po_threads ps' = (po_threads ps)(i \<mapsto> st')" and lg: "po_log ps' = po_log ps @ ms" and ms: "\<forall>m \<in> set ms. paste_of m = None"
    and carry: "carries st' = None \<or> carries st' = carries st"
    and t: "\<And>t. stage_terminal st' = Some t \<Longrightarrow> t = pp_terminal (dv_pending d)"
    and pend: "\<And>sid p. in_pending_prompts (po_inner ps') sid = Some p \<Longrightarrow> in_pending_prompts (po_inner ps) sid = Some p"
  shows "post_ok ps'"
proof (rule post_ok_quiet [OF ok th lg _ ms])
  have "stage_ok ps' st" by (rule stage_ok_mono [OF post_okD(2) [OF ok at]]) (simp add: lg)
  then show "stage_ok ps' st'" using d t by (simp add: stage_ok_def)
qed (use carry at pend in auto)

lemma carry_at [simp]:
  "carries (AtAdmit d) = (if is_new d then Some (dv_context d) else None)"
  "carries (AtGate d g) = (if is_new d then Some (dv_context d) else None)"
  "carries (AtRecord d g t) = (if is_new d then Some (dv_context d) else None)"
  "carries (AtPark d g t) = (if is_new d then Some (dv_context d) else None)"
  "carries (AtWriter d g t) = (if is_new d then Some (dv_context d) else None)"
  by simp_all

lemma after_stage:
  "delivery_of (after_record d g t) = Some d" "stage_terminal (after_record d g t) = Some t"
  "carries (after_record d g t) = (if is_new d then Some (dv_context d) else None)"
  "delivery_of (after_choose d g t) = Some d" "stage_terminal (after_choose d g t) = Some t"
  "carries (after_choose d g t) = (if is_new d then Some (dv_context d) else None)"
  by (auto simp: after_record_def after_choose_def split: prompt_origin.split)

lemma post_ok_admitted:
  assumes "post_ok ps" "po_threads ps i = Some (AtAdmit d)"
  shows "post_ok (admitted i d ps)"
proof (cases rule: deliver_admit_cases [of "po_gates ps" d "po_kernel ps"])
  case (refused e)
  then show ?thesis
    by (intro post_ok_leave [OF assms(1), of _ i d]) (auto simp: admitted_def move_defs answers_quiet)
next
  case (gate g k' t)
  then show ?thesis
    by (intro post_ok_on [OF assms, of d "AtGate d g" _ "[]"]) (auto simp: admitted_def move_defs)
qed

lemma post_ok_chosen:
  assumes "post_ok ps" "po_threads ps i = Some (AtGate d g)"
  shows "post_ok (chosen i d g ps)"
proof (cases "deliver_choose (po_terms ps) d (po_kernel ps)")
  case (Inl e)
  then show ?thesis
    by (intro post_ok_leave [OF assms(1), of _ i d]) (auto simp: chosen_def move_defs answers_quiet)
next
  case (Inr t)
  then show ?thesis using deliver_choose_Inr [OF Inr]
    by (intro post_ok_on [OF assms, of d "after_choose d g t" _ "[]"]) (auto simp: chosen_def move_defs after_stage check_target_iff)
qed

lemma stage_terminal_at:
  assumes "post_ok ps" "po_threads ps i = Some st" "delivery_of st = Some d" "stage_terminal st = Some t"
  shows "t = pp_terminal (dv_pending d)"
  using post_okD(2) [OF assms(1,2)] assms(3,4) by (simp add: stage_ok_def)

lemma post_ok_recorded:
  assumes "post_ok ps" "po_threads ps i = Some (AtRecord d g t)"
  shows "post_ok (recorded fault now i d g t ps)"
proof (cases fault)
  case None
  then show ?thesis using stage_terminal_at [OF assms]
    by (intro post_ok_on [OF assms, of d "after_record d g t" _ "[]"]) (auto simp: recorded_def move_defs after_stage)
next
  case (Some m)
  then show ?thesis
    by (intro post_ok_leave [OF assms(1), of _ i d]) (auto simp: recorded_def move_defs answers_quiet)
qed

lemma accepted_at:
  assumes "post_ok ps" "po_threads ps i = Some st" "delivery_of st = Some d"
  shows "accepted ps (dv_session d) (dv_pending d)"
  using post_okD(2) [OF assms(1,2)] assms(3) by (simp add: stage_ok_def)

lemma post_ok_enqueued:
  assumes ok: "post_ok ps" and at: "po_threads ps i = Some st" and d: "delivery_of st = Some d"
    and carry: "carries st = (if is_new d then Some (dv_context d) else None)"
    and c: "check_target (po_inner ps) d = Inr t"
  shows "post_ok (leave i d r (ps\<lparr>po_kernel := enqueue d (po_kernel ps), po_log := po_log ps @ [enqueued_mark d]\<rparr>))"
    (is "post_ok ?ps'")
proof -
  have th: "po_threads ?ps' = (po_threads ps)(i \<mapsto> after_deliver d)" and lg: "po_log ?ps' = po_log ps @ enqueued_mark d # answers d r"
    and pend: "in_pending_prompts (po_inner ?ps') = (in_pending_prompts (po_inner ps))(dv_session d \<mapsto> dv_pending d)"
    by (simp_all add: move_defs enqueue_def)
  have quiet: "\<forall>m \<in> set (enqueued_mark d # answers d r). paste_of m = None"
    by (auto simp: enqueued_mark_def answers_quiet)
  have acc: "accepted ?ps' (dv_session d) (dv_pending d)" using accepted_at [OF ok at d] by (simp add: accepted_def lg)
  have places: "at_place ps c x \<and> x \<noteq> InThread i \<and> x \<noteq> InSlot (dv_session d) \<or> c = dv_context d \<and> x = InSlot (dv_session d)"
    if a: "at_place ?ps' c x" for c x
  proof (cases x)
    case (InThread j)
    then show ?thesis using a by (cases "j = i") (auto simp: th)
  next
    case (InSlot sid)
    then show ?thesis using a by (cases "sid = dv_session d") (auto simp: pend)
  next
    case (InLog n)
    then show ?thesis using a at_place_log_quiet [OF lg quiet] by simp
  qed
  have one: "one_place ?ps'"
  proof (cases "is_new d")
    case True
    have "at_place ps (dv_context d) (InThread i)" using at carry True by simp
    then show ?thesis by (rule one_place_moved [OF post_okD(1) [OF ok]]) (use places in blast)
  next
    case False
    then have "at_place ps (dv_context d) (InSlot (dv_session d))" using c by (auto simp: check_target_iff split: option.splits)
    then show ?thesis by (intro one_place_sub [OF post_okD(1) [OF ok]]) (use places in blast)
  qed
  show ?thesis
    by (rule post_ok_move [OF ok th lg one])
      (use quiet acc in \<open>auto simp: stage_ok_none mark_ok_quiet pend split: if_splits\<close>)
qed

lemma post_ok_parked:
  assumes "post_ok ps" "po_threads ps i = Some (AtPark d g t)"
  shows "post_ok (parked i d g t ps)"
proof (cases rule: deliver_park_cases [of d t "po_kernel ps"])
  case (refused e)
  then show ?thesis
    by (intro post_ok_leave [OF assms(1), of _ i d]) (auto simp: parked_def move_defs answers_quiet)
next
  case queued
  then show ?thesis using post_ok_enqueued [OF assms, of d] by (simp add: parked_def)
next
  case on
  then show ?thesis using stage_terminal_at [OF assms]
    by (intro post_ok_on [OF assms, of d "AtWriter d g t" _ "[]"]) (auto simp: parked_def move_defs)
qed

lemma took_quiet: "m \<in> set (took_marks ps d) \<Longrightarrow> paste_of m = None"
  by (simp add: took_marks_def split: if_splits)

lemma post_ok_committed:
  assumes ok: "post_ok ps" and at: "po_threads ps i = Some (AtWriter d g t)"
  shows "post_ok (committed now now' i d g t ps)"
proof (cases rule: deliver_commit_cases [of now now' "po_terms ps" d t "po_kernel ps"])
  case (refused e)
  then show ?thesis
    by (intro post_ok_leave [OF ok, of _ i d]) (auto simp: committed_def move_defs answers_quiet)
next
  case queued
  then show ?thesis using post_ok_enqueued [OF assms, of d] by (simp add: committed_def)
next
  case (paste modes k')
  let ?st = "AtPaste d g t modes (pp_submit (dv_pending d) \<and> session_idle (po_inner ps) (dv_session d))"
  let ?ps' = "committed now now' i d g t ps"
  have th: "po_threads ?ps' = (po_threads ps)(i \<mapsto> ?st)" and lg: "po_log ?ps' = po_log ps @ took_marks ps d"
    and pend: "in_pending_prompts (po_inner ?ps') = (in_pending_prompts (po_inner ps))(dv_session d := None)"
    using paste by (simp_all add: committed_def move_defs)
  have sub: "in_pending_prompts (po_inner ?ps') sid = Some p \<Longrightarrow> in_pending_prompts (po_inner ps) sid = Some p" for sid p
    by (simp add: pend split: if_splits)
  have st: "stage_ok ?ps' ?st"
  proof -
    have "stage_ok ?ps' (AtWriter d g t)" by (rule stage_ok_mono [OF post_okD(2) [OF ok at]]) (simp add: lg)
    moreover have "stage_ok ?ps' ?st = stage_ok ?ps' (AtWriter d g t)" by (simp only: stage_ok_def delivery_of.simps stage_terminal.simps)
    ultimately show ?thesis by simp
  qed
  show ?thesis
  proof (cases "is_new d")
    case True
    then show ?thesis
      by (intro post_ok_quiet [OF ok th lg st]) (use at sub in \<open>auto simp: took_quiet\<close>)
  next
    case False
    then have old: "at_place ps (dv_context d) (InSlot (dv_session d))"
      using paste(2) by (auto simp: check_target_iff split: option.splits)
    have "at_place ps c x \<and> (c = dv_context d \<longrightarrow> x \<noteq> InSlot (dv_session d)) \<or> c = dv_context d \<and> x = InThread i"
      if a: "at_place ?ps' c x" for c x
    proof (cases x)
      case (InThread j)
      then show ?thesis using a by (cases "j = i") (auto simp: th)
    next
      case (InSlot sid)
      then show ?thesis using a by (cases "sid = dv_session d") (auto simp: pend)
    next
      case (InLog n)
      then show ?thesis using a at_place_log_quiet [OF lg] took_quiet by auto
    qed
    then have "one_place ?ps'" by (rule one_place_moved [OF post_okD(1) [OF ok] old])
    then show ?thesis
      by (intro post_ok_move [OF ok th lg _ st]) (use sub in \<open>auto simp: took_quiet mark_ok_quiet\<close>)
  qed
qed

text \<open>A paste, whole or cut short.\<close>

lemma post_ok_paste_chunk:
  assumes ok: "post_ok ps" and at: "po_threads ps i = Some (AtPaste d g t modes sub)"
    and bytes: "prefix bytes (prompt_bytes (pp_text (dv_pending d)) modes)"
    and th: "po_threads ps' = (po_threads ps)(i \<mapsto> st')" and lg: "po_log ps' = po_log ps @ Wrote t (PasteChunk (dv_context d) bytes) # ms"
    and k: "po_kernel ps' = po_kernel ps" and ms: "\<forall>m \<in> set ms. paste_of m = None" and st: "stage_ok ps' st'" "carries st' = None"
  shows "post_ok ps'"
proof -
  let ?m = "Wrote t (PasteChunk (dv_context d) bytes)"
  have acc: "accepted ps (dv_session d) (dv_pending d)" by (rule accepted_at [OF ok at]) simp
  have t: "t = pp_terminal (dv_pending d)" by (rule stage_terminal_at [OF ok at]) simp_all
  have m: "mark_ok ps' ?m" using acc bytes by (auto simp: mark_ok_def accepted_def lg t)
  have old: "at_place ps (dv_context d) (InThread i)" using at by simp
  have "at_place ps c x \<and> (c = dv_context d \<longrightarrow> x \<noteq> InThread i) \<or> c = dv_context d \<and> x = InLog (length (po_log ps))"
    if a: "at_place ps' c x" for c x
  proof (cases x)
    case (InThread j)
    then show ?thesis using a st(2) by (cases "j = i") (auto simp: th)
  next
    case (InSlot sid)
    then show ?thesis using a k by auto
  next
    case (InLog n)
    show ?thesis
    proof (cases "n = length (po_log ps)")
      case True
      then show ?thesis using a InLog by (simp add: lg nth_append)
    next
      case False
      have "at_place ps c (InLog n)"
      proof (cases "n < length (po_log ps)")
        case True
        then show ?thesis using a InLog by (simp add: lg nth_append)
      next
        case below: False
        then have n: "n - Suc (length (po_log ps)) < length ms" "po_log ps' ! n = ms ! (n - Suc (length (po_log ps)))"
          using a InLog False by (auto simp: lg nth_append nth_Cons')
        then have "po_log ps' ! n \<in> set ms" by simp
        then show ?thesis using ms a InLog by auto
      qed
      then show ?thesis using InLog by simp
    qed
  qed
  then have "one_place ps'" by (rule one_place_moved [OF post_okD(1) [OF ok] old])
  then show ?thesis
    by (intro post_ok_move [OF ok th lg _ st(1)]) (use m ms k in \<open>auto simp: mark_ok_quiet\<close>)
qed

lemma post_ok_pasted:
  assumes ok: "post_ok ps" and at: "po_threads ps i = Some (AtPaste d g t modes sub)"
  shows "post_ok (pasted i d g t modes sub ps)"
proof (cases sub)
  case True
  let ?ps' = "pasted i d g t modes sub ps"
  have "stage_ok ?ps' (AtPaste d g t modes sub)"
    by (rule stage_ok_mono [OF post_okD(2) [OF ok at]]) (auto simp: pasted_def Let_def True move_defs)
  then have st: "stage_ok ?ps' (AtReturn d g t)" by (simp only: stage_ok_def delivery_of.simps stage_terminal.simps)
  show ?thesis
    by (rule post_ok_paste_chunk [OF ok at _ _ _ _ _ st, where ms = "[]"]) (simp_all add: pasted_def Let_def True move_defs)
next
  case False
  show ?thesis
    by (rule post_ok_paste_chunk [OF ok at, where st' = "after_deliver d" and ms = "answers d (Inr (delivery_result (dv_context d) True False))"
          and bytes = "prompt_bytes (pp_text (dv_pending d)) modes"])
      (simp_all add: pasted_def Let_def False move_defs answers_quiet stage_ok_none)
qed

lemma post_ok_paste_failed:
  assumes "post_ok ps" "po_threads ps i = Some (AtPaste d g t modes sub)" "prefix got (prompt_bytes (pp_text (dv_pending d)) modes)"
  shows "post_ok (paste_failed err got i d t ps)"
  by (rule post_ok_paste_chunk [OF assms, where st' = "after_deliver d" and ms = "answers d (Inl (io_error err))"])
    (simp_all add: paste_failed_def move_defs answers_quiet stage_ok_none)

lemma post_ok_returned:
  assumes "post_ok ps"
  shows "post_ok (returned i d t ps)" "post_ok (return_failed err got i d t ps)"
proof -
  show "post_ok (returned i d t ps)"
    by (rule post_ok_leave [OF assms, where i = i and d = d
          and ms = "Wrote t (ReturnChunk (dv_context d)) # answers d (Inr (delivery_result (dv_context d) True True))"])
      (auto simp: returned_def move_defs answers_quiet)
  show "post_ok (return_failed err got i d t ps)"
    by (rule post_ok_leave [OF assms, where i = i and d = d
          and ms = "(if got then [Wrote t (ReturnChunk (dv_context d))] else []) @ answers d (Inl (io_error err))"])
      (auto simp: return_failed_def move_defs answers_quiet split: if_splits)
qed

text \<open>Threads that carry no prompt.\<close>

lemma post_ok_other:
  assumes "post_ok ps" "po_threads ps' = (po_threads ps)(i \<mapsto> st')" "delivery_of st' = None" "po_log ps' = po_log ps @ ms"
    "\<forall>m \<in> set ms. paste_of m = None" "in_pending_prompts (po_inner ps') = in_pending_prompts (po_inner ps)"
  shows "post_ok ps'"
proof (rule post_ok_quiet [OF assms(1,2,4) _ assms(5)])
  show "carries st' = None \<or> carries st' = Option.bind (po_threads ps i) carries" using assms(3) by (cases st') simp_all
qed (use assms in \<open>simp_all add: stage_ok_none\<close>)

lemma post_ok_hooked:
  assumes "post_ok ps"
  shows "post_ok (hooked now i sid st ps)"
proof -
  obtain b q k' where r: "report_activity now sid st (po_kernel ps) = ((b, q), k')"
    by (metis prod.exhaust)
  show ?thesis
    by (rule post_ok_other [OF assms, where st' = "if b then HookPending sid q else Finished" and ms = "if b then [WentIdle sid] else []"])
      (use report_activity_inner(1) [OF r] r in \<open>simp_all add: hooked_def move_defs\<close>)
qed

lemma post_ok_pending_seen:
  assumes ok: "post_ok ps" and at: "po_threads ps i = Some (HookPending sid queued)"
  shows "post_ok (pending_seen i sid queued ps)"
proof (cases "deliver_pending queued sid (po_kernel ps)")
  case None
  then show ?thesis
    by (intro post_ok_other [OF ok, where st' = "if queued then PtrLook sid else Finished" and ms = "[]" and i = i])
      (simp_all add: pending_seen_def move_defs)
next
  case (Some d)
  then obtain p where p: "in_pending_prompts (po_inner ps) sid = Some p" "d = \<lparr>dv_session = sid, dv_pending = p, dv_when = DeliverQueue,
      dv_origin = FromQueue, dv_pointer = queued\<rparr>"
    by (auto simp: deliver_pending_def split: if_splits)
  have "accepted (pending_seen i sid queued ps) sid p"
    using post_okD(3) [OF ok p(1)] by (simp add: accepted_def pending_seen_def move_defs)
  then show ?thesis using Some p(2)
    by (intro post_ok_quiet [OF ok, where st' = "AtAdmit d" and ms = "[]" and i = i])
      (simp_all add: pending_seen_def move_defs stage_ok_def is_new_def)
qed

lemma post_ok_pointer:
  assumes "post_ok ps"
  shows "post_ok (pointer_committed now watched i sid t n ps)"
proof -
  obtain types k' where r: "pointer_commit now watched sid t (po_kernel ps) = (types, k')" by fastforce
  show ?thesis
    by (rule post_ok_other [OF assms, where st' = "if types then PtrLine sid t n else Finished" and ms = "if types then [Took sid None] else []"])
      (use pointer_commit_inner(1) [OF r] r in \<open>simp_all add: pointer_committed_def move_defs\<close>)
qed

lemma post_ok_typed:
  assumes "post_ok ps"
  shows "post_ok (typed now i t sid bytes ps)"
  by (rule post_ok_other [OF assms, where st' = "InSend t bytes" and ms = "[]"])
    (auto simp: typed_def move_defs note_user_input_inner)

lemma post_ok_elsewhere:
  assumes ok: "post_ok ps" and e: "elsewhere ps k' terms'"
  shows "post_ok (ps\<lparr>po_kernel := k', po_terms := terms'\<rparr>)" (is "post_ok ?ps'")
proof -
  have "at_place ps c x" if "at_place ?ps' c x" for c x
    using that e by (cases x) (auto simp: elsewhere_def)
  then have "one_place ?ps'" using one_place_sub [OF post_okD(1) [OF ok]] by blast
  moreover have "stage_ok ?ps' st = stage_ok ps st" "accepted ?ps' sid p = accepted ps sid p" for st sid p
    by (simp_all add: stage_ok_def accepted_def)
  moreover have "mark_ok ?ps' m = mark_ok ps m" for m
    by (cases m) (auto simp: mark_ok_def split: chunk.split)
  moreover have "accepted ps sid p" if "in_pending_prompts (k_inner k') sid = Some p" for sid p
    using that e post_okD(3) [OF ok] by (auto simp: elsewhere_def)
  ultimately show ?thesis using ok by (simp add: post_ok_def)
qed

lemma fresh_no_place:
  assumes ok: "post_ok ps" and f: "fresh_context c ps"
  shows "\<not> at_place ps c x"
proof
  assume a: "at_place ps c x"
  have acc: "\<exists>sid t text. Accepted c sid t text \<in> set (po_log ps)"
  proof (cases x)
    case (InThread i)
    then obtain st where st: "po_threads ps i = Some st" "carries st = Some c" using a by (cases "po_threads ps i") auto
    obtain d where d: "delivery_of st = Some d" "c = dv_context d"
      using st(2) by (cases st) (auto split: if_splits)
    show ?thesis using accepted_at [OF ok st(1) d(1)] d(2) by (auto simp: accepted_def)
  next
    case (InSlot sid)
    then show ?thesis using a post_okD(3) [OF ok, of sid] by (fastforce simp: accepted_def)
  next
    case (InLog n)
    obtain t bytes where m: "po_log ps ! n = Wrote t (PasteChunk c bytes)"
      using a InLog by (cases "po_log ps ! n" rule: paste_of.cases) auto
    then have "Wrote t (PasteChunk c bytes) \<in> set (po_log ps)" using a InLog by (metis at_place.simps(3) nth_mem)
    then show ?thesis using post_okD(4) [OF ok] by (fastforce simp: mark_ok_def)
  qed
  then show "False" using f by (simp add: fresh_context_def)
qed

lemma post_ok_send:
  assumes ok: "post_ok ps" and i: "po_threads ps i = None" and f: "fresh_context c ps"
    and s: "send (po_kernel ps) c caller sid raw sub wh = Inr d"
  shows "post_ok (goto i (AtAdmit d) (ps\<lparr>po_log := po_log ps @
      [Accepted c sid (pp_terminal (dv_pending d)) (pp_text (dv_pending d))]\<rparr>))" (is "post_ok ?ps'")
proof -
  have d: "dv_context d = c" "dv_session d = sid" "is_new d"
    using s by (auto simp: send_def require_def is_new_def try_bind_def split: sum.splits option.splits)
  have th: "po_threads ?ps' = (po_threads ps)(i \<mapsto> AtAdmit d)"
    and lg: "po_log ?ps' = po_log ps @ [Accepted c sid (pp_terminal (dv_pending d)) (pp_text (dv_pending d))]"
    by (simp_all add: move_defs)
  have "at_place ps c' x \<or> c' = c \<and> x = InThread i" if a: "at_place ?ps' c' x" for c' x
  proof (cases x)
    case (InThread j)
    then show ?thesis using a d by (cases "j = i") (auto simp: th)
  next
    case (InSlot s)
    then show ?thesis using a by (simp add: move_defs)
  next
    case (InLog n)
    then show ?thesis using a at_place_log_quiet [OF lg] by simp
  qed
  then have "one_place ?ps'" by (rule one_place_new [OF post_okD(1) [OF ok] fresh_no_place [OF ok f]])
  then show ?thesis
    by (rule post_ok_move [OF ok th lg]) (simp_all add: stage_ok_def accepted_def d move_defs mark_ok_def)
qed

lemma other_chunk_paste: "other_chunk m = Some t \<Longrightarrow> paste_of m = None"
  by (cases m rule: other_chunk.cases) auto

lemma post_ok_bystander: "post_bystander i st' ms ps ps' \<Longrightarrow> post_ok ps \<Longrightarrow> post_ok ps'"
  by (rule post_ok_other [of _ _ i st' ms]) (auto simp: post_bystander_def dest: other_chunk_paste)

lemma post_ok_step: "post_step ps ps' \<Longrightarrow> post_ok ps \<Longrightarrow> post_ok ps'"
proof (induction rule: post_step.induct)
  case (ps_side ps ps')
  then show ?case using side_thread_bystander post_ok_bystander by blast
qed (simp_all add: post_ok_elsewhere post_ok_send post_ok_admitted post_ok_chosen post_ok_recorded post_ok_parked post_ok_committed
    post_ok_pasted post_ok_paste_failed post_ok_returned post_ok_hooked post_ok_pending_seen post_ok_pointer post_ok_typed)

lemma post_start_ok: "post_start ps \<Longrightarrow> post_ok ps"
proof -
  assume s: "post_start ps"
  then have "\<not> at_place ps c x" for c x by (cases x) (simp_all add: post_start_def)
  then show ?thesis using s by (auto simp: post_ok_def one_place_def post_start_def)
qed

lemma post_run_ok: "post_start ps0 \<Longrightarrow> post_run ps0 ps \<Longrightarrow> post_ok ps"
  by (rotate_tac, induction rule: rtranclp_induct) (auto simp: post_start_ok intro: post_ok_step)

lemma map_filter_distinct:
  "(\<And>m n c. m < length xs \<Longrightarrow> n < length xs \<Longrightarrow> f (xs ! m) = Some c \<Longrightarrow> f (xs ! n) = Some c \<Longrightarrow> m = n) \<Longrightarrow>
    distinct (List.map_filter f xs)"
proof (induction xs)
  case (Cons a xs)
  have IH: "distinct (List.map_filter f xs)"
  proof (rule Cons.IH)
    fix m n c
    assume "m < length xs" "n < length xs" "f (xs ! m) = Some c" "f (xs ! n) = Some c"
    then show "m = n" using Cons.prems [of "Suc m" "Suc n" c] by simp
  qed
  have "b \<notin> set (List.map_filter f xs)" if "f a = Some b" for b
  proof
    assume "b \<in> set (List.map_filter f xs)"
    then obtain y where "y \<in> set xs" "f y = Some b" by (auto simp: List.map_filter_def)
    then obtain n where "n < length xs" "f (xs ! n) = Some b" by (auto simp: in_set_conv_nth)
    then show "False" using Cons.prems [of 0 "Suc n" b] that by simp
  qed
  then show ?case using IH by (cases "f a") (simp_all add: List.map_filter_simps)
qed (simp add: List.map_filter_simps)

text \<open>
  C6: In every interleaving of prompts, queue deliveries, hooks, pointer lines, input, shell commands and
  whatever else the daemon does, a prompt is written at most once, whole or cut short by a failing write,
  only with the bytes of its own text and only to the terminal its session had when it was accepted.
\<close>

theorem prompt_pasted_once:
  assumes "post_start ps0" and "post_run ps0 ps"
  shows "distinct (List.map_filter paste_of (po_log ps))
    \<and> (\<forall>t c bytes. Wrote t (PasteChunk c bytes) \<in> set (po_log ps) \<longrightarrow>
        (\<exists>sid text modes. Accepted c sid t text \<in> set (po_log ps) \<and> prefix bytes (prompt_bytes text modes)))"
proof -
  note ok = post_run_ok [OF assms]
  have "distinct (List.map_filter paste_of (po_log ps))"
  proof (rule map_filter_distinct)
    fix m n c
    assume "m < length (po_log ps)" "n < length (po_log ps)" "paste_of (po_log ps ! m) = Some c" "paste_of (po_log ps ! n) = Some c"
    then have "at_place ps c (InLog m)" "at_place ps c (InLog n)" by simp_all
    then show "m = n" using post_okD(1) [OF ok] unfolding one_place_def by blast
  qed
  then show ?thesis using post_okD(4) [OF ok] by (fastforce simp: mark_ok_def)
qed

section \<open>One submission for each time a session becomes idle\<close>

definition taken :: "session_id \<Rightarrow> mark list \<Rightarrow> bool" where
  "taken sid ms = foldl (\<lambda>b m. case m of WentIdle s \<Rightarrow> b \<and> s \<noteq> sid | Took s c \<Rightarrow> b \<or> s = sid | _ \<Rightarrow> b) False ms"

lemma taken_snoc:
  "taken sid [] = False"
  "taken sid (ms @ [m]) = (case m of WentIdle s \<Rightarrow> taken sid ms \<and> s \<noteq> sid | Took s c \<Rightarrow> taken sid ms \<or> s = sid | _ \<Rightarrow> taken sid ms)"
  by (simp_all add: taken_def split: mark.split)

lemma taken_since: "WentIdle sid \<notin> set ys \<Longrightarrow> taken sid (xs @ Took sid a # ys)"
proof (induction ys rule: rev_induct)
  case Nil
  show ?case by (simp add: taken_snoc)
next
  case (snoc y ys)
  then have "taken sid (xs @ Took sid a # ys)" by simp
  then have "taken sid ((xs @ Took sid a # ys) @ [y])" unfolding taken_snoc(2) using snoc.prems by (cases y) auto
  then show ?case by simp
qed

definition spaced_out :: "mark list \<Rightarrow> bool" where
  "spaced_out ms \<longleftrightarrow> (\<forall>xs ys zs sid a b. ms = xs @ Took sid a # ys @ Took sid b # zs \<longrightarrow> WentIdle sid \<in> set ys)"

fun calm :: "mark \<Rightarrow> bool" where
  "calm (WentIdle sid) = False"
| "calm (Took sid c) = False"
| "calm m = True"

lemma taken_calm: "\<forall>m \<in> set ms. calm m \<Longrightarrow> taken sid (ms0 @ ms) = taken sid ms0"
proof (induction ms rule: rev_induct)
  case (snoc m ms)
  then have "taken sid (ms0 @ ms) = taken sid ms0" by simp
  then have "taken sid ((ms0 @ ms) @ [m]) = taken sid ms0" unfolding taken_snoc(2) using snoc.prems by (cases m) auto
  then show ?case by simp
qed simp

lemma spaced_out_calm: "spaced_out ms0 \<Longrightarrow> \<forall>m \<in> set ms. \<not> (\<exists>sid c. m = Took sid c) \<Longrightarrow> spaced_out (ms0 @ ms)"
proof (induction ms rule: rev_induct)
  case (snoc m ms)
  then have IH: "spaced_out (ms0 @ ms)" by simp
  have "WentIdle sid \<in> set ys" if e: "ms0 @ ms @ [m] = xs @ Took sid a # ys @ Took sid b # zs" for xs ys zs sid a b
  proof (cases zs rule: rev_cases)
    case Nil
    then have "m = Took sid b" using e by (metis append_Cons append_assoc append_is_Nil_conv last_appendR last_snoc not_Cons_self2)
    then show ?thesis using snoc.prems(2) by auto
  next
    case (snoc zs' z)
    then have "ms0 @ ms = xs @ Took sid a # ys @ Took sid b # zs'" using e by (simp flip: append_assoc append_Cons)
    then show ?thesis using IH unfolding spaced_out_def by blast
  qed
  then show ?case by (simp add: spaced_out_def)
qed simp

lemma spaced_out_took: "spaced_out ms \<Longrightarrow> \<not> taken sid ms \<Longrightarrow> spaced_out (ms @ [Took sid c])"
proof -
  assume s: "spaced_out ms" and n: "\<not> taken sid ms"
  have "WentIdle sid' \<in> set ys" if e: "ms @ [Took sid c] = xs @ Took sid' a # ys @ Took sid' b # zs" for xs ys zs sid' a b
  proof (cases zs rule: rev_cases)
    case Nil
    then have "ms @ [Took sid c] = (xs @ Took sid' a # ys) @ [Took sid' b]" using e by simp
    then have "ms = xs @ Took sid' a # ys" "sid' = sid" by (auto simp only: append1_eq_conv mark.inject)
    then show ?thesis using n taken_since by blast
  next
    case (snoc zs' z)
    then have "ms @ [Took sid c] = (xs @ Took sid' a # ys @ Took sid' b # zs') @ [z]" using e by simp
    then have "ms = xs @ Took sid' a # ys @ Took sid' b # zs'" by (simp only: append1_eq_conv)
    then show ?thesis using s unfolding spaced_out_def by blast
  qed
  then show ?thesis by (simp add: spaced_out_def)
qed

text \<open>Which prompts a thread may submit, and the marks that a submission needs.\<close>

fun submits :: "prompt_stage \<Rightarrow> (session_id \<times> context_id) option" where
  "submits (AtPaste d g t modes sub) = (if sub then Some (dv_session d, dv_context d) else None)"
| "submits (AtReturn d g t) = Some (dv_session d, dv_context d)"
| "submits _ = None"

definition spell_ok :: "post \<Rightarrow> bool" where
  "spell_ok ps \<longleftrightarrow> spaced_out (po_log ps) \<and> (\<forall>sid. taken sid (po_log ps) \<longrightarrow> \<not> acts_idle (po_inner ps) sid)
    \<and> (\<forall>i st sid c. po_threads ps i = Some st \<and> submits st = Some (sid, c) \<longrightarrow> Took sid (Some c) \<in> set (po_log ps))
    \<and> (\<forall>t c. Wrote t (ReturnChunk c) \<in> set (po_log ps) \<longrightarrow> (\<exists>sid. Took sid (Some c) \<in> set (po_log ps)))"

lemma spell_okD:
  assumes "spell_ok ps"
  shows "spaced_out (po_log ps)" "taken sid (po_log ps) \<Longrightarrow> \<not> acts_idle (po_inner ps) sid"
    "po_threads ps i = Some st \<Longrightarrow> submits st = Some (sid, c) \<Longrightarrow> Took sid (Some c) \<in> set (po_log ps)"
    "Wrote t (ReturnChunk c) \<in> set (po_log ps) \<Longrightarrow> \<exists>sid. Took sid (Some c) \<in> set (po_log ps)"
  using assms unfolding spell_ok_def by blast+

lemma spell_ok_move:
  assumes ok: "spell_ok ps" and th: "\<And>j st. po_threads ps' j = Some st \<Longrightarrow> po_threads ps j = Some st \<or> j = i \<and> st = st'"
    and lg: "po_log ps' = po_log ps @ ms" and sp: "spaced_out (po_log ps')"
    and tk: "\<And>sid. taken sid (po_log ps') \<Longrightarrow> \<not> acts_idle (po_inner ps') sid"
    and st: "\<And>sid c. submits st' = Some (sid, c) \<Longrightarrow> Took sid (Some c) \<in> set (po_log ps')"
    and rt: "\<And>t c. Wrote t (ReturnChunk c) \<in> set ms \<Longrightarrow> \<exists>sid. Took sid (Some c) \<in> set (po_log ps')"
  shows "spell_ok ps'"
proof -
  have "Took sid (Some c) \<in> set (po_log ps')" if "po_threads ps' j = Some st" "submits st = Some (sid, c)" for j st sid c
    using th [OF that(1)] st that(2) spell_okD(3) [OF ok _ that(2)] by (auto simp: lg)
  moreover have "\<exists>sid. Took sid (Some c) \<in> set (po_log ps')" if "Wrote t (ReturnChunk c) \<in> set (po_log ps')" for t c
  proof (cases "Wrote t (ReturnChunk c) \<in> set ms")
    case False
    then have "\<exists>sid. Took sid (Some c) \<in> set (po_log ps)" using that spell_okD(4) [OF ok, of t c] by (simp add: lg)
    then show ?thesis by (auto simp: lg)
  qed (rule rt)
  ultimately show ?thesis using sp tk unfolding spell_ok_def by blast
qed

lemma spell_ok_calm:
  assumes ok: "spell_ok ps" and th: "\<And>j st. po_threads ps' j = Some st \<Longrightarrow> po_threads ps j = Some st \<or> j = i \<and> st = st'"
    and lg: "po_log ps' = po_log ps @ ms" and ms: "\<forall>m \<in> set ms. calm m"
    and ai: "\<And>sid. acts_idle (po_inner ps') sid \<Longrightarrow> acts_idle (po_inner ps) sid"
    and st: "\<And>sid c. submits st' = Some (sid, c) \<Longrightarrow> Took sid (Some c) \<in> set (po_log ps)"
    and rt: "\<And>t c. Wrote t (ReturnChunk c) \<in> set ms \<Longrightarrow> \<exists>sid. Took sid (Some c) \<in> set (po_log ps)"
  shows "spell_ok ps'"
proof (rule spell_ok_move [OF ok th lg])
  show "spaced_out (po_log ps')" unfolding lg
    by (rule spaced_out_calm [OF spell_okD(1) [OF ok]]) (use ms in fastforce)
  show "\<not> acts_idle (po_inner ps') sid" if "taken sid (po_log ps')" for sid
    using that ai spell_okD(2) [OF ok, of sid] by (auto simp: lg taken_calm [OF ms])
qed (use st rt in \<open>fastforce simp: lg\<close>)+

lemma spell_ok_took:
  assumes ok: "spell_ok ps" and th: "\<And>j st. po_threads ps' j = Some st \<Longrightarrow> po_threads ps j = Some st \<or> j = i \<and> st = st'"
    and lg: "po_log ps' = po_log ps @ [Took sid c]"
    and idle: "acts_idle (po_inner ps) sid" "\<not> acts_idle (po_inner ps') sid"
    and ai: "\<And>j. j \<noteq> sid \<Longrightarrow> acts_idle (po_inner ps') j \<Longrightarrow> acts_idle (po_inner ps) j"
    and st: "\<And>s c'. submits st' = Some (s, c') \<Longrightarrow> s = sid \<and> Some c' = c"
  shows "spell_ok ps'"
proof (rule spell_ok_move [OF ok th lg])
  have "\<not> taken sid (po_log ps)" using spell_okD(2) [OF ok] idle(1) by blast
  then show "spaced_out (po_log ps')" unfolding lg by (rule spaced_out_took [OF spell_okD(1) [OF ok]])
  show "\<not> acts_idle (po_inner ps') j" if "taken j (po_log ps')" for j
    using that ai [of j] idle(2) spell_okD(2) [OF ok, of j] by (cases "j = sid") (auto simp: lg taken_snoc)
qed (use st in \<open>auto simp: lg\<close>)

lemma spell_ok_idle:
  assumes ok: "spell_ok ps" and th: "\<And>j st. po_threads ps' j = Some st \<Longrightarrow> po_threads ps j = Some st \<or> j = i \<and> st = st'"
    and lg: "po_log ps' = po_log ps @ [WentIdle sid]"
    and ai: "\<And>j. j \<noteq> sid \<Longrightarrow> acts_idle (po_inner ps') j \<Longrightarrow> acts_idle (po_inner ps) j" and st: "submits st' = None"
  shows "spell_ok ps'"
proof (rule spell_ok_move [OF ok th lg])
  show "spaced_out (po_log ps')" unfolding lg by (rule spaced_out_calm [OF spell_okD(1) [OF ok]]) simp
  show "\<not> acts_idle (po_inner ps') j" if "taken j (po_log ps')" for j
    using that ai [of j] spell_okD(2) [OF ok, of j] by (cases "j = sid") (auto simp: lg taken_snoc)
qed (use st in auto)

lemma only_activity_idle:
  "only_activity sid k k' \<Longrightarrow> j \<noteq> sid \<Longrightarrow> acts_idle (k_inner k') j = acts_idle (k_inner k) j"
  "only_activity sid k k' \<Longrightarrow> j \<noteq> sid \<Longrightarrow> session_idle (k_inner k') j = session_idle (k_inner k) j"
  by (simp_all add: only_activity_def acts_idle_def session_idle_def)

lemma same_sessions_idle:
  "in_sessions inn' = in_sessions inn \<Longrightarrow> acts_idle inn' sid = acts_idle inn sid"
  "in_sessions inn' = in_sessions inn \<Longrightarrow> session_idle inn' sid = session_idle inn sid"
  "in_sessions inn' = in_sessions inn \<Longrightarrow> live_target inn' sid t = live_target inn sid t"
  by (simp_all add: acts_idle_def session_idle_def live_target_def)

lemma answers_calm: "m \<in> set (answers d r) \<Longrightarrow> calm m \<and> (\<forall>t c. m \<noteq> Wrote t (ReturnChunk c))"
  by (auto simp: answers_def split: prompt_origin.splits)

lemma submits_quiet [simp]:
  "submits (after_deliver d) = None" "submits (after_choose d g t) = None" "submits (after_record d g t) = None"
  by (simp_all add: after_deliver_def after_choose_def after_record_def split: prompt_origin.split)

text \<open>Sections that change no session and take none.\<close>

lemma spell_ok_plain:
  assumes "spell_ok ps" "po_threads ps' = (po_threads ps)(i \<mapsto> st')" "po_log ps' = po_log ps @ ms" "\<forall>m \<in> set ms. calm m"
    "in_sessions (po_inner ps') = in_sessions (po_inner ps)"
    "submits st' = None \<or> submits st' = Option.bind (po_threads ps i) submits"
    "\<forall>m \<in> set ms. \<forall>t c. m \<noteq> Wrote t (ReturnChunk c)"
  shows "spell_ok ps'"
proof (rule spell_ok_calm [OF assms(1) _ assms(3,4)])
  fix j st assume "po_threads ps' j = Some st"
  then show "po_threads ps j = Some st \<or> j = i \<and> st = st'" using assms(2) by (auto split: if_splits)
next
  fix sid assume "acts_idle (po_inner ps') sid"
  then show "acts_idle (po_inner ps) sid" using same_sessions_idle(1) [OF assms(5)] by simp
next
  fix sid c assume "submits st' = Some (sid, c)"
  then show "Took sid (Some c) \<in> set (po_log ps)"
    using assms(6) spell_okD(3) [OF assms(1), of i] by (cases "po_threads ps i") auto
qed (use assms(7) in blast)

lemma spell_ok_leave:
  assumes "spell_ok ps" "po_threads ps' = (po_threads ps)(i \<mapsto> after_deliver d)" "po_log ps' = po_log ps @ ms"
    "\<forall>m \<in> set ms. calm m \<and> (\<forall>t c. m \<noteq> Wrote t (ReturnChunk c))" "in_sessions (po_inner ps') = in_sessions (po_inner ps)"
  shows "spell_ok ps'"
  by (rule spell_ok_plain [OF assms(1-3) _ assms(5)]) (use assms(4) in auto)

lemma spell_ok_committed:
  assumes ok: "spell_ok ps" and at: "po_threads ps i = Some (AtWriter d g t)"
  shows "spell_ok (committed now now' i d g t ps)"
proof (cases rule: deliver_commit_cases [of now now' "po_terms ps" d t "po_kernel ps"])
  case (refused e)
  then show ?thesis
    by (intro spell_ok_leave [OF ok, of _ i d]) (auto simp: committed_def move_defs dest: answers_calm)
next
  case queued
  then show ?thesis
    by (intro spell_ok_leave [OF ok, of _ i d "enqueued_mark d # answers d (Inr (queued_answer d))"])
      (auto simp: committed_def move_defs enqueue_def enqueued_mark_def dest: answers_calm)
next
  case (paste modes k')
  let ?sid = "dv_session d"
  let ?st = "AtPaste d g t modes (pp_submit (dv_pending d) \<and> session_idle (po_inner ps) ?sid)"
  let ?ps' = "committed now now' i d g t ps"
  have th: "po_threads ?ps' = (po_threads ps)(i \<mapsto> ?st)" and lg: "po_log ?ps' = po_log ps @ took_marks ps d" and k: "po_kernel ?ps' = k'"
    using paste by (simp_all add: committed_def move_defs)
  show ?thesis
  proof (cases "session_idle (po_inner ps) ?sid")
    case True
    show ?thesis
    proof (rule spell_ok_took [OF ok])
      show "po_log ?ps' = po_log ps @ [Took ?sid (Some (dv_context d))]" using True by (simp add: lg took_marks_def)
      show "acts_idle (po_inner ps) ?sid" by (rule idle_sessions [OF True])
    qed (use paste(5) [OF True] only_activity_idle(1) [OF paste(4)] in \<open>auto simp: th k split: if_splits\<close>)
  next
    case False
    then show ?thesis
      by (intro spell_ok_plain [OF ok th lg]) (simp_all add: took_marks_def k paste(6))
  qed
qed

lemma spell_ok_hooked:
  assumes ok: "spell_ok ps"
  shows "spell_ok (hooked now i sid st ps)"
proof -
  obtain b q k' where r: "report_activity now sid st (po_kernel ps) = ((b, q), k')" by (metis prod.exhaust)
  let ?st = "if b then HookPending sid q else Finished"
  have th: "po_threads (hooked now i sid st ps) = (po_threads ps)(i \<mapsto> ?st)"
    and lg: "po_log (hooked now i sid st ps) = po_log ps @ (if b then [WentIdle sid] else [])"
    and k: "po_kernel (hooked now i sid st ps) = k'"
    using r by (simp_all add: hooked_def move_defs)
  show ?thesis
  proof (cases b)
    case True
    then show ?thesis
      by (intro spell_ok_idle [OF ok, of _ i ?st sid]) (use only_activity_idle(1) [OF report_activity_inner(2) [OF r]] in \<open>auto simp: th lg k split: if_splits\<close>)
  next
    case False
    then show ?thesis
      by (intro spell_ok_calm [OF ok, of _ i ?st "[]"]) (use report_activity_inner(3) [OF r False] in \<open>auto simp: th lg k split: if_splits\<close>)
  qed
qed

lemma spell_ok_pointer_committed:
  assumes ok: "spell_ok ps"
  shows "spell_ok (pointer_committed now watched i sid t n ps)"
proof -
  obtain b k' where r: "pointer_commit now watched sid t (po_kernel ps) = (b, k')" by fastforce
  let ?st = "if b then PtrLine sid t n else Finished"
  have th: "po_threads (pointer_committed now watched i sid t n ps) = (po_threads ps)(i \<mapsto> ?st)"
    and lg: "po_log (pointer_committed now watched i sid t n ps) = po_log ps @ (if b then [Took sid None] else [])"
    and k: "po_kernel (pointer_committed now watched i sid t n ps) = k'"
    using r by (simp_all add: pointer_committed_def move_defs)
  show ?thesis
  proof (cases b)
    case True
    then show ?thesis
      by (intro spell_ok_took [OF ok, of _ i ?st sid None])
        (use only_activity_idle(1) [OF pointer_commit_inner(2) [OF r]] pointer_commit_inner(3) [OF r True] in \<open>auto simp: th lg k split: if_splits\<close>)
  next
    case False
    then show ?thesis
      by (intro spell_ok_plain [OF ok th lg]) (simp_all add: k pointer_commit_inner(4) [OF r])
  qed
qed

lemma spell_ok_typed:
  assumes ok: "spell_ok ps"
  shows "spell_ok (typed now i t sid bytes ps)"
  by (rule spell_ok_calm [OF ok, of _ i "InSend t bytes" "[]"])
    (auto simp: typed_def move_defs split: option.splits if_splits dest: note_user_input_inner [THEN conjunct2, THEN conjunct2, THEN conjunct1, rule_format])

lemma spell_ok_elsewhere:
  assumes ok: "spell_ok ps" and e: "elsewhere ps k' terms'"
  shows "spell_ok (ps\<lparr>po_kernel := k', po_terms := terms'\<rparr>)"
  by (rule spell_ok_calm [OF ok, of _ 0 Finished "[]"]) (use e in \<open>auto simp: elsewhere_def\<close>)

lemma spell_ok_send:
  "spell_ok ps \<Longrightarrow> spell_ok (goto i (AtAdmit d) (ps\<lparr>po_log := po_log ps @ [Accepted c sid t text]\<rparr>))"
  by (rule spell_ok_plain [where i = i and st' = "AtAdmit d" and ms = "[Accepted c sid t text]"]) (simp_all add: move_defs)

lemma spell_ok_admitted:
  assumes ok: "spell_ok ps"
  shows "spell_ok (admitted i d ps)"
proof (cases rule: deliver_admit_cases [of "po_gates ps" d "po_kernel ps"])
  case (refused e)
  then show ?thesis by (intro spell_ok_leave [OF ok, of _ i d]) (auto simp: admitted_def move_defs dest: answers_calm)
next
  case (gate g k' t)
  then show ?thesis
    by (intro spell_ok_plain [OF ok, where i = i and st' = "AtGate d g" and ms = "[]"]) (auto simp: admitted_def move_defs)
qed

lemma spell_ok_chosen:
  assumes ok: "spell_ok ps"
  shows "spell_ok (chosen i d g ps)"
proof (cases "deliver_choose (po_terms ps) d (po_kernel ps)")
  case (Inl e)
  then show ?thesis by (intro spell_ok_leave [OF ok, of _ i d]) (auto simp: chosen_def move_defs dest: answers_calm)
next
  case (Inr t)
  then show ?thesis
    by (intro spell_ok_plain [OF ok, where i = i and st' = "after_choose d g t" and ms = "[]"]) (auto simp: chosen_def move_defs)
qed

lemma spell_ok_recorded:
  assumes ok: "spell_ok ps"
  shows "spell_ok (recorded fault now i d g t ps)"
proof (cases fault)
  case None
  then show ?thesis
    by (intro spell_ok_plain [OF ok, where i = i and st' = "after_record d g t" and ms = "[]"]) (auto simp: recorded_def move_defs)
next
  case (Some m)
  then show ?thesis by (intro spell_ok_leave [OF ok, of _ i d]) (auto simp: recorded_def move_defs dest: answers_calm)
qed

lemma spell_ok_parked:
  assumes ok: "spell_ok ps"
  shows "spell_ok (parked i d g t ps)"
proof (cases rule: deliver_park_cases [of d t "po_kernel ps"])
  case (refused e)
  then show ?thesis by (intro spell_ok_leave [OF ok, of _ i d]) (auto simp: parked_def move_defs dest: answers_calm)
next
  case queued
  then show ?thesis
    by (intro spell_ok_leave [OF ok, of _ i d "enqueued_mark d # answers d (Inr (queued_answer d))"])
      (auto simp: parked_def move_defs enqueue_def enqueued_mark_def dest: answers_calm)
next
  case on
  then show ?thesis
    by (intro spell_ok_plain [OF ok, where i = i and st' = "AtWriter d g t" and ms = "[]"]) (auto simp: parked_def move_defs)
qed

lemma spell_ok_pasted:
  assumes ok: "spell_ok ps" and at: "po_threads ps i = Some (AtPaste d g t modes sub)"
  shows "spell_ok (pasted i d g t modes sub ps)" "spell_ok (paste_failed err got i d t ps)"
proof -
  let ?m = "Wrote t (PasteChunk (dv_context d) (prompt_bytes (pp_text (dv_pending d)) modes))"
  show "spell_ok (pasted i d g t modes sub ps)"
  proof (cases sub)
    case True
    then show ?thesis
      by (intro spell_ok_plain [OF ok, where i = i and st' = "AtReturn d g t" and ms = "[?m]"])
        (simp_all add: pasted_def Let_def move_defs at)
  next
    case False
    then show ?thesis
      by (intro spell_ok_leave [OF ok, where i = i and d = d and ms = "?m # answers d (Inr (delivery_result (dv_context d) True False))"])
        (auto simp: pasted_def Let_def move_defs dest: answers_calm)
  qed
  show "spell_ok (paste_failed err got i d t ps)"
    by (rule spell_ok_leave [OF ok, where i = i and d = d and ms = "Wrote t (PasteChunk (dv_context d) got) # answers d (Inl (io_error err))"])
      (auto simp: paste_failed_def move_defs dest: answers_calm)
qed

lemma spell_ok_return_marks:
  assumes ok: "spell_ok ps" and at: "po_threads ps i = Some (AtReturn d g t)"
    and th: "po_threads ps' = (po_threads ps)(i \<mapsto> after_deliver d)" and k: "po_kernel ps' = po_kernel ps"
    and lg: "po_log ps' = po_log ps @ (if got then [Wrote t (ReturnChunk (dv_context d))] else []) @ answers d r"
  shows "spell_ok ps'"
proof (rule spell_ok_calm [OF ok _ lg])
  show "\<exists>sid. Took sid (Some c) \<in> set (po_log ps)"
    if "Wrote t' (ReturnChunk c) \<in> set ((if got then [Wrote t (ReturnChunk (dv_context d))] else []) @ answers d r)" for t' c
  proof -
    have "c = dv_context d" using that by (auto dest: answers_calm split: if_splits)
    then show ?thesis using spell_okD(3) [OF ok at] by auto
  qed
qed (auto simp: th k dest: answers_calm split: if_splits)

lemma spell_ok_returned:
  assumes ok: "spell_ok ps" and at: "po_threads ps i = Some (AtReturn d g t)"
  shows "spell_ok (returned i d t ps)" "spell_ok (return_failed err got i d t ps)"
proof -
  show "spell_ok (returned i d t ps)"
    by (rule spell_ok_return_marks [OF assms, where got = True]) (simp_all add: returned_def move_defs)
  show "spell_ok (return_failed err got i d t ps)"
    by (rule spell_ok_return_marks [OF assms, where got = got]) (simp_all add: return_failed_def move_defs)
qed

text \<open>A thread that submits nothing.\<close>

lemma spell_ok_other:
  assumes "spell_ok ps" "submits st' = None" "\<forall>m \<in> set ms. calm m" "\<forall>m \<in> set ms. \<forall>t c. m \<noteq> Wrote t (ReturnChunk c)"
    "po_threads ps' = (po_threads ps)(i \<mapsto> st')" "po_log ps' = po_log ps @ ms" "in_sessions (po_inner ps') = in_sessions (po_inner ps)"
  shows "spell_ok ps'"
  by (rule spell_ok_plain [OF assms(1,5,6,3,7)]) (use assms in auto)

lemma spell_ok_bystander: "post_bystander i st' ms ps ps' \<Longrightarrow> spell_ok ps \<Longrightarrow> spell_ok ps'"
proof (rule spell_ok_other [of _ st' ms _ i])
  assume b: "post_bystander i st' ms ps ps'"
  then have "delivery_of st' = None" by (simp add: post_bystander_def)
  then show "submits st' = None" by (cases st') simp_all
  show "\<forall>m \<in> set ms. calm m"
  proof
    fix m assume "m \<in> set ms"
    then obtain t where "other_chunk m = Some t" using b by (auto simp: post_bystander_def)
    then show "calm m" by (cases m) simp_all
  qed
qed (auto simp: post_bystander_def dest!: other_chunk_quiet)

lemma spell_ok_pending_seen:
  "spell_ok ps \<Longrightarrow> spell_ok (pending_seen i sid queued ps)"
  by (rule spell_ok_other [where i = i and ms = "[]" and st' = "case deliver_pending queued sid (po_kernel ps) of
        Some d \<Rightarrow> AtAdmit d | None \<Rightarrow> if queued then PtrLook sid else Finished"])
    (simp_all add: pending_seen_def move_defs split: option.split)

lemma spell_ok_step: "post_step ps ps' \<Longrightarrow> spell_ok ps \<Longrightarrow> spell_ok ps'"
proof (induction rule: post_step.induct)
  case (ps_side ps ps')
  then show ?case using side_thread_bystander spell_ok_bystander by blast
qed (simp_all add: spell_ok_elsewhere spell_ok_send spell_ok_admitted spell_ok_chosen spell_ok_recorded spell_ok_parked spell_ok_committed
    spell_ok_pasted spell_ok_returned spell_ok_hooked spell_ok_pending_seen spell_ok_pointer_committed spell_ok_typed)

lemma post_run_spell_ok: "post_run ps0 ps \<Longrightarrow> post_start ps0 \<Longrightarrow> spell_ok ps"
proof (induction rule: rtranclp_induct)
  case base
  then show ?case by (simp add: post_start_def spell_ok_def spaced_out_def taken_snoc)
qed (rule spell_ok_step)

text \<open>
  C7: A prompt's carriage return is only written for a thread that took the session while its hook had
  reported it idle, and between two takings of a session, by prompts or by the pointer line, the hook has
  reported it idle anew: nothing is submitted into a turn of the agent that has begun.
\<close>

theorem one_submission_per_idle_spell:
  assumes "post_start ps0" and "post_run ps0 ps"
  shows "(\<forall>xs ys zs sid a b. po_log ps = xs @ Took sid a # ys @ Took sid b # zs \<longrightarrow> WentIdle sid \<in> set ys)
    \<and> (\<forall>t c. Wrote t (ReturnChunk c) \<in> set (po_log ps) \<longrightarrow> (\<exists>sid. Took sid (Some c) \<in> set (po_log ps)))"
  using post_run_spell_ok [OF assms(2,1)] unfolding spell_ok_def spaced_out_def by blast

section \<open>Nothing comes between a prompt and its carriage return\<close>

definition out :: "terminal_id \<Rightarrow> mark list \<Rightarrow> chunk list" where
  "out t ms = List.map_filter (\<lambda>m. case m of Wrote t' ch \<Rightarrow> if t' = t then Some ch else None | _ \<Rightarrow> None) ms"

lemma out_simps [simp]:
  "out t [] = []"
  "out t (m # ms) = (case m of Wrote t' ch \<Rightarrow> if t' = t then ch # out t ms else out t ms | _ \<Rightarrow> out t ms)"
  by (simp_all add: out_def List.map_filter_simps split: mark.split)

lemma out_append [simp]: "out t (xs @ ys) = out t xs @ out t ys"
  by (induction xs) (simp_all split: mark.split)

lemma in_out: "ch \<in> set (out t ms) \<longleftrightarrow> Wrote t ch \<in> set ms"
  by (induction ms) (auto split: mark.split)

definition adjacent :: "chunk list \<Rightarrow> bool" where
  "adjacent chs \<longleftrightarrow> (\<forall>xs c ys. chs = xs @ ReturnChunk c # ys \<longrightarrow> (\<exists>xs' b. xs = xs' @ [PasteChunk c b]))"

lemma adjacent_snoc:
  assumes a: "adjacent chs" and r: "\<And>c. ch = ReturnChunk c \<Longrightarrow> \<exists>xs b. chs = xs @ [PasteChunk c b]"
  shows "adjacent (chs @ [ch])"
proof -
  have "\<exists>xs' b. xs = xs' @ [PasteChunk c b]" if e: "chs @ [ch] = xs @ ReturnChunk c # ys" for xs c ys
  proof (cases ys rule: rev_cases)
    case Nil
    then have "chs = xs" "ch = ReturnChunk c" using e by simp_all
    then show ?thesis using r by blast
  next
    case (snoc ys' y)
    then have "chs @ [ch] = (xs @ ReturnChunk c # ys') @ [y]" using e by simp
    then have "chs = xs @ ReturnChunk c # ys'" by (simp only: append1_eq_conv)
    then show ?thesis using a unfolding adjacent_def by blast
  qed
  then show ?thesis by (simp add: adjacent_def)
qed

lemma adjacent_append: "adjacent chs \<Longrightarrow> \<forall>ch \<in> set ms. \<forall>c. ch \<noteq> ReturnChunk c \<Longrightarrow> adjacent (chs @ ms)"
proof (induction ms rule: rev_induct)
  case (snoc m ms)
  then have "adjacent ((chs @ ms) @ [m])" by (intro adjacent_snoc) auto
  then show ?case by simp
qed simp

definition turn_ok :: "post \<Rightarrow> bool" where
  "turn_ok ps \<longleftrightarrow> (\<forall>i j st st' t. po_threads ps i = Some st \<and> po_threads ps j = Some st' \<and> writer_of st = Some t
        \<and> writer_of st' = Some t \<longrightarrow> i = j)
    \<and> (\<forall>t. adjacent (out t (po_log ps)))
    \<and> (\<forall>i d g t. po_threads ps i = Some (AtReturn d g t) \<longrightarrow> (\<exists>xs b. out t (po_log ps) = xs @ [PasteChunk (dv_context d) b]))"

lemma turn_okD:
  assumes "turn_ok ps"
  shows "po_threads ps i = Some st \<Longrightarrow> po_threads ps j = Some st' \<Longrightarrow> writer_of st = Some t \<Longrightarrow> writer_of st' = Some t \<Longrightarrow> i = j"
    "adjacent (out t (po_log ps))"
    "po_threads ps i = Some (AtReturn d g t) \<Longrightarrow> \<exists>xs b. out t (po_log ps) = xs @ [PasteChunk (dv_context d) b]"
  using assms unfolding turn_ok_def by blast+

text \<open>Whoever may write keeps the others out.\<close>

lemma may_write_alone:
  assumes "turn_ok ps" "may_write i t ps" "po_threads ps j = Some st" "writer_of st = Some t"
  shows "j = i"
proof -
  have "\<not> writer_free t ps" using assms(3,4) by (auto simp: writer_free_def)
  then obtain st' where "po_threads ps i = Some st'" "writer_of st' = Some t"
    using assms(2) by (cases "po_threads ps i") (auto simp: may_write_def)
  then show ?thesis using turn_okD(1) [OF assms(1) assms(3) _ assms(4)] by blast
qed

lemma turn_ok_move:
  assumes ok: "turn_ok ps" and th: "po_threads ps' = (po_threads ps)(i \<mapsto> st')" and lg: "po_log ps' = po_log ps @ ms"
    and w: "\<And>t. writer_of st' = Some t \<Longrightarrow> may_write i t ps" and ms: "\<And>t ch. Wrote t ch \<in> set ms \<Longrightarrow> may_write i t ps"
    and adj: "\<And>t. adjacent (out t (po_log ps'))"
    and ret: "\<And>d g t. st' = AtReturn d g t \<Longrightarrow> \<exists>xs b. out t (po_log ps') = xs @ [PasteChunk (dv_context d) b]"
  shows "turn_ok ps'"
proof -
  have alone: "j = k" if "po_threads ps' j = Some a" "po_threads ps' k = Some b" "writer_of a = Some t" "writer_of b = Some t" for j k a b t
    using that turn_okD(1) [OF ok] may_write_alone [OF ok w] by (auto simp: th split: if_splits)
  have last: "\<exists>xs b. out t (po_log ps') = xs @ [PasteChunk (dv_context d) b]" if at: "po_threads ps' j = Some (AtReturn d g t)" for j d g t
  proof (cases "j = i")
    case True
    then show ?thesis using at ret by (simp add: th)
  next
    case False
    then have j: "po_threads ps j = Some (AtReturn d g t)" using at by (simp add: th)
    have "out t ms = []"
    proof (rule ccontr)
      assume "out t ms \<noteq> []"
      then obtain ch where "Wrote t ch \<in> set ms" by (metis in_out last_in_set)
      then have "may_write i t ps" by (rule ms)
      then show "False" using may_write_alone [OF ok _ j] False by simp
    qed
    then show ?thesis using turn_okD(3) [OF ok j] by (simp add: lg)
  qed
  show ?thesis unfolding turn_ok_def using alone adj last by blast
qed

lemma turn_ok_quiet:
  assumes ok: "turn_ok ps" and th: "po_threads ps' = (po_threads ps)(i \<mapsto> st')" and lg: "po_log ps' = po_log ps @ ms"
    and w: "\<And>t. writer_of st' = Some t \<Longrightarrow> may_write i t ps" and ms: "\<And>t ch. Wrote t ch \<in> set ms \<Longrightarrow> may_write i t ps \<and> (\<forall>c. ch \<noteq> ReturnChunk c)"
    and ret: "\<And>d g t. st' \<noteq> AtReturn d g t"
  shows "turn_ok ps'"
proof (rule turn_ok_move [OF ok th lg w])
  show "adjacent (out t (po_log ps'))" for t
    using adjacent_append [OF turn_okD(2) [OF ok]] ms by (simp add: lg in_out)
qed (use ms ret in auto)

lemma turn_ok_leave:
  assumes "turn_ok ps" "po_threads ps' = (po_threads ps)(i \<mapsto> after_deliver d)" "po_log ps' = po_log ps @ ms"
    "\<And>t ch. Wrote t ch \<in> set ms \<Longrightarrow> may_write i t ps \<and> (\<forall>c. ch \<noteq> ReturnChunk c)"
  shows "turn_ok ps'"
  by (rule turn_ok_quiet [OF assms(1-3)]) (use assms(4) in \<open>auto simp: after_deliver_def split: if_splits\<close>)

lemma answers_write_nothing: "Wrote t ch \<notin> set (answers d r)"
  by (auto simp: answers_def split: prompt_origin.splits)

lemma out_answers [simp]: "out t (answers d r) = []"
  by (cases "dv_origin d") (simp_all add: answers_def)

lemma after_stage_writer [simp]: "writer_of (after_choose d g t) = None" "writer_of (after_record d g t) = None"
  "after_choose d g t \<noteq> AtReturn d' g' t'" "after_record d g t \<noteq> AtReturn d' g' t'"
  by (auto simp: after_choose_def after_record_def split: prompt_origin.split)

lemma turn_ok_bystander: "post_bystander i st' ms ps ps' \<Longrightarrow> turn_ok ps \<Longrightarrow> turn_ok ps'"
proof (rule turn_ok_quiet [of ps ps' i st' ms])
  assume b: "post_bystander i st' ms ps ps'"
  show "may_write i t ps \<and> (\<forall>c. ch \<noteq> ReturnChunk c)" if w: "Wrote t ch \<in> set ms" for t ch
  proof -
    obtain t' where o: "other_chunk (Wrote t ch) = Some t'" "may_write i t' ps" using b w by (auto simp: post_bystander_def)
    then have "t' = t" by (cases ch) simp_all
    then show ?thesis using o other_chunk_quiet [OF o(1)] by blast
  qed
  show "st' \<noteq> AtReturn d g t" for d g t using b by (auto simp: post_bystander_def)
qed (auto simp: post_bystander_def)

lemma turn_ok_return_marks:
  assumes ok: "turn_ok ps" and at: "po_threads ps i = Some (AtReturn d g t)"
    and th: "po_threads ps' = (po_threads ps)(i \<mapsto> after_deliver d)"
    and lg: "po_log ps' = po_log ps @ (if got then [Wrote t (ReturnChunk (dv_context d))] else []) @ answers d r"
  shows "turn_ok ps'"
proof (rule turn_ok_move [OF ok th lg])
  show "adjacent (out t' (po_log ps'))" for t'
  proof (cases "t' = t \<and> got")
    case True
    have "adjacent (out t' (po_log ps) @ [ReturnChunk (dv_context d)])"
      by (rule adjacent_snoc [OF turn_okD(2) [OF ok]]) (use True turn_okD(3) [OF ok at] in auto)
    moreover have "out t' (po_log ps') = out t' (po_log ps) @ [ReturnChunk (dv_context d)]"
    proof -
      have "t' = t" "got" using True by auto
      then show ?thesis unfolding lg by simp
    qed
    ultimately show ?thesis by simp
  next
    case False
    then show ?thesis using turn_okD(2) [OF ok, of t'] by (auto simp: lg)
  qed
  show "may_write i t' ps" if "Wrote t' ch \<in> set ((if got then [Wrote t (ReturnChunk (dv_context d))] else []) @ answers d r)" for t' ch
    using that at by (auto simp: may_write_def answers_write_nothing split: if_splits)
qed (auto simp: after_deliver_def split: if_splits)

lemma turn_ok_pasted:
  assumes ok: "turn_ok ps" and at: "po_threads ps i = Some (AtPaste d g t modes sub)"
  shows "turn_ok (pasted i d g t modes sub ps)" "turn_ok (paste_failed err got i d t ps)"
proof -
  let ?ch = "PasteChunk (dv_context d) (prompt_bytes (pp_text (dv_pending d)) modes)"
  have mine: "may_write i t ps" using at by (simp add: may_write_def)
  show "turn_ok (pasted i d g t modes sub ps)"
  proof (cases sub)
    case True
    show ?thesis
    proof (rule turn_ok_move [OF ok, where i = i and st' = "AtReturn d g t" and ms = "[Wrote t ?ch]"])
      show "adjacent (out t' (po_log (pasted i d g t modes sub ps)))" for t'
        using adjacent_snoc [OF turn_okD(2) [OF ok, of t], of ?ch] turn_okD(2) [OF ok, of t']
        by (auto simp: pasted_def Let_def True move_defs)
    qed (use mine in \<open>auto simp: pasted_def Let_def True move_defs\<close>)
  next
    case False
    then show ?thesis
      by (intro turn_ok_leave [OF ok, where i = i and d = d and ms = "Wrote t ?ch # answers d (Inr (delivery_result (dv_context d) True False))"])
        (use mine in \<open>auto simp: pasted_def Let_def move_defs answers_write_nothing\<close>)
  qed
  show "turn_ok (paste_failed err got i d t ps)"
    by (rule turn_ok_leave [OF ok, where i = i and d = d and ms = "Wrote t (PasteChunk (dv_context d) got) # answers d (Inl (io_error err))"])
      (use mine in \<open>auto simp: paste_failed_def move_defs answers_write_nothing\<close>)
qed

lemma turn_ok_returned:
  assumes ok: "turn_ok ps" and at: "po_threads ps i = Some (AtReturn d g t)"
  shows "turn_ok (returned i d t ps)" "turn_ok (return_failed err got i d t ps)"
proof -
  show "turn_ok (returned i d t ps)"
    by (rule turn_ok_return_marks [OF assms, where got = True]) (simp_all add: returned_def move_defs)
  show "turn_ok (return_failed err got i d t ps)"
    by (rule turn_ok_return_marks [OF assms, where got = got]) (simp_all add: return_failed_def move_defs)
qed

text \<open>Stages that write nothing.\<close>

lemma turn_ok_silent:
  assumes "turn_ok ps" "po_threads ps' = (po_threads ps)(i \<mapsto> st')" "po_log ps' = po_log ps @ ms" "\<forall>m \<in> set ms. \<forall>t ch. m \<noteq> Wrote t ch"
    "\<And>t. writer_of st' = Some t \<Longrightarrow> writer_free t ps" "\<And>d g t. st' \<noteq> AtReturn d g t"
  shows "turn_ok ps'"
  by (rule turn_ok_quiet [OF assms(1-3)]) (use assms(4-6) in \<open>auto simp: may_write_def\<close>)

lemma silent_marks: "m \<in> set (answers d r) \<Longrightarrow> m \<noteq> Wrote t ch" "m \<in> set (took_marks ps d) \<Longrightarrow> m \<noteq> Wrote t ch" "enqueued_mark d \<noteq> Wrote t ch"
  by (auto simp: answers_def took_marks_def enqueued_mark_def split: prompt_origin.splits if_splits)

lemma turn_ok_step: "post_step ps ps' \<Longrightarrow> turn_ok ps \<Longrightarrow> turn_ok ps'"
proof (induction rule: post_step.induct)
  case (ps_side ps ps')
  then show ?case using side_thread_bystander turn_ok_bystander by blast
next
  case (ps_elsewhere ps k' terms')
  then show ?case by (simp add: turn_ok_def)
next
  case (ps_send ps i c caller sid raw sub wh d)
  then show ?case
    by (intro turn_ok_silent [OF ps_send(4), where i = i and st' = "AtAdmit d" and ms = "[Accepted c sid (pp_terminal (dv_pending d)) (pp_text (dv_pending d))]"])
      (simp_all add: move_defs)
next
  case (ps_admit ps i d)
  show ?case
  proof (cases rule: deliver_admit_cases [of "po_gates ps" d "po_kernel ps"])
    case (refused e)
    then show ?thesis by (intro turn_ok_leave [OF ps_admit(2), of _ i d]) (auto simp: admitted_def move_defs answers_write_nothing)
  next
    case (gate g k' t)
    then show ?thesis by (intro turn_ok_silent [OF ps_admit(2), where i = i and st' = "AtGate d g" and ms = "[]"]) (auto simp: admitted_def move_defs)
  qed
next
  case (ps_choose ps i d g)
  show ?case
  proof (cases "deliver_choose (po_terms ps) d (po_kernel ps)")
    case (Inl e)
    then show ?thesis by (intro turn_ok_leave [OF ps_choose(3), of _ i d]) (auto simp: chosen_def move_defs answers_write_nothing)
  next
    case (Inr t)
    then show ?thesis by (intro turn_ok_silent [OF ps_choose(3), where i = i and st' = "after_choose d g t" and ms = "[]"]) (auto simp: chosen_def move_defs)
  qed
next
  case (ps_record ps i d g t fault now)
  show ?case
  proof (cases fault)
    case None
    then show ?thesis by (intro turn_ok_silent [OF ps_record(2), where i = i and st' = "after_record d g t" and ms = "[]"]) (auto simp: recorded_def move_defs)
  next
    case (Some m)
    then show ?thesis by (intro turn_ok_leave [OF ps_record(2), of _ i d]) (auto simp: recorded_def move_defs answers_write_nothing)
  qed
next
  case (ps_park ps i d g t)
  show ?case
  proof (cases rule: deliver_park_cases [of d t "po_kernel ps"])
    case (refused e)
    then show ?thesis by (intro turn_ok_leave [OF ps_park(2), of _ i d]) (auto simp: parked_def move_defs answers_write_nothing)
  next
    case queued
    then show ?thesis
      by (intro turn_ok_leave [OF ps_park(2), of _ i d "enqueued_mark d # answers d (Inr (queued_answer d))"])
        (auto simp: parked_def move_defs answers_write_nothing enqueued_mark_def)
  next
    case on
    then show ?thesis by (intro turn_ok_silent [OF ps_park(2), where i = i and st' = "AtWriter d g t" and ms = "[]"]) (auto simp: parked_def move_defs)
  qed
next
  case (ps_commit ps i d g t now now')
  show ?case
  proof (cases rule: deliver_commit_cases [of now now' "po_terms ps" d t "po_kernel ps"])
    case (refused e)
    then show ?thesis by (intro turn_ok_leave [OF ps_commit(3), of _ i d]) (auto simp: committed_def move_defs answers_write_nothing)
  next
    case queued
    then show ?thesis
      by (intro turn_ok_leave [OF ps_commit(3), of _ i d "enqueued_mark d # answers d (Inr (queued_answer d))"])
        (auto simp: committed_def move_defs answers_write_nothing enqueued_mark_def)
  next
    case (paste modes k')
    then show ?thesis using ps_commit(2)
      by (intro turn_ok_silent [OF ps_commit(3), where i = i and ms = "took_marks ps d"
            and st' = "AtPaste d g t modes (pp_submit (dv_pending d) \<and> session_idle (po_inner ps) (dv_session d))"])
        (auto simp: committed_def move_defs silent_marks)
  qed
next
  case (ps_hooked ps i sid st w now)
  obtain b q k' where r: "report_activity now sid st (po_kernel ps) = ((b, q), k')" by (metis prod.exhaust)
  then show ?case
    by (intro turn_ok_silent [OF ps_hooked(3), where i = i and ms = "if b then [WentIdle sid] else []" and st' = "if b then HookPending sid q else Finished"])
      (auto simp: hooked_def move_defs split: if_splits)
next
  case (ps_pending ps i sid queued)
  then show ?case
    by (intro turn_ok_silent [OF ps_pending(2), where i = i and ms = "[]" and st' = "case deliver_pending queued sid (po_kernel ps) of
        Some d \<Rightarrow> AtAdmit d | None \<Rightarrow> if queued then PtrLook sid else Finished"])
      (auto simp: pending_seen_def move_defs split: option.splits if_splits)
next
  case (ps_pointer_commit ps i sid t n now watched)
  obtain b k' where r: "pointer_commit now watched sid t (po_kernel ps) = (b, k')" by fastforce
  then show ?case using ps_pointer_commit(2)
    by (intro turn_ok_silent [OF ps_pointer_commit(3), where i = i and ms = "if b then [Took sid None] else []" and st' = "if b then PtrLine sid t n else Finished"])
      (auto simp: pointer_committed_def move_defs split: if_splits)
next
  case (ps_typed ps i t sid bytes now)
  then show ?case
    by (intro turn_ok_quiet [OF ps_typed(2), where i = i and ms = "[]" and st' = "InSend t bytes"])
      (auto simp: typed_def move_defs may_write_def)
qed (simp_all add: turn_ok_pasted turn_ok_returned)

lemma post_run_turn_ok: "post_run ps0 ps \<Longrightarrow> post_start ps0 \<Longrightarrow> turn_ok ps"
proof (induction rule: rtranclp_induct)
  case base
  then show ?case by (simp add: post_start_def turn_ok_def adjacent_def)
qed (rule turn_ok_step)

text \<open>
  C14: The bytes of a prompt and its carriage return are written back to back: whatever else writes to the
  terminal, other prompts, pointer lines, shell commands, the user's keys or the emulator's replies, what
  was written last before a prompt's carriage return is that prompt.
\<close>

theorem return_follows_its_prompt:
  assumes "post_start ps0" and "post_run ps0 ps" and "out t (po_log ps) = xs @ ReturnChunk c # ys"
  shows "\<exists>bytes. xs \<noteq> [] \<and> last xs = PasteChunk c bytes"
  using turn_okD(2) [OF post_run_turn_ok [OF assms(2,1)], of t] assms(3) unfolding adjacent_def by fastforce

section \<open>A queued prompt is not forgotten\<close>

text \<open>A thread that is about to deliver the prompt that waits for a session.\<close>

definition carries_queued :: "session_id \<Rightarrow> pending_prompt \<Rightarrow> delivery \<Rightarrow> bool" where
  "carries_queued sid p d \<longleftrightarrow> dv_origin d = FromQueue \<and> dv_session d = sid \<and> dv_pending d = p \<and> dv_when d = DeliverQueue"

fun coming :: "session_id \<Rightarrow> pending_prompt \<Rightarrow> prompt_stage \<Rightarrow> bool" where
  "coming sid p (HookPending s q) = (s = sid)"
| "coming sid p (AtAdmit d) = carries_queued sid p d"
| "coming sid p (AtGate d g) = carries_queued sid p d"
| "coming sid p (AtPark d g t) = (carries_queued sid p d \<and> t = pp_terminal p)"
| "coming sid p (AtWriter d g t) = (carries_queued sid p d \<and> t = pp_terminal p)"
| "coming sid p _ = False"

definition someone_coming :: "post \<Rightarrow> session_id \<Rightarrow> pending_prompt \<Rightarrow> bool" where
  "someone_coming ps sid p \<longleftrightarrow> (\<exists>i st. po_threads ps i = Some st \<and> coming sid p st)"

definition waiting_ok :: "post \<Rightarrow> bool" where
  "waiting_ok ps \<longleftrightarrow> (\<forall>sid p. in_pending_prompts (po_inner ps) sid = Some p \<longrightarrow>
     live_target (po_inner ps) sid (pp_terminal p)
     \<and> (session_idle (po_inner ps) sid \<and> po_terms ps (pp_terminal p) \<noteq> None \<longrightarrow> someone_coming ps sid p))"

lemma waiting_okD:
  assumes "waiting_ok ps" "in_pending_prompts (po_inner ps) sid = Some p"
  shows "live_target (po_inner ps) sid (pp_terminal p)"
    "session_idle (po_inner ps) sid \<Longrightarrow> po_terms ps (pp_terminal p) \<noteq> None \<Longrightarrow> someone_coming ps sid p"
  using assms unfolding waiting_ok_def by blast+

lemma waiting_ok_move:
  assumes ok: "waiting_ok ps" and th: "po_threads ps' = (po_threads ps)(i \<mapsto> st')" and te: "po_terms ps' = po_terms ps"
    and live: "\<And>sid p. in_pending_prompts (po_inner ps') sid = Some p \<Longrightarrow> live_target (po_inner ps') sid (pp_terminal p)"
    and com: "\<And>sid p. in_pending_prompts (po_inner ps') sid = Some p \<Longrightarrow> session_idle (po_inner ps') sid \<Longrightarrow>
      po_terms ps (pp_terminal p) \<noteq> None \<Longrightarrow> coming sid p st' \<or>
      in_pending_prompts (po_inner ps) sid = Some p \<and> session_idle (po_inner ps) sid
        \<and> (\<forall>st. po_threads ps i = Some st \<longrightarrow> \<not> coming sid p st)"
  shows "waiting_ok ps'"
proof -
  have "someone_coming ps' sid p"
    if p: "in_pending_prompts (po_inner ps') sid = Some p" "session_idle (po_inner ps') sid" "po_terms ps' (pp_terminal p) \<noteq> None" for sid p
  proof (cases "coming sid p st'")
    case True
    then show ?thesis unfolding someone_coming_def by (intro exI [of _ i] exI [of _ st']) (simp add: th)
  next
    case False
    then have o: "in_pending_prompts (po_inner ps) sid = Some p" "session_idle (po_inner ps) sid"
        "\<forall>st. po_threads ps i = Some st \<longrightarrow> \<not> coming sid p st"
      using com [OF p(1,2)] p(3) te by auto
    then obtain j st where j: "po_threads ps j = Some st" "coming sid p st"
      using waiting_okD(2) [OF ok o(1,2)] p(3) te by (auto simp: someone_coming_def)
    then have "j \<noteq> i" using o(3) by auto
    then show ?thesis using j unfolding someone_coming_def by (intro exI [of _ j] exI [of _ st]) (simp add: th)
  qed
  then show ?thesis using live unfolding waiting_ok_def by blast
qed

text \<open>A stage that leaves the sessions and the queue alone and was not coming, or still is.\<close>

lemma waiting_ok_same:
  assumes ok: "waiting_ok ps" and th: "po_threads ps' = (po_threads ps)(i \<mapsto> st')" and te: "po_terms ps' = po_terms ps"
    and same: "in_sessions (po_inner ps') = in_sessions (po_inner ps)" "in_pending_prompts (po_inner ps') = in_pending_prompts (po_inner ps)"
    and com: "\<And>st sid p. po_threads ps i = Some st \<Longrightarrow> coming sid p st \<Longrightarrow> in_pending_prompts (po_inner ps) sid = Some p \<Longrightarrow>
      session_idle (po_inner ps) sid \<Longrightarrow> po_terms ps (pp_terminal p) \<noteq> None \<Longrightarrow> coming sid p st'"
  shows "waiting_ok ps'"
proof (rule waiting_ok_move [OF ok th te])
  show "live_target (po_inner ps') sid (pp_terminal p)" if "in_pending_prompts (po_inner ps') sid = Some p" for sid p
    using that waiting_okD(1) [OF ok] same_sessions_idle(3) [OF same(1)] by (simp add: same(2))
qed (use com in \<open>auto simp: same(2) same_sessions_idle(2) [OF same(1)]\<close>)

text \<open>The target of a prompt that waits passes the checks of its own delivery.\<close>

lemma coming_passes:
  assumes "waiting_ok ps" "in_pending_prompts (po_inner ps) sid = Some p" "carries_queued sid p d"
  shows "check_target (po_inner ps) d = Inr (pp_terminal p)"
  using waiting_okD(1) [OF assms(1,2)] assms(2,3) by (auto simp: check_target_iff carries_queued_def is_new_def)

lemma waiting_ok_admitted:
  assumes ok: "waiting_ok ps" and at: "po_threads ps i = Some (AtAdmit d)"
  shows "waiting_ok (admitted i d ps)"
proof (cases rule: deliver_admit_cases [of "po_gates ps" d "po_kernel ps"])
  case (refused e)
  have "\<not> coming sid p (AtAdmit d)" if "in_pending_prompts (po_inner ps) sid = Some p" for sid p
    using coming_passes [OF ok that, of d] refused(2) by (auto simp: carries_queued_def)
  then show ?thesis using refused at
    by (intro waiting_ok_same [OF ok, where i = i and st' = "after_deliver d"]) (auto simp: admitted_def move_defs)
next
  case (gate g k' t)
  then show ?thesis using at
    by (intro waiting_ok_same [OF ok, where i = i and st' = "AtGate d g"]) (auto simp: admitted_def move_defs)
qed

lemma waiting_ok_chosen:
  assumes ok: "waiting_ok ps" and at: "po_threads ps i = Some (AtGate d g)"
  shows "waiting_ok (chosen i d g ps)"
proof (cases "deliver_choose (po_terms ps) d (po_kernel ps)")
  case (Inl e)
  have "\<not> coming sid p (AtGate d g)" if "in_pending_prompts (po_inner ps) sid = Some p" "po_terms ps (pp_terminal p) \<noteq> None" for sid p
    using coming_passes [OF ok that(1), of d] that(2) Inl by (auto simp: deliver_choose_def carries_queued_def require_def)
  then show ?thesis using Inl at
    by (intro waiting_ok_same [OF ok, where i = i and st' = "after_deliver d"]) (auto simp: chosen_def move_defs)
next
  case (Inr t)
  have "coming sid p (after_choose d g t)" if "in_pending_prompts (po_inner ps) sid = Some p" "coming sid p (AtGate d g)" for sid p
    using coming_passes [OF ok that(1), of d] that(2) deliver_choose_Inr [OF Inr]
    by (auto simp: after_choose_def after_record_def carries_queued_def)
  then show ?thesis using Inr at
    by (intro waiting_ok_same [OF ok, where i = i and st' = "after_choose d g t"]) (auto simp: chosen_def move_defs)
qed

lemma waiting_ok_recorded:
  assumes ok: "waiting_ok ps" and at: "po_threads ps i = Some (AtRecord d g t)"
  shows "waiting_ok (recorded fault now i d g t ps)"
proof (cases fault)
  case None
  then show ?thesis using at
    by (intro waiting_ok_same [OF ok, where i = i and st' = "after_record d g t"]) (auto simp: recorded_def move_defs)
next
  case (Some m)
  then show ?thesis using at
    by (intro waiting_ok_same [OF ok, where i = i and st' = "after_deliver d"]) (auto simp: recorded_def move_defs)
qed

text \<open>A prompt that goes back to the queue finds its session busy.\<close>

lemma waiting_ok_enqueued:
  assumes ok: "waiting_ok ps" and at: "po_threads ps i = Some st" and c: "check_target (po_inner ps) d = Inr t"
    and busy: "\<not> session_idle (po_inner ps) (dv_session d)" and st: "\<And>sid p. coming sid p st \<Longrightarrow> sid = dv_session d"
  shows "waiting_ok (leave i d r (ps\<lparr>po_kernel := enqueue d (po_kernel ps), po_log := lg\<rparr>))"
proof (rule waiting_ok_move [OF ok, where i = i and st' = "after_deliver d"])
  let ?ps' = "leave i d r (ps\<lparr>po_kernel := enqueue d (po_kernel ps), po_log := lg\<rparr>)"
  have ss: "in_sessions (po_inner ?ps') = in_sessions (po_inner ps)" by (simp add: move_defs enqueue_def)
  show "live_target (po_inner ?ps') sid (pp_terminal p)" if "in_pending_prompts (po_inner ?ps') sid = Some p" for sid p
  proof -
    have "sid = dv_session d \<and> p = dv_pending d \<or> in_pending_prompts (po_inner ps) sid = Some p"
      using that by (auto simp: move_defs enqueue_def split: if_splits)
    then have "live_target (po_inner ps) sid (pp_terminal p)"
      using c waiting_okD(1) [OF ok, of sid p] by (auto simp: check_target_iff)
    then show ?thesis by (simp only: same_sessions_idle(3) [OF ss])
  qed
  show "coming sid p (after_deliver d) \<or> in_pending_prompts (po_inner ps) sid = Some p \<and> session_idle (po_inner ps) sid
      \<and> (\<forall>st. po_threads ps i = Some st \<longrightarrow> \<not> coming sid p st)"
    if "in_pending_prompts (po_inner ?ps') sid = Some p" "session_idle (po_inner ?ps') sid" for sid p
  proof -
    have i: "session_idle (po_inner ps) sid" using that(2) same_sessions_idle(2) [OF ss] by simp
    then have ne: "sid \<noteq> dv_session d" using busy by blast
    then have "in_pending_prompts (po_inner ps) sid = Some p" using that(1) by (simp add: move_defs enqueue_def)
    then show ?thesis using i ne at st by auto
  qed
qed (simp_all add: move_defs)

lemma waiting_ok_parked:
  assumes ok: "waiting_ok ps" and at: "po_threads ps i = Some (AtPark d g t)"
  shows "waiting_ok (parked i d g t ps)"
proof (cases rule: deliver_park_cases [of d t "po_kernel ps"])
  case (refused e)
  have "\<not> coming sid p (AtPark d g t)" if "in_pending_prompts (po_inner ps) sid = Some p" for sid p
    using coming_passes [OF ok that, of d] refused(2) same_terminal_iff [of "po_inner ps" d t] by auto
  then show ?thesis using refused at
    by (intro waiting_ok_same [OF ok, where i = i and st' = "after_deliver d"]) (auto simp: parked_def move_defs)
next
  case queued
  then show ?thesis using waiting_ok_enqueued [OF ok at queued(2,3)] by (simp add: parked_def carries_queued_def)
next
  case on
  then show ?thesis using at
    by (intro waiting_ok_same [OF ok, where i = i and st' = "AtWriter d g t"]) (auto simp: parked_def move_defs)
qed

text \<open>A section that changes the activity of one session, and takes its prompt or leaves the session busy.\<close>

lemma waiting_ok_activity:
  assumes ok: "waiting_ok ps" and th: "po_threads ps' = (po_threads ps)(i \<mapsto> st')" and te: "po_terms ps' = po_terms ps"
    and act: "only_activity sid (po_kernel ps) (po_kernel ps')"
    and pend: "\<And>j p. in_pending_prompts (po_inner ps') j = Some p \<Longrightarrow> in_pending_prompts (po_inner ps) j = Some p"
    and me: "\<And>p. in_pending_prompts (po_inner ps') sid = Some p \<Longrightarrow> session_idle (po_inner ps') sid \<Longrightarrow>
      coming sid p st' \<or> session_idle (po_inner ps) sid \<and> (\<forall>st. po_threads ps i = Some st \<longrightarrow> \<not> coming sid p st)"
    and old: "\<And>st j p. po_threads ps i = Some st \<Longrightarrow> coming j p st \<Longrightarrow> j = sid"
  shows "waiting_ok ps'"
proof (rule waiting_ok_move [OF ok th te])
  show "live_target (po_inner ps') j (pp_terminal p)" if "in_pending_prompts (po_inner ps') j = Some p" for j p
    using act waiting_okD(1) [OF ok pend [OF that]] by (simp add: only_activity_def)
  show "coming j p st' \<or> in_pending_prompts (po_inner ps) j = Some p \<and> session_idle (po_inner ps) j
      \<and> (\<forall>st. po_threads ps i = Some st \<longrightarrow> \<not> coming j p st)"
    if p: "in_pending_prompts (po_inner ps') j = Some p" "session_idle (po_inner ps') j" for j p
  proof (cases "j = sid")
    case True
    then show ?thesis using me [of p] p pend [OF p(1)] by auto
  next
    case False
    then show ?thesis using p(2) pend [OF p(1)] old only_activity_idle(2) [OF act False] by auto
  qed
qed

lemma waiting_ok_committed:
  assumes ok: "waiting_ok ps" and at: "po_threads ps i = Some (AtWriter d g t)"
  shows "waiting_ok (committed now now' i d g t ps)"
proof (cases rule: deliver_commit_cases [of now now' "po_terms ps" d t "po_kernel ps"])
  case (refused e)
  have "\<not> coming sid p (AtWriter d g t)" if "in_pending_prompts (po_inner ps) sid = Some p" "po_terms ps (pp_terminal p) \<noteq> None" for sid p
    using coming_passes [OF ok that(1), of d] that(2) refused(2) same_terminal_iff [of "po_inner ps" d t] by auto
  then show ?thesis using refused at
    by (intro waiting_ok_same [OF ok, where i = i and st' = "after_deliver d"]) (auto simp: committed_def move_defs)
next
  case queued
  then show ?thesis using waiting_ok_enqueued [OF ok at queued(2,3)] by (simp add: committed_def carries_queued_def)
next
  case (paste modes k')
  let ?sub = "pp_submit (dv_pending d) \<and> session_idle (po_inner ps) (dv_session d)"
  show ?thesis
    by (rule waiting_ok_activity [OF ok, where i = i and st' = "AtPaste d g t modes ?sub" and sid = "dv_session d"])
      (use paste at in \<open>auto simp: committed_def move_defs carries_queued_def split: if_splits\<close>)
qed

lemma waiting_ok_hooked:
  assumes ok: "waiting_ok ps" and at: "po_threads ps i = Some (HookWriter sid st w)"
  shows "waiting_ok (hooked now i sid st ps)"
proof -
  obtain b q k' where r: "report_activity now sid st (po_kernel ps) = ((b, q), k')" by (metis prod.exhaust)
  show ?thesis
  proof (rule waiting_ok_activity [OF ok, where i = i and st' = "if b then HookPending sid q else Finished" and sid = sid])
    show "coming sid p (if b then HookPending sid q else Finished) \<or> session_idle (po_inner ps) sid
        \<and> (\<forall>st. po_threads ps i = Some st \<longrightarrow> \<not> coming sid p st)"
      if "session_idle (po_inner (hooked now i sid st ps)) sid" for p
      using that at r report_activity_inner(4) [OF r] by (cases b) (auto simp: hooked_def move_defs)
  qed (use at r report_activity_inner(1,2) [OF r] in \<open>auto simp: hooked_def move_defs\<close>)
qed

lemma waiting_ok_pending_seen:
  assumes ok: "waiting_ok ps" and at: "po_threads ps i = Some (HookPending sid queued)"
  shows "waiting_ok (pending_seen i sid queued ps)"
proof (rule waiting_ok_same [OF ok, where i = i])
  let ?st' = "case deliver_pending queued sid (po_kernel ps) of
        Some d \<Rightarrow> AtAdmit d | None \<Rightarrow> if queued then PtrLook sid else Finished"
  show "po_threads (pending_seen i sid queued ps) = (po_threads ps)(i \<mapsto> ?st')" by (simp add: pending_seen_def move_defs)
  show "coming j p ?st'"
    if "po_threads ps i = Some st" "coming j p st" "in_pending_prompts (po_inner ps) j = Some p" "session_idle (po_inner ps) j" for st j p
    using that at by (auto simp: deliver_pending_def carries_queued_def)
qed (simp_all add: pending_seen_def move_defs)

lemma waiting_ok_pointer_committed:
  assumes ok: "waiting_ok ps" and at: "po_threads ps i = Some (PtrWriter sid t n)"
  shows "waiting_ok (pointer_committed now watched i sid t n ps)"
proof -
  obtain b k' where r: "pointer_commit now watched sid t (po_kernel ps) = (b, k')" by fastforce
  show ?thesis
  proof (rule waiting_ok_activity [OF ok, where i = i and st' = "if b then PtrLine sid t n else Finished" and sid = sid])
    show "coming sid p (if b then PtrLine sid t n else Finished) \<or> session_idle (po_inner ps) sid
        \<and> (\<forall>st. po_threads ps i = Some st \<longrightarrow> \<not> coming sid p st)"
      if "session_idle (po_inner (pointer_committed now watched i sid t n ps)) sid" for p
    proof -
      have k: "po_kernel (pointer_committed now watched i sid t n ps) = k'" using r by (simp add: pointer_committed_def move_defs)
      have "session_idle (po_inner ps) sid"
      proof (cases b)
        case True
        then have "\<not> session_idle (k_inner k') sid" using pointer_commit_inner(3) [OF r True] idle_sessions by blast
        then show ?thesis using that k by simp
      next
        case False
        then show ?thesis using that k same_sessions_idle(2) [OF pointer_commit_inner(4) [OF r False]] by simp
      qed
      then show ?thesis using at by auto
    qed
  qed (use at r pointer_commit_inner(1,2) [OF r] in \<open>auto simp: pointer_committed_def move_defs\<close>)
qed

lemma waiting_ok_typed:
  assumes ok: "waiting_ok ps" and at: "po_threads ps i = Some (InNote t sid bytes)"
  shows "waiting_ok (typed now i t sid bytes ps)"
  by (rule waiting_ok_activity [OF ok, where i = i and st' = "InSend t bytes" and sid = sid])
    (use at note_user_input_inner [of now sid "po_kernel ps"] in \<open>auto simp: typed_def move_defs\<close>)

lemma waiting_ok_elsewhere:
  assumes ok: "waiting_ok ps" and e: "elsewhere ps k' terms'"
  shows "waiting_ok (ps\<lparr>po_kernel := k', po_terms := terms'\<rparr>)"
proof -
  have "live_target (k_inner k') sid (pp_terminal p) \<and>
      (session_idle (k_inner k') sid \<and> terms' (pp_terminal p) \<noteq> None \<longrightarrow> someone_coming ps sid p)"
    if "in_pending_prompts (k_inner k') sid = Some p" for sid p
  proof -
    have p: "in_pending_prompts (po_inner ps) sid = Some p"
        "live_target (po_inner ps) sid (pp_terminal p) \<Longrightarrow> live_target (k_inner k') sid (pp_terminal p)"
        "po_terms ps (pp_terminal p) = None \<Longrightarrow> terms' (pp_terminal p) = None"
        "session_idle (k_inner k') sid \<Longrightarrow> session_idle (po_inner ps) sid"
      using that e by (auto simp: elsewhere_def)
    have "live_target (k_inner k') sid (pp_terminal p)" by (rule p(2)) (rule waiting_okD(1) [OF ok p(1)])
    moreover have "someone_coming ps sid p" if s: "session_idle (k_inner k') sid" and t: "terms' (pp_terminal p) \<noteq> None"
    proof (rule waiting_okD(2) [OF ok p(1)])
      show "session_idle (po_inner ps) sid" by (rule p(4)) (rule s)
      show "po_terms ps (pp_terminal p) \<noteq> None" using p(3) t by auto
    qed
    ultimately show ?thesis by auto
  qed
  then show ?thesis by (simp add: waiting_ok_def someone_coming_def)
qed

lemma waiting_ok_leaving:
  assumes "waiting_ok ps" "po_threads ps i = Some st" "\<And>sid p. \<not> coming sid p st" "po_threads ps' = (po_threads ps)(i \<mapsto> st')"
    "po_kernel ps' = po_kernel ps" "po_terms ps' = po_terms ps"
  shows "waiting_ok ps'"
  by (rule waiting_ok_same [OF assms(1,4,6)]) (use assms in auto)

lemma waiting_ok_bystander: "post_bystander i st' ms ps ps' \<Longrightarrow> waiting_ok ps \<Longrightarrow> waiting_ok ps'"
proof (rule waiting_ok_same [of ps ps' i st'])
  assume b: "post_bystander i st' ms ps ps'"
  show "coming sid p st'" if "po_threads ps i = Some st" "coming sid p st" for st sid p
    using b that by (cases st) (auto simp: post_bystander_def)
qed (auto simp: post_bystander_def)

lemma waiting_ok_step: "post_step ps ps' \<Longrightarrow> waiting_ok ps \<Longrightarrow> waiting_ok ps'"
proof (induction rule: post_step.induct)
  case (ps_side ps ps')
  then show ?case using side_thread_bystander waiting_ok_bystander by blast
next
  case (ps_send ps i c caller sid raw sub wh d)
  then show ?case by (intro waiting_ok_same [OF ps_send(4), where i = i and st' = "AtAdmit d"]) (auto simp: move_defs)
next
  case (ps_paste ps i d g t modes sub)
  then show ?case
    by (intro waiting_ok_leaving [OF ps_paste(2,1), where st' = "if sub then AtReturn d g t else after_deliver d"])
      (auto simp: pasted_def Let_def move_defs)
next
  case (ps_paste_failed ps i d g t modes sub got err)
  then show ?case
    by (intro waiting_ok_leaving [OF ps_paste_failed(3,1), where st' = "after_deliver d"]) (auto simp: paste_failed_def move_defs)
next
  case (ps_return ps i d g t)
  then show ?case by (intro waiting_ok_leaving [OF ps_return(2,1), where st' = "after_deliver d"]) (auto simp: returned_def move_defs)
next
  case (ps_return_failed ps i d g t err got)
  then show ?case
    by (intro waiting_ok_leaving [OF ps_return_failed(2,1), where st' = "after_deliver d"]) (auto simp: return_failed_def move_defs)
qed (simp_all add: waiting_ok_admitted waiting_ok_chosen waiting_ok_recorded waiting_ok_parked waiting_ok_committed waiting_ok_hooked
    waiting_ok_pending_seen waiting_ok_pointer_committed waiting_ok_typed waiting_ok_elsewhere)

lemma post_run_waiting_ok: "post_run ps0 ps \<Longrightarrow> post_start ps0 \<Longrightarrow> waiting_ok ps"
proof (induction rule: rtranclp_induct)
  case base
  then show ?case by (simp add: post_start_def waiting_ok_def)
qed (rule waiting_ok_step)

text \<open>
  C8: A queued prompt is not forgotten: whenever its session is idle by its hook and its terminal is there,
  a thread is on its way to deliver it, whatever was going on when the prompt was queued and when the
  session became idle.
\<close>

theorem queued_prompt_is_not_forgotten:
  assumes "post_start ps0" and "post_run ps0 ps"
    and "in_pending_prompts (po_inner ps) sid = Some p" and "session_idle (po_inner ps) sid" and "po_terms ps (pp_terminal p) \<noteq> None"
  shows "\<exists>i st. po_threads ps i = Some st \<and> coming sid p st"
  using waiting_okD(2) [OF post_run_waiting_ok [OF assms(2,1)] assms(3-5)] by (simp add: someone_coming_def)

section \<open>The threads never block each other for good\<close>

text \<open>How many stages a thread has left at most.\<close>

fun rank :: "prompt_stage \<Rightarrow> nat" where
  "rank Finished = 0"
| "rank (PtrReturn sid t) = 1"
| "rank (PtrLine sid t n) = 2"
| "rank (PtrWriter sid t n) = 3"
| "rank (PtrLook sid) = 4"
| "rank (AtReturn d g t) = 5"
| "rank (AtPaste d g t modes sub) = 6"
| "rank (AtWriter d g t) = 7"
| "rank (AtPark d g t) = 8"
| "rank (AtRecord d g t) = 9"
| "rank (AtGate d g) = 10"
| "rank (AtAdmit d) = 11"
| "rank (HookPending sid q) = 12"
| "rank (HookWriter sid st w) = 13"
| "rank (InSend t bytes) = 1"
| "rank (InNote t sid bytes) = 2"
| "rank (InWriter t bytes) = 3"
| "rank (ShLine c t g bytes) = 1"
| "rank (ShWriter c t g) = 2"
| "rank (ShRecord c t g) = 3"
| "rank (ShGate c t g) = 4"

definition advances :: "nat \<Rightarrow> post \<Rightarrow> post \<Rightarrow> bool" where
  "advances i ps ps' \<longleftrightarrow> post_step ps ps' \<and> (\<exists>st st'. po_threads ps i = Some st \<and> po_threads ps' = (po_threads ps)(i \<mapsto> st')
     \<and> rank st' < rank st)"

lemma advances_intro:
  "po_threads ps i = Some st \<Longrightarrow> post_step ps ps' \<Longrightarrow> po_threads ps' = (po_threads ps)(i \<mapsto> st') \<Longrightarrow> rank st' < rank st \<Longrightarrow> \<exists>ps'. advances i ps ps'"
  unfolding advances_def by blast

fun waits_writer :: "prompt_stage \<Rightarrow> terminal_id option" where
  "waits_writer (AtWriter d g t) = Some t"
| "waits_writer (HookWriter sid st w) = w"
| "waits_writer (PtrWriter sid t n) = Some t"
| "waits_writer (InWriter t bytes) = Some t"
| "waits_writer (ShWriter c t g) = Some t"
| "waits_writer _ = None"

fun waits_gate :: "prompt_stage \<Rightarrow> nat option" where
  "waits_gate (AtGate d g) = Some g"
| "waits_gate (ShGate c t g) = Some g"
| "waits_gate _ = None"

lemma rank_after [simp]:
  "rank (after_deliver d) \<le> 4" "rank (after_record d g t) \<le> 8" "rank (after_choose d g t) \<le> 9"
  by (auto simp: after_deliver_def after_record_def after_choose_def split: prompt_origin.split)

lemmas rank_bounds = rank_after [THEN order.strict_trans1]

lemma advance_delivery:
  "po_threads ps i = Some (AtAdmit d) \<Longrightarrow> \<exists>ps'. advances i ps ps'"
  "po_threads ps i = Some (AtGate d g) \<Longrightarrow> gate_free g ps \<Longrightarrow> \<exists>ps'. advances i ps ps'"
  "po_threads ps i = Some (AtRecord d g t) \<Longrightarrow> \<exists>ps'. advances i ps ps'"
  "po_threads ps i = Some (AtPark d g t) \<Longrightarrow> \<exists>ps'. advances i ps ps'"
  "po_threads ps i = Some (AtWriter d g t) \<Longrightarrow> writer_free t ps \<Longrightarrow> \<exists>ps'. advances i ps ps'"
  "po_threads ps i = Some (AtPaste d g t modes sub) \<Longrightarrow> \<exists>ps'. advances i ps ps'"
  "po_threads ps i = Some (AtReturn d g t) \<Longrightarrow> \<exists>ps'. advances i ps ps'"
proof -
  show "\<exists>ps'. advances i ps ps'" if a: "po_threads ps i = Some (AtAdmit d)"
  proof (cases rule: deliver_admit_cases [of "po_gates ps" d "po_kernel ps"])
    case (refused e)
    then show ?thesis by (intro advances_intro [OF a ps_admit [OF a], of "after_deliver d"]) (simp_all add: admitted_def move_defs rank_bounds)
  next
    case (gate g k' t)
    then show ?thesis by (intro advances_intro [OF a ps_admit [OF a], of "AtGate d g"]) (simp_all add: admitted_def move_defs)
  qed
  show "\<exists>ps'. advances i ps ps'" if a: "po_threads ps i = Some (AtGate d g)" "gate_free g ps"
  proof (cases "deliver_choose (po_terms ps) d (po_kernel ps)")
    case (Inl e)
    then show ?thesis by (intro advances_intro [OF a(1) ps_choose [OF a], of "after_deliver d"]) (simp_all add: chosen_def move_defs rank_bounds)
  next
    case (Inr t)
    then show ?thesis by (intro advances_intro [OF a(1) ps_choose [OF a], of "after_choose d g t"]) (simp_all add: chosen_def move_defs rank_bounds)
  qed
  show "\<exists>ps'. advances i ps ps'" if a: "po_threads ps i = Some (AtRecord d g t)"
    by (rule advances_intro [OF a ps_record [OF a, of None UNIX_EPOCH], of "after_record d g t"]) (simp_all add: recorded_def move_defs rank_bounds)
  show "\<exists>ps'. advances i ps ps'" if a: "po_threads ps i = Some (AtPark d g t)"
  proof (cases rule: deliver_park_cases [of d t "po_kernel ps"])
    case (refused e)
    then show ?thesis by (intro advances_intro [OF a ps_park [OF a], of "after_deliver d"]) (simp_all add: parked_def move_defs rank_bounds)
  next
    case queued
    then show ?thesis by (intro advances_intro [OF a ps_park [OF a], of "after_deliver d"]) (simp_all add: parked_def move_defs rank_bounds)
  next
    case on
    then show ?thesis by (intro advances_intro [OF a ps_park [OF a], of "AtWriter d g t"]) (simp_all add: parked_def move_defs)
  qed
  show "\<exists>ps'. advances i ps ps'" if a: "po_threads ps i = Some (AtWriter d g t)" "writer_free t ps"
  proof (cases rule: deliver_commit_cases [of UNIX_EPOCH UNIX_EPOCH "po_terms ps" d t "po_kernel ps"])
    case (refused e)
    then show ?thesis
      by (intro advances_intro [OF a(1) ps_commit [OF a, of UNIX_EPOCH UNIX_EPOCH], of "after_deliver d"]) (simp_all add: committed_def move_defs rank_bounds)
  next
    case queued
    then show ?thesis
      by (intro advances_intro [OF a(1) ps_commit [OF a, of UNIX_EPOCH UNIX_EPOCH], of "after_deliver d"]) (simp_all add: committed_def move_defs rank_bounds)
  next
    case (paste modes k')
    then show ?thesis
      by (intro advances_intro [OF a(1) ps_commit [OF a, of UNIX_EPOCH UNIX_EPOCH],
            of "AtPaste d g t modes (pp_submit (dv_pending d) \<and> session_idle (po_inner ps) (dv_session d))"]) (simp_all add: committed_def move_defs)
  qed
  show "\<exists>ps'. advances i ps ps'" if a: "po_threads ps i = Some (AtPaste d g t modes sub)"
    by (rule advances_intro [OF a ps_paste [OF a], of "if sub then AtReturn d g t else after_deliver d"])
      (simp_all add: pasted_def Let_def move_defs rank_bounds)
  show "\<exists>ps'. advances i ps ps'" if a: "po_threads ps i = Some (AtReturn d g t)"
    by (rule advances_intro [OF a ps_return [OF a], of "after_deliver d"]) (simp_all add: returned_def move_defs rank_bounds)
qed

lemma advance_others:
  "po_threads ps i = Some (HookWriter sid st w) \<Longrightarrow> (\<And>t. w = Some t \<Longrightarrow> writer_free t ps) \<Longrightarrow> \<exists>ps'. advances i ps ps'"
  "po_threads ps i = Some (HookPending sid q) \<Longrightarrow> \<exists>ps'. advances i ps ps'"
  "po_threads ps i = Some (PtrLook sid) \<Longrightarrow> \<exists>ps'. advances i ps ps'"
  "po_threads ps i = Some (PtrWriter sid t n) \<Longrightarrow> writer_free t ps \<Longrightarrow> \<exists>ps'. advances i ps ps'"
  "po_threads ps i = Some (PtrLine sid t n) \<Longrightarrow> \<exists>ps'. advances i ps ps'"
  "po_threads ps i = Some (PtrReturn sid t) \<Longrightarrow> \<exists>ps'. advances i ps ps'"
  "po_threads ps i = Some (InWriter t bytes) \<Longrightarrow> writer_free t ps \<Longrightarrow> \<exists>ps'. advances i ps ps'"
  "po_threads ps i = Some (InNote t sid bytes) \<Longrightarrow> \<exists>ps'. advances i ps ps'"
  "po_threads ps i = Some (InSend t bytes) \<Longrightarrow> \<exists>ps'. advances i ps ps'"
proof -
  show "\<exists>ps'. advances i ps ps'" if a: "po_threads ps i = Some (HookWriter sid st w)" "\<And>t. w = Some t \<Longrightarrow> writer_free t ps"
  proof -
    obtain b q k' where r: "report_activity UNIX_EPOCH sid st (po_kernel ps) = ((b, q), k')" by (metis prod.exhaust)
    then show ?thesis
      by (intro advances_intro [OF a(1) ps_hooked [OF a, of UNIX_EPOCH], of "if b then HookPending sid q else Finished"]) (simp_all add: hooked_def move_defs)
  qed
  show "\<exists>ps'. advances i ps ps'" if a: "po_threads ps i = Some (HookPending sid q)"
    by (rule advances_intro [OF a ps_pending [OF a], of "case deliver_pending q sid (po_kernel ps) of
        Some d \<Rightarrow> AtAdmit d | None \<Rightarrow> if q then PtrLook sid else Finished"]) (simp_all add: pending_seen_def move_defs split: option.split)
  show "\<exists>ps'. advances i ps ps'" if a: "po_threads ps i = Some (PtrLook sid)"
    by (rule advances_intro [OF a ps_side [OF ps_pointer_look [OF a, of True None]], of Finished]) (simp_all add: pointer_looked_def move_defs)
  show "\<exists>ps'. advances i ps ps'" if a: "po_threads ps i = Some (PtrWriter sid t n)" "writer_free t ps"
  proof -
    obtain b k' where r: "pointer_commit UNIX_EPOCH False sid t (po_kernel ps) = (b, k')" by fastforce
    then show ?thesis
      by (intro advances_intro [OF a(1) ps_pointer_commit [OF a, of UNIX_EPOCH False], of "if b then PtrLine sid t n else Finished"])
        (simp_all add: pointer_committed_def move_defs)
  qed
  show "\<exists>ps'. advances i ps ps'" if a: "po_threads ps i = Some (PtrLine sid t n)"
    by (rule advances_intro [OF a ps_side [OF ps_pointer_line [OF a]], of "PtrReturn sid t"]) (simp_all add: move_defs)
  show "\<exists>ps'. advances i ps ps'" if a: "po_threads ps i = Some (PtrReturn sid t)"
    by (rule advances_intro [OF a ps_side [OF ps_pointer_return [OF a, of True]], of Finished]) (simp_all add: move_defs)
  show "\<exists>ps'. advances i ps ps'" if a: "po_threads ps i = Some (InWriter t bytes)" "writer_free t ps"
    by (rule advances_intro [OF a(1) ps_side [OF ps_look [OF a]], of "case po_terms ps t of None \<Rightarrow> InSend t bytes
        | Some rt \<Rightarrow> InNote t (rtm_session rt) bytes"]) (simp_all add: looked_up_def move_defs split: option.split)
  show "\<exists>ps'. advances i ps ps'" if a: "po_threads ps i = Some (InNote t sid bytes)"
    by (rule advances_intro [OF a ps_typed [OF a, of UNIX_EPOCH], of "InSend t bytes"]) (simp_all add: typed_def move_defs)
  show "\<exists>ps'. advances i ps ps'" if a: "po_threads ps i = Some (InSend t bytes)"
    by (rule advances_intro [OF a ps_side [OF ps_sent [OF a prefix_order.order_refl]], of Finished]) (simp_all add: move_defs)
qed

lemma advance_shell:
  "po_threads ps i = Some (ShGate c t g) \<Longrightarrow> gate_free g ps \<Longrightarrow> \<exists>ps'. advances i ps ps'"
  "po_threads ps i = Some (ShRecord c t g) \<Longrightarrow> \<exists>ps'. advances i ps ps'"
  "po_threads ps i = Some (ShWriter c t g) \<Longrightarrow> writer_free t ps \<Longrightarrow> \<exists>ps'. advances i ps ps'"
  "po_threads ps i = Some (ShLine c t g bytes) \<Longrightarrow> \<exists>ps'. advances i ps ps'"
proof -
  show "\<exists>ps'. advances i ps ps'" if a: "po_threads ps i = Some (ShGate c t g)" "gate_free g ps"
    by (rule advances_intro [OF a(1) ps_side [OF ps_shell_gate [OF a]], of "ShRecord c t g"]) (simp_all add: move_defs)
  show "\<exists>ps'. advances i ps ps'" if a: "po_threads ps i = Some (ShRecord c t g)"
    by (rule advances_intro [OF a ps_side [OF ps_shell_record [OF a, of UNIX_EPOCH]], of "ShWriter c t g"]) (simp_all add: move_defs)
  show "\<exists>ps'. advances i ps ps'" if a: "po_threads ps i = Some (ShWriter c t g)" "writer_free t ps"
    by (rule advances_intro [OF a(1) ps_side [OF ps_shell_commit [OF a, of False]], of "case shell_commit False (po_terms ps) c t (po_kernel ps) of
        Inl e \<Rightarrow> Finished | Inr bytes \<Rightarrow> ShLine c t g bytes"]) (simp_all add: shell_committed_def move_defs split: sum.split)
  show "\<exists>ps'. advances i ps ps'" if a: "po_threads ps i = Some (ShLine c t g bytes)"
    by (rule advances_intro [OF a ps_side [OF ps_shell_line [OF a prefix_order.order_refl]], of Finished]) (simp_all add: move_defs)
qed

lemma advance_free:
  assumes "po_threads ps i = Some st" "st \<noteq> Finished" "\<And>t. waits_writer st = Some t \<Longrightarrow> writer_free t ps"
    "\<And>g. waits_gate st = Some g \<Longrightarrow> gate_free g ps"
  shows "\<exists>ps'. advances i ps ps'"
  using assms by (cases st) (auto intro: advance_delivery advance_others advance_shell)

lemma someone_advances:
  assumes st: "po_threads ps i = Some st" "st \<noteq> Finished"
  shows "\<exists>j ps'. advances j ps ps'"
proof -
  have holder: "\<exists>j ps'. advances j ps ps'" if w: "\<not> writer_free t ps" for t
  proof -
    obtain j st' where j: "po_threads ps j = Some st'" "writer_of st' = Some t" using w by (auto simp: writer_free_def)
    then have "waits_writer st' = None" "waits_gate st' = None" "st' \<noteq> Finished" by (cases st'; simp)+
    then show ?thesis using advance_free [OF j(1)] by auto
  qed
  have unblocked: "\<exists>j ps'. advances j ps ps'" if "po_threads ps j = Some st'" "st' \<noteq> Finished" "waits_gate st' = None" for j st'
    using advance_free [OF that(1,2)] that(3) holder by (cases "\<forall>t. waits_writer st' = Some t \<longrightarrow> writer_free t ps") auto
  show ?thesis
  proof (cases "\<exists>g. waits_gate st = Some g \<and> \<not> gate_free g ps")
    case True
    then obtain g j st' where j: "po_threads ps j = Some st'" "gate_of st' = Some g" by (auto simp: gate_free_def)
    then have "waits_gate st' = None" "st' \<noteq> Finished" by (cases st'; simp)+
    then show ?thesis using unblocked [OF j(1)] by blast
  next
    case False
    then show ?thesis using advance_free [OF st] holder by (cases "\<forall>t. waits_writer st = Some t \<longrightarrow> writer_free t ps") auto
  qed
qed

definition work_left :: "post \<Rightarrow> nat" where
  "work_left ps = (\<Sum>i \<in> dom (po_threads ps). rank (the (po_threads ps i)))"

lemma advances_less:
  assumes a: "advances i ps ps'" and f: "finite (dom (po_threads ps))"
  shows "work_left ps' < work_left ps" "finite (dom (po_threads ps'))"
proof -
  obtain st st' where s: "po_threads ps i = Some st" "po_threads ps' = (po_threads ps)(i \<mapsto> st')" "rank st' < rank st"
    using a by (auto simp: advances_def)
  have d: "dom (po_threads ps') = dom (po_threads ps)" using s by auto
  show "finite (dom (po_threads ps'))" using f d by simp
  have i: "i \<in> dom (po_threads ps)" using s by auto
  show "work_left ps' < work_left ps" unfolding work_left_def d
    by (rule sum_strict_mono_ex1 [OF f]) (use s i in auto)
qed

text \<open>
  C15: No lock is taken in a cycle: whenever threads are at work, some thread can take its next step, and it
  then has fewer stages left; so from every state all threads can come to their end, whichever gates and
  writers they hold and wait for.
\<close>

theorem prompt_threads_finish:
  assumes "finite (dom (po_threads ps))"
  shows "\<exists>ps'. post_run ps ps' \<and> (\<forall>i st. po_threads ps' i = Some st \<longrightarrow> st = Finished)"
  using assms
proof (induction "work_left ps" arbitrary: ps rule: less_induct)
  case less
  show ?case
  proof (cases "\<exists>i st. po_threads ps i = Some st \<and> st \<noteq> Finished")
    case True
    then obtain j ps1 where a: "advances j ps ps1" using someone_advances by blast
    then obtain ps' where "post_run ps1 ps'" "\<forall>i st. po_threads ps' i = Some st \<longrightarrow> st = Finished"
      using less.hyps [OF advances_less(1) [OF a less.prems] advances_less(2) [OF a less.prems]] by blast
    then show ?thesis using a by (auto simp: advances_def intro: converse_rtranclp_into_rtranclp)
  next
    case False
    then show ?thesis by (intro exI [of _ ps]) auto
  qed
qed

section \<open>The rest of the daemon\<close>

text \<open>Changes of state, and the removal of a session, are among the steps taken elsewhere.\<close>

lemma set_session_state_elsewhere:
  assumes s: "in_sessions (po_inner ps) sid = Some s" and nx: "is_terminal nx \<or> nx = Starting \<or> t = s_terminal_id s"
    and r: "set_session_state ok now (po_inner ps) sid nx t = (inn', r)"
  shows "elsewhere ps ((po_kernel ps)\<lparr>k_inner := inn'\<rparr>) (po_terms ps)"
proof (cases rule: set_session_state_cases [of ok now "po_inner ps" sid nx t])
  case refused
  then show ?thesis using r by (simp add: elsewhere_def)
next
  case (moved s0 s' inn0)
  have "nx = Running \<or> is_terminal nx \<or> nx = Starting" by (cases nx) simp_all
  then show ?thesis using s r nx moved(2)
    by (auto simp: set_session_state_def Let_def elsewhere_def live_target_def acts_idle_def session_idle_def prompt_idle_def
        activity_starting_def split: if_splits)
qed

section \<open>Two executions\<close>

definition demo_agent :: "activity_state \<Rightarrow> session" where
  "demo_agent st = (new_session (SessionId 1) (WorkspaceId 1) SK_Agent Generic None None None None None None UNIX_EPOCH)
     \<lparr>s_state := Running, s_terminal_id := Some (TerminalId 1),
      s_activity := \<lparr>act_state = st, act_since = UNIX_EPOCH, act_evidence = Some Ev_Hook\<rparr>\<rparr>"

definition demo_post :: "activity_state \<Rightarrow> post" where
  "demo_post st = \<lparr>po_kernel = demo_kernel\<lparr>k_inner := idle_inner [demo_agent st]\<rparr>,
     po_terms = [TerminalId 1 \<mapsto> \<lparr>rtm_session = SessionId 1, rtm_modes = term_modes_default\<rparr>], po_envelopes = [],
     po_threads = Map.empty, po_gates = 0, po_log = []\<rparr>"

definition demo_delivery :: "prompt_delivery \<Rightarrow> delivery" where
  "demo_delivery wh = \<lparr>dv_session = SessionId 1,
     dv_pending = \<lparr>pp_text = ''go'', pp_submit = True, pp_terminal = TerminalId 1, pp_context = ContextId 7\<rparr>,
     dv_when = wh, dv_origin = FromRequest None, dv_pointer = False\<rparr>"

definition demo_sent :: "prompt_delivery \<Rightarrow> post \<Rightarrow> post" where
  "demo_sent wh ps = goto 0 (AtAdmit (demo_delivery wh)) (ps\<lparr>po_log := po_log ps @
     [Accepted (ContextId 7) (SessionId 1) (TerminalId 1) ''go'']\<rparr>)"

lemma demo_fields:
  "dv_session (demo_delivery wh) = SessionId 1" "dv_when (demo_delivery wh) = wh" "dv_origin (demo_delivery wh) = FromRequest None"
  "pp_text (dv_pending (demo_delivery wh)) = ''go''" "pp_submit (dv_pending (demo_delivery wh))"
  "dv_context (demo_delivery wh) = ContextId 7"
  by (simp_all add: demo_delivery_def)

lemma demo_send: "send (po_kernel (demo_post st)) (ContextId 7) None (SessionId 1) ''go'' True wh = Inr (demo_delivery wh)"
proof -
  have "clean_text ''go'' = Inr ''go''" by code_simp
  then show ?thesis
    by (simp add: send_def demo_post_def demo_kernel_def idle_inner_def demo_agent_def new_session_def require_def demo_delivery_def)
qed

lemmas demo_prompt_defs = demo_post_def demo_kernel_def idle_inner_def demo_agent_def new_session_def demo_delivery_def demo_sent_def
  goto_def leave_def wrote_def

definition demo_recorded :: "prompt_delivery \<Rightarrow> activity_state \<Rightarrow> post" where
  "demo_recorded wh st = (let d = demo_delivery wh in recorded None UNIX_EPOCH 0 d 0 (TerminalId 1)
     (chosen 0 d 0 (admitted 0 d (demo_sent wh (demo_post st)))))"

lemma demo_admitted: "wh \<noteq> DeliverUnknown \<Longrightarrow> wh \<noteq> DeliverIfIdle \<or> st = Act_Idle \<Longrightarrow>
  check_target (po_inner (demo_post st)) (demo_delivery wh) = Inr (TerminalId 1)"
  by (auto simp: check_target_iff demo_prompt_defs live_target_def session_idle_def prompt_idle_def is_new_def)

lemma demo_prompt_run:
  assumes "wh = DeliverIfIdle \<and> st = Act_Idle \<or> wh = DeliverQueue"
  shows "post_run (demo_post st) (demo_recorded wh st)"
    "po_threads (demo_recorded wh st) = [0 \<mapsto> after_record (demo_delivery wh) 0 (TerminalId 1)]"
    "po_inner (demo_recorded wh st) = (po_inner (demo_post st))\<lparr>in_prompt_gates := [SessionId 1 \<mapsto> 0]\<rparr>"
    "po_terms (demo_recorded wh st) = po_terms (demo_post st)"
    "po_log (demo_recorded wh st) = [Accepted (ContextId 7) (SessionId 1) (TerminalId 1) ''go'']"
proof -
  let ?d = "demo_delivery wh"
  let ?p1 = "demo_sent wh (demo_post st)"
  let ?p2 = "admitted 0 ?d ?p1"
  let ?p3 = "chosen 0 ?d 0 ?p2"
  have c: "check_target (po_inner (demo_post st)) ?d = Inr (TerminalId 1)" "dv_when ?d \<noteq> DeliverUnknown"
    by (rule demo_admitted) (use assms in \<open>auto simp: demo_delivery_def\<close>)
  have s0: "post_step (demo_post st) ?p1"
    using ps_send [where i = 0, OF _ _ demo_send [of st wh]] by (simp add: demo_sent_def demo_delivery_def demo_post_def fresh_context_def)
  have s1: "post_step ?p1 ?p2" by (rule ps_admit) (simp add: demo_prompt_defs)
  have k: "po_inner ?p1 = po_inner (demo_post st)" by (simp add: demo_sent_def goto_def)
  have g: "in_prompt_gates (po_inner (demo_post st)) = Map.empty" by (simp add: demo_prompt_defs)
  have p2: "po_threads ?p2 = [0 \<mapsto> AtGate ?d 0]" "po_inner ?p2 = (po_inner (demo_post st))\<lparr>in_prompt_gates := [SessionId 1 \<mapsto> 0]\<rparr>"
    "po_terms ?p2 = po_terms (demo_post st)" "po_log ?p2 = po_log ?p1"
    using c g by (simp_all add: admitted_def deliver_admit_def Let_def k check_def demo_sent_def goto_def demo_post_def demo_delivery_def)
  have s2: "post_step ?p2 ?p3" by (rule ps_choose) (simp_all add: p2 gate_free_def)
  have c2: "check_target (po_inner ?p2) ?d = Inr (TerminalId 1)"
  proof -
    have "check_target (po_inner ?p2) ?d = check_target (po_inner (demo_post st)) ?d"
      by (simp add: p2 check_target_def check_slot_def)
    then show ?thesis using c by simp
  qed
  have t: "po_terms ?p2 (TerminalId 1) \<noteq> None" by (simp only: p2) (simp add: demo_post_def)
  have o: "dv_origin ?d = FromRequest None" by (simp add: demo_delivery_def)
  have "deliver_choose (po_terms ?p2) ?d (po_kernel ?p2) = Inr (TerminalId 1)"
    using c2 t by (auto simp add: deliver_choose_def caller_present_def check_def require_def o)
  then have p3: "?p3 = goto 0 (AtRecord ?d 0 (TerminalId 1)) ?p2" by (simp add: chosen_def after_choose_def o)
  have s3: "post_step ?p3 (demo_recorded wh st)" unfolding demo_recorded_def Let_def
    by (rule ps_record) (simp add: p3 goto_def)
  show "post_run (demo_post st) (demo_recorded wh st)"
    using s0 s1 s2 s3 by (meson converse_rtranclp_into_rtranclp rtranclp.rtrancl_refl)
  show "po_threads (demo_recorded wh st) = [0 \<mapsto> after_record (demo_delivery wh) 0 (TerminalId 1)]"
    "po_inner (demo_recorded wh st) = (po_inner (demo_post st))\<lparr>in_prompt_gates := [SessionId 1 \<mapsto> 0]\<rparr>"
    "po_terms (demo_recorded wh st) = po_terms (demo_post st)"
    "po_log (demo_recorded wh st) = [Accepted (ContextId 7) (SessionId 1) (TerminalId 1) ''go'']"
    by (simp_all add: demo_recorded_def Let_def recorded_def p3 p2 goto_def) (simp add: demo_sent_def goto_def demo_post_def)
qed

text \<open>A prompt for an idle session, delivered.\<close>

definition demo_pasted :: post where
  "demo_pasted = (let d = demo_delivery DeliverIfIdle; t = TerminalId 1 in
     returned 0 d t (pasted 0 d 0 t term_modes_default True
       (committed UNIX_EPOCH UNIX_EPOCH 0 d 0 t (demo_recorded DeliverIfIdle Act_Idle))))"

lemma demo_pasted_run:
  "post_run (demo_post Act_Idle) demo_pasted"
  "po_log demo_pasted = [Accepted (ContextId 7) (SessionId 1) (TerminalId 1) ''go'', Took (SessionId 1) (Some (ContextId 7)),
     Wrote (TerminalId 1) (PasteChunk (ContextId 7) ''go''), Wrote (TerminalId 1) (ReturnChunk (ContextId 7)),
     Answered (ContextId 7) (Inr (delivery_result (ContextId 7) True True))]"
proof -
  let ?d = "demo_delivery DeliverIfIdle"
  let ?p4 = "demo_recorded DeliverIfIdle Act_Idle"
  let ?p5 = "committed UNIX_EPOCH UNIX_EPOCH 0 ?d 0 (TerminalId 1) ?p4"
  let ?p6 = "pasted 0 ?d 0 (TerminalId 1) term_modes_default True ?p5"
  have w: "DeliverIfIdle = DeliverIfIdle \<and> Act_Idle = Act_Idle \<or> DeliverIfIdle = DeliverQueue" by simp
  note r = demo_prompt_run [OF w]
  have c: "check_target (po_inner ?p4) ?d = Inr (TerminalId 1)"
  proof -
    have "check_target (po_inner ?p4) ?d = check_target (po_inner (demo_post Act_Idle)) ?d"
      by (simp add: r(3) check_target_def check_slot_def)
    then show ?thesis using demo_admitted [of DeliverIfIdle Act_Idle] by simp
  qed
  have i: "session_idle (po_inner ?p4) (SessionId 1)" by (simp add: r(3) demo_prompt_defs session_idle_def prompt_idle_def)
  obtain k' where k': "deliver_commit UNIX_EPOCH UNIX_EPOCH (po_terms ?p4) ?d (TerminalId 1) (po_kernel ?p4) = (Inr (Inr (term_modes_default, True)), k')"
  proof (cases rule: deliver_commit_cases [of UNIX_EPOCH UNIX_EPOCH "po_terms ?p4" ?d "TerminalId 1" "po_kernel ?p4"])
    case (refused e)
    then show ?thesis using c same_terminal_iff [of "po_inner ?p4" ?d "TerminalId 1"] by (auto simp: r(4) demo_post_def)
  next
    case queued
    then show ?thesis using i by (simp add: demo_delivery_def)
  next
    case (paste modes k')
    then have "modes = term_modes_default"
      by (auto simp: deliver_commit_def Let_def r(4) demo_post_def split: sum.splits if_splits)
    then show ?thesis using paste(1) that i by (simp add: demo_delivery_def)
  qed
  have p5: "po_threads ?p5 = [0 \<mapsto> AtPaste ?d 0 (TerminalId 1) term_modes_default True]"
    "po_log ?p5 = [Accepted (ContextId 7) (SessionId 1) (TerminalId 1) ''go'', Took (SessionId 1) (Some (ContextId 7))]"
  proof -
    have c5: "?p5 = goto 0 (AtPaste ?d 0 (TerminalId 1) term_modes_default True) (?p4\<lparr>po_kernel := k', po_log := po_log ?p4 @ took_marks ?p4 ?d\<rparr>)"
      by (simp add: committed_def k')
    show "po_threads ?p5 = [0 \<mapsto> AtPaste ?d 0 (TerminalId 1) term_modes_default True]" by (simp add: c5 goto_def r)
    show "po_log ?p5 = [Accepted (ContextId 7) (SessionId 1) (TerminalId 1) ''go'', Took (SessionId 1) (Some (ContextId 7))]"
      using i by (simp add: c5 goto_def r(5) took_marks_def) (simp add: demo_delivery_def)
  qed
  have b: "prompt_bytes ''go'' term_modes_default = ''go''" by (simp add: prompt_bytes_def paste_def term_modes_default_def)
  have p6: "po_threads ?p6 = [0 \<mapsto> AtReturn ?d 0 (TerminalId 1)]"
    "po_log ?p6 = po_log ?p5 @ [Wrote (TerminalId 1) (PasteChunk (ContextId 7) ''go'')]"
    by (simp_all add: pasted_def Let_def goto_def wrote_def p5 demo_fields b)
  have s4: "post_step ?p4 ?p5" by (rule ps_commit) (simp_all add: r after_record_def demo_delivery_def writer_free_def)
  have s5: "post_step ?p5 ?p6" by (rule ps_paste) (simp add: p5)
  have s6: "post_step ?p6 demo_pasted" unfolding demo_pasted_def Let_def by (rule ps_return) (simp add: p6)
  show "post_run (demo_post Act_Idle) demo_pasted" using r(1) s4 s5 s6 by (meson rtranclp.rtrancl_into_rtrancl)
  show "po_log demo_pasted = [Accepted (ContextId 7) (SessionId 1) (TerminalId 1) ''go'', Took (SessionId 1) (Some (ContextId 7)),
     Wrote (TerminalId 1) (PasteChunk (ContextId 7) ''go''), Wrote (TerminalId 1) (ReturnChunk (ContextId 7)),
     Answered (ContextId 7) (Inr (delivery_result (ContextId 7) True True))]"
    by (simp add: demo_pasted_def Let_def returned_def leave_def goto_def wrote_def p6 p5 answers_def demo_fields)
qed

text \<open>A prompt queued for a busy session, which its hook then reports idle.\<close>

definition demo_queued :: post where
  "demo_queued = parked 0 (demo_delivery DeliverQueue) 0 (TerminalId 1) (demo_recorded DeliverQueue Act_Working)"

definition demo_idle :: post where
  "demo_idle = hooked UNIX_EPOCH 1 (SessionId 1) Act_Idle (goto 1 (HookWriter (SessionId 1) Act_Idle (hook_writer demo_queued (SessionId 1))) demo_queued)"

lemma demo_idle_run:
  "post_run (demo_post Act_Working) demo_idle"
  "in_pending_prompts (po_inner demo_idle) (SessionId 1) = Some (dv_pending (demo_delivery DeliverQueue))"
  "session_idle (po_inner demo_idle) (SessionId 1)" "po_terms demo_idle (TerminalId 1) \<noteq> None"
proof -
  let ?d = "demo_delivery DeliverQueue"
  let ?p4 = "demo_recorded DeliverQueue Act_Working"
  let ?p6 = "goto 1 (HookWriter (SessionId 1) Act_Idle (hook_writer demo_queued (SessionId 1))) demo_queued"
  have w: "DeliverQueue = DeliverIfIdle \<and> Act_Working = Act_Idle \<or> DeliverQueue = DeliverQueue" by simp
  note r = demo_prompt_run [OF w]
  have c: "check_target (po_inner ?p4) ?d = Inr (TerminalId 1)"
  proof -
    have "check_target (po_inner ?p4) ?d = check_target (po_inner (demo_post Act_Working)) ?d"
      by (simp add: r(3) check_target_def check_slot_def)
    then show ?thesis using demo_admitted [of DeliverQueue Act_Working] by simp
  qed
  have busy: "\<not> session_idle (po_inner ?p4) (SessionId 1)" by (simp add: r(3) demo_prompt_defs session_idle_def prompt_idle_def)
  have park: "deliver_park ?d (TerminalId 1) (po_kernel ?p4) = (Inr (Some (queued_answer ?d)), enqueue ?d (po_kernel ?p4))"
  proof (cases rule: deliver_park_cases [of ?d "TerminalId 1" "po_kernel ?p4"])
    case (refused e)
    then show ?thesis using c same_terminal_iff [of "po_inner ?p4" ?d "TerminalId 1"] by auto
  next
    case on
    then show ?thesis using busy by (simp add: demo_delivery_def)
  qed
  have p5: "po_threads demo_queued = [0 \<mapsto> Finished]" "po_kernel demo_queued = enqueue ?d (po_kernel ?p4)"
    "po_terms demo_queued = po_terms (demo_post Act_Working)"
  proof -
    have "demo_queued = leave 0 ?d (Inr (queued_answer ?d)) (?p4\<lparr>po_kernel := enqueue ?d (po_kernel ?p4), po_log := po_log ?p4 @ [enqueued_mark ?d]\<rparr>)"
      by (simp add: demo_queued_def parked_def park)
    note q = this
    have f: "after_deliver ?d = Finished" by (simp add: demo_delivery_def after_deliver_def)
    show "po_threads demo_queued = [0 \<mapsto> Finished]" "po_kernel demo_queued = enqueue ?d (po_kernel ?p4)"
      "po_terms demo_queued = po_terms (demo_post Act_Working)"
      by (simp_all add: q leave_def goto_def r f)
  qed
  have q: "in_sessions (po_inner demo_queued) (SessionId 1) = Some (demo_agent Act_Working)"
    "in_pending_prompts (po_inner demo_queued) (SessionId 1) = Some (dv_pending ?d)"
    by (simp_all add: p5(2) enqueue_def r(3)) (simp_all add: demo_prompt_defs)
  obtain b q' k' where h: "report_activity UNIX_EPOCH (SessionId 1) Act_Idle (po_kernel demo_queued) = ((b, q'), k')" by (metis prod.exhaust)
  have k: "po_kernel demo_idle = k'" "po_terms demo_idle = po_terms (demo_post Act_Working)"
    by (simp_all add: demo_idle_def hooked_def goto_def h p5(3))
  have s4: "post_step ?p4 demo_queued" unfolding demo_queued_def by (rule ps_park) (simp add: r after_record_def demo_delivery_def)
  have s5: "post_step demo_queued ?p6" by (rule ps_side, rule ps_hook) (simp add: p5)
  have s6: "post_step ?p6 demo_idle" unfolding demo_idle_def
    by (rule ps_hooked [where w = "hook_writer demo_queued (SessionId 1)"]) (simp_all add: goto_def p5 writer_free_def)
  show "post_run (demo_post Act_Working) demo_idle" using r(1) s4 s5 s6 by (meson rtranclp.rtrancl_into_rtrancl)
  show "in_pending_prompts (po_inner demo_idle) (SessionId 1) = Some (dv_pending ?d)"
    using report_activity_inner(1) [OF h] by (simp add: k q)
  have "k' = snd (report_activity UNIX_EPOCH (SessionId 1) Act_Idle (po_kernel demo_queued))" by (simp add: h)
  then show "session_idle (po_inner demo_idle) (SessionId 1)"
    by (simp add: k report_activity_def q Let_def store_session_def broadcast_def session_idle_def prompt_idle_def apply_activity_def demo_agent_def)
  show "po_terms demo_idle (TerminalId 1) \<noteq> None" by (simp add: k demo_post_def)
qed

lemma demo_start: "post_start (demo_post st)"
  by (simp add: post_start_def demo_post_def idle_inner_def)

theorem prompt_pasted_once_witness:
  "distinct (List.map_filter paste_of (po_log demo_pasted))
    \<and> Wrote (TerminalId 1) (PasteChunk (ContextId 7) ''go'') \<in> set (po_log demo_pasted)"
  using prompt_pasted_once [OF demo_start demo_pasted_run(1)] by (simp add: demo_pasted_run(2))

theorem one_submission_per_idle_spell_witness:
  "Wrote (TerminalId 1) (ReturnChunk (ContextId 7)) \<in> set (po_log demo_pasted)
    \<and> (\<exists>sid. Took sid (Some (ContextId 7)) \<in> set (po_log demo_pasted))"
proof -
  have w: "Wrote (TerminalId 1) (ReturnChunk (ContextId 7)) \<in> set (po_log demo_pasted)" by (simp add: demo_pasted_run(2))
  then show ?thesis using one_submission_per_idle_spell [OF demo_start demo_pasted_run(1)] by blast
qed

theorem return_follows_its_prompt_witness:
  "\<exists>bytes. out (TerminalId 1) (po_log demo_pasted) = [PasteChunk (ContextId 7) ''go''] @ ReturnChunk (ContextId 7) # []
    \<and> last [PasteChunk (ContextId 7) ''go''] = PasteChunk (ContextId 7) bytes"
proof -
  have o: "out (TerminalId 1) (po_log demo_pasted) = [PasteChunk (ContextId 7) ''go''] @ ReturnChunk (ContextId 7) # []"
    by (simp add: demo_pasted_run(2))
  then show ?thesis using return_follows_its_prompt [OF demo_start demo_pasted_run(1) o] by blast
qed

theorem queued_prompt_is_not_forgotten_witness:
  "\<exists>i st. po_threads demo_idle i = Some st \<and> coming (SessionId 1) (dv_pending (demo_delivery DeliverQueue)) st"
proof (rule queued_prompt_is_not_forgotten [OF demo_start demo_idle_run(1-3)])
  show "po_terms demo_idle (pp_terminal (dv_pending (demo_delivery DeliverQueue))) \<noteq> None"
    using demo_idle_run(4) by (simp add: demo_delivery_def)
qed

theorem prompt_threads_finish_witness:
  "\<exists>ps'. post_run (demo_recorded DeliverIfIdle Act_Idle) ps' \<and> (\<forall>i st. po_threads ps' i = Some st \<longrightarrow> st = Finished)"
proof (rule prompt_threads_finish)
  have w: "DeliverIfIdle = DeliverIfIdle \<and> Act_Idle = Act_Idle \<or> DeliverIfIdle = DeliverQueue" by simp
  show "finite (dom (po_threads (demo_recorded DeliverIfIdle Act_Idle)))" by (simp add: demo_prompt_run(2) [OF w])
qed

end
