(* ===== verification/Spec2Isabelle.thy ===== *)
theory Spec2Isabelle
  imports Daemon_Idle Orch_Policy Orch_Graph Orch_Board Editor_Editing Term_Stream Protocol_Framing Client_Ipc
    Orch_Close Orch_Faults Orch_Receipts Daemon_Delete Prompt_Delivery
begin

text \<open>
  Forge is a terminal and agent workbench. A daemon (\<open>src/crates/daemon\<close>) keeps terminal, agent and editor
  sessions alive in one table behind one lock (the core), stores what must survive a restart in SQLite
  (\<open>src/crates/persistence\<close>) and orchestrates agents: runs with tasks, attempts at the tasks, and a board of
  notes. Clients (\<open>src/crates/client\<close>) connect over a socket with length-prefixed frames
  (\<open>src/crates/protocol\<close>), send requests, and keep passive replicas of the daemon's state and of the screens of
  its terminals from the events it broadcasts. The shared data are in \<open>src/crates/domain\<close>, the terminal engine in
  \<open>src/crates/terminal-core\<close>, and the text editor in \<open>src/crates/editor-core\<close>. In this development a record is a
  struct, a datatype an enum, and a definition a function of the code under its own name (with a suffix or prefix
  where the name is taken in HOL). A handler that gives up the lock is one definition for each section between
  taking and releasing it, and an inductive step relation runs the sections of all threads in every order.

  Shared theories.

  \<^item> \<open>Forge_Prelude\<close>: machine integers, strings as UTF-8 bytes, results (\<open>try_bind\<close>, \<open>require\<close>, \<open>check\<close>),
    slices and saturating arithmetic, with the lemmas and rule collections every component uses.
  \<^item> \<open>Domain_Ids\<close> (\<open>domain/src/ids.rs\<close>), \<open>Domain_Session\<close> (\<open>domain/src/session.rs\<close>): identifiers, instants,
    sessions, titles, the life cycle and the activity of a session.
  \<^item> \<open>Protocol_Event\<close> (\<open>protocol/src/event.rs\<close>, \<open>lib.rs\<close>): the daemon's messages.

  The session table.

  \<^item> \<open>Daemon_Sessions\<close> (\<open>daemon/src/core.rs\<close>: \<open>set_session_state\<close>, \<open>graph_placement\<close>, the insertion of
    \<open>create_session_with_options\<close>; \<open>persistence/src/repositories/sessions.rs\<close>): the guarded life cycle over every
    history of requests, and exactly which parents are accepted in the session forest.
  \<^item> \<open>Daemon_Idle\<close> (\<open>daemon/src/idle.rs\<close>, \<open>sweep_idle_sessions\<close>): when a session is warned about or closed.
  \<^item> \<open>Daemon_Delete\<close> (\<open>core.rs\<close>: \<open>close_session\<close>, \<open>kill_and_close_session\<close>, \<open>delete_session_locked\<close>,
    \<open>rewrite_subtree_root\<close>): children handed to the grandparent, the loop over the subtree shown to return on
    every table, the forest kept, the events enough for a client to follow, and what a failed row leaves behind.

  Orchestration.

  \<^item> \<open>Orch_Types\<close>, \<open>Orch_Policy\<close> (\<open>domain/src/orchestration/mod.rs\<close>, \<open>policy.rs\<close>): runs, tasks, attempts, limits
    and every pure decision about them, with the reconciliation after a restart.
  \<^item> \<open>Orch_Graph\<close> (\<open>dependency_cycle\<close>): the depth-first walk decides cyclicity, for every order of the hash map.
  \<^item> \<open>Orch_Board\<close> (\<open>list_state\<close>, \<open>get_state\<close>, \<open>set_state\<close>): compare-and-set, the board's bounds, and the
    agreement of memory and table.
  \<^item> \<open>Orch_Rows\<close> (\<open>persistence/src/repositories/orchestration.rs\<close>): column values, rows, statements, and what reads
    back as it was written.
  \<^item> \<open>Orch_Ledger\<close> (\<open>daemon/src/orchestration/mod.rs\<close>): every critical section of the handlers of runs, tasks and
    attempts with the writes it makes: \<open>create_run\<close>, \<open>create_task\<close>, \<open>start_attempt\<close> (plan, commit and announcement),
    \<open>report_attempt\<close>, \<open>decide_task\<close>, \<open>resume_blocked\<close>, \<open>resume_run\<close>, \<open>forget_session\<close> and their companions.
  \<^item> \<open>Orch_Invariant\<close>, \<open>Orch_System\<close>: the invariant of the ledger, kept by each section, and the system of threads
    that interleave the sections: one live attempt per task, starts within the rails at the moment they commit,
    settled reports, one decision per revision, a forgotten session.
  \<^item> \<open>Orch_Integrate\<close> (\<open>integrate_task\<close>), \<open>Orch_Close\<close> (\<open>close_run\<close>), \<open>Orch_Receipts\<close> (\<open>handle\<close>: receipts and
    requests in flight): the three handlers of many sections as threads of their own. A close runs against any other
    handlers between its listing, each reading and each cancellation, and its last section. \<open>Orch_Close\<close> also shows
    that a task once final with nobody at work stays so.
  \<^item> \<open>Orch_Faults\<close>: what a failing statement or an early exit leaves behind.

  Prompts and terminals.

  \<^item> \<open>Daemon_Prompts\<close>, \<open>Prompt_Delivery\<close> (\<open>daemon/src/prompts.rs\<close>, \<open>orchestration/deliver.rs\<close>, \<open>report_activity\<close>,
    \<open>note_user_input\<close>, \<open>write_terminal_input\<close>, \<open>terminal-core/src/input.rs\<close>): text sent to a session by prompts, shell
    commands, the pointer line and the user, under a gate per session, a writer per terminal and the core lock: at
    most one paste of a prompt, its carriage return right behind it, one submission for each idle report, no prompt
    forgotten, no deadlock, and bytes that can neither press a key nor end the paste.
  \<^item> \<open>Term_Wire\<close>, \<open>Term_Delta\<close> (\<open>domain/src/terminal.rs\<close>, \<open>terminal-core/src/snapshot.rs\<close>): cells, rows, packed
    colours, snapshots and deltas over the contract of the engine.
  \<^item> \<open>Daemon_Registry\<close> (\<open>daemon/src/registry.rs\<close>): the clients with their bounded queues, subscriptions, and the marks
    of those that fell behind or are being attached.
  \<^item> \<open>Client_Grid\<close>, \<open>Client_Store\<close> (\<open>client/src/store.rs\<close>): the replica of a terminal and of the daemon's state.
  \<^item> \<open>Term_Stream\<close> (\<open>core.rs\<close>: \<open>attach_terminal\<close>, \<open>pump_terminal_batch\<close>, \<open>resize_terminal\<close>, \<open>recover_client\<close>;
    \<open>server.rs\<close>; the desktop bridge): one terminal with all its clients, and that a client in sync shows the screen.
  \<^item> \<open>Protocol_Framing\<close> (\<open>protocol/src/framing.rs\<close>, \<open>server.rs\<close>, \<open>ipc.rs\<close>): encoding, the two decoders and their
    loops, under a locale both readers interpret. \<open>Client_Ipc\<close> (\<open>client/src/ipc.rs\<close>): callers, reader, disconnect.

  The editor (\<open>editor-core/src\<close>).

  \<^item> \<open>Editor_Text\<close> (\<open>text.rs\<close>) with the incremental line index, \<open>Editor_Selection\<close> (\<open>selection.rs\<close>),
    \<open>Editor_Transaction\<close> (\<open>transaction.rs\<close>), \<open>Editor_History\<close> (\<open>history.rs\<close>), \<open>Editor_Document\<close> (\<open>document.rs\<close>) and
    \<open>Editor_Editing\<close>, in which every interleaving of a document's operations is run: transactions are applied
    completely or not at all, undo and redo are exact, the dirty flag tells the truth.

  Bounds and conventions. \<open>u16\<close>, \<open>u32\<close> and \<open>u64\<close> fields are words and saturate or wrap as the code has it;
  \<open>usize\<close> is \<open>nat\<close>; \<open>isize\<close> and \<open>i64\<close> are \<open>int\<close>. Two groups of \<open>u64\<close> counters are \<open>nat\<close>, because no run of the
  program can exhaust them: the version and content state of a document and the request ids of a client. The editor's
  lemmas bound what is inserted at once by \<open>2 ^ 62\<close> bytes (\<open>2 ^ 50\<close> for one string), more than memory holds. The
  clock, fresh identifiers, the order in which a hash map is walked, the outcome of each statement, what git, the
  operating system and spawned processes answer are arguments, so a theorem holds for all of them; where freshness
  matters (tasks, attempts, the contexts of prompts) it is a hypothesis or a premise of the step. The client's reading
  loop has fuel for the bytes that are pending and one more round, and every message takes at least one byte; the
  rewriting of a subtree is a \<open>partial_function\<close> whose \<open>None\<close> means that it does not return, and it is shown to be
  defined. Taking a lock and the section behind it are one step; a broadcast that follows a section directly is part of
  it. MessagePack is a serializer and a deserializer with the round trip as hypothesis; the row codec (text of ids,
  instants, file lists) likewise; the emulator is what its accessors return, assumed to report its damage.

  What the theorems do not cover. The stream of a terminal allows a client one attach of the terminal at a time, a
  detach only outside an attach, and no page of history that replaces its screen; the server runs the requests of a
  connection in parallel, so a client that does not wait for its answers is outside it. The receipts start empty and
  all clocks lie within the day that a receipt is kept. The thread theory of prompts constrains the rest of the daemon
  by \<open>elsewhere\<close>: it may end sessions and terminals and take prompts out of the table, but neither queue a prompt nor
  make a session idle. The work of \<open>cleanup\<close> on worktrees is outside the ledger. A close assumes that no new task takes
  the id of a task it listed.

  Not modelled: spawning and killing processes, sockets and tasks of the runtime, the emulator and the PTY, git and
  file services, worktrees, shares, pull requests, project actions, configuration, agents' descriptors and transcripts,
  language servers and indexes, the code review, the remaining tables of the database, search, movement and syntax of
  the editor, the front ends and the command line. They are effects on the outside, plain data, or code that reads the
  modelled state and acts on it through the modelled operations.
\<close>

end
